(* ===== verification/Prelude.thy ===== *)
theory Prelude
  imports Main "HOL-Library.Product_Lexorder" "HOL-Library.AList" "HOL-Library.Word"
    "HOL-Library.Multiset"
begin

text \<open>
  Shared vocabulary of the development: the types of identifiers and byte quantities, half-open
  byte ranges, closed life intervals, rounding up to an alignment, and the list lemmas that the
  theories of the components share.

  Byte sizes and offsets, which the program keeps in \<open>uint64_t\<close> or \<open>size_t\<close>, are natural numbers
  here: no sum of tensor sizes of one graph comes near \<open>2 ^ 64\<close>. Where the program narrows a value
  to 32 bits, hashes, masks or relies on wrap-around, the model uses \<open>word\<close> types.
\<close>

type_synonym op_id = nat
type_synonym bytes = nat
type_synonym u32 = "32 word"
type_synonym u64 = "64 word"

named_theorems range_simps "half-open ranges and life intervals"

section \<open>Half-open ranges and life intervals\<close>

definition range_disj :: "nat \<Rightarrow> nat \<Rightarrow> nat \<Rightarrow> nat \<Rightarrow> bool" where
  "range_disj s1 e1 s2 e2 \<longleftrightarrow> e1 \<le> s2 \<or> e2 \<le> s1"

definition life_meet :: "nat \<Rightarrow> nat \<Rightarrow> nat \<Rightarrow> nat \<Rightarrow> bool" where
  "life_meet b1 e1 b2 e2 \<longleftrightarrow> b1 \<le> e2 \<and> b2 \<le> e1"

lemma range_disj_sym: "range_disj s1 e1 s2 e2 \<longleftrightarrow> range_disj s2 e2 s1 e1"
  by (auto simp: range_disj_def)

lemma life_meet_sym: "life_meet b1 e1 b2 e2 \<longleftrightarrow> life_meet b2 e2 b1 e1"
  by (auto simp: life_meet_def)

lemma range_disj_mono:
  "range_disj s1 e1 s2 e2 \<Longrightarrow> s1 \<le> s1' \<Longrightarrow> e1' \<le> e1 \<Longrightarrow> s2 \<le> s2' \<Longrightarrow> e2' \<le> e2
    \<Longrightarrow> range_disj s1' e1' s2' e2'"
  by (auto simp: range_disj_def)

declare range_disj_def [range_simps] life_meet_def [range_simps]

section \<open>Alignment\<close>

definition round_up :: "nat \<Rightarrow> nat \<Rightarrow> nat" where
  "round_up a v = (if v mod a = 0 then v else v + (a - v mod a))"

lemma round_up_ge: "v \<le> round_up a v"
  by (simp add: round_up_def)

lemma round_up_dvd [simp]: "0 < a \<Longrightarrow> a dvd round_up a v"
proof -
  assume a: "0 < a"
  show ?thesis
  proof (cases "v mod a = 0")
    case True
    then show ?thesis by (simp add: round_up_def mod_eq_0_iff_dvd)
  next
    case False
    have "v mod a < a" using a by simp
    then have "round_up a v = (v - v mod a) + a"
      using False mod_less_eq_dividend [of v a] by (simp add: round_up_def)
    moreover have "a dvd (v - v mod a) + a"
      by (intro dvd_add dvd_minus_mod) simp
    ultimately show ?thesis by (simp only:)
  qed
qed

lemma round_up_id [simp]: "a dvd v \<Longrightarrow> round_up a v = v"
  by (simp add: round_up_def mod_eq_0_iff_dvd)

lemma round_up_less: "0 < a \<Longrightarrow> round_up a v < v + a"
  by (auto simp: round_up_def)

lemma round_up_pos: "0 < v \<Longrightarrow> 0 < round_up a v"
  using round_up_ge [of v a] by simp

lemma round_up_eq_ceil: "0 < a \<Longrightarrow> (v + a - 1) div a * a = round_up a v"
proof -
  assume a: "0 < a"
  have m: "v mod a < a" using a by simp
  have split: "v + a - 1 = v div a * a + (v mod a + a - 1)"
    using a by simp
  have "(v + a - 1) div a = v div a + (v mod a + a - 1) div a"
    unfolding split using a by (metis div_mult_self3 add.commute less_not_refl2)
  moreover have "(v mod a + a - 1) div a = (if v mod a = 0 then 0 else 1)"
    using a m by (auto intro!: div_nat_eqI)
  ultimately have d: "(v + a - 1) div a = (if v mod a = 0 then v div a else v div a + 1)"
    by simp
  have e: "v div a * a + v mod a = v" by simp
  show ?thesis
  proof (cases "v mod a = 0")
    case True
    with e show ?thesis unfolding d by (simp add: round_up_def)
  next
    case False
    with e m have "(v div a + 1) * a = v + (a - v mod a)" by (simp only: distrib_right)
    with False show ?thesis unfolding d by (simp add: round_up_def)
  qed
qed

lemma round_up_eq_sub: "0 < a \<Longrightarrow> (v + (a - 1)) - (v + (a - 1)) mod a = round_up a (v :: nat)"
  using round_up_eq_ceil [of a v] minus_mod_eq_div_mult [of "v + (a - 1)" a] by simp

section \<open>Masked words\<close>

unbundle bit_operations_syntax

lemma unat_and_mask:
  "unat ((w :: u32) AND mask k) = unat w mod 2 ^ k"
  by (simp only: take_bit_eq_mask [symmetric] unsigned_take_bit_eq) (simp add: take_bit_eq_mod)

lemma unat_step_mask:
  assumes "k \<le> 32"
  shows "unat (((a :: u32) + b) AND mask k) = (unat a + unat b) mod 2 ^ k"
proof -
  have d: "(2 :: nat) ^ k dvd 2 ^ 32" using assms by (intro le_imp_power_dvd)
  have "unat (a + b) mod 2 ^ k = (unat a + unat b) mod 2 ^ 32 mod 2 ^ k"
    by (simp add: unat_word_ariths)
  also have "\<dots> = (unat a + unat b) mod 2 ^ k" by (rule mod_mod_cancel [OF d])
  finally show ?thesis by (simp add: unat_and_mask)
qed

lemma unat_mask_u32:
  assumes "k \<le> 31"
  shows "Suc (unat (mask k :: u32)) = 2 ^ k"
proof -
  have "unat (mask k :: u32) = take_bit k (unat (- 1 :: u32))"
    by (simp only: unsigned_take_bit_eq [symmetric] take_bit_minus_one_eq_mask)
  also have "unat (- 1 :: u32) = mask 32"
    by (simp add: mask_eq_exp_minus_1 unsigned_minus_1_eq_mask)
  finally show ?thesis using assms
    by (simp only: take_bit_of_mask) (simp add: mask_eq_exp_minus_1 min_def)
qed

section \<open>Lists\<close>

lemma map_of_update_conv [simp]:
  "map_of (AList.update k v al) k' = (if k' = k then Some v else map_of al k')"
  by (simp add: update_conv')

lemma sorted_wrt_map_key:
  "sorted (map f xs) \<longleftrightarrow> sorted_wrt (\<lambda>x y. f x \<le> f y) xs"
  by (simp add: sorted_wrt_map)

lemma sum_list_map_filter_le:
  "sum_list (map f (filter P xs)) \<le> sum_list (map (f :: 'a \<Rightarrow> nat) xs)"
  by (induction xs) auto

lemma sum_list_map_dvd:
  "(\<And>x. x \<in> set xs \<Longrightarrow> (a::nat) dvd f x) \<Longrightarrow> a dvd sum_list (map f xs)"
  by (induction xs) auto

lemma sorted_wrt_sym_mset:
  assumes sym: "\<And>x y. R x y \<Longrightarrow> R y x" and "sorted_wrt R xs" and "mset ys = mset xs"
  shows "sorted_wrt R ys"
  using assms(2,3)
proof (induction xs arbitrary: ys)
  case Nil
  then show ?case by simp
next
  case (Cons x xs)
  from Cons.prems(2) have "x \<in> set ys" by (metis list.set_intros(1) mset_eq_setD)
  then obtain as bs where ys: "ys = as @ x # bs" by (meson split_list)
  with Cons.prems(2) have m: "mset (as @ bs) = mset xs" by simp
  then have s: "set (as @ bs) = set xs" by (rule mset_eq_setD)
  have "sorted_wrt R (as @ bs)" using Cons.IH Cons.prems(1) m by simp
  moreover have "\<forall>y \<in> set xs. R x y \<and> R y x" using Cons.prems(1) sym by auto
  ultimately show ?case using s unfolding ys by (auto simp: sorted_wrt_append)
qed

lemma in_set_updateD: "y \<in> set (xs[i := x]) \<Longrightarrow> y = x \<or> y \<in> set xs"
  using set_update_subset_insert [of xs i x] by auto

lemma map_update_entry:
  assumes "f e = f (xs ! i)"
  shows "map f (xs[i := e]) = map f xs"
proof (cases "i < length xs")
  case True
  then show ?thesis using assms by (simp add: map_update list_update_same_conv)
qed (simp add: list_update_beyond)

lemma in_set_alist_update: "x \<in> set (AList.update k v xs) \<Longrightarrow> x = (k, v) \<or> x \<in> set xs"
  by (induction xs) (auto split: if_splits)

text \<open>Appending an element unless it is there already, the idiom by which the code unites vectors.\<close>

definition push_new :: "'a \<Rightarrow> 'a list \<Rightarrow> 'a list" where
  "push_new x xs = (if x \<in> set xs then xs else xs @ [x])"

lemma set_push_new [simp]: "set (push_new x xs) = insert x (set xs)"
  by (auto simp: push_new_def)

lemma distinct_push_new [simp]: "distinct (push_new x xs) \<longleftrightarrow> distinct xs"
  by (auto simp: push_new_def)

lemma set_fold_push_new [simp]: "set (fold push_new ys xs) = set xs \<union> set ys"
  by (induction ys arbitrary: xs) auto

end
