(* ===== verification/LifetimeAlloc.thy ===== *)
theory LifetimeAlloc
  imports Prelude
begin

text \<open>
  The batch allocator \<open>FancyAllocator::allocate_with_lifetime\<close> of
  \<open>compiler/src/vtcm/fancy_allocator.cpp\<close> with its safety net \<open>validate_no_overlap\<close>: requests are
  sorted by the start of their life, equal lives form a group, each group is placed by first fit
  into the ranges of dead groups, else by bumping the high water mark, else spilled as a whole.

  The \<open>std::unordered_map\<close> of results is an association list; the program only looks entries up and
  runs a symmetric check over all pairs, so its iteration order is immaterial. \<open>std::abort\<close> is the
  result \<open>None\<close>.
\<close>

section \<open>Data\<close>

record alloc_request =
  ar_op_id :: op_id
  ar_size :: bytes
  ar_life_begin :: nat
  ar_life_end :: nat

record alloc_result =
  res_offset :: bytes
  res_block_id :: nat
  res_spilled :: bool

record taken_range =
  tr_start :: bytes
  tr_end :: bytes
  tr_op_index :: int
  tr_life_begin :: nat
  tr_life_end :: nat

record lt_group =
  g_life_begin :: nat
  g_life_end :: nat
  g_members :: "alloc_request list"
  g_total_size :: bytes

record live_block =
  lv_off :: bytes
  lv_size :: bytes
  lv_life_end :: nat

type_synonym alloc_map = "(op_id \<times> alloc_result) list"

record lt_state =
  ls_free :: "(bytes \<times> bytes) list"
  ls_active :: "live_block list"
  ls_high_water :: bytes
  ls_next_block_id :: nat
  ls_allocs :: alloc_map
  ls_taken :: "taken_range list"

record lifetime_state =
  lifetime_allocs :: alloc_map
  lifetime_used :: bytes
  lifetime_saved :: bytes
  taken_ranges :: "taken_range list"

section \<open>Operations\<close>

text \<open>The comparator orders by start of life, then by descending end of life, then by id.\<close>

definition sort_requests :: "alloc_request list \<Rightarrow> alloc_request list" where
  "sort_requests rs =
     sort_key (\<lambda>r. (ar_life_begin r, - int (ar_life_end r), ar_op_id r)) rs"

definition new_group :: "alloc_request \<Rightarrow> lt_group" where
  "new_group r = \<lparr>g_life_begin = ar_life_begin r, g_life_end = ar_life_end r,
     g_members = [r], g_total_size = ar_size r\<rparr>"

definition group_push :: "lt_group list \<Rightarrow> alloc_request \<Rightarrow> lt_group list" where
  "group_push gs r =
     (if ar_size r = 0 then gs
      else if gs \<noteq> [] \<and> g_life_begin (last gs) = ar_life_begin r
                      \<and> g_life_end (last gs) = ar_life_end r
      then butlast gs @ [(last gs)\<lparr>g_members := g_members (last gs) @ [r],
                                   g_total_size := g_total_size (last gs) + ar_size r\<rparr>]
      else gs @ [new_group r])"

definition group_requests :: "alloc_request list \<Rightarrow> lt_group list" where
  "group_requests rs = foldl group_push [] rs"

definition reclaim :: "nat \<Rightarrow> lt_state \<Rightarrow> lt_state" where
  "reclaim lb s =
     (let dead = filter (\<lambda>l. lv_life_end l < lb) (ls_active s)
      in s\<lparr>ls_free := ls_free s @ map (\<lambda>l. (lv_off l, lv_off l + lv_size l)) dead,
           ls_active := filter (\<lambda>l. \<not> lv_life_end l < lb) (ls_active s)\<rparr>)"

fun first_fit :: "bytes \<Rightarrow> (bytes \<times> bytes) list \<Rightarrow> (bytes \<times> (bytes \<times> bytes) list) option" where
  "first_fit need [] = None"
| "first_fit need ((s, e) # fl) =
     (if need \<le> e - s
      then Some (s, if e \<le> s + need then fl else (s + need, e) # fl)
      else map_option (\<lambda>(off, fl'). (off, (s, e) # fl')) (first_fit need fl))"

fun spill_members :: "alloc_request list \<Rightarrow> nat \<Rightarrow> alloc_map \<Rightarrow> nat \<times> alloc_map" where
  "spill_members [] nb m = (nb, m)"
| "spill_members (r # rs) nb m =
     spill_members rs (nb + 1)
       (AList.update (ar_op_id r) \<lparr>res_offset = 0, res_block_id = nb, res_spilled = True\<rparr> m)"

fun place_members ::
  "nat \<Rightarrow> alloc_request list \<Rightarrow> bytes \<Rightarrow> nat \<Rightarrow> alloc_map \<Rightarrow> nat \<times> alloc_map" where
  "place_members a [] cur nb m = (nb, m)"
| "place_members a (r # rs) cur nb m =
     place_members a rs (cur + round_up a (ar_size r)) (nb + 1)
       (AList.update (ar_op_id r) \<lparr>res_offset = cur, res_block_id = nb, res_spilled = False\<rparr> m)"

definition commit_group :: "nat \<Rightarrow> lt_group \<Rightarrow> bytes \<Rightarrow> bytes \<Rightarrow> lt_state \<Rightarrow> lt_state" where
  "commit_group a g off need s =
     (let (nb, m) = place_members a (g_members g) off (ls_next_block_id s) (ls_allocs s)
      in s\<lparr>ls_next_block_id := nb, ls_allocs := m,
           ls_taken := ls_taken s @ [\<lparr>tr_start = off, tr_end = off + need, tr_op_index = -1,
                          tr_life_begin = g_life_begin g, tr_life_end = g_life_end g\<rparr>],
           ls_active := ls_active s @
             [\<lparr>lv_off = off, lv_size = need, lv_life_end = g_life_end g\<rparr>]\<rparr>)"

definition process_group :: "nat \<Rightarrow> bytes \<Rightarrow> lt_group \<Rightarrow> lt_state \<Rightarrow> lt_state" where
  "process_group a budget g s0 =
     (let need = round_up a (g_total_size g);
          s = reclaim (g_life_begin g) s0
      in case first_fit need (ls_free s) of
           Some (off, fl) \<Rightarrow> commit_group a g off need (s\<lparr>ls_free := fl\<rparr>)
         | None \<Rightarrow>
             (let off = ls_high_water s in
              if budget < off + need
              then (let (nb, m) = spill_members (g_members g) (ls_next_block_id s) (ls_allocs s)
                    in s\<lparr>ls_next_block_id := nb, ls_allocs := m\<rparr>)
              else commit_group a g off need (s\<lparr>ls_high_water := off + need\<rparr>)))"

fun process_groups :: "nat \<Rightarrow> bytes \<Rightarrow> lt_group list \<Rightarrow> lt_state \<Rightarrow> lt_state" where
  "process_groups a budget [] s = s"
| "process_groups a budget (g # gs) s = process_groups a budget gs (process_group a budget g s)"

fun place_empty :: "alloc_request list \<Rightarrow> nat \<Rightarrow> alloc_map \<Rightarrow> nat \<times> alloc_map" where
  "place_empty [] nb m = (nb, m)"
| "place_empty (r # rs) nb m =
     (if ar_size r = 0
      then place_empty rs (nb + 1)
             (AList.update (ar_op_id r) \<lparr>res_offset = 0, res_block_id = nb, res_spilled = False\<rparr> m)
      else place_empty rs nb m)"

definition lt_init :: lt_state where
  "lt_init = \<lparr>ls_free = [], ls_active = [], ls_high_water = 0, ls_next_block_id = 0,
              ls_allocs = [], ls_taken = []\<rparr>"

text \<open>
  \<open>validate_no_overlap\<close>: the last request of an id wins in \<open>req_by_op\<close>; a pair of unspilled,
  non-empty allocations whose open lives overlap must have disjoint offset ranges.
\<close>

definition req_by_op :: "alloc_request list \<Rightarrow> op_id \<Rightarrow> alloc_request option" where
  "req_by_op rs i = map_of (map (\<lambda>r. (ar_op_id r, r)) (rev rs)) i"

definition placed_list :: "alloc_request list \<Rightarrow> alloc_map \<Rightarrow> (alloc_request \<times> bytes) list" where
  "placed_list rs m =
     List.map_filter (\<lambda>(i, res). if res_spilled res then None
        else case req_by_op rs i of None \<Rightarrow> None
             | Some r \<Rightarrow> if ar_size r = 0 then None else Some (r, res_offset res)) m"

definition placed_clash :: "(alloc_request \<times> bytes) \<Rightarrow> (alloc_request \<times> bytes) \<Rightarrow> bool" where
  "placed_clash p q =
     (let a = fst p; b = fst q; oa = snd p; ob = snd q in
      (ar_life_begin a < ar_life_end b \<and> ar_life_begin b < ar_life_end a) \<and>
      (oa < ob + ar_size b \<and> ob < oa + ar_size a))"

fun no_clash :: "(alloc_request \<times> bytes) list \<Rightarrow> bool" where
  "no_clash [] = True"
| "no_clash (p # ps) = (list_all (\<lambda>q. \<not> placed_clash p q) ps \<and> no_clash ps)"

definition validate_no_overlap :: "alloc_request list \<Rightarrow> alloc_map \<Rightarrow> bool" where
  "validate_no_overlap rs m = no_clash (placed_list rs m)"

definition allocate_with_lifetime ::
  "alloc_request list \<Rightarrow> bytes \<Rightarrow> nat \<Rightarrow> lifetime_state option" where
  "allocate_with_lifetime requests budget a =
     (if requests = []
      then Some \<lparr>lifetime_allocs = [], lifetime_used = 0, lifetime_saved = 0, taken_ranges = []\<rparr>
      else
        let sorted = sort_requests requests;
            total = sum_list (map ar_size sorted);
            s = process_groups a budget (group_requests sorted) lt_init;
            (nb, m) = place_empty sorted (ls_next_block_id s) (ls_allocs s);
            used = ls_high_water s
        in if validate_no_overlap sorted m
           then Some \<lparr>lifetime_allocs = m, lifetime_used = used,
                      lifetime_saved = (if used < total then total - used else 0),
                      taken_ranges = ls_taken s\<rparr>
           else None)"

definition get_allocation :: "lifetime_state \<Rightarrow> op_id \<Rightarrow> alloc_result option" where
  "get_allocation st i = map_of (lifetime_allocs st) i"

section \<open>Grouping\<close>

definition group_wf :: "lt_group \<Rightarrow> bool" where
  "group_wf g \<longleftrightarrow> g_members g \<noteq> [] \<and> g_total_size g = sum_list (map ar_size (g_members g)) \<and>
     (\<forall>r \<in> set (g_members g). ar_life_begin r = g_life_begin g \<and> ar_life_end r = g_life_end g
        \<and> 0 < ar_size r)"

lemma group_push_wf:
  "list_all group_wf gs \<Longrightarrow> list_all group_wf (group_push gs r)"
  by (cases gs rule: rev_cases) (auto simp: group_push_def group_wf_def new_group_def)

lemma group_push_members:
  "concat (map g_members (group_push gs r)) =
     concat (map g_members gs) @ (if ar_size r = 0 then [] else [r])"
  by (cases gs rule: rev_cases) (auto simp: group_push_def new_group_def)

lemma foldl_group_push:
  "list_all group_wf gs \<Longrightarrow> list_all group_wf (foldl group_push gs rs) \<and>
     concat (map g_members (foldl group_push gs rs)) =
       concat (map g_members gs) @ filter (\<lambda>r. ar_size r \<noteq> 0) rs"
  by (induction rs arbitrary: gs) (auto simp: group_push_wf group_push_members)

lemma group_requests_wf: "list_all group_wf (group_requests rs)"
  using foldl_group_push [of "[]" rs] by (simp add: group_requests_def)

lemma group_requests_members:
  "concat (map g_members (group_requests rs)) = filter (\<lambda>r. ar_size r \<noteq> 0) rs"
  using foldl_group_push [of "[]" rs] by (simp add: group_requests_def)

lemma groups_sorted_by_life:
  assumes "list_all group_wf gs"
    and "sorted_wrt (\<lambda>r q. ar_life_begin r \<le> ar_life_begin q) (concat (map g_members gs))"
  shows "sorted_wrt (\<lambda>g h. g_life_begin g \<le> g_life_begin h) gs"
  using assms
proof (induction gs)
  case Nil
  then show ?case by simp
next
  case (Cons g gs)
  have le: "g_life_begin g \<le> g_life_begin h" if "h \<in> set gs" for h
  proof -
    from Cons.prems(1) that have wf: "group_wf g" "group_wf h" by (auto simp: list_all_iff)
    then obtain r q where rq: "r \<in> set (g_members g)" "q \<in> set (g_members h)"
      by (metis group_wf_def list.set_sel(1))
    with wf have "ar_life_begin r = g_life_begin g" "ar_life_begin q = g_life_begin h"
      by (auto simp: group_wf_def)
    moreover from Cons.prems(2) rq that have "ar_life_begin r \<le> ar_life_begin q"
      by (auto simp: sorted_wrt_append)
    ultimately show ?thesis by simp
  qed
  from Cons show ?case by (auto simp: sorted_wrt_append le)
qed

lemma sort_requests_sorted:
  "sorted_wrt (\<lambda>r q. ar_life_begin r \<le> ar_life_begin q) (sort_requests rs)"
proof -
  have "sorted (map (\<lambda>r. (ar_life_begin r, - int (ar_life_end r), ar_op_id r)) (sort_requests rs))"
    by (simp add: sort_requests_def)
  then have "sorted_wrt (\<lambda>r q. (ar_life_begin r, - int (ar_life_end r), ar_op_id r)
      \<le> (ar_life_begin q, - int (ar_life_end q), ar_op_id q)) (sort_requests rs)"
    by (simp add: sorted_wrt_map)
  then show ?thesis
    by (rule sorted_wrt_mono_rel [rotated]) (auto simp: less_eq_prod_def)
qed

lemma set_sort_requests [simp]: "set (sort_requests rs) = set rs"
  by (simp add: sort_requests_def)

lemma mset_sort_requests [simp]: "mset (sort_requests rs) = mset rs"
  by (simp add: sort_requests_def)

lemma distinct_map_sort_requests [simp]:
  "distinct (map f (sort_requests rs)) = distinct (map f rs)"
  by (metis mset_sort_requests mset_map mset_eq_imp_distinct_iff)

lemma groups_of_sorted:
  "sorted_wrt (\<lambda>g h. g_life_begin g \<le> g_life_begin h) (group_requests (sort_requests rs))"
  by (rule groups_sorted_by_life)
    (auto simp: group_requests_wf group_requests_members sort_requests_sorted intro: sorted_wrt_filter)

section \<open>Members\<close>

lemma spill_members_other:
  "i \<notin> ar_op_id ` set rs \<Longrightarrow> map_of (snd (spill_members rs nb m)) i = map_of m i"
  by (induction rs arbitrary: nb m) auto

lemma spill_members_in:
  "i \<in> ar_op_id ` set rs \<Longrightarrow>
    \<exists>res. map_of (snd (spill_members rs nb m)) i = Some res \<and> res_spilled res"
proof (induction rs arbitrary: nb m)
  case Nil
  then show ?case by simp
next
  case (Cons r rs)
  then show ?case
    by (cases "i \<in> ar_op_id ` set rs") (auto simp: spill_members_other)
qed

lemma place_members_other:
  "i \<notin> ar_op_id ` set rs \<Longrightarrow> map_of (snd (place_members a rs cur nb m)) i = map_of m i"
  by (induction rs arbitrary: cur nb m) auto

lemma place_members_at:
  "distinct (map ar_op_id (xs @ r # ys)) \<Longrightarrow>
    map_of (snd (place_members a (xs @ r # ys) cur nb m)) (ar_op_id r) =
      Some \<lparr>res_offset = cur + sum_list (map (\<lambda>q. round_up a (ar_size q)) xs),
            res_block_id = nb + length xs, res_spilled = False\<rparr>"
  by (induction xs arbitrary: cur nb m) (auto simp: place_members_other)

lemma place_members_within:
  assumes "distinct (map ar_op_id rs)" "r \<in> set rs"
    and "sum_list (map (\<lambda>q. round_up a (ar_size q)) rs) \<le> need"
  shows "\<exists>res. map_of (snd (place_members a rs cur nb m)) (ar_op_id r) = Some res \<and>
    \<not> res_spilled res \<and> cur \<le> res_offset res \<and> res_offset res + ar_size r \<le> cur + need"
proof -
  from assms(2) obtain xs ys where rs: "rs = xs @ r # ys" by (meson split_list)
  from assms(3) have "sum_list (map (\<lambda>q. round_up a (ar_size q)) xs) + ar_size r \<le> need"
    using round_up_ge [of "ar_size r" a] unfolding rs by simp
  with assms(1) show ?thesis unfolding rs by (simp add: place_members_at)
qed

lemma place_members_disj_ordered:
  assumes "distinct (map ar_op_id (xs @ r # ys @ q # zs))"
    and "map_of (snd (place_members a (xs @ r # ys @ q # zs) cur nb m)) (ar_op_id r) = Some u"
    and "map_of (snd (place_members a (xs @ r # ys @ q # zs) cur nb m)) (ar_op_id q) = Some v"
  shows "res_offset u + ar_size r \<le> res_offset v"
proof -
  let ?S = "\<lambda>l. sum_list (map (\<lambda>q. round_up a (ar_size q)) l)"
  have "res_offset u = cur + ?S xs"
    using place_members_at [of xs r "ys @ q # zs" a cur nb m] assms(1,2) by simp
  moreover have "res_offset v = cur + ?S (xs @ r # ys)"
    using place_members_at [of "xs @ r # ys" q zs a cur nb m] assms(1,3) by simp
  ultimately show ?thesis using round_up_ge [of "ar_size r" a] by simp
qed

lemma place_members_disj:
  assumes "distinct (map ar_op_id rs)" "r \<in> set rs" "q \<in> set rs" "r \<noteq> q"
    and "map_of (snd (place_members a rs cur nb m)) (ar_op_id r) = Some u"
    and "map_of (snd (place_members a rs cur nb m)) (ar_op_id q) = Some v"
  shows "range_disj (res_offset u) (res_offset u + ar_size r) (res_offset v) (res_offset v + ar_size q)"
proof -
  from assms(2) obtain xs ys where rs: "rs = xs @ r # ys" by (meson split_list)
  with assms(3,4) consider "q \<in> set xs" | "q \<in> set ys" by auto
  then show ?thesis
  proof cases
    case 1
    then obtain as bs where "xs = as @ q # bs" by (meson split_list)
    with rs have "rs = as @ q # bs @ r # ys" by simp
    with assms place_members_disj_ordered [of as q bs r ys] show ?thesis
      by (auto simp: range_disj_def)
  next
    case 2
    then obtain as bs where "ys = as @ q # bs" by (meson split_list)
    with rs have "rs = xs @ r # as @ q # bs" by simp
    with assms place_members_disj_ordered [of xs r as q bs] show ?thesis
      by (auto simp: range_disj_def)
  qed
qed

section \<open>Regions\<close>

abbreviation rdisj :: "bytes \<times> bytes \<Rightarrow> bytes \<times> bytes \<Rightarrow> bool" where
  "rdisj p q \<equiv> range_disj (fst p) (snd p) (fst q) (snd q)"

definition live_range :: "live_block \<Rightarrow> bytes \<times> bytes" where
  "live_range l = (lv_off l, lv_off l + lv_size l)"

definition regions :: "lt_state \<Rightarrow> (bytes \<times> bytes) list" where
  "regions s = ls_free s @ map live_range (ls_active s)"

definition regions_ok :: "bytes \<Rightarrow> (bytes \<times> bytes) list \<Rightarrow> bool" where
  "regions_ok hw rs \<longleftrightarrow> sorted_wrt rdisj rs \<and> (\<forall>p \<in> set rs. fst p \<le> snd p \<and> snd p \<le> hw)"

lemma rdisj_perm: "mset ps = mset qs \<Longrightarrow> sorted_wrt rdisj qs \<Longrightarrow> sorted_wrt rdisj ps"
  by (rule sorted_wrt_sym_mset) (auto simp: range_disj_sym)

lemma regions_ok_perm: "mset ps = mset qs \<Longrightarrow> regions_ok hw ps = regions_ok hw qs"
  using rdisj_perm [of ps qs] rdisj_perm [of qs ps] mset_eq_setD [of ps qs]
  by (auto simp: regions_ok_def)

lemma mset_map_partition:
  "mset (map f (filter P xs)) + mset (map f (filter (\<lambda>x. \<not> P x) xs)) = mset (map f xs)"
  by (induction xs) auto

lemma regions_reclaim: "mset (regions (reclaim lb s)) = mset (regions s)"
proof -
  have "(\<lambda>l. (lv_off l, lv_off l + lv_size l)) = live_range" by (simp add: live_range_def fun_eq_iff)
  then show ?thesis
    using mset_map_partition [of live_range "\<lambda>l. lv_life_end l < lb" "ls_active s"]
    by (simp add: regions_def reclaim_def Let_def add.assoc)
qed

lemma first_fit_split:
  "first_fit need fl = Some (off, fl') \<Longrightarrow> \<exists>pre e post. fl = pre @ (off, e) # post \<and>
     need \<le> e - off \<and> fl' = pre @ (if e \<le> off + need then [] else [(off + need, e)]) @ post"
proof (induction need fl arbitrary: off fl' rule: first_fit.induct)
  case (1 need)
  then show ?case by simp
next
  case (2 need s e fl)
  show ?case
  proof (cases "need \<le> e - s")
    case True
    with "2.prems" have "(s, e) # fl = [] @ (off, e) # fl \<and> need \<le> e - off \<and>
        fl' = [] @ (if e \<le> off + need then [] else [(off + need, e)]) @ fl" by auto
    then show ?thesis by blast
  next
    case False
    with "2.prems" obtain fl2 where r: "first_fit need fl = Some (off, fl2)" "fl' = (s, e) # fl2"
      by auto
    from "2.IH" [OF False r(1)] obtain pre e' post where
      "fl = pre @ (off, e') # post" "need \<le> e' - off"
      "fl2 = pre @ (if e' \<le> off + need then [] else [(off + need, e')]) @ post" by blast
    with r(2) have "(s, e) # fl = ((s, e) # pre) @ (off, e') # post \<and> need \<le> e' - off \<and>
        fl' = ((s, e) # pre) @ (if e' \<le> off + need then [] else [(off + need, e')]) @ post" by simp
    then show ?thesis by blast
  qed
qed

lemma regions_ok_carve:
  assumes "regions_ok hw ((off, e) # rest)" "need \<le> e - off" 
  shows "regions_ok hw ((off, off + need) # (if e \<le> off + need then [] else [(off + need, e)]) @ rest)"
  using assms by (auto simp: regions_ok_def range_disj_def)

lemma regions_first_fit:
  assumes ok: "regions_ok hw (regions s)" and ff: "first_fit need (ls_free s) = Some (off, fl)"
  shows "regions_ok hw ((off, off + need) # fl @ map live_range (ls_active s))"
proof -
  from first_fit_split [OF ff] obtain pre e post where
    f: "ls_free s = pre @ (off, e) # post" "need \<le> e - off"
    "fl = pre @ (if e \<le> off + need then [] else [(off + need, e)]) @ post" by blast
  let ?act = "map live_range (ls_active s)"
  have "regions_ok hw ((off, e) # pre @ post @ ?act)"
    using ok regions_ok_perm [of "regions s" "(off, e) # pre @ post @ ?act"] f
    by (simp add: regions_def)
  from regions_ok_carve [OF this f(2)]
  have "regions_ok hw ((off, off + need) # (if e \<le> off + need then [] else [(off + need, e)])
      @ pre @ post @ ?act)" .
  then show ?thesis
    by (subst regions_ok_perm) (auto simp: f)
qed

lemma regions_bump:
  assumes "regions_ok hw ps"
  shows "regions_ok (hw + need) ((hw, hw + need) # ps)"
  using assms by (force simp: regions_ok_def range_disj_def)

section \<open>The placement invariant\<close>

definition allocs_disj :: "alloc_request list \<Rightarrow> alloc_map \<Rightarrow> bool" where
  "allocs_disj rs m \<longleftrightarrow> (\<forall>r \<in> set rs. \<forall>q \<in> set rs. \<forall>u v. r \<noteq> q \<longrightarrow>
     map_of m (ar_op_id r) = Some u \<longrightarrow> map_of m (ar_op_id q) = Some v \<longrightarrow>
     \<not> res_spilled u \<longrightarrow> \<not> res_spilled v \<longrightarrow>
     life_meet (ar_life_begin r) (ar_life_end r) (ar_life_begin q) (ar_life_end q) \<longrightarrow>
     range_disj (res_offset u) (res_offset u + ar_size r) (res_offset v) (res_offset v + ar_size q))"

definition taken_ok :: "nat \<Rightarrow> lt_state \<Rightarrow> bool" where
  "taken_ok lb s \<longleftrightarrow> (\<forall>t \<in> set (ls_taken s). tr_end t \<le> ls_high_water s \<and>
     (tr_life_end t < lb \<or> (\<exists>l \<in> set (ls_active s).
        live_range l = (tr_start t, tr_end t) \<and> lv_life_end l = tr_life_end t)))"

definition served :: "lt_state \<Rightarrow> alloc_request \<Rightarrow> bool" where
  "served s r \<longleftrightarrow> (\<exists>res. map_of (ls_allocs s) (ar_op_id r) = Some res \<and>
     (res_spilled res \<or> (\<exists>t \<in> set (ls_taken s). tr_life_end t = ar_life_end r \<and>
        tr_start t \<le> res_offset res \<and> res_offset res + ar_size r \<le> tr_end t)))"

definition lt_inv :: "bytes \<Rightarrow> nat \<Rightarrow> alloc_request list \<Rightarrow> lt_state \<Rightarrow> bool" where
  "lt_inv budget lb done s \<longleftrightarrow> regions_ok (ls_high_water s) (regions s) \<and>
     ls_high_water s \<le> budget \<and> taken_ok lb s \<and> (\<forall>r \<in> set done. served s r) \<and>
     allocs_disj done (ls_allocs s)"

lemma lt_inv_init: "lt_inv budget lb [] lt_init"
  by (simp add: lt_inv_def lt_init_def regions_def regions_ok_def taken_ok_def allocs_disj_def)

lemma reclaim_frame [simp]:
  "ls_high_water (reclaim lb s) = ls_high_water s" "ls_allocs (reclaim lb s) = ls_allocs s"
  "ls_taken (reclaim lb s) = ls_taken s" "ls_next_block_id (reclaim lb s) = ls_next_block_id s"
  by (simp_all add: reclaim_def Let_def)

lemma reclaim_inv:
  assumes "lt_inv budget lb done s" "lb \<le> lb'"
  shows "lt_inv budget lb' done (reclaim lb' s)"
proof -
  have "taken_ok lb' (reclaim lb' s)"
    using assms by (fastforce simp: lt_inv_def taken_ok_def reclaim_def Let_def)
  with assms(1) show ?thesis
    by (simp add: lt_inv_def served_def regions_ok_perm [OF regions_reclaim])
qed

lemma commit_group_frame [simp]:
  "ls_high_water (commit_group a g off need s) = ls_high_water s"
  "ls_free (commit_group a g off need s) = ls_free s"
  "ls_allocs (commit_group a g off need s) =
     snd (place_members a (g_members g) off (ls_next_block_id s) (ls_allocs s))"
  "ls_active (commit_group a g off need s) =
     ls_active s @ [\<lparr>lv_off = off, lv_size = need, lv_life_end = g_life_end g\<rparr>]"
  "ls_taken (commit_group a g off need s) =
     ls_taken s @ [\<lparr>tr_start = off, tr_end = off + need, tr_op_index = -1,
        tr_life_begin = g_life_begin g, tr_life_end = g_life_end g\<rparr>]"
  by (simp_all add: commit_group_def split: prod.splits)

lemma allocs_disj_extend:
  assumes old: "allocs_disj done m"
    and dist: "distinct (map ar_op_id (done @ rs))"
    and keep: "\<And>r. r \<in> set done \<Longrightarrow> map_of m' (ar_op_id r) = map_of m (ar_op_id r)"
    and new: "allocs_disj rs m'"
    and cross: "\<And>r q u v. \<lbrakk>r \<in> set done; q \<in> set rs; map_of m' (ar_op_id r) = Some u;
       map_of m' (ar_op_id q) = Some v; \<not> res_spilled u; \<not> res_spilled v;
       life_meet (ar_life_begin r) (ar_life_end r) (ar_life_begin q) (ar_life_end q)\<rbrakk> \<Longrightarrow>
       range_disj (res_offset u) (res_offset u + ar_size r) (res_offset v) (res_offset v + ar_size q)"
  shows "allocs_disj (done @ rs) m'"
  unfolding allocs_disj_def
proof (intro ballI allI impI)
  fix r q u v
  assume mem: "r \<in> set (done @ rs)" "q \<in> set (done @ rs)" and "r \<noteq> q"
    and look: "map_of m' (ar_op_id r) = Some u" "map_of m' (ar_op_id q) = Some v"
    and unsp: "\<not> res_spilled u" "\<not> res_spilled v"
    and lm: "life_meet (ar_life_begin r) (ar_life_end r) (ar_life_begin q) (ar_life_end q)"
  consider "r \<in> set done" "q \<in> set done" | "r \<in> set rs" "q \<in> set rs"
    | "r \<in> set done" "q \<in> set rs" | "r \<in> set rs" "q \<in> set done" using mem by auto
  then show "range_disj (res_offset u) (res_offset u + ar_size r)
      (res_offset v) (res_offset v + ar_size q)"
  proof cases
    case 1
    with old keep look unsp lm \<open>r \<noteq> q\<close> show ?thesis unfolding allocs_disj_def by metis
  next
    case 2
    with new look unsp lm \<open>r \<noteq> q\<close> show ?thesis unfolding allocs_disj_def by metis
  next
    case 3
    with cross look unsp lm show ?thesis by blast
  next
    case 4
    with cross [OF 4(2,1) look(2,1) unsp(2,1)] lm show ?thesis
      by (simp add: life_meet_sym range_disj_sym)
  qed
qed

lemma fresh_region_disj:
  assumes ok: "regions_ok hw ((off, off + need) # regions s)" and tk: "taken_ok lb s"
    and t: "t \<in> set (ls_taken s)" "lb \<le> tr_life_end t"
  shows "range_disj (tr_start t) (tr_end t) off (off + need)"
proof -
  from tk t obtain l where "l \<in> set (ls_active s)" "live_range l = (tr_start t, tr_end t)"
    by (auto simp: taken_ok_def)
  then have "(tr_start t, tr_end t) \<in> set (regions s)" by (force simp: regions_def)
  with ok show ?thesis by (auto simp: regions_ok_def range_disj_sym)
qed

lemma commit_group_inv:
  assumes inv: "lt_inv budget lb done s" and lb: "g_life_begin g = lb" and wf: "group_wf g"
    and ok: "regions_ok (ls_high_water s) ((off, off + need) # regions s)"
    and dist: "distinct (map ar_op_id (done @ g_members g))"
    and fit: "sum_list (map (\<lambda>q. round_up a (ar_size q)) (g_members g)) \<le> need"
  shows "lt_inv budget lb (done @ g_members g) (commit_group a g off need s)"
proof -
  let ?s = "commit_group a g off need s" and ?rs = "g_members g"
  let ?m = "snd (place_members a ?rs off (ls_next_block_id s) (ls_allocs s))"
  have dm: "distinct (map ar_op_id ?rs)" using dist by simp
  have keep: "map_of ?m (ar_op_id r) = map_of (ls_allocs s) (ar_op_id r)" if "r \<in> set done" for r
    using dist that by (intro place_members_other) auto
  have perm: "mset (regions ?s) = mset ((off, off + need) # regions s)"
    by (simp add: regions_def live_range_def)
  have "taken_ok lb ?s"
    using inv ok by (auto simp: lt_inv_def taken_ok_def live_range_def regions_ok_def)
  moreover have "served ?s r" if "r \<in> set done" for r
    using inv that keep [OF that] by (fastforce simp: lt_inv_def served_def)
  moreover have "served ?s r" if r: "r \<in> set ?rs" for r
    using place_members_within [OF dm r fit, of off "ls_next_block_id s" "ls_allocs s"] wf r
    by (fastforce simp: served_def group_wf_def)
  moreover have "allocs_disj (done @ ?rs) ?m"
  proof (rule allocs_disj_extend [OF _ dist keep])
    show "allocs_disj done (ls_allocs s)" using inv by (simp add: lt_inv_def)
    show "allocs_disj ?rs ?m" using place_members_disj [OF dm] by (simp add: allocs_disj_def)
    fix r q u v
    assume r: "r \<in> set done" and q: "q \<in> set ?rs" and u: "map_of ?m (ar_op_id r) = Some u"
      and v: "map_of ?m (ar_op_id q) = Some v" and unsp: "\<not> res_spilled u"
      and lm: "life_meet (ar_life_begin r) (ar_life_end r) (ar_life_begin q) (ar_life_end q)"
    from inv r u keep [OF r] unsp obtain t where t: "t \<in> set (ls_taken s)"
      "tr_life_end t = ar_life_end r" "tr_start t \<le> res_offset u"
      "res_offset u + ar_size r \<le> tr_end t" by (auto simp: lt_inv_def served_def)
    have "ar_life_begin q = lb" using wf q lb by (simp add: group_wf_def)
    with lm t(2) have "lb \<le> tr_life_end t" by (simp add: life_meet_def)
    then have d: "range_disj (tr_start t) (tr_end t) off (off + need)"
      using fresh_region_disj [OF ok _ t(1), of lb] inv by (simp add: lt_inv_def)
    from place_members_within [OF dm q fit, of off "ls_next_block_id s" "ls_allocs s"] v
    have "off \<le> res_offset v" "res_offset v + ar_size q \<le> off + need" by auto
    with d t(3,4) show "range_disj (res_offset u) (res_offset u + ar_size r)
        (res_offset v) (res_offset v + ar_size q)" by (rule_tac range_disj_mono)
  qed
  ultimately show ?thesis
    using inv ok regions_ok_perm [OF perm] unfolding lt_inv_def by auto
qed

lemma spill_group_inv:
  assumes inv: "lt_inv budget lb done s"
    and dist: "distinct (map ar_op_id (done @ rs))"
  shows "lt_inv budget lb (done @ rs)
    (s\<lparr>ls_next_block_id := nb, ls_allocs := snd (spill_members rs nb0 (ls_allocs s))\<rparr>)"
    (is "lt_inv _ _ _ ?s")
proof -
  let ?m = "snd (spill_members rs nb0 (ls_allocs s))"
  have keep: "map_of ?m (ar_op_id r) = map_of (ls_allocs s) (ar_op_id r)" if "r \<in> set done" for r
    using dist that by (intro spill_members_other) auto
  have sp: "\<exists>res. map_of ?m (ar_op_id r) = Some res \<and> res_spilled res" if "r \<in> set rs" for r
    using that by (intro spill_members_in) auto
  have "served ?s r" if "r \<in> set done" for r
    using inv that keep [OF that] by (auto simp: lt_inv_def served_def)
  moreover have "served ?s r" if "r \<in> set rs" for r
    using sp [OF that] by (auto simp: served_def)
  moreover have "allocs_disj (done @ rs) ?m"
    using inv sp by (intro allocs_disj_extend [OF _ dist keep])
      (fastforce simp: lt_inv_def allocs_disj_def)+
  ultimately show ?thesis using inv by (auto simp: lt_inv_def regions_def taken_ok_def)
qed

definition reqs_aligned :: "nat \<Rightarrow> alloc_request list \<Rightarrow> bool" where
  "reqs_aligned a rs \<longleftrightarrow> (\<forall>r \<in> set rs. a dvd ar_size r)"

lemma aligned_group_need:
  assumes "group_wf g" "reqs_aligned a (g_members g)"
  shows "sum_list (map (\<lambda>q. round_up a (ar_size q)) (g_members g)) = round_up a (g_total_size g)"
proof -
  have "map (\<lambda>q. round_up a (ar_size q)) (g_members g) = map ar_size (g_members g)"
    using assms(2) by (simp add: reqs_aligned_def)
  moreover have "a dvd g_total_size g"
    using assms by (auto simp: group_wf_def reqs_aligned_def intro: sum_list_map_dvd)
  ultimately show ?thesis using assms(1) by (simp only: group_wf_def round_up_id)
qed

lemma process_group_inv:
  assumes inv: "lt_inv budget lb done s0" and le: "lb \<le> g_life_begin g" and wf: "group_wf g"
    and dist: "distinct (map ar_op_id (done @ g_members g))"
    and al: "reqs_aligned a (g_members g)"
  shows "lt_inv budget (g_life_begin g) (done @ g_members g) (process_group a budget g s0)"
proof -
  define s need where "s = reclaim (g_life_begin g) s0" and "need = round_up a (g_total_size g)"
  note fit = aligned_group_need [OF wf al, folded need_def, THEN eq_imp_le]
  have i: "lt_inv budget (g_life_begin g) done s"
    unfolding s_def by (rule reclaim_inv [OF inv le])
  show ?thesis
  proof (cases "first_fit need (ls_free s)")
    case (Some p)
    then obtain off fl where ff: "first_fit need (ls_free s) = Some (off, fl)" by (cases p) auto
    have ok: "regions_ok (ls_high_water s) ((off, off + need) # fl @ map live_range (ls_active s))"
      using i by (intro regions_first_fit [OF _ ff]) (simp add: lt_inv_def)
    then have "lt_inv budget (g_life_begin g) done (s\<lparr>ls_free := fl\<rparr>)"
      using i by (auto simp: lt_inv_def regions_def regions_ok_def taken_ok_def served_def)
    then have "lt_inv budget (g_life_begin g) (done @ g_members g)
        (commit_group a g off need (s\<lparr>ls_free := fl\<rparr>))"
      by (rule commit_group_inv [OF _ refl wf _ dist fit]) (use ok in \<open>simp add: regions_def\<close>)
    then show ?thesis using ff by (simp add: process_group_def s_def need_def Let_def)
  next
    case None
    show ?thesis
    proof (cases "budget < ls_high_water s + need")
      case True
      obtain nb m where sm: "spill_members (g_members g) (ls_next_block_id s) (ls_allocs s) = (nb, m)"
        by (cases "spill_members (g_members g) (ls_next_block_id s) (ls_allocs s)") auto
      show ?thesis
        using spill_group_inv [OF i dist, where nb = nb and ?nb0.0 = "ls_next_block_id s"] None True sm
        by (simp add: process_group_def s_def [symmetric] need_def [symmetric] Let_def)
    next
      case False
      let ?s = "s\<lparr>ls_high_water := ls_high_water s + need\<rparr>"
      have ok: "regions_ok (ls_high_water ?s) ((ls_high_water s, ls_high_water s + need) # regions ?s)"
        using i regions_bump [of "ls_high_water s" "regions s" need]
        by (simp add: lt_inv_def regions_def)
      then have "lt_inv budget (g_life_begin g) done ?s"
        using i False by (fastforce simp: lt_inv_def regions_ok_def taken_ok_def served_def)
      then have "lt_inv budget (g_life_begin g) (done @ g_members g)
          (commit_group a g (ls_high_water s) need ?s)"
        by (rule commit_group_inv [OF _ refl wf ok dist fit])
      then show ?thesis using None False
        by (simp add: process_group_def s_def need_def Let_def)
    qed
  qed
qed

lemma process_groups_inv:
  assumes "lt_inv budget lb done s" "list_all group_wf gs"
    "sorted_wrt (\<lambda>g h. g_life_begin g \<le> g_life_begin h) gs"
    "\<forall>g \<in> set gs. lb \<le> g_life_begin g"
    "distinct (map ar_op_id (done @ concat (map g_members gs)))"
    "reqs_aligned a (concat (map g_members gs))"
  shows "\<exists>lb'. lt_inv budget lb' (done @ concat (map g_members gs)) (process_groups a budget gs s)"
  using assms
proof (induction gs arbitrary: lb "done" s)
  case Nil
  then show ?case by auto
next
  case (Cons g gs)
  have "lt_inv budget (g_life_begin g) (done @ g_members g) (process_group a budget g s)"
    by (rule process_group_inv) (use Cons.prems in \<open>auto simp: reqs_aligned_def\<close>)
  from Cons.IH [OF this] Cons.prems show ?case by (auto simp: reqs_aligned_def)
qed

section \<open>The safety net\<close>

lemma place_empty_other:
  "(\<And>r. r \<in> set rs \<Longrightarrow> ar_size r = 0 \<Longrightarrow> ar_op_id r \<noteq> i) \<Longrightarrow>
    map_of (snd (place_empty rs nb m)) i = map_of m i"
  by (induction rs arbitrary: nb m) auto

lemma place_empty_in:
  "i \<in> ar_op_id ` {r \<in> set rs. ar_size r = 0} \<Longrightarrow>
    \<exists>res. map_of (snd (place_empty rs nb m)) i = Some res \<and> \<not> res_spilled res \<and> res_offset res = 0"
proof (induction rs arbitrary: nb m)
  case Nil
  then show ?case by simp
next
  case (Cons r rs)
  show ?case
  proof (cases "i \<in> ar_op_id ` {r \<in> set rs. ar_size r = 0}")
    case True
    with Cons.IH show ?thesis by simp
  next
    case False
    with Cons.prems have "ar_size r = 0" "ar_op_id r = i" by auto
    moreover have "map_of (snd (place_empty rs nb' m')) i = map_of m' i" for nb' m'
      using False by (intro place_empty_other) auto
    ultimately show ?thesis by simp
  qed
qed

lemma spill_members_distinct:
  "distinct (map fst m) \<Longrightarrow> distinct (map fst (snd (spill_members rs nb m)))"
  by (induction rs arbitrary: nb m) (auto simp: distinct_update)

lemma place_members_distinct:
  "distinct (map fst m) \<Longrightarrow> distinct (map fst (snd (place_members a rs cur nb m)))"
  by (induction rs arbitrary: cur nb m) (auto simp: distinct_update)

lemma place_empty_distinct:
  "distinct (map fst m) \<Longrightarrow> distinct (map fst (snd (place_empty rs nb m)))"
  by (induction rs arbitrary: nb m) (auto simp: distinct_update)

lemma process_group_distinct:
  "distinct (map fst (ls_allocs s)) \<Longrightarrow> distinct (map fst (ls_allocs (process_group a budget g s)))"
  using spill_members_distinct [of "ls_allocs s" "g_members g" "ls_next_block_id s"]
  by (auto simp: process_group_def Let_def place_members_distinct split: option.splits prod.splits)

lemma process_groups_distinct:
  "distinct (map fst (ls_allocs s)) \<Longrightarrow> distinct (map fst (ls_allocs (process_groups a budget gs s)))"
  by (induction gs arbitrary: s) (auto simp: process_group_distinct)

lemma req_by_op_Some: "req_by_op rs i = Some r \<Longrightarrow> r \<in> set rs \<and> ar_op_id r = i"
  by (auto simp: req_by_op_def dest: map_of_SomeD)

lemma placed_list_Cons:
  "placed_list rs ((i, res) # m) =
     (if res_spilled res then placed_list rs m
      else case req_by_op rs i of None \<Rightarrow> placed_list rs m
           | Some r \<Rightarrow> if ar_size r = 0 then placed_list rs m
                       else (r, res_offset res) # placed_list rs m)"
  by (auto simp: placed_list_def List.map_filter_simps split: option.splits)

lemma placed_list_mem:
  "(q, off) \<in> set (placed_list rs m) \<Longrightarrow> \<exists>res. (ar_op_id q, res) \<in> set m \<and> q \<in> set rs \<and>
     \<not> res_spilled res \<and> res_offset res = off"
  by (induction m)
    (auto simp: placed_list_Cons placed_list_def List.map_filter_simps dest!: req_by_op_Some
       split: if_splits option.splits)

lemma validate_accepts_aux:
  assumes "distinct (map fst m)"
    and "\<And>r q u v. \<lbrakk>r \<in> set rs; q \<in> set rs; r \<noteq> q; (ar_op_id r, u) \<in> set m; (ar_op_id q, v) \<in> set m;
       \<not> res_spilled u; \<not> res_spilled v\<rbrakk> \<Longrightarrow> \<not> placed_clash (r, res_offset u) (q, res_offset v)"
  shows "no_clash (placed_list rs m)"
  using assms
proof (induction m)
  case Nil
  then show ?case by (simp add: placed_list_def List.map_filter_simps)
next
  case (Cons e m)
  obtain i res where e: "e = (i, res)" by (cases e)
  have IH: "no_clash (placed_list rs m)"
    using Cons.prems by (intro Cons.IH) auto
  have "\<not> placed_clash (r, res_offset res) p"
    if r: "req_by_op rs i = Some r" and p: "p \<in> set (placed_list rs m)" and un: "\<not> res_spilled res" for r p
  proof -
    obtain q off where pq: "p = (q, off)" by (cases p)
    from placed_list_mem [of q off rs m] p pq obtain v where
      v: "(ar_op_id q, v) \<in> set m" "q \<in> set rs" "\<not> res_spilled v" "res_offset v = off" by auto
    from req_by_op_Some [OF r] have r': "r \<in> set rs" "ar_op_id r = i" by auto
    from Cons.prems(1) v(1) e have "ar_op_id q \<noteq> i" by (auto simp: image_iff)
    with r' have "r \<noteq> q" by auto
    with Cons.prems(2) [of r q res v] v r' un e pq show ?thesis by auto
  qed
  with IH show ?case unfolding e placed_list_Cons
    by (auto simp: list_all_iff split: option.splits)
qed

lemma validate_accepts:
  assumes "distinct (map fst m)" and "allocs_disj rs m"
  shows "validate_no_overlap rs m"
  unfolding validate_no_overlap_def
proof (rule validate_accepts_aux [OF assms(1)])
  fix r q u v
  assume "r \<in> set rs" "q \<in> set rs" "r \<noteq> q" and "(ar_op_id r, u) \<in> set m" "(ar_op_id q, v) \<in> set m"
    and "\<not> res_spilled u" "\<not> res_spilled v"
  then have "life_meet (ar_life_begin r) (ar_life_end r) (ar_life_begin q) (ar_life_end q) \<longrightarrow>
     range_disj (res_offset u) (res_offset u + ar_size r) (res_offset v) (res_offset v + ar_size q)"
    using assms by (simp add: allocs_disj_def)
  then show "\<not> placed_clash (r, res_offset u) (q, res_offset v)"
    by (auto simp: placed_clash_def Let_def life_meet_def range_disj_def)
qed

section \<open>Contract of the allocator\<close>

definition alloc_spec :: "alloc_request list \<Rightarrow> bytes \<Rightarrow> alloc_map \<Rightarrow> bool" where
  "alloc_spec rs cap m \<longleftrightarrow> allocs_disj rs m \<and>
     (\<forall>r \<in> set rs. \<exists>res. map_of m (ar_op_id r) = Some res \<and>
        (res_spilled res \<or> res_offset res + ar_size r \<le> cap))"

lemma served_bound:
  "lt_inv budget lb done s \<Longrightarrow> r \<in> set done \<Longrightarrow>
    \<exists>res. map_of (ls_allocs s) (ar_op_id r) = Some res \<and>
      (res_spilled res \<or> res_offset res + ar_size r \<le> ls_high_water s)"
  by (fastforce simp: lt_inv_def served_def taken_ok_def)

lemma groups_placed:
  assumes "distinct (map ar_op_id rs)" "reqs_aligned a rs"
  shows "\<exists>lb. lt_inv budget lb (filter (\<lambda>r. ar_size r \<noteq> 0) (sort_requests rs))
    (process_groups a budget (group_requests (sort_requests rs)) lt_init)"
proof -
  let ?gs = "group_requests (sort_requests rs)" and ?f = "filter (\<lambda>r. ar_size r \<noteq> 0) (sort_requests rs)"
  have c: "concat (map g_members ?gs) = ?f" by (simp add: group_requests_members)
  have "distinct (map ar_op_id ([] @ concat (map g_members ?gs)))"
    unfolding c using assms(1) by (auto simp: intro!: distinct_map_filter)
  moreover have "reqs_aligned a (concat (map g_members ?gs))"
    unfolding c using assms(2) by (auto simp: reqs_aligned_def)
  ultimately show ?thesis
    using process_groups_inv [OF lt_inv_init [of budget 0] group_requests_wf groups_of_sorted, of rs a]
    by (simp add: c)
qed

lemma place_empty_spec:
  assumes dist: "distinct (map ar_op_id rs)" and hw: "hw \<le> cap"
    and disj: "allocs_disj (filter (\<lambda>r. ar_size r \<noteq> 0) rs) m"
    and bound: "\<And>r. r \<in> set rs \<Longrightarrow> ar_size r \<noteq> 0 \<Longrightarrow> \<exists>res. map_of m (ar_op_id r) = Some res \<and>
      (res_spilled res \<or> res_offset res + ar_size r \<le> hw)"
  shows "alloc_spec rs cap (snd (place_empty rs nb m))"
proof -
  let ?m = "snd (place_empty rs nb m)"
  have keep: "map_of ?m (ar_op_id r) = map_of m (ar_op_id r)" if "r \<in> set rs" "ar_size r \<noteq> 0" for r
  proof (rule place_empty_other)
    fix p
    assume "p \<in> set rs" "ar_size p = 0"
    with that have "p \<noteq> r" by auto
    moreover have "inj_on ar_op_id (set rs)" using dist by (simp add: distinct_map)
    ultimately show "ar_op_id p \<noteq> ar_op_id r" using \<open>p \<in> set rs\<close> that(1) by (simp add: inj_on_eq_iff)
  qed
  have zero: "\<exists>res. map_of ?m (ar_op_id r) = Some res \<and> res_offset res = 0"
    if "r \<in> set rs" "ar_size r = 0" for r
    using place_empty_in [of "ar_op_id r" rs nb m] that by auto
  have "allocs_disj rs ?m"
    unfolding allocs_disj_def
  proof (intro ballI allI impI)
    fix r q u v
    assume *: "r \<in> set rs" "q \<in> set rs" "r \<noteq> q" and u: "map_of ?m (ar_op_id r) = Some u"
      and v: "map_of ?m (ar_op_id q) = Some v" and **: "\<not> res_spilled u" "\<not> res_spilled v"
      "life_meet (ar_life_begin r) (ar_life_end r) (ar_life_begin q) (ar_life_end q)"
    show "range_disj (res_offset u) (res_offset u + ar_size r) (res_offset v) (res_offset v + ar_size q)"
    proof -
      consider "ar_size r = 0" | "ar_size q = 0" | "ar_size r \<noteq> 0" "ar_size q \<noteq> 0" by blast
      then show ?thesis
      proof cases
        case 1
        with zero [OF *(1)] u show ?thesis by (simp add: range_disj_def)
      next
        case 2
        with zero [OF *(2)] v show ?thesis by (simp add: range_disj_def)
      next
        case 3
        with * keep [OF *(1)] keep [OF *(2)] u v
        have "r \<in> set (filter (\<lambda>r. ar_size r \<noteq> 0) rs)" "q \<in> set (filter (\<lambda>r. ar_size r \<noteq> 0) rs)"
          "map_of m (ar_op_id r) = Some u" "map_of m (ar_op_id q) = Some v" by simp_all
        with disj *(3) ** show ?thesis unfolding allocs_disj_def by blast
      qed
    qed
  qed
  moreover have "\<exists>res. map_of ?m (ar_op_id r) = Some res \<and>
      (res_spilled res \<or> res_offset res + ar_size r \<le> cap)" if "r \<in> set rs" for r
  proof (cases "ar_size r = 0")
    case True
    with zero [OF that] show ?thesis by auto
  next
    case False
    from bound [OF that False] obtain res where "map_of m (ar_op_id r) = Some res"
      "res_spilled res \<or> res_offset res + ar_size r \<le> hw" by blast
    with keep [OF that False] hw show ?thesis by (intro exI [of _ res]) auto
  qed
  ultimately show ?thesis by (simp add: alloc_spec_def)
qed

lemma allocs_disj_cong: "set rs = set qs \<Longrightarrow> allocs_disj rs m = allocs_disj qs m"
  by (simp add: allocs_disj_def)

lemma alloc_spec_cong: "set rs = set qs \<Longrightarrow> alloc_spec rs cap m = alloc_spec qs cap m"
  using allocs_disj_cong [of rs qs] by (simp add: alloc_spec_def)

lemma allocate_with_lifetime_run:
  assumes "distinct (map ar_op_id rs)" "reqs_aligned a rs"
  shows "\<exists>st. allocate_with_lifetime rs budget a = Some st \<and> lifetime_used st \<le> budget \<and>
    alloc_spec rs (lifetime_used st) (lifetime_allocs st)"
proof (cases "rs = []")
  case True
  then show ?thesis by (simp add: allocate_with_lifetime_def alloc_spec_def allocs_disj_def)
next
  case False
  define s where "s = process_groups a budget (group_requests (sort_requests rs)) lt_init"
  obtain nb m where pe: "place_empty (sort_requests rs) (ls_next_block_id s) (ls_allocs s) = (nb, m)"
    by fastforce
  from groups_placed [OF assms] obtain lb where
    inv: "lt_inv budget lb (filter (\<lambda>r. ar_size r \<noteq> 0) (sort_requests rs)) s" by (auto simp: s_def)
  have "alloc_spec (sort_requests rs) (ls_high_water s)
      (snd (place_empty (sort_requests rs) (ls_next_block_id s) (ls_allocs s)))"
  proof (rule place_empty_spec [OF _ le_refl])
    show "allocs_disj (filter (\<lambda>r. ar_size r \<noteq> 0) (sort_requests rs)) (ls_allocs s)"
      using inv by (simp add: lt_inv_def)
  qed (use assms(1) served_bound [OF inv] in auto)
  then have spec: "alloc_spec (sort_requests rs) (ls_high_water s) m" by (simp add: pe)
  have "distinct (map fst (ls_allocs s))"
    unfolding s_def by (rule process_groups_distinct) (simp add: lt_init_def)
  from place_empty_distinct [OF this, of "sort_requests rs" "ls_next_block_id s"]
  have "distinct (map fst m)" by (simp add: pe)
  with spec have "validate_no_overlap (sort_requests rs) m"
    by (auto simp: alloc_spec_def intro: validate_accepts)
  with False pe spec inv show ?thesis
    by (simp add: allocate_with_lifetime_def s_def [symmetric] Let_def lt_inv_def
        alloc_spec_cong [of rs "sort_requests rs"])
qed

section \<open>No spill when everything fits\<close>

definition none_spilled :: "alloc_map \<Rightarrow> bool" where
  "none_spilled m \<longleftrightarrow> (\<forall>i res. map_of m i = Some res \<longrightarrow> \<not> res_spilled res)"

lemma none_spilled_update:
  "none_spilled m \<Longrightarrow> \<not> res_spilled res \<Longrightarrow> none_spilled (AList.update i res m)"
  by (simp add: none_spilled_def)

lemma none_spilled_place_members:
  "none_spilled m \<Longrightarrow> none_spilled (snd (place_members a rs cur nb m))"
  by (induction rs arbitrary: cur nb m) (auto simp: none_spilled_update)

lemma none_spilled_place_empty:
  "none_spilled m \<Longrightarrow> none_spilled (snd (place_empty rs nb m))"
  by (induction rs arbitrary: nb m) (auto simp: none_spilled_update)

lemma process_group_fits:
  assumes "none_spilled (ls_allocs s)" "ls_high_water s + round_up a (g_total_size g) \<le> budget"
  shows "none_spilled (ls_allocs (process_group a budget g s)) \<and>
    ls_high_water (process_group a budget g s) \<le> ls_high_water s + round_up a (g_total_size g)"
  using assms
  by (auto simp: process_group_def Let_def none_spilled_place_members split: option.splits)

lemma process_groups_fit:
  "none_spilled (ls_allocs s) \<Longrightarrow>
    ls_high_water s + sum_list (map (\<lambda>g. round_up a (g_total_size g)) gs) \<le> budget \<Longrightarrow>
    none_spilled (ls_allocs (process_groups a budget gs s))"
proof (induction gs arbitrary: s)
  case Nil
  then show ?case by simp
next
  case (Cons g gs)
  with process_group_fits [of s a g budget] show ?case by (auto intro!: Cons.IH)
qed

lemma groups_total:
  assumes "list_all group_wf gs" "reqs_aligned a (concat (map g_members gs))"
  shows "sum_list (map (\<lambda>g. round_up a (g_total_size g)) gs) =
    sum_list (map ar_size (concat (map g_members gs)))"
  using assms
proof (induction gs)
  case Nil
  then show ?case by simp
next
  case (Cons g gs)
  then have "a dvd g_total_size g"
    by (auto simp: group_wf_def reqs_aligned_def intro: sum_list_map_dvd)
  with Cons show ?case by (auto simp: group_wf_def reqs_aligned_def)
qed

lemma allocate_with_lifetime_fits:
  assumes "reqs_aligned a rs" "sum_list (map ar_size rs) \<le> budget"
    and "allocate_with_lifetime rs budget a = Some st"
  shows "none_spilled (lifetime_allocs st)"
proof (cases "rs = []")
  case True
  with assms(3) show ?thesis by (auto simp: allocate_with_lifetime_def none_spilled_def)
next
  case False
  let ?gs = "group_requests (sort_requests rs)"
  have "sum_list (map (\<lambda>g. round_up a (g_total_size g)) ?gs) =
      sum_list (map ar_size (filter (\<lambda>r. ar_size r \<noteq> 0) (sort_requests rs)))"
    using assms(1) groups_total [OF group_requests_wf, of a "sort_requests rs"]
    by (simp add: group_requests_members reqs_aligned_def)
  also have "\<dots> \<le> sum_list (map ar_size (sort_requests rs))" by (rule sum_list_map_filter_le)
  also have "\<dots> = sum_list (map ar_size rs)"
    by (metis mset_sort_requests mset_map sum_mset_sum_list)
  finally have "none_spilled (ls_allocs (process_groups a budget ?gs lt_init))"
    using assms(2) by (intro process_groups_fit) (simp_all add: lt_init_def none_spilled_def)
  note ns = none_spilled_place_empty [OF this]
  define s where "s = process_groups a budget ?gs lt_init"
  obtain nb m where pe: "place_empty (sort_requests rs) (ls_next_block_id s) (ls_allocs s) = (nb, m)"
    by fastforce
  with ns [of "sort_requests rs" "ls_next_block_id s"] have "none_spilled m" by (simp add: s_def)
  moreover have "lifetime_allocs st = m"
    using assms(3) False pe
    by (auto simp: allocate_with_lifetime_def Let_def s_def [symmetric] split: if_splits)
  ultimately show ?thesis by simp
qed

section \<open>The pool interface\<close>

text \<open>
  What a client of the allocator relies on: for well-formed requests it returns, its placements
  satisfy \<open>alloc_spec\<close>, and nothing is spilled when the requests fit side by side. The DDR and the
  VTCM pools of \<open>compute_ddr_offsets\<close> are two runs of such an allocator.
\<close>

locale lifetime_pool =
  fixes alloc :: "alloc_request list \<Rightarrow> bytes \<Rightarrow> alloc_map option"
    and wf :: "alloc_request list \<Rightarrow> bool"
  assumes pool_returns: "wf rs \<Longrightarrow> \<exists>m. alloc rs cap = Some m"
    and pool_spec: "wf rs \<Longrightarrow> alloc rs cap = Some m \<Longrightarrow> alloc_spec rs cap m"
    and pool_fits: "wf rs \<Longrightarrow> sum_list (map ar_size rs) \<le> cap \<Longrightarrow> alloc rs cap = Some m
      \<Longrightarrow> none_spilled m"
    and wf_filter: "wf rs \<Longrightarrow> wf (filter P rs)"
begin

lemma pool_result: "wf rs \<Longrightarrow> \<exists>m. alloc rs cap = Some m \<and> alloc_spec rs cap m"
  using pool_returns pool_spec by blast

lemma pool_all_placed:
  assumes "wf rs" "sum_list (map ar_size rs) \<le> cap"
  shows "\<exists>m. alloc rs cap = Some m \<and> (\<forall>r \<in> set rs. \<exists>res. map_of m (ar_op_id r) = Some res
    \<and> \<not> res_spilled res \<and> res_offset res + ar_size r \<le> cap)"
proof -
  from pool_result [OF assms(1)] obtain m where m: "alloc rs cap = Some m" "alloc_spec rs cap m"
    by blast
  with pool_fits [OF assms] have "none_spilled m" by blast
  with m show ?thesis unfolding alloc_spec_def none_spilled_def by fastforce
qed

end

definition pool_alloc :: "alloc_request list \<Rightarrow> bytes \<Rightarrow> alloc_map option" where
  "pool_alloc rs cap = map_option lifetime_allocs (allocate_with_lifetime rs cap 128)"

definition pool_wf :: "alloc_request list \<Rightarrow> bool" where
  "pool_wf rs \<longleftrightarrow> distinct (map ar_op_id rs) \<and> reqs_aligned 128 rs"

lemma alloc_spec_mono: "alloc_spec rs cap m \<Longrightarrow> cap \<le> cap' \<Longrightarrow> alloc_spec rs cap' m"
  unfolding alloc_spec_def by (meson order_trans)

interpretation lt128: lifetime_pool pool_alloc pool_wf
proof unfold_locales
  fix rs cap
  assume wf: "pool_wf rs"
  then obtain st where st: "allocate_with_lifetime rs cap 128 = Some st" "lifetime_used st \<le> cap"
    "alloc_spec rs (lifetime_used st) (lifetime_allocs st)"
    using allocate_with_lifetime_run [of rs 128 cap] by (auto simp: pool_wf_def)
  then show "\<exists>m. pool_alloc rs cap = Some m" by (simp add: pool_alloc_def)
  show "alloc_spec rs cap m" if "pool_alloc rs cap = Some m" for m
    using st that alloc_spec_mono [OF st(3,2)] by (simp add: pool_alloc_def)
  show "none_spilled m" if "sum_list (map ar_size rs) \<le> cap" "pool_alloc rs cap = Some m" for m
    using allocate_with_lifetime_fits [OF _ that(1) st(1)] st(1) that(2) wf
    by (simp add: pool_alloc_def pool_wf_def)
  show "pool_wf (filter P rs)" for P
    using wf by (auto simp: pool_wf_def reqs_aligned_def intro: distinct_map_filter)
qed

section \<open>Properties\<close>

text \<open>
  C1: for requests with distinct ids whose sizes are multiples of the alignment,
  \<open>allocate_with_lifetime\<close> returns (the safety net does not abort), stays within its budget, gives
  every request an entry, and two unspilled requests whose closed lives meet never share a byte.
\<close>

theorem allocate_with_lifetime_sound:
  assumes "distinct (map ar_op_id rs)" and "reqs_aligned a rs"
  shows "\<exists>st. allocate_with_lifetime rs budget a = Some st \<and> lifetime_used st \<le> budget \<and>
    alloc_spec rs (lifetime_used st) (lifetime_allocs st)"
  using assms by (rule allocate_with_lifetime_run)

theorem allocate_with_lifetime_sound_witness:
  "\<exists>st. allocate_with_lifetime
      [\<lparr>ar_op_id = 1, ar_size = 128, ar_life_begin = 0, ar_life_end = 5\<rparr>,
       \<lparr>ar_op_id = 2, ar_size = 256, ar_life_begin = 1, ar_life_end = 4\<rparr>] 512 128 = Some st \<and>
    lifetime_used st \<le> 512 \<and>
    alloc_spec
      [\<lparr>ar_op_id = 1, ar_size = 128, ar_life_begin = 0, ar_life_end = 5\<rparr>,
       \<lparr>ar_op_id = 2, ar_size = 256, ar_life_begin = 1, ar_life_end = 4\<rparr>]
      (lifetime_used st) (lifetime_allocs st)"
  by (rule allocate_with_lifetime_sound) (simp_all add: reqs_aligned_def)

text \<open>
  C2: when the aligned requests fit side by side into the budget, nothing is spilled: reuse of dead
  ranges never makes a placement worse than plain bumping.
\<close>

theorem allocate_with_lifetime_no_spill:
  assumes "distinct (map ar_op_id rs)" and "reqs_aligned a rs"
    and "sum_list (map ar_size rs) \<le> budget" and "r \<in> set rs"
  shows "\<exists>st res. allocate_with_lifetime rs budget a = Some st \<and>
    get_allocation st (ar_op_id r) = Some res \<and> \<not> res_spilled res \<and>
    res_offset res + ar_size r \<le> budget"
proof -
  from allocate_with_lifetime_run [OF assms(1,2)] obtain st where st:
    "allocate_with_lifetime rs budget a = Some st" "lifetime_used st \<le> budget"
    "alloc_spec rs (lifetime_used st) (lifetime_allocs st)" by blast
  moreover have "none_spilled (lifetime_allocs st)"
    by (rule allocate_with_lifetime_fits [OF assms(2,3) st(1)])
  ultimately show ?thesis using assms(4)
    unfolding alloc_spec_def none_spilled_def get_allocation_def by fastforce
qed

theorem allocate_with_lifetime_no_spill_witness:
  "\<exists>st res. allocate_with_lifetime
      [\<lparr>ar_op_id = 1, ar_size = 128, ar_life_begin = 0, ar_life_end = 5\<rparr>,
       \<lparr>ar_op_id = 2, ar_size = 256, ar_life_begin = 1, ar_life_end = 4\<rparr>] 384 128 = Some st \<and>
    get_allocation st 2 = Some res \<and> \<not> res_spilled res \<and> res_offset res + 256 \<le> 384"
  using allocate_with_lifetime_no_spill [of
      "[\<lparr>ar_op_id = 1, ar_size = 128, ar_life_begin = 0, ar_life_end = 5\<rparr>,
        \<lparr>ar_op_id = 2, ar_size = 256, ar_life_begin = 1, ar_life_end = 4\<rparr>]" 128 384
      "\<lparr>ar_op_id = 2, ar_size = 256, ar_life_begin = 1, ar_life_end = 4\<rparr>"]
  by (simp add: reqs_aligned_def)

text \<open>
  without the alignment hypothesis the allocator can abort on legal input. A group reserves the
  rounded sum of its sizes, but its members advance by the sum of the rounded sizes, so the second
  one-byte member of the first group below lies outside the group's range, where the next group,
  alive at the same time, is placed; \<open>validate_no_overlap\<close> then aborts.
\<close>

lemma allocate_with_lifetime_unaligned_aborts:
  "allocate_with_lifetime
     [\<lparr>ar_op_id = 1, ar_size = 1, ar_life_begin = 0, ar_life_end = 5\<rparr>,
      \<lparr>ar_op_id = 2, ar_size = 1, ar_life_begin = 0, ar_life_end = 5\<rparr>,
      \<lparr>ar_op_id = 3, ar_size = 1, ar_life_begin = 1, ar_life_end = 4\<rparr>] 4096 128 = None"
  by code_simp

end
