(* ===== verification/GraphIr.thy ===== *)
theory GraphIr
  imports Prelude
begin

text \<open>
  The operator records that the planning passes read: \<open>OutputDef\<close>, \<open>InputConn\<close> and \<open>OpDef\<close> of
  \<open>compiler/include/hnnx/ir/types.hpp\<close> and the lookup \<open>GraphPrepare::get_op_at\<close>. An \<open>OpDef\<close> keeps the
  fields these passes use; \<open>name_tag\<close> is the optional operator name. \<open>opdef_map_\<close> is a map.
\<close>

unbundle bit_operations_syntax

record output_def =
  out_rank :: nat
  out_dims :: "nat list"
  out_element_size :: nat

record input_conn =
  src_id :: op_id
  out_idx :: nat
  src_out_def :: output_def

record op_def =
  opd_flags :: "16 word"
  opd_op_id :: op_id
  opd_name :: "string option"
  opd_output_def :: output_def
  opd_flags2 :: u32
  opd_inputs :: "input_conn list"
  opd_consumers :: "op_id list"

text \<open>The bytes of an output tensor, a product that wraps at 64 bits.\<close>

definition out_bytes :: "output_def \<Rightarrow> bytes" where
  "out_bytes od =
     (let sz = foldl (\<lambda>acc d. if 0 < d then acc * d mod 2 ^ 64 else acc) 1 (take (min (out_rank od) 5) (out_dims od));
          esize = (if out_element_size od \<noteq> 0 then out_element_size od else 4)
      in sz * esize mod 2 ^ 64)"

type_synonym opdef_map = "op_id \<rightharpoonup> op_def"

definition is_enabled :: "op_def \<Rightarrow> bool" where
  "is_enabled od \<longleftrightarrow> opd_flags od AND 0x01 \<noteq> 0"

definition is_const :: "op_def \<Rightarrow> bool" where
  "is_const od \<longleftrightarrow> opd_flags od AND 0x02 \<noteq> 0"

definition is_dead :: "op_def \<Rightarrow> bool" where
  "is_dead od \<longleftrightarrow> opd_flags od AND 0x04 \<noteq> 0"

definition get_op_at :: "opdef_map \<Rightarrow> op_id \<Rightarrow> op_def option" where
  "get_op_at g i = g i"

text \<open>An operator map is keyed by the operators' own ids.\<close>

definition opdef_map_ok :: "opdef_map \<Rightarrow> bool" where
  "opdef_map_ok g \<longleftrightarrow> (\<forall>i od. g i = Some od \<longrightarrow> opd_op_id od = i)"

lemma opdef_map_okD: "opdef_map_ok g \<Longrightarrow> get_op_at g i = Some od \<Longrightarrow> opd_op_id od = i"
  by (simp add: opdef_map_ok_def get_op_at_def)

end
