(* ===== verification/DdrOffsets.thy ===== *)
theory DdrOffsets
  imports LifetimeAlloc GraphIr
begin

text \<open>
  The static offset planner \<open>compiler/src/vtcm/ddr_offsets.cpp\<close>: \<open>compute_ddr_offsets\<close> derives a
  request per live tensor from the execution order, runs the lifetime allocator on the VTCM pool and
  then on the DDR pool (or on the DDR pool alone), and lays the tensors that fit neither into a spill
  area. \<open>emit_ddr_offset_table\<close> recomputes the lives for the offset checker's table.

  Products of dimensions are reduced modulo \<open>2 ^ 64\<close> as in the program. Result pointers that may be
  null are the flag \<open>want_spilled\<close>; the result is \<open>None\<close> when the allocator aborts.
\<close>

section \<open>Requests\<close>

record ddr_temp_entry =
  te_op_id :: op_id
  te_offset :: bytes
  te_size :: bytes
  te_in_vtcm :: bool

record ddr_spill_entry =
  se_op_id :: op_id
  se_offset :: bytes
  se_size :: bytes

record ddr_plan =
  dp_rc :: int
  dp_entries :: "ddr_temp_entry list"
  dp_cap :: bytes
  dp_spilled :: "ddr_spill_entry list"
  dp_spill_total :: bytes
  dp_vtcm_cap :: bytes

text \<open>\<open>pos[order[i]] = i\<close>: the last position of an id wins.\<close>

definition order_pos :: "op_id list \<Rightarrow> op_id \<Rightarrow> nat option" where
  "order_pos order i = map_of (rev (zip order [0..<length order])) i"

definition tensor_elems :: "output_def \<Rightarrow> nat" where
  "tensor_elems od =
     (let e = foldl (\<lambda>acc d. acc * d mod 2 ^ 64) 1 (take (min (out_rank od) 5) (out_dims od))
      in if e = 0 then 1 else e)"

definition tensor_bytes :: "output_def \<Rightarrow> bytes" where
  "tensor_bytes od =
     (let es = (if out_element_size od = 0 \<or> out_element_size od > 4 then 4 else out_element_size od)
      in ((tensor_elems od * es + 127) mod 2 ^ 64) div 128 * 128)"

text \<open>One consumer of the life computation: dead or missing consumers are skipped.\<close>

definition consumer_step ::
  "opdef_map \<Rightarrow> op_id list \<Rightarrow> nat \<times> bool \<Rightarrow> op_id \<Rightarrow> nat \<times> bool" where
  "consumer_step g order acc cid =
     (case get_op_at g cid of
        None \<Rightarrow> acc
      | Some c \<Rightarrow>
          if is_dead c then acc
          else (case order_pos order cid of
                  Some p \<Rightarrow> (max (fst acc) (p + 1), True)
                | None \<Rightarrow> (length order, True)))"

definition life_end_of :: "opdef_map \<Rightarrow> op_id list \<Rightarrow> nat \<Rightarrow> op_def \<Rightarrow> nat" where
  "life_end_of g order p od =
     (let (le, has) = foldl (consumer_step g order) (p + 1, False) (opd_consumers od)
      in if has then le else length order)"

definition plannable :: "op_def \<Rightarrow> bool" where
  "plannable od \<longleftrightarrow> is_enabled od \<and> \<not> is_dead od \<and> \<not> is_const od \<and>
     (case opd_name od of None \<Rightarrow> False | Some nm \<Rightarrow> nm \<noteq> ''Input'' \<and> nm \<noteq> ''Output'')"

definition ddr_request :: "opdef_map \<Rightarrow> op_id list \<Rightarrow> nat \<Rightarrow> alloc_request option" where
  "ddr_request g order p =
     (case get_op_at g (order ! p) of
        None \<Rightarrow> None
      | Some od \<Rightarrow>
          if plannable od
          then Some \<lparr>ar_op_id = opd_op_id od, ar_size = tensor_bytes (opd_output_def od),
                     ar_life_begin = p, ar_life_end = life_end_of g order p od\<rparr>
          else None)"

definition ddr_requests :: "opdef_map \<Rightarrow> op_id list \<Rightarrow> alloc_request list" where
  "ddr_requests g order = List.map_filter (ddr_request g order) [0..<length order]"

section \<open>Planning\<close>

definition pool_split ::
  "bool \<Rightarrow> alloc_request list \<Rightarrow> alloc_map \<Rightarrow> ddr_temp_entry list \<times> alloc_request list" where
  "pool_split vtcm rs m =
     (List.map_filter (\<lambda>r. case map_of m (ar_op_id r) of
          Some res \<Rightarrow> if res_spilled res then None
            else Some \<lparr>te_op_id = ar_op_id r, te_offset = res_offset res, te_size = ar_size r,
                       te_in_vtcm = vtcm\<rparr>
        | None \<Rightarrow> None) rs,
      filter (\<lambda>r. case map_of m (ar_op_id r) of Some res \<Rightarrow> res_spilled res | None \<Rightarrow> True) rs)"

fun bump_spills :: "alloc_request list \<Rightarrow> bytes \<Rightarrow> ddr_spill_entry list \<times> bytes" where
  "bump_spills [] cur = ([], cur)"
| "bump_spills (r # rs) cur =
     (let (es, total) = bump_spills rs (cur + ar_size r)
      in (\<lparr>se_op_id = ar_op_id r, se_offset = cur, se_size = ar_size r\<rparr> # es, total))"

definition finalize_spills ::
  "bool \<Rightarrow> alloc_request list \<Rightarrow> ddr_spill_entry list \<times> bytes" where
  "finalize_spills want_spilled rs =
     (if want_spilled then bump_spills (sort_key ar_op_id rs) 0 else ([], 0))"

definition compute_ddr_offsets ::
  "opdef_map \<Rightarrow> op_id list \<Rightarrow> op_id list \<Rightarrow> bytes \<Rightarrow> bool \<Rightarrow> bytes \<Rightarrow> ddr_plan option" where
  "compute_ddr_offsets g plan_order topo_order budget want_spilled vtcm_budget =
     (let order = (if plan_order = [] then topo_order else plan_order) in
      if order = []
      then Some \<lparr>dp_rc = -1, dp_entries = [], dp_cap = 0, dp_spilled = [], dp_spill_total = 0,
                 dp_vtcm_cap = vtcm_budget\<rparr>
      else
        let reqs = ddr_requests g order;
            total = sum_list (map ar_size reqs);
            cap = (if budget = 0 then total else budget)
        in if vtcm_budget > 0
           then (case pool_alloc reqs vtcm_budget of None \<Rightarrow> None
             | Some vm \<Rightarrow>
                 let (ve, ddr_reqs) = pool_split True reqs vm
                 in (case pool_alloc ddr_reqs cap of None \<Rightarrow> None
                   | Some dm \<Rightarrow>
                       let (de, spills) = pool_split False ddr_reqs dm;
                           (ss, st) = finalize_spills want_spilled spills
                       in Some \<lparr>dp_rc = 0, dp_entries = ve @ de, dp_cap = cap, dp_spilled = ss,
                                dp_spill_total = st, dp_vtcm_cap = vtcm_budget\<rparr>))
           else (case pool_alloc reqs cap of None \<Rightarrow> None
             | Some dm \<Rightarrow>
                 let (de, spills) = pool_split False reqs dm;
                     (ss, st) = finalize_spills want_spilled spills
                 in Some \<lparr>dp_rc = 0, dp_entries = de, dp_cap = cap, dp_spilled = ss,
                          dp_spill_total = st, dp_vtcm_cap = vtcm_budget\<rparr>))"

text \<open>A row of the table: id, offset, size and the recomputed life.\<close>

definition table_row ::
  "opdef_map \<Rightarrow> op_id list \<Rightarrow> ddr_temp_entry \<Rightarrow> op_id \<times> bytes \<times> bytes \<times> nat \<times> nat" where
  "table_row g order e =
     (let (lb, le) =
        (case order_pos order (te_op_id e) of
           None \<Rightarrow> (0, 0)
         | Some lb \<Rightarrow>
             (case get_op_at g (te_op_id e) of
                None \<Rightarrow> (lb, lb + 1)
              | Some od \<Rightarrow> (lb, life_end_of g order lb od)))
      in (te_op_id e, te_offset e, te_size e, lb, le))"

definition emit_ddr_offset_table ::
  "opdef_map \<Rightarrow> op_id list \<Rightarrow> op_id list \<Rightarrow> bytes
    \<Rightarrow> (int \<times> bytes \<times> (op_id \<times> bytes \<times> bytes \<times> nat \<times> nat) list) option" where
  "emit_ddr_offset_table g plan_order topo_order budget =
     (case compute_ddr_offsets g plan_order topo_order budget False 0 of
        None \<Rightarrow> None
      | Some plan \<Rightarrow>
          if dp_rc plan \<noteq> 0 then Some (-1, 0, [])
          else let order = (if plan_order = [] then topo_order else plan_order)
               in Some (0, dp_cap plan, map (table_row g order) (dp_entries plan)))"

section \<open>Requests are well-formed\<close>

lemma map_filter_mem: "y \<in> set (List.map_filter f xs) \<longleftrightarrow> (\<exists>x \<in> set xs. f x = Some y)"
  by (force simp: List.map_filter_def)

lemma ddr_requests_mem:
  "r \<in> set (ddr_requests g order) \<longleftrightarrow> (\<exists>p < length order. ddr_request g order p = Some r)"
  by (auto simp: ddr_requests_def map_filter_mem)

lemma ddr_request_Some:
  assumes "ddr_request g order p = Some r" "opdef_map_ok g"
  shows "\<exists>od. get_op_at g (order ! p) = Some od \<and> ar_op_id r = order ! p \<and> ar_life_begin r = p \<and>
    ar_life_end r = life_end_of g order p od \<and> ar_size r = tensor_bytes (opd_output_def od)"
  using assms by (auto simp: ddr_request_def dest: opdef_map_okD split: option.splits if_splits)

lemma tensor_bytes_aligned: "128 dvd tensor_bytes od"
  by (simp add: tensor_bytes_def Let_def)

lemma ddr_requests_wf:
  assumes "opdef_map_ok g" "distinct order"
  shows "pool_wf (ddr_requests g order)"
proof -
  let ?ps = "filter (\<lambda>p. ddr_request g order p \<noteq> None) [0..<length order]"
  have "map ar_op_id (ddr_requests g order) = map ((!) order) ?ps"
    using ddr_request_Some [OF _ assms(1)] by (fastforce simp: ddr_requests_def List.map_filter_def)
  moreover have "inj_on ((!) order) (set ?ps)"
    using assms(2) by (auto simp: inj_on_def nth_eq_iff_index_eq)
  ultimately have "distinct (map ar_op_id (ddr_requests g order))"
    by (simp add: distinct_map)
  moreover have "reqs_aligned 128 (ddr_requests g order)"
    using ddr_request_Some [OF _ assms(1)]
    by (fastforce simp: reqs_aligned_def ddr_requests_mem tensor_bytes_aligned)
  ultimately show ?thesis by (simp add: pool_wf_def)
qed

lemma order_pos_nth: "distinct order \<Longrightarrow> p < length order \<Longrightarrow> order_pos order (order ! p) = Some p"
  unfolding order_pos_def
  by (intro map_of_is_SomeI) (auto simp: set_zip rev_map [symmetric])

section \<open>Splitting a pool's result\<close>

lemma pool_split_entry:
  "e \<in> set (fst (pool_split v rs m)) \<Longrightarrow> \<exists>r \<in> set rs. \<exists>res. map_of m (ar_op_id r) = Some res \<and>
     \<not> res_spilled res \<and> e = \<lparr>te_op_id = ar_op_id r, te_offset = res_offset res,
       te_size = ar_size r, te_in_vtcm = v\<rparr>"
  by (auto simp: pool_split_def map_filter_mem split: option.splits if_splits)

lemma pool_split_partition:
  "mset (map te_op_id (fst (pool_split v rs m))) + mset (map ar_op_id (snd (pool_split v rs m)))
     = mset (map ar_op_id rs)"
  by (induction rs) (auto simp: pool_split_def List.map_filter_simps split: option.splits)

lemma pool_split_rest_filter: "\<exists>P. snd (pool_split v rs m) = filter P rs"
  by (auto simp: pool_split_def)

lemma bump_spills_Cons:
  "bump_spills (r # rs) cur =
     (\<lparr>se_op_id = ar_op_id r, se_offset = cur, se_size = ar_size r\<rparr> # fst (bump_spills rs (cur + ar_size r)),
      snd (bump_spills rs (cur + ar_size r)))"
  by (simp split: prod.splits)

declare bump_spills.simps(2) [simp del] bump_spills_Cons [simp]

lemma bump_spills_snd: "snd (bump_spills rs cur) = cur + sum_list (map ar_size rs)"
  by (induction rs arbitrary: cur) auto

lemma bump_spills_ids: "map se_op_id (fst (bump_spills rs cur)) = map ar_op_id rs"
  by (induction rs arbitrary: cur) auto

lemma bump_spills_bounds:
  "e \<in> set (fst (bump_spills rs cur)) \<Longrightarrow>
    cur \<le> se_offset e \<and> se_offset e + se_size e \<le> cur + sum_list (map ar_size rs)"
  by (induction rs arbitrary: cur) fastforce+

lemma bump_spills_ordered:
  "sorted_wrt (\<lambda>a b. se_offset a + se_size a \<le> se_offset b) (fst (bump_spills rs cur))"
  by (induction rs arbitrary: cur) (auto dest: bump_spills_bounds)

section \<open>The plan contract\<close>

definition entries_ok :: "alloc_request list \<Rightarrow> bool \<Rightarrow> bytes \<Rightarrow> ddr_temp_entry list \<Rightarrow> bool" where
  "entries_ok rs v cap es \<longleftrightarrow>
     (\<forall>e \<in> set es. te_in_vtcm e = v \<and> te_offset e + te_size e \<le> cap \<and>
        (\<exists>r \<in> set rs. te_op_id e = ar_op_id r \<and> te_size e = ar_size r)) \<and>
     (\<forall>e \<in> set es. \<forall>f \<in> set es. \<forall>r \<in> set rs. \<forall>q \<in> set rs.
        te_op_id e = ar_op_id r \<longrightarrow> te_op_id f = ar_op_id q \<longrightarrow> te_op_id e \<noteq> te_op_id f \<longrightarrow>
        life_meet (ar_life_begin r) (ar_life_end r) (ar_life_begin q) (ar_life_end q) \<longrightarrow>
        range_disj (te_offset e) (te_offset e + te_size e) (te_offset f) (te_offset f + te_size f))"

lemma pool_split_entries_ok:
  assumes spec: "alloc_spec rs cap m" and dist: "distinct (map ar_op_id rs)"
  shows "entries_ok rs v cap (fst (pool_split v rs m))"
proof -
  have uniq: "r = q" if "r \<in> set rs" "q \<in> set rs" "ar_op_id r = ar_op_id q" for r q
    using dist that by (auto simp: distinct_map dest: inj_onD)
  have b: "te_in_vtcm e = v \<and> te_offset e + te_size e \<le> cap \<and>
      (\<exists>r \<in> set rs. te_op_id e = ar_op_id r \<and> te_size e = ar_size r)"
    if "e \<in> set (fst (pool_split v rs m))" for e
    using pool_split_entry [OF that] spec by (fastforce simp: alloc_spec_def)
  have "range_disj (te_offset e) (te_offset e + te_size e) (te_offset f) (te_offset f + te_size f)"
    if e: "e \<in> set (fst (pool_split v rs m))" and f: "f \<in> set (fst (pool_split v rs m))"
      and r: "r \<in> set rs" "te_op_id e = ar_op_id r" and q: "q \<in> set rs" "te_op_id f = ar_op_id q"
      and ne: "te_op_id e \<noteq> te_op_id f"
      and lm: "life_meet (ar_life_begin r) (ar_life_end r) (ar_life_begin q) (ar_life_end q)"
    for e f r q
  proof -
    from pool_split_entry [OF e] r uniq obtain u where
      u: "map_of m (ar_op_id r) = Some u" "\<not> res_spilled u" "te_offset e = res_offset u"
        "te_size e = ar_size r" by fastforce
    from pool_split_entry [OF f] q uniq obtain w where
      w: "map_of m (ar_op_id q) = Some w" "\<not> res_spilled w" "te_offset f = res_offset w"
        "te_size f = ar_size q" by fastforce
    from ne r(2) q(2) have "r \<noteq> q" by auto
    with spec r(1) q(1) u w lm show ?thesis unfolding alloc_spec_def allocs_disj_def by simp
  qed
  with b show ?thesis unfolding entries_ok_def by blast
qed

lemma entries_ok_mono:
  assumes "entries_ok rs v cap es" "set rs \<subseteq> set rs'" "distinct (map ar_op_id rs')"
  shows "entries_ok rs' v cap es"
proof -
  have from_rs: "r \<in> set rs" if "e \<in> set es" "r \<in> set rs'" "te_op_id e = ar_op_id r" for e r
  proof -
    from assms(1) that obtain q where q: "q \<in> set rs" "te_op_id e = ar_op_id q"
      by (auto simp: entries_ok_def)
    with assms(2,3) that have "q = r" by (auto simp: distinct_map inj_on_eq_iff subset_iff)
    with q show ?thesis by simp
  qed
  show ?thesis
    using assms(1,2) from_rs unfolding entries_ok_def by blast
qed

text \<open>
  \<open>plan_ok\<close>: the entries of each pool obey the pool's capacity and never overlap while both tensors
  live; the ids of the two pools and of the spill list together are exactly the requested ids; the
  spill area is laid out without overlap.
\<close>

definition plan_ok :: "alloc_request list \<Rightarrow> ddr_plan \<Rightarrow> bool" where
  "plan_ok rs plan \<longleftrightarrow>
     entries_ok rs True (dp_vtcm_cap plan) (filter te_in_vtcm (dp_entries plan)) \<and>
     entries_ok rs False (dp_cap plan) (filter (\<lambda>e. \<not> te_in_vtcm e) (dp_entries plan)) \<and>
     mset (map te_op_id (dp_entries plan)) + mset (map se_op_id (dp_spilled plan))
       = mset (map ar_op_id rs) \<and>
     sorted_wrt (\<lambda>a b. se_offset a + se_size a \<le> se_offset b) (dp_spilled plan) \<and>
     (\<forall>e \<in> set (dp_spilled plan). se_offset e + se_size e \<le> dp_spill_total plan)"

lemma entries_ok_filter:
  "entries_ok rs v cap es \<Longrightarrow> filter (\<lambda>e. te_in_vtcm e = v) es = es \<and>
     filter (\<lambda>e. te_in_vtcm e = (\<not> v)) es = []"
  by (auto simp: entries_ok_def filter_empty_conv intro!: filter_True)

lemma entries_ok_Nil: "entries_ok rs v cap []"
  by (simp add: entries_ok_def)

lemma finalize_spills_ok:
  assumes "finalize_spills True rs = (ss, t)"
  shows "mset (map se_op_id ss) = mset (map ar_op_id rs)"
    and "sorted_wrt (\<lambda>a b. se_offset a + se_size a \<le> se_offset b) ss"
    and "\<forall>e \<in> set ss. se_offset e + se_size e \<le> t"
proof -
  let ?qs = "sort_key ar_op_id rs"
  from assms have ss: "ss = fst (bump_spills ?qs 0)" "t = snd (bump_spills ?qs 0)"
    by (auto simp: finalize_spills_def)
  show "mset (map se_op_id ss) = mset (map ar_op_id rs)" by (simp add: ss bump_spills_ids)
  show "sorted_wrt (\<lambda>a b. se_offset a + se_size a \<le> se_offset b) ss"
    by (simp add: ss bump_spills_ordered)
  show "\<forall>e \<in> set ss. se_offset e + se_size e \<le> t"
    using bump_spills_bounds [of _ ?qs 0] by (simp add: ss bump_spills_snd)
qed

lemma plan_ok_intro:
  assumes "entries_ok rs True (dp_vtcm_cap plan) ve" "entries_ok rs False (dp_cap plan) de"
    and "dp_entries plan = ve @ de"
    and "mset (map te_op_id ve) + mset (map te_op_id de) + mset (map ar_op_id spills) = mset (map ar_op_id rs)"
    and "finalize_spills True spills = (dp_spilled plan, dp_spill_total plan)"
  shows "plan_ok rs plan"
  using assms entries_ok_filter [OF assms(1)] entries_ok_filter [OF assms(2)]
    finalize_spills_ok [OF assms(5)]
  by (simp add: plan_ok_def)

lemma compute_two_pools:
  assumes wf: "pool_wf (ddr_requests g order)" and ne: "order \<noteq> []"
    and o: "order = (if plan_order = [] then topo_order else plan_order)" and v: "0 < vtcm_budget"
  shows "\<exists>plan. compute_ddr_offsets g plan_order topo_order budget True vtcm_budget = Some plan \<and>
    dp_rc plan = 0 \<and> plan_ok (ddr_requests g order) plan"
proof -
  let ?rs = "ddr_requests g order"
  let ?cap = "if budget = 0 then sum_list (map ar_size ?rs) else budget"
  have dist: "distinct (map ar_op_id ?rs)" using wf by (simp add: pool_wf_def)
  obtain vm where vm: "pool_alloc ?rs vtcm_budget = Some vm" "alloc_spec ?rs vtcm_budget vm"
    using lt128.pool_result [OF wf] by blast
  obtain ve dr where sp: "pool_split True ?rs vm = (ve, dr)" by fastforce
  from pool_split_rest_filter [of True ?rs vm] sp obtain P where dr: "dr = filter P ?rs" by auto
  have wfd: "pool_wf dr" unfolding dr by (rule lt128.wf_filter [OF wf])
  then have distd: "distinct (map ar_op_id dr)" by (simp add: pool_wf_def)
  obtain dm where dm: "pool_alloc dr ?cap = Some dm" "alloc_spec dr ?cap dm"
    using lt128.pool_result [OF wfd] by blast
  obtain de rest where sd: "pool_split False dr dm = (de, rest)" by fastforce
  obtain ss t where fs: "finalize_spills True rest = (ss, t)" by fastforce
  define plan where "plan = \<lparr>dp_rc = 0, dp_entries = ve @ de, dp_cap = ?cap, dp_spilled = ss,
    dp_spill_total = t, dp_vtcm_cap = vtcm_budget\<rparr>"
  have "compute_ddr_offsets g plan_order topo_order budget True vtcm_budget = Some plan"
    using ne v vm(1) sp dm(1) sd fs
    by (simp add: compute_ddr_offsets_def o [symmetric] Let_def plan_def)
  moreover have "plan_ok ?rs plan"
  proof (rule plan_ok_intro)
    show "entries_ok ?rs True (dp_vtcm_cap plan) ve"
      using pool_split_entries_ok [OF vm(2) dist, of True] sp by (simp add: plan_def)
    show "entries_ok ?rs False (dp_cap plan) de"
      using entries_ok_mono [OF pool_split_entries_ok [OF dm(2) distd, of False] _ dist] sd dr
      by (auto simp: plan_def)
    show "mset (map te_op_id ve) + mset (map te_op_id de) + mset (map ar_op_id rest)
        = mset (map ar_op_id ?rs)"
      using pool_split_partition [of True ?rs vm] pool_split_partition [of False dr dm] sp sd
      by (simp add: add.assoc)
  qed (simp_all add: plan_def fs)
  ultimately show ?thesis by (auto simp: plan_def)
qed

lemma compute_one_pool:
  assumes wf: "pool_wf (ddr_requests g order)" and ne: "order \<noteq> []"
    and o: "order = (if plan_order = [] then topo_order else plan_order)"
  shows "\<exists>plan. compute_ddr_offsets g plan_order topo_order budget w 0 = Some plan \<and>
    dp_rc plan = 0 \<and> (w \<longrightarrow> plan_ok (ddr_requests g order) plan) \<and>
    entries_ok (ddr_requests g order) False (dp_cap plan) (dp_entries plan) \<and>
    (budget = 0 \<longrightarrow> dp_spilled plan = [] \<and>
       mset (map te_op_id (dp_entries plan)) = mset (map ar_op_id (ddr_requests g order)))"
proof -
  let ?rs = "ddr_requests g order"
  let ?cap = "if budget = 0 then sum_list (map ar_size ?rs) else budget"
  have dist: "distinct (map ar_op_id ?rs)" using wf by (simp add: pool_wf_def)
  obtain dm where dm: "pool_alloc ?rs ?cap = Some dm" "alloc_spec ?rs ?cap dm"
    using lt128.pool_result [OF wf] by blast
  obtain de rest where sd: "pool_split False ?rs dm = (de, rest)" by fastforce
  obtain ss t where fs: "finalize_spills w rest = (ss, t)" by fastforce
  define plan where "plan = \<lparr>dp_rc = 0, dp_entries = de, dp_cap = ?cap, dp_spilled = ss,
    dp_spill_total = t, dp_vtcm_cap = 0\<rparr>"
  have "compute_ddr_offsets g plan_order topo_order budget w 0 = Some plan"
    using ne dm(1) sd fs by (simp add: compute_ddr_offsets_def o [symmetric] Let_def plan_def)
  moreover have e: "entries_ok ?rs False (dp_cap plan) de"
    using pool_split_entries_ok [OF dm(2) dist, of False] sd by (simp add: plan_def)
  moreover have "plan_ok ?rs plan" if "w"
    using pool_split_partition [of False ?rs dm] sd fs that
    by (intro plan_ok_intro [OF entries_ok_Nil e, where spills = rest]) (simp_all add: plan_def)
  moreover have "rest = []" if "budget = 0"
  proof -
    have "\<exists>res. map_of dm (ar_op_id r) = Some res \<and> \<not> res_spilled res" if "r \<in> set ?rs" for r
      using lt128.pool_all_placed [OF wf, of ?cap] dm(1) \<open>budget = 0\<close> that by fastforce
    then show ?thesis using sd by (fastforce simp: pool_split_def filter_empty_conv)
  qed
  ultimately show ?thesis
    using fs pool_split_partition [of False ?rs dm] sd
    by (intro exI [of _ plan]) (auto simp: plan_def finalize_spills_def split: if_splits)
qed

section \<open>Properties\<close>


definition demo_op :: "op_id \<Rightarrow> nat \<Rightarrow> op_id list \<Rightarrow> op_def" where
  "demo_op i n cs = \<lparr>opd_flags = 1, opd_op_id = i, opd_name = Some ''Add'',
     opd_output_def = \<lparr>out_rank = 1, out_dims = [n, 0, 0, 0, 0], out_element_size = 1\<rparr>,
     opd_flags2 = 0, opd_inputs = [], opd_consumers = cs\<rparr>"

definition demo_graph :: opdef_map where
  "demo_graph = [1 \<mapsto> demo_op 1 100 [2], 2 \<mapsto> demo_op 2 200 [3], 3 \<mapsto> demo_op 3 300 []]"

lemma demo_graph_ok: "opdef_map_ok demo_graph"
  by (auto simp: opdef_map_ok_def demo_graph_def demo_op_def split: if_splits)


text \<open>
  With the default budget (0, meaning the sum of all tensor sizes) and no VTCM pool, nothing is
  spilled: every requested tensor gets an offset in the DDR pool.
\<close>

lemma compute_ddr_offsets_default_budget:
  assumes "opdef_map_ok g" and "distinct plan_order" and "plan_order \<noteq> []"
  shows "\<exists>plan. compute_ddr_offsets g plan_order topo_order 0 w 0 = Some plan \<and> dp_rc plan = 0 \<and>
    dp_spilled plan = [] \<and>
    mset (map te_op_id (dp_entries plan)) = mset (map ar_op_id (ddr_requests g plan_order))"
  using compute_one_pool [OF ddr_requests_wf [OF assms(1,2)] assms(3), of plan_order topo_order 0 w]
    assms(3) by auto

lemma compute_ddr_offsets_default_budget_witness:
  "\<exists>plan. compute_ddr_offsets demo_graph [1, 2, 3] [] 0 True 0 = Some plan \<and> dp_rc plan = 0 \<and>
    dp_spilled plan = [] \<and>
    mset (map te_op_id (dp_entries plan)) = mset (map ar_op_id (ddr_requests demo_graph [1, 2, 3]))"
  by (rule compute_ddr_offsets_default_budget [OF demo_graph_ok]) simp_all

lemma table_row_life:
  assumes "opdef_map_ok g" "distinct order" "r \<in> set (ddr_requests g order)" "te_op_id e = ar_op_id r"
  shows "table_row g order e = (te_op_id e, te_offset e, te_size e, ar_life_begin r, ar_life_end r)"
proof -
  from assms(3) obtain p where p: "p < length order" "ddr_request g order p = Some r"
    by (auto simp: ddr_requests_mem)
  from ddr_request_Some [OF p(2) assms(1)] obtain od where
    "get_op_at g (order ! p) = Some od" "ar_op_id r = order ! p" "ar_life_begin r = p"
    "ar_life_end r = life_end_of g order p od" by blast
  with order_pos_nth [OF assms(2) p(1)] assms(4) show ?thesis by (simp add: table_row_def)
qed

text \<open>
  the rows that \<open>emit_ddr_offset_table\<close> writes for the offset checker carry the lives the
  allocator used, so any two rows with different ids whose lives meet have disjoint byte ranges, and
  every row lies inside the announced pool.
\<close>

lemma emit_ddr_offset_table_checked:
  assumes "opdef_map_ok g" and "distinct plan_order" and "plan_order \<noteq> []"
  shows "\<exists>cap rows. emit_ddr_offset_table g plan_order topo_order budget = Some (0, cap, rows) \<and>
    (\<forall>(i, o1, s1, b1, e1) \<in> set rows. o1 + s1 \<le> cap \<and>
       (\<forall>(j, o2, s2, b2, e2) \<in> set rows. i \<noteq> j \<longrightarrow> life_meet b1 e1 b2 e2 \<longrightarrow>
          range_disj o1 (o1 + s1) o2 (o2 + s2)))"
proof -
  let ?rs = "ddr_requests g plan_order"
  from compute_one_pool [OF ddr_requests_wf [OF assms(1,2)] assms(3), of plan_order topo_order budget False]
    assms(3) obtain plan where plan:
    "compute_ddr_offsets g plan_order topo_order budget False 0 = Some plan" "dp_rc plan = 0"
    "entries_ok ?rs False (dp_cap plan) (dp_entries plan)" by auto
  have row: "\<exists>r \<in> set ?rs. te_op_id e = ar_op_id r \<and> table_row g plan_order e =
      (te_op_id e, te_offset e, te_size e, ar_life_begin r, ar_life_end r)"
    if "e \<in> set (dp_entries plan)" for e
    using plan(3) that table_row_life [OF assms(1,2)] unfolding entries_ok_def by metis
  have "o1 + s1 \<le> dp_cap plan \<and>
      (i \<noteq> j \<longrightarrow> life_meet b1 e1 b2 e2 \<longrightarrow> range_disj o1 (o1 + s1) o2 (o2 + s2))"
    if "e \<in> set (dp_entries plan)" "f \<in> set (dp_entries plan)"
      "(i, o1, s1, b1, e1) = table_row g plan_order e" "(j, o2, s2, b2, e2) = table_row g plan_order f"
    for e f i o1 s1 b1 e1 j o2 s2 b2 e2
    using row [OF that(1)] row [OF that(2)] that plan(3) unfolding entries_ok_def by fastforce
  with plan(1,2) assms(3) show ?thesis
    by (fastforce simp: emit_ddr_offset_table_def)
qed

lemma emit_ddr_offset_table_checked_witness:
  "\<exists>cap rows. emit_ddr_offset_table demo_graph [1, 2, 3] [] 512 = Some (0, cap, rows) \<and>
    (\<forall>(i, o1, s1, b1, e1) \<in> set rows. o1 + s1 \<le> cap \<and>
       (\<forall>(j, o2, s2, b2, e2) \<in> set rows. i \<noteq> j \<longrightarrow> life_meet b1 e1 b2 e2 \<longrightarrow>
          range_disj o1 (o1 + s1) o2 (o2 + s2)))"
  by (rule emit_ddr_offset_table_checked [OF demo_graph_ok]) simp_all

end
