(* ===== verification/BlockHash.thy ===== *)
theory BlockHash
  imports Prelude
begin

text \<open>
  The block index of \<open>FancyAllocator\<close> (\<open>compiler/src/vtcm/fancy_allocator.cpp\<close>): an open-addressing
  hash table keyed by 32-bit block ids, with a multiplicative hash, an odd probe step and capacities
  that are powers of two. Slots, masks, steps and counters are 32-bit words as in the code. The
  \<open>while (true)\<close> of the insertion is a partial function whose result \<open>None\<close> stands for not
  returning (and for an access outside the vector); the lemmas show that it always returns, because
  an odd step visits every slot and at least one slot is free. The recursion of insertion through
  growth is bounded by a depth, and depth one is shown to be enough.

  The second half states the contract of such an index as the locale \<open>keyed_table\<close> and interprets it
  on the table.
\<close>

unbundle bit_operations_syntax

section \<open>Data and operations\<close>

record hash_entry =
  he_block_id :: u32
  he_size :: u32
  he_flag :: "8 word"

record block_hash =
  bh_tab :: "hash_entry list"
  bh_mask :: u32
  bh_count :: u32

definition empty_entry :: hash_entry where
  "empty_entry = \<lparr>he_block_id = 0, he_size = 0, he_flag = 0\<rparr>"

definition empty_hash :: block_hash where
  "empty_hash = \<lparr>bh_tab = [], bh_mask = 0, bh_count = 0\<rparr>"

definition fib_hash_block :: "u32 \<Rightarrow> u32" where
  "fib_hash_block key =
     (let h = (ucast key :: u64) * 0x740f1de9 in ucast h XOR ucast (drop_bit 32 h))"

definition probe_step :: "u32 \<Rightarrow> u32" where
  "probe_step hash = (drop_bit 15 hash AND 0x1fffe) OR 1"

partial_function (option) insert_probe ::
  "hash_entry list \<Rightarrow> u32 \<Rightarrow> u32 \<Rightarrow> u32 \<Rightarrow> u32 \<Rightarrow> nat option" where
  "insert_probe tab msk step bid slot =
     (if length tab \<le> unat slot then None
      else if he_flag (tab ! unat slot) = 0 \<or> he_flag (tab ! unat slot) = 2 then Some (unat slot)
      else if he_flag (tab ! unat slot) = 1 \<and> he_block_id (tab ! unat slot) = bid then Some (unat slot)
      else insert_probe tab msk step bid ((slot + step) AND msk))"

declare insert_probe.simps [code]

definition hash_place :: "block_hash \<Rightarrow> u32 \<Rightarrow> u32 \<Rightarrow> block_hash option" where
  "hash_place t bid sz =
     (let hash = fib_hash_block bid
      in case insert_probe (bh_tab t) (bh_mask t) (probe_step hash) bid (hash AND bh_mask t) of
           None \<Rightarrow> None
         | Some i \<Rightarrow>
             (if he_flag (bh_tab t ! i) = 0 \<or> he_flag (bh_tab t ! i) = 2
              then Some (t\<lparr>bh_tab := (bh_tab t)[i := \<lparr>he_block_id = bid, he_size = sz, he_flag = 1\<rparr>],
                           bh_count := bh_count t + 1\<rparr>)
              else Some (t\<lparr>bh_tab := (bh_tab t)[i := (bh_tab t ! i)\<lparr>he_size := sz\<rparr>]\<rparr>)))"

definition needs_grow :: "block_hash \<Rightarrow> bool" where
  "needs_grow t \<longleftrightarrow> bh_tab t = [] \<or> length (bh_tab t) \<le> unat ((bh_count t + 1) * 2)"

fun reinsert_all ::
  "(block_hash \<Rightarrow> u32 \<Rightarrow> u32 \<Rightarrow> block_hash option) \<Rightarrow> hash_entry list \<Rightarrow> block_hash \<Rightarrow> block_hash option"
where
  "reinsert_all ins [] t = Some t"
| "reinsert_all ins (e # es) t =
     (if he_flag e = 1
      then case ins t (he_block_id e) (he_size e) of None \<Rightarrow> None | Some t' \<Rightarrow> reinsert_all ins es t'
      else reinsert_all ins es t)"

definition grown_empty :: "block_hash \<Rightarrow> block_hash" where
  "grown_empty t =
     (let new_cap = (if bh_tab t = [] then 16 else of_nat (length (bh_tab t)) * 2 :: u32)
      in \<lparr>bh_tab = replicate (unat new_cap) empty_entry, bh_mask = new_cap - 1, bh_count = 0\<rparr>)"

fun block_hash_insert_d :: "nat \<Rightarrow> block_hash \<Rightarrow> u32 \<Rightarrow> u32 \<Rightarrow> block_hash option" where
  "block_hash_insert_d 0 t bid sz = (if needs_grow t then None else hash_place t bid sz)"
| "block_hash_insert_d (Suc d) t bid sz =
     (if needs_grow t
      then case reinsert_all (block_hash_insert_d d) (bh_tab t) (grown_empty t) of
             None \<Rightarrow> None | Some t' \<Rightarrow> hash_place t' bid sz
      else hash_place t bid sz)"

definition block_hash_grow :: "block_hash \<Rightarrow> block_hash option" where
  "block_hash_grow t = reinsert_all (block_hash_insert_d 0) (bh_tab t) (grown_empty t)"

definition block_hash_insert :: "block_hash \<Rightarrow> u32 \<Rightarrow> u32 \<Rightarrow> block_hash option" where
  "block_hash_insert t bid sz = block_hash_insert_d 1 t bid sz"

fun find_probe :: "nat \<Rightarrow> hash_entry list \<Rightarrow> u32 \<Rightarrow> u32 \<Rightarrow> u32 \<Rightarrow> u32 \<Rightarrow> nat option" where
  "find_probe 0 tab msk step bid slot = None"
| "find_probe (Suc n) tab msk step bid slot =
     (if he_flag (tab ! unat slot) = 0 then None
      else if he_flag (tab ! unat slot) = 1 \<and> he_block_id (tab ! unat slot) = bid then Some (unat slot)
      else find_probe n tab msk step bid ((slot + step) AND msk))"

definition block_hash_find :: "block_hash \<Rightarrow> u32 \<Rightarrow> nat option" where
  "block_hash_find t bid =
     (if bh_tab t = [] then None
      else let hash = fib_hash_block bid
           in find_probe (Suc (unat (bh_mask t))) (bh_tab t) (bh_mask t) (probe_step hash) bid
                (hash AND bh_mask t))"

text \<open>The write \<open>existing->size = sz\<close> through the pointer that the lookup returns.\<close>

definition hash_set_size :: "block_hash \<Rightarrow> nat \<Rightarrow> u32 \<Rightarrow> block_hash" where
  "hash_set_size t i sz = t\<lparr>bh_tab := (bh_tab t)[i := (bh_tab t ! i)\<lparr>he_size := sz\<rparr>]\<rparr>"

declare block_hash_insert_d.simps [simp del]

section \<open>The probe sequence\<close>

lemma odd_probe_step: "odd (unat (probe_step h))"
proof -
  have "bit (unat (probe_step h)) 0" by (simp add: probe_step_def bit_or_iff bit_unsigned_iff)
  then show ?thesis by (simp add: bit_0)
qed

definition probe :: "nat \<Rightarrow> u32 \<Rightarrow> nat \<Rightarrow> nat" where
  "probe c bid j =
     (unat (fib_hash_block bid) + j * unat (probe_step (fib_hash_block bid))) mod c"

lemma probe_neq:
  assumes "odd st" "i < j" "j < 2 ^ k"
  shows "(h + i * st) mod 2 ^ k \<noteq> (h + j * st) mod (2 ^ k :: nat)"
proof
  assume "(h + i * st) mod 2 ^ k = (h + j * st) mod 2 ^ k"
  then have "2 ^ k dvd (h + j * st) - (h + i * st)"
    using assms(2) by (intro mod_eq_dvd_iff_nat [THEN iffD1]) simp_all
  moreover have "(h + j * st) - (h + i * st) = (j - i) * st"
    by (simp add: diff_mult_distrib)
  moreover have "coprime (2 ^ k) st" using assms(1) by simp
  ultimately have "2 ^ k dvd j - i" by (simp add: coprime_dvd_mult_left_iff)
  with assms(2,3) show False by (auto dest: dvd_imp_le)
qed

lemma probe_inj:
  assumes "odd st"
  shows "inj_on (\<lambda>j. (h + j * st) mod 2 ^ k) {..<(2::nat) ^ k}"
  using probe_neq [OF assms] by (intro linorder_inj_onI) auto

lemma probe_onto:
  assumes "odd st" "s < 2 ^ k"
  shows "\<exists>j < 2 ^ k. (h + j * st) mod 2 ^ k = (s :: nat)"
proof -
  let ?f = "\<lambda>j. (h + j * st) mod 2 ^ k"
  have "?f ` {..<2 ^ k} = {..<2 ^ k}"
    by (rule endo_inj_surj) (use probe_inj [OF assms(1)] in auto)
  with assms(2) have "s \<in> ?f ` {..<2 ^ k}" by auto
  then show ?thesis by auto
qed

text \<open>\<open>slot_at k bid j\<close> is the slot word after \<open>j\<close> steps.\<close>

primrec slot_at :: "nat \<Rightarrow> u32 \<Rightarrow> nat \<Rightarrow> u32" where
  "slot_at k bid 0 = fib_hash_block bid AND mask k"
| "slot_at k bid (Suc j) = (slot_at k bid j + probe_step (fib_hash_block bid)) AND mask k"

lemma unat_slot_at:
  assumes "k \<le> 32"
  shows "unat (slot_at k bid j) = probe (2 ^ k) bid j"
proof (induction j)
  case 0
  show ?case by (simp add: probe_def unat_and_mask)
next
  case (Suc j)
  then show ?case
    by (simp add: unat_step_mask [OF assms] probe_def mod_simps algebra_simps)
qed

section \<open>The table invariant\<close>

definition occupied :: "hash_entry \<Rightarrow> bool" where
  "occupied e \<longleftrightarrow> he_flag e = 1"

text \<open>
  Slots are free or occupied (nothing ever writes a tombstone); keys are unique; and the probe
  sequence of a stored key runs over occupied slots until it meets the key.
\<close>

definition tab_ok :: "nat \<Rightarrow> hash_entry list \<Rightarrow> bool" where
  "tab_ok k tab \<longleftrightarrow> length tab = 2 ^ k \<and>
     (\<forall>e \<in> set tab. he_flag e = 0 \<or> he_flag e = 1) \<and>
     (\<forall>i < 2 ^ k. \<forall>j < 2 ^ k. occupied (tab ! i) \<and> occupied (tab ! j) \<and>
        he_block_id (tab ! i) = he_block_id (tab ! j) \<longrightarrow> i = j) \<and>
     (\<forall>i < 2 ^ k. occupied (tab ! i) \<longrightarrow>
        (\<exists>j. probe (2 ^ k) (he_block_id (tab ! i)) j = i \<and>
             (\<forall>m < j. occupied (tab ! probe (2 ^ k) (he_block_id (tab ! i)) m))))"

definition n_occupied :: "hash_entry list \<Rightarrow> nat" where
  "n_occupied tab = length (filter occupied tab)"

definition hash_inv :: "nat \<Rightarrow> block_hash \<Rightarrow> bool" where
  "hash_inv k t \<longleftrightarrow> tab_ok k (bh_tab t) \<and> 4 \<le> k \<and> k \<le> 31 \<and> bh_mask t = mask k \<and>
     unat (bh_count t) = n_occupied (bh_tab t) \<and> 2 * n_occupied (bh_tab t) < 2 ^ k"

lemma tab_ok_length: "tab_ok k tab \<Longrightarrow> length tab = 2 ^ k"
  by (simp add: tab_ok_def)

lemma tab_ok_flag: "tab_ok k tab \<Longrightarrow> i < 2 ^ k \<Longrightarrow> he_flag (tab ! i) = 0 \<or> occupied (tab ! i)"
  by (auto simp: tab_ok_def occupied_def)

lemma tab_ok_unique:
  "tab_ok k tab \<Longrightarrow> i < 2 ^ k \<Longrightarrow> j < 2 ^ k \<Longrightarrow> occupied (tab ! i) \<Longrightarrow> occupied (tab ! j) \<Longrightarrow>
     he_block_id (tab ! i) = he_block_id (tab ! j) \<Longrightarrow> i = j"
  by (simp add: tab_ok_def)

lemma tab_ok_reach:
  "tab_ok k tab \<Longrightarrow> i < 2 ^ k \<Longrightarrow> occupied (tab ! i) \<Longrightarrow>
     \<exists>j. probe (2 ^ k) (he_block_id (tab ! i)) j = i \<and>
         (\<forall>m < j. occupied (tab ! probe (2 ^ k) (he_block_id (tab ! i)) m))"
  by (simp add: tab_ok_def)

lemma probe_less: "probe (2 ^ k) bid j < 2 ^ k"
  by (simp add: probe_def)

text \<open>A probe stops at a free slot or at the key.\<close>

definition stops :: "hash_entry list \<Rightarrow> u32 \<Rightarrow> nat \<Rightarrow> bool" where
  "stops tab bid i \<longleftrightarrow> \<not> occupied (tab ! i) \<or> he_block_id (tab ! i) = bid"

lemma free_slot:
  assumes "tab_ok k tab" "n_occupied tab < 2 ^ k"
  shows "\<exists>i < 2 ^ k. \<not> occupied (tab ! i)"
proof (rule ccontr)
  assume "\<not> ?thesis"
  then have "\<forall>e \<in> set tab. occupied e"
    using assms(1) by (auto simp: in_set_conv_nth tab_ok_length)
  then have "n_occupied tab = 2 ^ k"
    using assms(1) by (simp add: n_occupied_def tab_ok_length)
  with assms(2) show False by simp
qed

lemma first_stop:
  assumes "tab_ok k tab" "n_occupied tab < 2 ^ k"
  obtains j where "j < 2 ^ k" "stops tab bid (probe (2 ^ k) bid j)"
    "\<forall>m < j. \<not> stops tab bid (probe (2 ^ k) bid m)"
proof -
  let ?P = "\<lambda>j. stops tab bid (probe (2 ^ k) bid j)"
  obtain i where i: "i < 2 ^ k" "\<not> occupied (tab ! i)" using free_slot [OF assms] by blast
  obtain j where j: "j < 2 ^ k" "probe (2 ^ k) bid j = i"
    using probe_onto [OF odd_probe_step i(1)] unfolding probe_def by blast
  have pj: "?P j" using i(2) j(2) by (simp add: stops_def)
  show ?thesis
  proof (rule that [of "LEAST j. ?P j"])
    show "?P (LEAST j. ?P j)" using pj by (rule LeastI)
    show "(LEAST j. ?P j) < 2 ^ k" using Least_le [of ?P, OF pj] j(1) by simp
    show "\<forall>m < (LEAST j. ?P j). \<not> ?P m" using not_less_Least [of _ ?P] by blast
  qed
qed

lemma insert_probe_runs:
  assumes "tab_ok k tab" "k \<le> 32" "\<forall>m < j. \<not> stops tab bid (probe (2 ^ k) bid m)"
    "stops tab bid (probe (2 ^ k) bid j)" "i \<le> j"
  shows "insert_probe tab (mask k) (probe_step (fib_hash_block bid)) bid (slot_at k bid i) =
    Some (probe (2 ^ k) bid j)"
  using assms(5)
proof (induction "j - i" arbitrary: i)
  case 0
  then have "i = j" by simp
  then show ?case
    using assms(1,4) tab_ok_flag [OF assms(1), of "probe (2 ^ k) bid j"] probe_less [of k bid j]
    by (subst insert_probe.simps)
       (auto simp: unat_slot_at [OF assms(2)] tab_ok_length stops_def occupied_def)
next
  case (Suc n)
  then have "i < j" by simp
  with assms(3) have ns: "\<not> stops tab bid (probe (2 ^ k) bid i)" by simp
  have "insert_probe tab (mask k) (probe_step (fib_hash_block bid)) bid (slot_at k bid i) =
      insert_probe tab (mask k) (probe_step (fib_hash_block bid)) bid (slot_at k bid (Suc i))"
    using ns assms(1) probe_less [of k bid i]
    by (subst insert_probe.simps)
       (auto simp: unat_slot_at [OF assms(2)] tab_ok_length stops_def occupied_def)
  also have "\<dots> = Some (probe (2 ^ k) bid j)" using Suc.hyps \<open>i < j\<close> by (intro Suc.hyps(1)) simp_all
  finally show ?case .
qed

lemma find_probe_runs:
  assumes "tab_ok k tab" "k \<le> 32" "\<forall>m < j. \<not> stops tab bid (probe (2 ^ k) bid m)"
    "stops tab bid (probe (2 ^ k) bid j)" "i \<le> j" "j - i < n"
  shows "find_probe n tab (mask k) (probe_step (fib_hash_block bid)) bid (slot_at k bid i) =
    (if occupied (tab ! probe (2 ^ k) bid j) then Some (probe (2 ^ k) bid j) else None)"
  using assms(5,6)
proof (induction n arbitrary: i)
  case 0
  then show ?case by simp
next
  case (Suc n)
  show ?case
  proof (cases "i = j")
    case True
    then show ?thesis
      using assms(4) tab_ok_flag [OF assms(1), of "probe (2 ^ k) bid j"] probe_less [of k bid j]
      by (auto simp: unat_slot_at [OF assms(2)] stops_def occupied_def)
  next
    case False
    with Suc.prems have "i < j" by simp
    with assms(3) have "\<not> stops tab bid (probe (2 ^ k) bid i)" by simp
    then show ?thesis
      using Suc.IH [of "Suc i"] Suc.prems \<open>i < j\<close>
      by (auto simp: unat_slot_at [OF assms(2)] stops_def occupied_def)
  qed
qed

section \<open>Lookup and placement\<close>

definition hash_wf :: "nat \<Rightarrow> block_hash \<Rightarrow> bool" where
  "hash_wf k t \<longleftrightarrow> tab_ok k (bh_tab t) \<and> 4 \<le> k \<and> k \<le> 31 \<and> bh_mask t = mask k \<and>
     unat (bh_count t) = n_occupied (bh_tab t) \<and> n_occupied (bh_tab t) < 2 ^ k"

lemma hash_inv_iff: "hash_inv k t \<longleftrightarrow> hash_wf k t \<and> 2 * n_occupied (bh_tab t) < 2 ^ k"
  by (auto simp: hash_inv_def hash_wf_def)

definition hash_lookup :: "block_hash \<Rightarrow> u32 \<Rightarrow> u32 option" where
  "hash_lookup t bid = map_option (\<lambda>i. he_size (bh_tab t ! i)) (block_hash_find t bid)"

lemma find_stop:
  assumes "hash_wf k t" "j < 2 ^ k" "stops (bh_tab t) bid (probe (2 ^ k) bid j)"
    "\<forall>m < j. \<not> stops (bh_tab t) bid (probe (2 ^ k) bid m)"
  shows "block_hash_find t bid =
    (if occupied (bh_tab t ! probe (2 ^ k) bid j) then Some (probe (2 ^ k) bid j) else None)"
proof -
  have ok: "tab_ok k (bh_tab t)" "k \<le> 31" "bh_mask t = mask k" using assms(1) by (auto simp: hash_wf_def)
  then have "bh_tab t \<noteq> []" using tab_ok_length [OF ok(1)] by auto
  then show ?thesis
    using find_probe_runs [OF ok(1) _ assms(4,3), of 0 "2 ^ k"] ok assms(2)
    by (simp add: block_hash_find_def Let_def unat_mask_u32)
qed

lemma block_hash_find_Some:
  assumes "hash_wf k t" "block_hash_find t bid = Some i"
  shows "i < 2 ^ k" "occupied (bh_tab t ! i)" "he_block_id (bh_tab t ! i) = bid"
proof -
  from assms(1) have "tab_ok k (bh_tab t)" "n_occupied (bh_tab t) < 2 ^ k" by (auto simp: hash_wf_def)
  from first_stop [OF this] obtain j where j: "j < 2 ^ k" "stops (bh_tab t) bid (probe (2 ^ k) bid j)"
    "\<forall>m < j. \<not> stops (bh_tab t) bid (probe (2 ^ k) bid m)" by blast
  from find_stop [OF assms(1) j] assms(2) j(2) probe_less
  show "i < 2 ^ k" "occupied (bh_tab t ! i)" "he_block_id (bh_tab t ! i) = bid"
    by (auto simp: stops_def split: if_splits)
qed

lemma block_hash_find_complete:
  assumes "hash_wf k t" "i < 2 ^ k" "occupied (bh_tab t ! i)"
  shows "block_hash_find t (he_block_id (bh_tab t ! i)) = Some i"
proof -
  let ?b = "he_block_id (bh_tab t ! i)"
  from assms(1) have ok: "tab_ok k (bh_tab t)" "n_occupied (bh_tab t) < 2 ^ k" by (auto simp: hash_wf_def)
  from first_stop [OF this] obtain j where j: "j < 2 ^ k" "stops (bh_tab t) ?b (probe (2 ^ k) ?b j)"
    "\<forall>m < j. \<not> stops (bh_tab t) ?b (probe (2 ^ k) ?b m)" by blast
  from tab_ok_reach [OF ok(1) assms(2,3)] obtain j0 where j0: "probe (2 ^ k) ?b j0 = i"
    "\<forall>m < j0. occupied (bh_tab t ! probe (2 ^ k) ?b m)" by blast
  have "stops (bh_tab t) ?b (probe (2 ^ k) ?b j0)" using j0(1) by (simp add: stops_def)
  with j(3) have "j \<le> j0" by (metis not_le)
  then have occ: "occupied (bh_tab t ! probe (2 ^ k) ?b j)"
    using j0 assms(3) by (cases "j = j0") auto
  with j(2) have "probe (2 ^ k) ?b j = i"
    using tab_ok_unique [OF ok(1) probe_less assms(2) occ assms(3)] by (auto simp: stops_def)
  with find_stop [OF assms(1) j] occ show ?thesis by simp
qed

lemma hash_lookup_iff:
  assumes "hash_wf k t"
  shows "hash_lookup t bid = Some sz \<longleftrightarrow>
    (\<exists>i < 2 ^ k. occupied (bh_tab t ! i) \<and> he_block_id (bh_tab t ! i) = bid \<and> he_size (bh_tab t ! i) = sz)"
  using block_hash_find_Some [OF assms] block_hash_find_complete [OF assms]
  unfolding hash_lookup_def by fastforce

lemma tab_ok_fill:
  assumes "tab_ok k tab" "\<not> occupied (tab ! probe (2 ^ k) bid j)"
    "\<forall>m < j. \<not> stops tab bid (probe (2 ^ k) bid m)"
    "\<forall>i < 2 ^ k. occupied (tab ! i) \<longrightarrow> he_block_id (tab ! i) \<noteq> bid"
  shows "tab_ok k (tab[probe (2 ^ k) bid j := \<lparr>he_block_id = bid, he_size = sz, he_flag = 1\<rparr>])"
proof -
  let ?s = "probe (2 ^ k) bid j"
  let ?t = "tab[?s := \<lparr>he_block_id = bid, he_size = sz, he_flag = 1\<rparr>]"
  have len: "length tab = 2 ^ k" using assms(1) by (rule tab_ok_length)
  have nth: "?t ! i = (if i = ?s then \<lparr>he_block_id = bid, he_size = sz, he_flag = 1\<rparr> else tab ! i)"
    if "i < 2 ^ k" for i using that len by (simp add: nth_list_update)
  have mono: "occupied (?t ! i)" if "occupied (tab ! i)" "i < 2 ^ k" for i
    using that nth by (simp add: occupied_def)
  have "\<exists>m. probe (2 ^ k) (he_block_id (?t ! i)) m = i \<and>
      (\<forall>l < m. occupied (?t ! probe (2 ^ k) (he_block_id (?t ! i)) l))"
    if i: "i < 2 ^ k" "occupied (?t ! i)" for i
  proof (cases "i = ?s")
    case True
    then show ?thesis using assms(3) mono probe_less nth [of ?s]
      by (intro exI [of _ j]) (auto simp: stops_def probe_less)
  next
    case False
    with i nth have "occupied (tab ! i)" "he_block_id (?t ! i) = he_block_id (tab ! i)" by auto
    with tab_ok_reach [OF assms(1) i(1)] mono probe_less show ?thesis by metis
  qed
  moreover have "\<forall>e \<in> set ?t. he_flag e = 0 \<or> he_flag e = 1"
    using assms(1) set_update_subset_insert [of tab ?s] by (fastforce simp: tab_ok_def)
  moreover have "\<forall>i < 2 ^ k. \<forall>l < 2 ^ k. occupied (?t ! i) \<and> occupied (?t ! l) \<and>
      he_block_id (?t ! i) = he_block_id (?t ! l) \<longrightarrow> i = l"
    using nth assms(4) tab_ok_unique [OF assms(1)] by auto
  ultimately show ?thesis using len by (simp add: tab_ok_def)
qed

lemma filter_update_length:
  assumes "i < length xs" "\<not> P (xs ! i)" "P y"
  shows "length (filter P (xs[i := y])) = Suc (length (filter P xs))"
  using assms
proof (induction xs arbitrary: i)
  case (Cons x xs)
  then show ?case by (cases i) auto
qed simp

lemma filter_update_same:
  assumes "i < length xs" "P (xs ! i)" "P y"
  shows "length (filter P (xs[i := y])) = length (filter P xs)"
  using assms
proof (induction xs arbitrary: i)
  case (Cons x xs)
  then show ?case by (cases i) auto
qed simp

lemma tab_ok_resize:
  assumes "tab_ok k tab" "i < 2 ^ k" "occupied (tab ! i)"
  shows "tab_ok k (tab[i := (tab ! i)\<lparr>he_size := sz\<rparr>])"
proof -
  let ?t = "tab[i := (tab ! i)\<lparr>he_size := sz\<rparr>]"
  have len: "length tab = 2 ^ k" using assms(1) by (rule tab_ok_length)
  have same: "he_block_id (?t ! l) = he_block_id (tab ! l)" "occupied (?t ! l) = occupied (tab ! l)"
    if "l < 2 ^ k" for l using that len by (cases "l = i"; simp add: occupied_def)+
  have "he_flag e = 0 \<or> he_flag e = 1" if "e \<in> set ?t" for e
    using that assms len set_update_subset_insert [of tab i "(tab ! i)\<lparr>he_size := sz\<rparr>"]
    by (auto simp: tab_ok_def occupied_def)
  then show ?thesis using assms(1) len by (simp add: tab_ok_def same probe_less)
qed

lemma hash_lookup_update:
  assumes "hash_wf k t" "hash_wf k t'" "s < 2 ^ k" "bh_tab t' = (bh_tab t)[s := e]"
    "occupied e" "he_block_id e = bid" "he_size e = sz"
    "occupied (bh_tab t ! s) \<longrightarrow> he_block_id (bh_tab t ! s) = bid"
    "\<forall>i < 2 ^ k. i \<noteq> s \<and> occupied (bh_tab t ! i) \<longrightarrow> he_block_id (bh_tab t ! i) \<noteq> bid"
  shows "hash_lookup t' = (hash_lookup t)(bid \<mapsto> sz)"
proof
  fix b
  have len: "length (bh_tab t) = 2 ^ k" using assms(1) by (simp add: hash_wf_def tab_ok_length)
  have "hash_lookup t' b = Some z \<longleftrightarrow> ((hash_lookup t)(bid \<mapsto> sz)) b = Some z" for z
  proof (cases "b = bid")
    case True
    have "hash_lookup t' bid = Some sz"
      unfolding hash_lookup_iff [OF assms(2)] using assms(3-7) len by (intro exI [of _ s]) simp
    with True show ?thesis by simp
  next
    case False
    have "occupied (bh_tab t' ! i) \<and> he_block_id (bh_tab t' ! i) = b \<and> he_size (bh_tab t' ! i) = z \<longleftrightarrow>
        occupied (bh_tab t ! i) \<and> he_block_id (bh_tab t ! i) = b \<and> he_size (bh_tab t ! i) = z"
      if "i < 2 ^ k" for i
      using False that assms(4,6,8) len by (cases "i = s") auto
    then show ?thesis
      unfolding hash_lookup_iff [OF assms(2)] fun_upd_apply using False
      by (auto simp: hash_lookup_iff [OF assms(1)])
  qed
  then show "hash_lookup t' b = ((hash_lookup t)(bid \<mapsto> sz)) b"
    by (metis not_None_eq)
qed

text \<open>What one placement does: it fills a free slot or overwrites the size of the key.\<close>

lemma hash_place_spec:
  assumes wf: "hash_wf k t" and room: "n_occupied (bh_tab t) + 1 < 2 ^ k"
  shows "\<exists>t'. hash_place t bid sz = Some t' \<and> hash_wf k t' \<and>
    hash_lookup t' = (hash_lookup t)(bid \<mapsto> sz) \<and>
    n_occupied (bh_tab t') \<le> Suc (n_occupied (bh_tab t))"
proof -
  from wf have ok: "tab_ok k (bh_tab t)" "n_occupied (bh_tab t) < 2 ^ k" "k \<le> 31" "4 \<le> k"
    "bh_mask t = mask k" "unat (bh_count t) = n_occupied (bh_tab t)" by (auto simp: hash_wf_def)
  from first_stop [OF ok(1,2)] obtain j where j: "j < 2 ^ k"
    "stops (bh_tab t) bid (probe (2 ^ k) bid j)" "\<forall>m < j. \<not> stops (bh_tab t) bid (probe (2 ^ k) bid m)"
    by blast
  let ?s = "probe (2 ^ k) bid j"
  let ?new = "(bh_tab t)[?s := \<lparr>he_block_id = bid, he_size = sz, he_flag = 1\<rparr>]"
  let ?upd = "(bh_tab t)[?s := (bh_tab t ! ?s)\<lparr>he_size := sz\<rparr>]"
  have len: "length (bh_tab t) = 2 ^ k" using ok(1) by (rule tab_ok_length)
  have s: "?s < 2 ^ k" by (rule probe_less)
  have run: "insert_probe (bh_tab t) (bh_mask t) (probe_step (fib_hash_block bid)) bid
      (fib_hash_block bid AND bh_mask t) = Some ?s"
    using insert_probe_runs [OF ok(1) _ j(3,2), of 0] ok(3,5) by simp
  show ?thesis
  proof (cases "occupied (bh_tab t ! ?s)")
    case False
    have fresh: "\<forall>i < 2 ^ k. occupied (bh_tab t ! i) \<longrightarrow> he_block_id (bh_tab t ! i) \<noteq> bid"
      using find_stop [OF wf j] block_hash_find_complete [OF wf] False by auto
    let ?t = "t\<lparr>bh_tab := ?new, bh_count := bh_count t + 1\<rparr>"
    have n: "n_occupied ?new = Suc (n_occupied (bh_tab t))"
      unfolding n_occupied_def using False s len by (intro filter_update_length) (auto simp: occupied_def)
    have "(2 :: nat) ^ k \<le> 2 ^ 31" using ok(3) by (intro power_increasing) auto
    with ok(6) room have "unat (bh_count t + 1) = Suc (n_occupied (bh_tab t))"
      by (simp add: unat_word_ariths)
    with n tab_ok_fill [OF ok(1) False j(3) fresh] ok room have wf': "hash_wf k ?t"
      by (simp add: hash_wf_def)
    have "hash_lookup ?t = (hash_lookup t)(bid \<mapsto> sz)"
      by (rule hash_lookup_update [OF wf wf' s]) (use False fresh in \<open>auto simp: occupied_def\<close>)
    with wf' n run False show ?thesis
      using tab_ok_flag [OF ok(1) s] by (auto simp: hash_place_def Let_def occupied_def)
  next
    case True
    with j(2) have key: "he_block_id (bh_tab t ! ?s) = bid" by (simp add: stops_def)
    let ?t = "t\<lparr>bh_tab := ?upd\<rparr>"
    have n: "n_occupied ?upd = n_occupied (bh_tab t)"
      unfolding n_occupied_def using True s len by (intro filter_update_same) (auto simp: occupied_def)
    with tab_ok_resize [OF ok(1) s True] ok have wf': "hash_wf k ?t" by (simp add: hash_wf_def)
    have "hash_lookup ?t = (hash_lookup t)(bid \<mapsto> sz)"
      by (rule hash_lookup_update [OF wf wf' s, where e = "(bh_tab t ! ?s)\<lparr>he_size := sz\<rparr>"])
         (use True key tab_ok_unique [OF ok(1) _ s _ True] in \<open>auto simp: occupied_def\<close>)
    with wf' n run True show ?thesis
      by (auto simp: hash_place_def Let_def occupied_def)
  qed
qed

section \<open>Growth and insertion\<close>

lemma hash_wf_grown:
  assumes "(bh_tab t = [] \<and> k = 3) \<or> (length (bh_tab t) = 2 ^ k \<and> 4 \<le> k)" "k \<le> 30"
  shows "hash_wf (Suc k) (grown_empty t)" "hash_lookup (grown_empty t) = Map.empty"
    "n_occupied (bh_tab (grown_empty t)) = 0"
proof -
  let ?c = "if bh_tab t = [] then 16 else of_nat (length (bh_tab t)) * 2 :: u32"
  have c: "?c = 2 ^ Suc k" using assms(1) by auto
  have lt: "(2 :: nat) ^ Suc k < 2 ^ 32" using assms(2) by (intro power_strict_increasing) auto
  have "(2 :: u32) ^ Suc k = of_nat (2 ^ Suc k)" by simp
  then have "unat ?c = take_bit 32 (2 ^ Suc k)" unfolding c by (simp only: unsigned_of_nat) simp
  also have "\<dots> = 2 ^ Suc k" using lt by (simp add: take_bit_nat_eq_self)
  finally have g: "grown_empty t = \<lparr>bh_tab = replicate (2 ^ Suc k) empty_entry, bh_mask = mask (Suc k), bh_count = 0\<rparr>"
    using c by (simp add: grown_empty_def Let_def mask_eq_exp_minus_1)
  have occ: "\<not> occupied empty_entry" by (simp add: occupied_def empty_entry_def)
  show n: "n_occupied (bh_tab (grown_empty t)) = 0" by (simp add: g n_occupied_def occ)
  show wf: "hash_wf (Suc k) (grown_empty t)"
    using assms n occ by (auto simp: hash_wf_def tab_ok_def g empty_entry_def)
  show "hash_lookup (grown_empty t) = Map.empty"
  proof
    fix b
    show "hash_lookup (grown_empty t) b = None"
      using hash_lookup_iff [OF wf, of b] occ by (cases "hash_lookup (grown_empty t) b") (auto simp: g)
  qed
qed

text \<open>The stored pairs in slot order.\<close>

definition entries_of :: "hash_entry list \<Rightarrow> (u32 \<times> u32) list" where
  "entries_of tab = map (\<lambda>e. (he_block_id e, he_size e)) (filter occupied tab)"

lemma entries_of_simps [simp]:
  "entries_of [] = []"
  "entries_of (e # es) = (if occupied e then [(he_block_id e, he_size e)] else []) @ entries_of es"
  by (simp_all add: entries_of_def)

lemma length_entries_of: "length (entries_of tab) = n_occupied tab"
  by (simp add: entries_of_def n_occupied_def)

lemma distinct_filter_keys:
  assumes "\<forall>i < length xs. \<forall>j < length xs. P (xs ! i) \<and> P (xs ! j) \<and> f (xs ! i) = f (xs ! j) \<longrightarrow> i = j"
  shows "distinct (map f (filter P xs))"
  using assms
proof (induction xs)
  case (Cons x xs)
  have "distinct (map f (filter P xs))"
  proof (rule Cons.IH, intro allI impI)
    fix i j assume "i < length xs" "j < length xs" "P (xs ! i) \<and> P (xs ! j) \<and> f (xs ! i) = f (xs ! j)"
    with Cons.prems [rule_format, of "Suc i" "Suc j"] show "i = j" by simp
  qed
  moreover have "f x \<notin> f ` set (filter P xs)" if "P x"
  proof
    assume "f x \<in> f ` set (filter P xs)"
    then obtain j where "j < length xs" "P (xs ! j)" "f x = f (xs ! j)" by (auto simp: in_set_conv_nth)
    with Cons.prems [rule_format, of 0 "Suc j"] that show False by simp
  qed
  ultimately show ?case by simp
qed simp

lemma entries_of_lookup:
  assumes "hash_wf k t"
  shows "distinct (map fst (entries_of (bh_tab t)))" "map_of (entries_of (bh_tab t)) = hash_lookup t"
proof -
  have ok: "tab_ok k (bh_tab t)" "length (bh_tab t) = 2 ^ k"
    using assms by (auto simp: hash_wf_def tab_ok_length)
  show d: "distinct (map fst (entries_of (bh_tab t)))"
    using ok distinct_filter_keys [of "bh_tab t" occupied he_block_id]
    by (simp add: entries_of_def comp_def tab_ok_def)
  show "map_of (entries_of (bh_tab t)) = hash_lookup t"
  proof
    fix b
    have "map_of (entries_of (bh_tab t)) b = Some z \<longleftrightarrow> hash_lookup t b = Some z" for z
      unfolding map_of_eq_Some_iff [OF d] hash_lookup_iff [OF assms]
      using ok(2) by (force simp: entries_of_def in_set_conv_nth)
    then show "map_of (entries_of (bh_tab t)) b = hash_lookup t b" by (metis not_None_eq)
  qed
qed

lemma needs_grow_iff:
  assumes "hash_wf k t" "n_occupied (bh_tab t) < 2 ^ 30"
  shows "needs_grow t \<longleftrightarrow> 2 ^ k \<le> 2 * (n_occupied (bh_tab t) + 1)"
proof -
  have "length (bh_tab t) = 2 ^ k" "unat (bh_count t) = n_occupied (bh_tab t)"
    using assms(1) by (auto simp: hash_wf_def tab_ok_length)
  with assms(2) show ?thesis by (auto simp: needs_grow_def unat_word_ariths)
qed

lemma no_grow:
  assumes "hash_wf k t" "2 * (n_occupied (bh_tab t) + 1) < 2 ^ k"
  shows "\<not> needs_grow t"
proof -
  have "(2 :: nat) ^ k \<le> 2 ^ 31" using assms(1) by (intro power_increasing) (auto simp: hash_wf_def)
  with assms show ?thesis by (subst needs_grow_iff) auto
qed

lemma insert_d0_spec:
  assumes "hash_wf k t" "2 * (n_occupied (bh_tab t) + 1) < 2 ^ k"
  shows "block_hash_insert_d 0 t bid sz = hash_place t bid sz"
    "\<exists>t'. hash_place t bid sz = Some t' \<and> hash_inv k t' \<and>
       hash_lookup t' = (hash_lookup t)(bid \<mapsto> sz) \<and>
       n_occupied (bh_tab t') \<le> Suc (n_occupied (bh_tab t))"
proof -
  show "block_hash_insert_d 0 t bid sz = hash_place t bid sz"
    using no_grow [OF assms] by (simp add: block_hash_insert_d.simps)
  have "n_occupied (bh_tab t) + 1 < 2 ^ k" using assms(2) by simp
  from hash_place_spec [OF assms(1) this, of bid sz] assms(2)
  show "\<exists>t'. hash_place t bid sz = Some t' \<and> hash_inv k t' \<and>
       hash_lookup t' = (hash_lookup t)(bid \<mapsto> sz) \<and>
       n_occupied (bh_tab t') \<le> Suc (n_occupied (bh_tab t))"
    by (fastforce simp: hash_inv_iff)
qed

lemma reinsert_all_spec:
  assumes "hash_wf k t" "2 * (n_occupied (bh_tab t) + length (entries_of es)) < 2 ^ k"
    "distinct (map fst (entries_of es))"
  shows "\<exists>t'. reinsert_all (block_hash_insert_d 0) es t = Some t' \<and> hash_wf k t' \<and>
    hash_lookup t' = hash_lookup t ++ map_of (entries_of es) \<and>
    n_occupied (bh_tab t') \<le> n_occupied (bh_tab t) + length (entries_of es)"
  using assms
proof (induction es arbitrary: t)
  case Nil
  then show ?case by simp
next
  case (Cons e es)
  show ?case
  proof (cases "occupied e")
    case False
    with Cons show ?thesis by (simp add: occupied_def)
  next
    case True
    with Cons.prems have r: "2 * (n_occupied (bh_tab t) + 1) < 2 ^ k" by simp
    note ins = insert_d0_spec [OF Cons.prems(1) r, of "he_block_id e" "he_size e"]
    from ins(2) obtain t' where t': "hash_place t (he_block_id e) (he_size e) = Some t'" "hash_wf k t'"
      "hash_lookup t' = (hash_lookup t)(he_block_id e \<mapsto> he_size e)"
      "n_occupied (bh_tab t') \<le> Suc (n_occupied (bh_tab t))" by (auto simp: hash_inv_iff)
    have "2 * (n_occupied (bh_tab t') + length (entries_of es)) < 2 ^ k"
      using Cons.prems(2) t'(4) True by simp
    from Cons.IH [OF t'(2) this] Cons.prems(3) True obtain t'' where t'':
      "reinsert_all (block_hash_insert_d 0) es t' = Some t''" "hash_wf k t''"
      "hash_lookup t'' = hash_lookup t' ++ map_of (entries_of es)"
      "n_occupied (bh_tab t'') \<le> n_occupied (bh_tab t') + length (entries_of es)" by auto
    have "he_block_id e \<notin> dom (map_of (entries_of es))"
      using Cons.prems(3) True by (auto simp: dom_map_of_conv_image_fst)
    then have "hash_lookup t'' = hash_lookup t ++ map_of (entries_of (e # es))"
      using True t'(3) t''(3) by (simp add: map_add_upd_left)
    moreover have "n_occupied (bh_tab t'') \<le> n_occupied (bh_tab t) + length (entries_of (e # es))"
      using t''(4) t'(4) True by simp
    moreover have "reinsert_all (block_hash_insert_d 0) (e # es) t = Some t''"
      using True t'(1) t''(1) ins(1) by (simp add: occupied_def)
    ultimately show ?thesis using t''(2) by blast
  qed
qed

text \<open>The table between operations: never used, or within the invariant.\<close>

definition hash_ok :: "block_hash \<Rightarrow> bool" where
  "hash_ok t \<longleftrightarrow> t = empty_hash \<or> (\<exists>k. hash_inv k t)"

definition hash_room :: "block_hash \<Rightarrow> nat" where
  "hash_room t = 2 ^ 30 - 1 - unat (bh_count t)"

lemma hash_grow_spec:
  assumes "hash_ok t" "0 < hash_room t" "needs_grow t"
  shows "\<exists>k t'. block_hash_grow t = Some t' \<and> hash_wf k t' \<and>
    2 * (n_occupied (bh_tab t') + 1) < 2 ^ k \<and> hash_lookup t' = hash_lookup t \<and>
    unat (bh_count t') \<le> unat (bh_count t)"
proof (cases "t = empty_hash")
  case True
  have "block_hash_grow t = Some (grown_empty t)"
    using True by (simp add: block_hash_grow_def empty_hash_def)
  moreover have "hash_lookup t = Map.empty"
    using True by (auto simp: hash_lookup_def block_hash_find_def empty_hash_def)
  moreover note hash_wf_grown [of t 3]
  ultimately show ?thesis
    using True by (intro exI [of _ 4] exI [of _ "grown_empty t"])
      (auto simp: empty_hash_def hash_wf_def numeral_eq_Suc)
next
  case False
  with assms(1) obtain k where inv: "hash_inv k t" by (auto simp: hash_ok_def)
  let ?n = "n_occupied (bh_tab t)"
  have wf: "hash_wf k t" and ld: "2 * ?n < 2 ^ k" and c: "unat (bh_count t) = ?n" and k4: "4 \<le> k"
    and len: "length (bh_tab t) = 2 ^ k"
    using inv by (auto simp: hash_inv_iff hash_wf_def tab_ok_length)
  have n30: "?n + 1 < 2 ^ 30" using assms(2) c by (simp add: hash_room_def)
  with assms(3) needs_grow_iff [OF wf] have "(2 :: nat) ^ k < 2 ^ 31" by auto
  then have k30: "k \<le> 30" using power_less_imp_less_exp [of "2 :: nat" k 31] by simp
  note g = hash_wf_grown [of t k, OF _ k30]
  have ne: "bh_tab t \<noteq> []" using len by auto
  note el = entries_of_lookup [OF wf]
  have "2 * (n_occupied (bh_tab (grown_empty t)) + length (entries_of (bh_tab t))) < 2 ^ Suc k"
    using ld g(3) len k4 by (simp add: length_entries_of)
  from reinsert_all_spec [OF g(1) this el(1)] len k4 obtain t' where t':
    "block_hash_grow t = Some t'" "hash_wf (Suc k) t'"
    "hash_lookup t' = hash_lookup (grown_empty t) ++ map_of (entries_of (bh_tab t))"
    "n_occupied (bh_tab t') \<le> n_occupied (bh_tab (grown_empty t)) + length (entries_of (bh_tab t))"
    by (auto simp: block_hash_grow_def)
  have n': "n_occupied (bh_tab t') \<le> ?n" using t'(4) g(3) len k4 by (simp add: length_entries_of)
  have "(2 :: nat) ^ 4 \<le> 2 ^ k" using k4 by (intro power_increasing) auto
  with n' ld have "2 * (n_occupied (bh_tab t') + 1) < 2 ^ Suc k" by simp
  moreover have "hash_lookup t' = hash_lookup t" using t'(3) g(2) el(2) len k4 by simp
  ultimately show ?thesis using t'(1,2) n' c by (auto simp: hash_wf_def)
qed

lemma block_hash_insert_spec:
  assumes "hash_ok t" "0 < hash_room t"
  shows "\<exists>t'. block_hash_insert t bid sz = Some t' \<and> hash_ok t' \<and>
    hash_lookup t' = (hash_lookup t)(bid \<mapsto> sz) \<and> hash_room t \<le> Suc (hash_room t')"
proof -
  have "\<exists>k t1. hash_wf k t1 \<and> 2 * (n_occupied (bh_tab t1) + 1) < 2 ^ k \<and>
      hash_lookup t1 = hash_lookup t \<and> unat (bh_count t1) \<le> unat (bh_count t) \<and>
      block_hash_insert t bid sz = hash_place t1 bid sz"
  proof (cases "needs_grow t")
    case True
    with hash_grow_spec [OF assms True] show ?thesis
      by (fastforce simp: block_hash_insert_def block_hash_grow_def block_hash_insert_d.simps)
  next
    case False
    then have "t \<noteq> empty_hash" by (auto simp: needs_grow_def empty_hash_def)
    with assms(1) obtain k where inv: "hash_inv k t" by (auto simp: hash_ok_def)
    then have c: "unat (bh_count t) = n_occupied (bh_tab t)" by (simp add: hash_inv_def)
    with assms(2) have "n_occupied (bh_tab t) < 2 ^ 30" by (simp add: hash_room_def)
    with False inv needs_grow_iff [of k t] have "2 * (n_occupied (bh_tab t) + 1) < 2 ^ k"
      by (auto simp: hash_inv_iff)
    with inv False show ?thesis
      by (auto simp: block_hash_insert_def hash_inv_iff block_hash_insert_d.simps)
  qed
  then obtain k t1 where t1: "hash_wf k t1" "2 * (n_occupied (bh_tab t1) + 1) < 2 ^ k"
    "hash_lookup t1 = hash_lookup t" "unat (bh_count t1) \<le> unat (bh_count t)"
    "block_hash_insert t bid sz = hash_place t1 bid sz" by blast
  from insert_d0_spec(2) [OF t1(1,2), of bid sz] obtain t' where t': "hash_place t1 bid sz = Some t'"
    "hash_inv k t'" "hash_lookup t' = (hash_lookup t1)(bid \<mapsto> sz)"
    "n_occupied (bh_tab t') \<le> Suc (n_occupied (bh_tab t1))" by blast
  have "unat (bh_count t') \<le> Suc (unat (bh_count t))"
    using t'(2,4) t1(1,4) by (simp add: hash_inv_def hash_wf_def)
  then have "hash_room t \<le> Suc (hash_room t')" by (simp add: hash_room_def)
  with t' t1(3,5) show ?thesis by (auto simp: hash_ok_def)
qed

section \<open>The contract of a keyed table\<close>

fun insert_list :: "('t \<Rightarrow> 'k \<Rightarrow> 'v \<Rightarrow> 't option) \<Rightarrow> ('k \<times> 'v) list \<Rightarrow> 't \<Rightarrow> 't option" where
  "insert_list ins [] t = Some t"
| "insert_list ins ((b, s) # kvs) t =
     (case ins t b s of None \<Rightarrow> None | Some t' \<Rightarrow> insert_list ins kvs t')"

locale keyed_table =
  fixes init :: "'t"
    and ins :: "'t \<Rightarrow> 'k \<Rightarrow> 'v \<Rightarrow> 't option"
    and look :: "'t \<Rightarrow> 'k \<Rightarrow> 'v option"
    and ok :: "'t \<Rightarrow> bool"
    and room :: "'t \<Rightarrow> nat"
  assumes init_ok: "ok init"
    and init_look: "look init = Map.empty"
    and ins_ok: "ok t \<Longrightarrow> 0 < room t \<Longrightarrow>
      \<exists>t'. ins t b s = Some t' \<and> ok t' \<and> look t' = (look t)(b \<mapsto> s) \<and> room t \<le> Suc (room t')"
begin

lemma insert_list_ok:
  assumes "ok t" "length kvs \<le> room t"
  shows "\<exists>t'. insert_list ins kvs t = Some t' \<and> ok t' \<and> look t' = look t ++ map_of (rev kvs) \<and>
    room t \<le> length kvs + room t'"
  using assms
proof (induction kvs arbitrary: t)
  case Nil
  then show ?case by simp
next
  case (Cons kv kvs)
  obtain b s where kv: "kv = (b, s)" by fastforce
  from ins_ok [OF Cons.prems(1), of b s] Cons.prems(2) obtain t1 where t1: "ins t b s = Some t1" "ok t1"
    "look t1 = (look t)(b \<mapsto> s)" "room t \<le> Suc (room t1)" by fastforce
  with Cons.prems(2) have "length kvs \<le> room t1" by simp
  from Cons.IH [OF t1(2) this] obtain t' where t': "insert_list ins kvs t1 = Some t'" "ok t'"
    "look t' = look t1 ++ map_of (rev kvs)" "room t1 \<le> length kvs + room t'" by blast
  have "look t' = look t ++ map_of (rev (kv # kvs))"
    unfolding t'(3) t1(3) by (auto simp: kv fun_eq_iff map_add_def split: option.splits)
  with t' t1 show ?case by (auto simp: kv)
qed

lemma insert_list_from_init:
  assumes "length kvs \<le> room init"
  shows "\<exists>t. insert_list ins kvs init = Some t \<and> ok t \<and> look t = map_of (rev kvs) \<and>
    room init \<le> length kvs + room t"
  using insert_list_ok [OF init_ok assms] by (simp add: init_look)

end

lemma hash_lookup_empty: "hash_lookup empty_hash = Map.empty"
  by (auto simp: hash_lookup_def block_hash_find_def empty_hash_def)

interpretation bh: keyed_table empty_hash block_hash_insert hash_lookup hash_ok hash_room
  by unfold_locales (simp_all add: hash_lookup_empty block_hash_insert_spec, simp add: hash_ok_def)

lemma hash_set_size_spec:
  assumes "hash_ok t" "block_hash_find t bid = Some i"
  shows "hash_ok (hash_set_size t i sz)" "hash_lookup (hash_set_size t i sz) = (hash_lookup t)(bid \<mapsto> sz)"
    "hash_room (hash_set_size t i sz) = hash_room t"
proof -
  have "t \<noteq> empty_hash" using assms(2) by (auto simp: block_hash_find_def empty_hash_def)
  with assms(1) obtain k where inv: "hash_inv k t" by (auto simp: hash_ok_def)
  then have wf: "hash_wf k t" and ok: "tab_ok k (bh_tab t)" and len: "length (bh_tab t) = 2 ^ k"
    by (auto simp: hash_inv_iff hash_wf_def tab_ok_length)
  note f = block_hash_find_Some [OF wf assms(2)]
  have u: "\<forall>l < 2 ^ k. l \<noteq> i \<and> occupied (bh_tab t ! l) \<longrightarrow> he_block_id (bh_tab t ! l) \<noteq> bid"
  proof (intro allI impI notI, elim conjE)
    fix l assume "l < 2 ^ k" "occupied (bh_tab t ! l)" "he_block_id (bh_tab t ! l) = bid" "l \<noteq> i"
    with tab_ok_unique [OF ok, of l i] f show False by simp
  qed
  have n: "n_occupied ((bh_tab t)[i := (bh_tab t ! i)\<lparr>he_size := sz\<rparr>]) = n_occupied (bh_tab t)"
    unfolding n_occupied_def using f len by (intro filter_update_same) (auto simp: occupied_def)
  with inv tab_ok_resize [OF ok f(1,2)] have inv': "hash_inv k (hash_set_size t i sz)"
    by (simp add: hash_inv_def hash_set_size_def)
  then show "hash_ok (hash_set_size t i sz)" by (auto simp: hash_ok_def)
  have wf': "hash_wf k (hash_set_size t i sz)" using inv' by (simp add: hash_inv_iff)
  show "hash_lookup (hash_set_size t i sz) = (hash_lookup t)(bid \<mapsto> sz)"
    by (rule hash_lookup_update [OF wf wf' f(1), where e = "(bh_tab t ! i)\<lparr>he_size := sz\<rparr>"])
       (use f u in \<open>simp_all add: occupied_def hash_set_size_def\<close>)
  show "hash_room (hash_set_size t i sz) = hash_room t" by (simp add: hash_room_def hash_set_size_def)
qed

section \<open>Properties\<close>

text \<open>
  C4: the block index is a finite map. Starting from the empty table, fewer than \<open>2 ^ 30\<close> insertions
  always return (the unbounded probe loop ends and growth never recurses), whatever the ids, and a
  lookup then returns exactly the size of the last insertion of its id.
\<close>

theorem block_hash_refines_map:
  assumes "length kvs < 2 ^ 30"
  shows "\<exists>t. insert_list block_hash_insert kvs empty_hash = Some t \<and>
    (\<forall>bid. map_option (\<lambda>i. he_size (bh_tab t ! i)) (block_hash_find t bid) = map_of (rev kvs) bid)"
proof -
  have "length kvs \<le> hash_room empty_hash" using assms by (simp add: hash_room_def empty_hash_def)
  from bh.insert_list_from_init [OF this] obtain t where
    "insert_list block_hash_insert kvs empty_hash = Some t" "hash_lookup t = map_of (rev kvs)" by blast
  then show ?thesis by (auto simp: hash_lookup_def fun_eq_iff)
qed

theorem block_hash_refines_map_witness:
  "\<exists>t. insert_list block_hash_insert [(1, 128), (2, 256), (1, 512)] empty_hash = Some t \<and>
    map_option (\<lambda>i. he_size (bh_tab t ! i)) (block_hash_find t 1) = Some 512 \<and>
    block_hash_find t 7 = None"
proof -
  from block_hash_refines_map [of "[(1, 128), (2, 256), (1, 512)]"] obtain t where
    t: "insert_list block_hash_insert [(1, 128), (2, 256), (1, 512)] empty_hash = Some t"
    "\<forall>bid. map_option (\<lambda>i. he_size (bh_tab t ! i)) (block_hash_find t bid) =
       map_of (rev [(1, 128), (2, 256), (1, 512)]) bid" by auto
  from t(2) [rule_format, of 1] t(2) [rule_format, of 7] t(1) show ?thesis by auto
qed

text \<open>
  The probe sequence of every key visits every slot of a table of \<open>2 ^ k\<close> slots within
  \<open>2 ^ k\<close> steps, because the step derived from the hash is odd.
\<close>

theorem probe_sequence_full_cycle:
  assumes "k \<le> 32"
  shows "(\<lambda>j. unat (slot_at k bid j)) ` {..<2 ^ k} = {..<2 ^ k}"
proof -
  have "(\<lambda>j. unat (slot_at k bid j)) = probe (2 ^ k) bid"
    by (simp add: unat_slot_at [OF assms] fun_eq_iff)
  moreover have "s \<in> probe (2 ^ k) bid ` {..<2 ^ k}" if "s < 2 ^ k" for s
    using probe_onto [OF odd_probe_step that, of "unat (fib_hash_block bid)" "fib_hash_block bid"]
    by (force simp: probe_def)
  ultimately show ?thesis using probe_less [of k bid] by (simp only:) auto
qed

theorem probe_sequence_full_cycle_witness:
  "(\<lambda>j. unat (slot_at 4 77 j)) ` {..<16} = {..<16}"
  using probe_sequence_full_cycle [of 4 77] by simp

text \<open>
  growing the table loses, adds and alters nothing, whatever its contents, and leaves it with
  room for another entry.
\<close>

lemma block_hash_grow_preserves:
  assumes "insert_list block_hash_insert kvs empty_hash = Some t" and "length kvs < 2 ^ 30 - 1"
    and "needs_grow t"
  shows "\<exists>t'. block_hash_grow t = Some t' \<and> \<not> needs_grow t' \<and>
    (\<forall>bid. map_option (\<lambda>i. he_size (bh_tab t' ! i)) (block_hash_find t' bid) = map_of (rev kvs) bid)"
proof -
  have r: "hash_room empty_hash = 2 ^ 30 - 1" by (simp add: hash_room_def empty_hash_def)
  from bh.insert_list_from_init [of kvs] assms(1,2) r
  have t: "hash_ok t" "hash_lookup t = map_of (rev kvs)" "0 < hash_room t" by auto
  from hash_grow_spec [OF t(1,3) assms(3)] obtain k t' where t': "block_hash_grow t = Some t'"
    "hash_wf k t'" "2 * (n_occupied (bh_tab t') + 1) < 2 ^ k" "hash_lookup t' = hash_lookup t" by blast
  with t(2) no_grow [OF t'(2,3)] show ?thesis by (auto simp: hash_lookup_def fun_eq_iff)
qed

lemma block_hash_grow_preserves_witness:
  "\<exists>t'. block_hash_grow empty_hash = Some t' \<and> \<not> needs_grow t' \<and> block_hash_find t' 5 = None"
  using block_hash_grow_preserves [of "[]" empty_hash] by (auto simp: needs_grow_def empty_hash_def)

end
