(* ===== verification/OverlapAlloc.thy ===== *)
theory OverlapAlloc
  imports BlockHash GraphIr
begin

text \<open>
  The per-operator producer/consumer reuse of \<open>FancyAllocator\<close>
  (\<open>compiler/src/vtcm/fancy_allocator.cpp\<close>): the block table, the free lists by size class,
  \<open>force_contiguous\<close>, \<open>link_blocks\<close>, \<open>allow_tensor_overlap_opdef\<close>, the closing pass
  \<open>allocate_tcm_blocks_internal\<close>, the persistent pools and the loops of
  \<open>GraphPrepare::vtcm_overlap_alloc\<close> and \<open>vtcm_block_alloc_finalize\<close> that drive them.

  Block ids, sizes and lives are 32-bit words and truncate as in the code; byte offsets (64-bit in
  the code) are natural numbers. The two \<open>std::unordered_map\<close>s are association lists. \<open>desc\<close> stands
  for \<open>GraphDeps::find_opdesc\<close>: the life of an operator's output, where it is known. The only
  partial operation is the insertion into the block index, whose \<open>None\<close> is shown not to occur.
\<close>

section \<open>Data\<close>

record block_entry =
  be_block_id :: u32
  be_size :: u32
  be_life_begin :: u32
  be_life_end :: u32
  be_flag :: "8 word"
  be_vtcm_offset :: bytes
  be_linked_to :: u32

record overlap_alloc =
  oa_offset :: bytes
  oa_block_id :: u32
  oa_spilled :: bool
  oa_reused :: bool
  oa_linked_to :: u32

record persistent_pool =
  pp_pool_id :: nat
  pp_base_offset :: bytes
  pp_total_size :: bytes
  pp_block_count :: nat
  pp_is_replaceable :: bool
  pp_nsp_id :: nat

record overlap_state =
  ov_mode :: u32
  ov_hash :: block_hash
  ov_table :: "block_entry list"
  ov_idx :: "(u32 \<times> nat) list"
  ov_free :: "(u32 \<times> u32 list) list"
  ov_next_block_id :: u32
  ov_next_offset :: bytes
  ov_saved :: bytes
  ov_budget :: bytes
  ov_allocs :: "(op_id \<times> overlap_alloc) list"

definition overlap_init :: overlap_state where
  "overlap_init = \<lparr>ov_mode = 0, ov_hash = empty_hash, ov_table = [], ov_idx = [], ov_free = [],
     ov_next_block_id = 1, ov_next_offset = 0, ov_saved = 0, ov_budget = 0, ov_allocs = []\<rparr>"

definition set_mode :: "u32 \<Rightarrow> overlap_state \<Rightarrow> overlap_state" where
  "set_mode mode s = s\<lparr>ov_mode := mode\<rparr>"

definition set_overlap_budget :: "bytes \<Rightarrow> overlap_state \<Rightarrow> overlap_state" where
  "set_overlap_budget budget s = s\<lparr>ov_budget := budget\<rparr>"

section \<open>Size classes and free lists\<close>

text \<open>The shift loop: the position of the highest set bit.\<close>

fun shift_count :: "nat \<Rightarrow> nat" where
  "shift_count aligned = (if 1 < aligned then Suc (shift_count (aligned div 2)) else 0)"

declare shift_count.simps [simp del]

definition size_to_class :: "u32 \<Rightarrow> u32" where
  "size_to_class sz =
     (if sz = 0 then 0
      else let aligned = (sz + 127) AND NOT 127;
               aligned = (if aligned < 16 then 16 else aligned)
           in of_nat (shift_count (unat aligned)))"

definition free_list_add :: "u32 \<Rightarrow> overlap_state \<Rightarrow> overlap_state" where
  "free_list_add bid s =
     (case map_of (ov_idx s) bid of
        None \<Rightarrow> s
      | Some i \<Rightarrow>
          let cls = size_to_class (be_size (ov_table s ! i));
              l = (case map_of (ov_free s) cls of None \<Rightarrow> [] | Some l \<Rightarrow> l)
          in s\<lparr>ov_free := AList.update cls (l @ [bid]) (ov_free s)\<rparr>)"

fun pop_scan :: "overlap_state \<Rightarrow> u32 \<Rightarrow> u32 \<Rightarrow> u32 list \<Rightarrow> (u32 \<times> u32 list) option" where
  "pop_scan s lb le [] = None"
| "pop_scan s lb le (bid # bids) =
     (case map_of (ov_idx s) bid of
        None \<Rightarrow> map_option (\<lambda>(b, l). (b, bid # l)) (pop_scan s lb le bids)
      | Some i \<Rightarrow>
          (if le < be_life_begin (ov_table s ! i) \<or> be_life_end (ov_table s ! i) < lb
           then Some (bid, bids)
           else map_option (\<lambda>(b, l). (b, bid # l)) (pop_scan s lb le bids)))"

definition free_list_try_pop :: "u32 \<Rightarrow> u32 \<Rightarrow> u32 \<Rightarrow> overlap_state \<Rightarrow> u32 \<times> overlap_state" where
  "free_list_try_pop cls lb le s =
     (case map_of (ov_free s) cls of
        None \<Rightarrow> (0, s)
      | Some l \<Rightarrow>
          (case pop_scan s lb le l of
             None \<Rightarrow> (0, s)
           | Some (bid, l') \<Rightarrow> (bid, s\<lparr>ov_free := AList.update cls l' (ov_free s)\<rparr>)))"

section \<open>Registration\<close>

type_synonym block_req = "u32 \<times> u32 \<times> u32 \<times> u32"

definition saved_bytes :: "u32 \<Rightarrow> bytes" where
  "saved_bytes sz = unat ((sz + 127) AND NOT 127)"

definition new_block_entry :: "u32 \<Rightarrow> u32 \<Rightarrow> u32 \<Rightarrow> u32 \<Rightarrow> block_entry" where
  "new_block_entry bid sz lb le =
     \<lparr>be_block_id = bid, be_size = sz, be_life_begin = lb, be_life_end = le, be_flag = 1,
      be_vtcm_offset = 0, be_linked_to = 0\<rparr>"

definition touch_block :: "u32 \<Rightarrow> nat \<Rightarrow> u32 \<Rightarrow> u32 \<Rightarrow> u32 \<Rightarrow> overlap_state \<Rightarrow> overlap_state" where
  "touch_block bid i sz lb le s =
     (let s1 = s\<lparr>ov_hash := hash_set_size (ov_hash s) i sz\<rparr>
      in case map_of (ov_idx s) bid of
           None \<Rightarrow> s1
         | Some j \<Rightarrow> s1\<lparr>ov_table := (ov_table s)[j := (ov_table s ! j)\<lparr>be_life_begin := lb, be_life_end := le\<rparr>]\<rparr>)"

definition reuse_block :: "nat \<Rightarrow> u32 \<Rightarrow> u32 \<Rightarrow> overlap_state \<Rightarrow> overlap_state" where
  "reuse_block n reuse_bid sz s =
     (let j = (case map_of (ov_idx s) reuse_bid of Some j \<Rightarrow> j | None \<Rightarrow> 0)
      in s\<lparr>ov_table := (ov_table s)[n := (ov_table s ! n)
               \<lparr>be_vtcm_offset := be_vtcm_offset (ov_table s ! j), be_linked_to := reuse_bid, be_flag := 2\<rparr>],
           ov_saved := ov_saved s + saved_bytes sz\<rparr>)"

definition bump_block :: "nat \<Rightarrow> u32 \<Rightarrow> overlap_state \<Rightarrow> overlap_state" where
  "bump_block n sz s =
     (let aligned_sz = round_up 128 (unat sz)
      in if 0 < ov_budget s \<and> ov_budget s < ov_next_offset s + aligned_sz then s
         else s\<lparr>ov_table := (ov_table s)[n := (ov_table s ! n)\<lparr>be_vtcm_offset := ov_next_offset s\<rparr>],
                ov_next_offset := ov_next_offset s + aligned_sz\<rparr>)"

definition register_block :: "block_req \<Rightarrow> overlap_state \<Rightarrow> overlap_state option" where
  "register_block = (\<lambda>(bid, sz, lb, le) s.
     case block_hash_find (ov_hash s) bid of
       Some i \<Rightarrow> Some (touch_block bid i sz lb le s)
     | None \<Rightarrow>
         (case block_hash_insert (ov_hash s) bid sz of
            None \<Rightarrow> None
          | Some h \<Rightarrow>
              let n = length (ov_table s);
                  s1 = s\<lparr>ov_hash := h, ov_idx := AList.update bid n (ov_idx s),
                         ov_table := ov_table s @ [new_block_entry bid sz lb le]\<rparr>;
                  (reuse_bid, s2) = free_list_try_pop (size_to_class sz) lb le s1
              in Some (if reuse_bid \<noteq> 0 then reuse_block n reuse_bid sz s2 else bump_block n sz s2)))"

fun register_blocks :: "block_req list \<Rightarrow> overlap_state \<Rightarrow> overlap_state option" where
  "register_blocks [] s = Some s"
| "register_blocks (r # rs) s =
     (case register_block r s of None \<Rightarrow> None | Some s' \<Rightarrow> register_blocks rs s')"

definition force_contiguous :: "block_req list \<Rightarrow> overlap_state \<Rightarrow> (u32 \<times> overlap_state) option" where
  "force_contiguous rs s =
     (if rs = [] then Some (0, s)
      else map_option (\<lambda>s'. (fst (hd rs), s')) (register_blocks rs s))"

section \<open>Linking\<close>

definition share_offset :: "nat \<Rightarrow> nat \<Rightarrow> u32 \<Rightarrow> overlap_state \<Rightarrow> overlap_state" where
  "share_offset from into linked s =
     s\<lparr>ov_table := (ov_table s)[into := (ov_table s ! into)
           \<lparr>be_vtcm_offset := be_vtcm_offset (ov_table s ! from), be_linked_to := linked, be_flag := 2\<rparr>],
       ov_saved := ov_saved s + saved_bytes (be_size (ov_table s ! into))\<rparr>"

definition link_offsets :: "nat \<Rightarrow> nat \<Rightarrow> u32 \<Rightarrow> u32 \<Rightarrow> overlap_state \<Rightarrow> overlap_state" where
  "link_offsets i1 i2 id1 id2 s =
     (let b1 = ov_table s ! i1; b2 = ov_table s ! i2
      in if be_size b1 = be_size b2
         then (if be_vtcm_offset b1 \<noteq> 0 \<and> be_vtcm_offset b2 = 0 then share_offset i1 i2 id1 s
               else if be_vtcm_offset b2 \<noteq> 0 \<and> be_vtcm_offset b1 = 0 then share_offset i2 i1 id2 s
               else s)
         else (let (l, sm) = (if be_size b2 < be_size b1 then (i1, i2) else (i2, i1))
               in if be_vtcm_offset (ov_table s ! l) \<noteq> 0 \<and> be_vtcm_offset (ov_table s ! sm) = 0
                  then share_offset l sm (be_block_id (ov_table s ! l)) s else s))"

definition link_blocks :: "u32 \<Rightarrow> u32 \<Rightarrow> overlap_state \<Rightarrow> overlap_state" where
  "link_blocks id1 id2 s =
     (if id1 = id2 then s
      else case (map_of (ov_idx s) id1, map_of (ov_idx s) id2) of
             (Some i1, Some i2) \<Rightarrow>
               (let s1 = link_offsets i1 i2 id1 id2 s
                in if be_flag (ov_table s1 ! i1) = 1 then free_list_add id1 s1 else s1)
           | _ \<Rightarrow> s)"

section \<open>One operator\<close>

definition tensor_size32 :: "output_def \<Rightarrow> u32" where
  "tensor_size32 od =
     (let sz = prod_list (map of_nat (filter (\<lambda>d. 0 < d) (take (min (out_rank od) 5) (out_dims od)))) :: u64;
          esize = (if out_element_size od \<noteq> 0 then of_nat (out_element_size od) else 4)
      in ucast (sz * esize))"

type_synonym life_desc = "op_id \<Rightarrow> (u32 \<times> u32) option"

definition input_req :: "life_desc \<Rightarrow> input_conn \<Rightarrow> block_req" where
  "input_req desc conn =
     (let (lb, le) = (case desc (src_id conn) of Some l \<Rightarrow> l | None \<Rightarrow> (0, 0))
      in (of_nat (src_id conn), tensor_size32 (src_out_def conn), lb, le))"

definition entry_alloc :: "u32 \<Rightarrow> bool \<Rightarrow> block_entry \<Rightarrow> overlap_alloc" where
  "entry_alloc bid spilled be =
     \<lparr>oa_offset = be_vtcm_offset be, oa_block_id = bid, oa_spilled = spilled,
      oa_reused = (be_flag be = 2), oa_linked_to = be_linked_to be\<rparr>"

definition record_output :: "op_id \<Rightarrow> u32 \<Rightarrow> overlap_state \<Rightarrow> overlap_state" where
  "record_output op bid s =
     (case map_of (ov_idx s) bid of
        None \<Rightarrow> s
      | Some i \<Rightarrow>
          let be = ov_table s ! i
          in s\<lparr>ov_allocs := AList.update op
                 (entry_alloc bid (be_vtcm_offset be = 0 \<and> ov_budget s < ov_next_offset s) be)
                 (ov_allocs s)\<rparr>)"

text \<open>
  The loop that records the inputs pairs position \<open>i\<close> of the kept block ids with position \<open>i\<close> of all
  inputs, the skipped ones (\<open>src_id = 0\<close>) included.
\<close>

definition record_input :: "op_id \<times> u32 \<Rightarrow> overlap_state \<Rightarrow> overlap_state" where
  "record_input = (\<lambda>(op, bid) s.
     if map_of (ov_allocs s) op \<noteq> None then s
     else case map_of (ov_idx s) bid of
            None \<Rightarrow> s
          | Some i \<Rightarrow> s\<lparr>ov_allocs := AList.update op (entry_alloc bid False (ov_table s ! i)) (ov_allocs s)\<rparr>)"

definition record_lone_output :: "op_id \<Rightarrow> u32 \<Rightarrow> overlap_state \<Rightarrow> overlap_state" where
  "record_lone_output op bid s =
     (let i = (case map_of (ov_idx s) bid of Some i \<Rightarrow> i | None \<Rightarrow> 0)
      in s\<lparr>ov_allocs := AList.update op
             \<lparr>oa_offset = be_vtcm_offset (ov_table s ! i), oa_block_id = bid, oa_spilled = False,
              oa_reused = False, oa_linked_to = 0\<rparr> (ov_allocs s)\<rparr>)"

definition output_block_id :: "op_def \<Rightarrow> overlap_state \<Rightarrow> u32 \<times> overlap_state" where
  "output_block_id od s =
     (if (of_nat (opd_op_id od) :: u32) = 0
      then (ov_next_block_id s, s\<lparr>ov_next_block_id := ov_next_block_id s + 1\<rparr>)
      else (of_nat (opd_op_id od), s))"

definition allow_tensor_overlap_opdef ::
  "life_desc \<Rightarrow> op_def \<Rightarrow> nat \<Rightarrow> overlap_state \<Rightarrow> overlap_state option" where
  "allow_tensor_overlap_opdef desc od topo_idx s =
     (if ov_mode s \<noteq> 0 \<or> is_const od \<or> tensor_size32 (opd_output_def od) = 0 then Some s
      else
        let (out_bid, s0) = output_block_id od s;
            (lb, le) = (case desc (opd_op_id od) of Some l \<Rightarrow> l
                        | None \<Rightarrow> (of_nat topo_idx, of_nat topo_idx));
            out_req = (out_bid, tensor_size32 (opd_output_def od), lb, le);
            ins = map (input_req desc) (filter (\<lambda>c. src_id c \<noteq> 0) (opd_inputs od))
        in if ins = []
           then map_option (\<lambda>(p, s1). record_lone_output (opd_op_id od) out_bid s1)
                  (force_contiguous [out_req] s0)
           else map_option (\<lambda>(p, s1).
                    fold record_input (zip (map src_id (opd_inputs od)) (map fst ins))
                      (record_output (opd_op_id od) out_bid (link_blocks (fst (hd ins)) out_bid s1)))
                  (force_contiguous (ins @ [out_req]) s0))"

section \<open>The passes over the graph\<close>

definition overlap_skip :: "op_def option \<Rightarrow> bool" where
  "overlap_skip od = (case od of None \<Rightarrow> True | Some od \<Rightarrow> \<not> is_enabled od \<or> is_dead od)"

fun overlap_loop ::
  "life_desc \<Rightarrow> op_def option list \<Rightarrow> nat \<Rightarrow> overlap_state \<Rightarrow> overlap_state option" where
  "overlap_loop desc [] topo_idx s = Some s"
| "overlap_loop desc (od # ods) topo_idx s =
     (if overlap_skip od then overlap_loop desc ods (Suc topo_idx) s
      else case allow_tensor_overlap_opdef desc (the od) topo_idx s of
             None \<Rightarrow> None | Some s' \<Rightarrow> overlap_loop desc ods (Suc topo_idx) s')"

definition vtcm_overlap_alloc ::
  "life_desc \<Rightarrow> op_def option list \<Rightarrow> bytes \<Rightarrow> overlap_state \<Rightarrow> overlap_state option" where
  "vtcm_overlap_alloc desc sorted_ops usable s =
     overlap_loop desc sorted_ops 0 (set_overlap_budget usable s)"

definition life_end_before :: "overlap_state \<Rightarrow> u32 \<Rightarrow> nat \<times> u32" where
  "life_end_before s b =
     (case map_of (ov_idx s) b of
        None \<Rightarrow> (2 ^ 32, b)
      | Some i \<Rightarrow> (2 ^ 32 - 1 - unat (be_life_end (ov_table s ! i)), b))"

definition sort_blocks_by_reverse_lifetime_end :: "overlap_state \<Rightarrow> u32 list \<Rightarrow> u32 list" where
  "sort_blocks_by_reverse_lifetime_end s bids = sort_key (life_end_before s) bids"

definition allocate_tcm_block :: "u32 \<Rightarrow> overlap_state \<Rightarrow> overlap_state option" where
  "allocate_tcm_block bid s =
     (case block_hash_find (ov_hash s) bid of
        Some _ \<Rightarrow> Some s
      | None \<Rightarrow>
          (case map_of (ov_idx s) bid of
             None \<Rightarrow> Some s
           | Some i \<Rightarrow>
               let sz = be_size (ov_table s ! i);
                   aligned_sz = round_up 2048 (unat sz);
                   s1 = (if 0 < ov_budget s \<and> ov_budget s < ov_next_offset s + aligned_sz
                         then s\<lparr>ov_table := (ov_table s)[i := (ov_table s ! i)\<lparr>be_vtcm_offset := 0\<rparr>]\<rparr>
                         else s\<lparr>ov_table := (ov_table s)[i := (ov_table s ! i)\<lparr>be_vtcm_offset := ov_next_offset s\<rparr>],
                                ov_next_offset := ov_next_offset s + aligned_sz\<rparr>)
               in map_option (\<lambda>h. s1\<lparr>ov_hash := h\<rparr>) (block_hash_insert (ov_hash s1) bid sz)))"

fun allocate_tcm_loop :: "u32 list \<Rightarrow> overlap_state \<Rightarrow> overlap_state option" where
  "allocate_tcm_loop [] s = Some s"
| "allocate_tcm_loop (bid # bids) s =
     (case allocate_tcm_block bid s of None \<Rightarrow> None | Some s' \<Rightarrow> allocate_tcm_loop bids s')"

definition allocate_tcm_blocks_internal :: "u32 list \<Rightarrow> overlap_state \<Rightarrow> overlap_state option" where
  "allocate_tcm_blocks_internal bids s =
     (if bids = [] then Some s else allocate_tcm_loop (sort_blocks_by_reverse_lifetime_end s bids) s)"

definition obtain_loc_of_tcm_blocks :: "u32 list \<Rightarrow> u32 \<Rightarrow> overlap_state \<Rightarrow> bytes" where
  "obtain_loc_of_tcm_blocks bids msk s =
     sum_list (map (\<lambda>bid. case map_of (ov_idx s) bid of
          None \<Rightarrow> 0
        | Some i \<Rightarrow> unat ((be_size (ov_table s ! i) + of_nat (be_vtcm_offset (ov_table s ! i))) AND msk)) bids)"

definition vtcm_block_alloc_finalize :: "overlap_state \<Rightarrow> overlap_state option" where
  "vtcm_block_alloc_finalize s = allocate_tcm_blocks_internal (map fst (ov_idx s)) s"

section \<open>Persistent pools\<close>

definition next_base :: "persistent_pool list \<Rightarrow> bytes" where
  "next_base ps = (if ps = [] then 0 else pp_base_offset (last ps) + pp_total_size (last ps))"

definition has_persistent_bit :: "block_entry \<Rightarrow> bool" where
  "has_persistent_bit be \<longleftrightarrow> be_life_begin be = 0"

definition has_replaceable_bit :: "block_entry \<Rightarrow> bool" where
  "has_replaceable_bit be \<longleftrightarrow> False"

definition block_pool :: "nat \<Rightarrow> bool \<Rightarrow> block_entry list \<Rightarrow> persistent_pool list \<Rightarrow> persistent_pool list" where
  "block_pool pid replaceable blocks ps =
     (if blocks = [] then ps
      else ps @ [\<lparr>pp_pool_id = pid, pp_base_offset = next_base ps,
                  pp_total_size = sum_list (map (unat \<circ> be_size) blocks),
                  pp_block_count = length blocks, pp_is_replaceable = replaceable, pp_nsp_id = 0\<rparr>])"

definition make_persistent_pools :: "overlap_state \<Rightarrow> persistent_pool list" where
  "make_persistent_pools s =
     (let blocks = filter (\<lambda>be. be_size be \<noteq> 0) (rev (ov_table s));
          list_a = filter (\<lambda>be. has_persistent_bit be \<and> \<not> has_replaceable_bit be) blocks;
          replaceable_blocks = filter (\<lambda>be. has_persistent_bit be \<and> has_replaceable_bit be) blocks;
          ps = block_pool 1 True replaceable_blocks (block_pool 0 False list_a [])
      in ps @ [\<lparr>pp_pool_id = 0x100, pp_base_offset = next_base ps, pp_total_size = 0x100,
                pp_block_count = 0, pp_is_replaceable = False, pp_nsp_id = 0\<rparr>])"

section \<open>The space invariant\<close>

text \<open>
  The part of a block that the layout depends on: flag, offset and size. A primary block owns bytes
  of its own: it is in use, not linked to another block, and its offset is assigned. (Offset 0 is
  both the code's mark for \<open>not assigned\<close> and the offset of the first block.)
\<close>

type_synonym space = "8 word \<times> bytes \<times> u32"

definition space_of :: "block_entry \<Rightarrow> space" where
  "space_of be = (be_flag be, be_vtcm_offset be, be_size be)"

definition primary :: "space \<Rightarrow> bool" where
  "primary = (\<lambda>(f, off, sz). f = 1 \<and> off \<noteq> 0)"

definition sp_off :: "space \<Rightarrow> bytes" where
  "sp_off = (\<lambda>(f, off, sz). off)"

definition sp_end :: "space \<Rightarrow> bytes" where
  "sp_end = (\<lambda>(f, off, sz). off + round_up 128 (unat sz))"

definition space_ok :: "bytes \<Rightarrow> bytes \<Rightarrow> space list \<Rightarrow> bool" where
  "space_ok budget nxt xs \<longleftrightarrow> (0 < budget \<longrightarrow> nxt \<le> budget) \<and> 128 dvd nxt \<and>
     (\<forall>x \<in> set xs. 128 dvd sp_off x \<and> sp_off x \<le> nxt \<and> (primary x \<longrightarrow> sp_end x \<le> nxt)) \<and>
     (\<forall>i < length xs. \<forall>j < length xs. i \<noteq> j \<and> primary (xs ! i) \<and> primary (xs ! j) \<longrightarrow>
        range_disj (sp_off (xs ! i)) (sp_end (xs ! i)) (sp_off (xs ! j)) (sp_end (xs ! j)))"

lemma space_okD:
  assumes "space_ok budget nxt xs"
  shows "0 < budget \<Longrightarrow> nxt \<le> budget" "128 dvd nxt"
    "x \<in> set xs \<Longrightarrow> 128 dvd sp_off x" "x \<in> set xs \<Longrightarrow> sp_off x \<le> nxt"
    "x \<in> set xs \<Longrightarrow> primary x \<Longrightarrow> sp_end x \<le> nxt"
    "i < length xs \<Longrightarrow> j < length xs \<Longrightarrow> i \<noteq> j \<Longrightarrow> primary (xs ! i) \<Longrightarrow> primary (xs ! j) \<Longrightarrow>
       range_disj (sp_off (xs ! i)) (sp_end (xs ! i)) (sp_off (xs ! j)) (sp_end (xs ! j))"
  using assms by (simp_all add: space_ok_def)

lemma space_ok_append:
  assumes "space_ok budget nxt xs" "\<not> primary x" "128 dvd sp_off x" "sp_off x \<le> nxt"
  shows "space_ok budget nxt (xs @ [x])"
  using assms unfolding space_ok_def by (auto simp: nth_append less_Suc_eq)

lemma space_ok_update:
  assumes "space_ok budget nxt xs" "\<not> primary x" "128 dvd sp_off x" "sp_off x \<le> nxt" "i < length xs"
  shows "space_ok budget nxt (xs[i := x])"
proof -
  note old = space_okD [OF assms(1)]
  have "128 dvd sp_off y \<and> sp_off y \<le> nxt \<and> (primary y \<longrightarrow> sp_end y \<le> nxt)" if "y \<in> set (xs[i := x])" for y
    using in_set_updateD [OF that] old(3,4,5) [of y] assms(2-4) by (elim disjE) simp_all
  moreover have "range_disj (sp_off (xs[i := x] ! k)) (sp_end (xs[i := x] ! k))
      (sp_off (xs[i := x] ! j)) (sp_end (xs[i := x] ! j))"
    if "k < length xs" "j < length xs" "k \<noteq> j" "primary (xs[i := x] ! k)" "primary (xs[i := x] ! j)" for k j
    using that old(6) [of k j] assms(2,5) by (cases "k = i"; cases "j = i") auto
  ultimately show ?thesis using assms(1) unfolding space_ok_def by simp
qed

lemma space_ok_bump:
  assumes "space_ok budget nxt xs" "i < length xs" "0 < budget \<longrightarrow> nxt + round_up 128 (unat sz) \<le> budget"
  shows "space_ok budget (nxt + round_up 128 (unat sz)) (xs[i := (1, nxt, sz)])"
proof -
  let ?n = "nxt + round_up 128 (unat sz)" and ?x = "(1, nxt, sz) :: space"
  note old = space_okD [OF assms(1)]
  have x: "sp_off ?x = nxt" "sp_end ?x = ?n" by (simp_all add: sp_off_def sp_end_def)
  have "128 dvd sp_off y \<and> sp_off y \<le> ?n \<and> (primary y \<longrightarrow> sp_end y \<le> ?n)" if "y \<in> set (xs[i := ?x])" for y
    using in_set_updateD [OF that] old(2) old(3,4,5) [of y] x by (elim disjE) auto
  moreover have "range_disj (sp_off (xs[i := ?x] ! k)) (sp_end (xs[i := ?x] ! k))
      (sp_off (xs[i := ?x] ! j)) (sp_end (xs[i := ?x] ! j))"
    if kj: "k < length xs" "j < length xs" "k \<noteq> j" "primary (xs[i := ?x] ! k)" "primary (xs[i := ?x] ! j)" for k j
    using that old(5) [of "xs ! k"] old(5) [of "xs ! j"] old(6) [of k j] x assms(2)
    by (cases "k = i"; cases "j = i") (auto simp: range_disj_def)
  moreover have "128 dvd ?n" using old(2) by simp
  ultimately show ?thesis using assms(3) unfolding space_ok_def by simp
qed

section \<open>The allocator invariant\<close>

definition index_ok :: "overlap_state \<Rightarrow> bool" where
  "index_ok s \<longleftrightarrow> hash_ok (ov_hash s) \<and>
     dom (hash_lookup (ov_hash s)) = dom (map_of (ov_idx s)) \<and>
     (\<forall>b i. map_of (ov_idx s) b = Some i \<longrightarrow>
        i < length (ov_table s) \<and> be_block_id (ov_table s ! i) = b)"

definition ov_inv :: "overlap_state \<Rightarrow> bool" where
  "ov_inv s \<longleftrightarrow> index_ok s \<and> space_ok (ov_budget s) (ov_next_offset s) (map space_of (ov_table s))"

lemma index_okD:
  assumes "index_ok s"
  shows "hash_ok (ov_hash s)" "dom (hash_lookup (ov_hash s)) = dom (map_of (ov_idx s))"
    "map_of (ov_idx s) b = Some i \<Longrightarrow> i < length (ov_table s)"
    "map_of (ov_idx s) b = Some i \<Longrightarrow> be_block_id (ov_table s ! i) = b"
  using assms by (simp_all add: index_ok_def)

lemma find_None_iff: "block_hash_find h b = None \<longleftrightarrow> b \<notin> dom (hash_lookup h)"
  by (auto simp: hash_lookup_def)

text \<open>Changes of the table that keep the block ids keep the index.\<close>

lemma index_ok_cong:
  assumes "index_ok s" "map be_block_id (ov_table s') = map be_block_id (ov_table s)"
    "ov_idx s' = ov_idx s" "ov_hash s' = ov_hash s"
  shows "index_ok s'"
proof -
  have len: "length (ov_table s') = length (ov_table s)" using assms(2) by (rule map_eq_imp_length_eq)
  have "be_block_id (ov_table s' ! i) = be_block_id (ov_table s ! i)" if "i < length (ov_table s)" for i
    using that assms(2) len by (metis nth_map)
  with assms len show ?thesis by (auto simp: index_ok_def)
qed

lemma touch_block_inv:
  assumes "ov_inv s" "block_hash_find (ov_hash s) bid = Some i"
  shows "ov_inv (touch_block bid i sz lb le s)"
    "hash_room (ov_hash (touch_block bid i sz lb le s)) = hash_room (ov_hash s)"
proof -
  have ix: "index_ok s" using assms(1) by (simp add: ov_inv_def)
  note h = hash_set_size_spec [OF index_okD(1) [OF ix] assms(2), of sz]
  have dom: "bid \<in> dom (map_of (ov_idx s))"
    using assms(2) index_okD(2) [OF ix] find_None_iff [of "ov_hash s" bid] by auto
  then obtain j where j: "map_of (ov_idx s) bid = Some j" by auto
  let ?h = "s\<lparr>ov_hash := hash_set_size (ov_hash s) i sz\<rparr>"
  have hx: "index_ok ?h"
    using ix h(1,2) dom by (auto simp: index_ok_def)
  let ?e = "(ov_table s ! j)\<lparr>be_life_begin := lb, be_life_end := le\<rparr>"
  have t: "touch_block bid i sz lb le s = ?h\<lparr>ov_table := (ov_table s)[j := ?e]\<rparr>"
    using j by (simp add: touch_block_def Let_def)
  have "index_ok (touch_block bid i sz lb le s)"
    unfolding t by (rule index_ok_cong [OF hx]) (simp_all add: map_update_entry)
  moreover have "map space_of ((ov_table s)[j := ?e]) = map space_of (ov_table s)"
    by (rule map_update_entry) (simp add: space_of_def)
  ultimately show "ov_inv (touch_block bid i sz lb le s)"
    using assms(1) by (simp add: ov_inv_def t)
  show "hash_room (ov_hash (touch_block bid i sz lb le s)) = hash_room (ov_hash s)"
    using h(3) by (simp add: t)
qed

lemma ov_inv_frame [simp]:
  "ov_inv (s\<lparr>ov_free := f\<rparr>) = ov_inv s" "ov_inv (s\<lparr>ov_allocs := a\<rparr>) = ov_inv s"
  "ov_inv (s\<lparr>ov_next_block_id := n\<rparr>) = ov_inv s"
  by (simp_all add: ov_inv_def index_ok_def)

lemma free_list_add_inv [simp]:
  "ov_inv (free_list_add bid s) = ov_inv s" "ov_hash (free_list_add bid s) = ov_hash s"
  by (auto simp: free_list_add_def Let_def split: option.splits)

lemma share_offset_inv:
  assumes "ov_inv s" "j < length (ov_table s)" "i < length (ov_table s)"
  shows "ov_inv (share_offset j i l s)"
proof -
  let ?e = "(ov_table s ! i)\<lparr>be_vtcm_offset := be_vtcm_offset (ov_table s ! j), be_linked_to := l, be_flag := 2\<rparr>"
  have sp: "space_ok (ov_budget s) (ov_next_offset s) (map space_of (ov_table s))"
    using assms(1) by (simp add: ov_inv_def)
  have mem: "space_of (ov_table s ! j) \<in> set (map space_of (ov_table s))" using assms(2) by simp
  have off: "sp_off (space_of ?e) = sp_off (space_of (ov_table s ! j))" "\<not> primary (space_of ?e)"
    by (simp_all add: sp_off_def space_of_def primary_def)
  have "space_ok (ov_budget s) (ov_next_offset s) ((map space_of (ov_table s))[i := space_of ?e])"
  proof (rule space_ok_update [OF sp off(2)])
    show "128 dvd sp_off (space_of ?e)" unfolding off(1) by (rule space_okD(3) [OF sp mem])
    show "sp_off (space_of ?e) \<le> ov_next_offset s" unfolding off(1) by (rule space_okD(4) [OF sp mem])
    show "i < length (map space_of (ov_table s))" using assms(3) by simp
  qed
  moreover have "index_ok (share_offset j i l s)"
    by (rule index_ok_cong [of s]) (use assms(1) in \<open>simp_all add: ov_inv_def share_offset_def map_update_entry\<close>)
  ultimately show ?thesis by (simp add: ov_inv_def share_offset_def map_update)
qed

lemma link_offsets_inv:
  assumes "ov_inv s" "i1 < length (ov_table s)" "i2 < length (ov_table s)"
  shows "ov_inv (link_offsets i1 i2 id1 id2 s)" "ov_hash (link_offsets i1 i2 id1 id2 s) = ov_hash s"
  using assms share_offset_inv [OF assms(1)]
  by (auto simp: link_offsets_def Let_def) (auto simp: share_offset_def)

lemma ov_inv_idx: "ov_inv s \<Longrightarrow> map_of (ov_idx s) b = Some i \<Longrightarrow> i < length (ov_table s)"
  by (simp add: ov_inv_def index_ok_def)

lemma link_blocks_inv:
  assumes "ov_inv s"
  shows "ov_inv (link_blocks id1 id2 s)" "ov_hash (link_blocks id1 id2 s) = ov_hash s"
  using assms link_offsets_inv [OF assms] ov_inv_idx [OF assms]
  by (simp_all add: link_blocks_def Let_def split: option.split)

lemma free_list_try_pop_simps:
  assumes "free_list_try_pop cls lb le s = (b, s')"
  shows "ov_inv s' = ov_inv s" "ov_hash s' = ov_hash s" "ov_table s' = ov_table s" "ov_idx s' = ov_idx s"
    "ov_budget s' = ov_budget s" "ov_next_offset s' = ov_next_offset s"
  using assms
  by (auto simp: free_list_try_pop_def split: option.splits prod.splits)

lemma pop_scan_registered: "pop_scan s lb le l = Some (b, l') \<Longrightarrow> map_of (ov_idx s) b \<noteq> None"
  by (induction l arbitrary: l') (auto split: option.splits if_splits)

lemma free_list_try_pop_registered:
  "free_list_try_pop cls lb le s = (b, s') \<Longrightarrow> b \<noteq> 0 \<Longrightarrow> map_of (ov_idx s) b \<noteq> None"
  by (auto simp: free_list_try_pop_def dest: pop_scan_registered split: option.splits prod.splits)

lemma bump_block_inv:
  assumes "ov_inv s" "n < length (ov_table s)" "be_flag (ov_table s ! n) = 1" "be_size (ov_table s ! n) = sz"
  shows "ov_inv (bump_block n sz s)"
proof (cases "0 < ov_budget s \<and> ov_budget s < ov_next_offset s + round_up 128 (unat sz)")
  case True
  then show ?thesis using assms(1) by (simp add: bump_block_def Let_def)
next
  case False
  let ?e = "(ov_table s ! n)\<lparr>be_vtcm_offset := ov_next_offset s\<rparr>"
  have "space_of ?e = (1, ov_next_offset s, sz)" using assms(3,4) by (simp add: space_of_def)
  then have "space_ok (ov_budget s) (ov_next_offset s + round_up 128 (unat sz))
      (map space_of ((ov_table s)[n := ?e]))"
    using space_ok_bump [of "ov_budget s" "ov_next_offset s" "map space_of (ov_table s)" n sz]
      assms(1,2) False by (auto simp: ov_inv_def map_update)
  moreover have "index_ok (bump_block n sz s)"
    by (rule index_ok_cong [of s])
       (use assms(1) False in \<open>auto simp: ov_inv_def bump_block_def Let_def map_update_entry\<close>)
  ultimately show ?thesis using False by (auto simp: ov_inv_def bump_block_def Let_def)
qed

lemma reuse_block_share:
  assumes "map_of (ov_idx s) b = Some j" "be_size (ov_table s ! n) = sz"
  shows "reuse_block n b sz s = share_offset j n b s"
  using assms by (simp add: reuse_block_def share_offset_def)

lemma add_entry_inv:
  assumes "ov_inv s" "hash_ok h" "hash_lookup h = (hash_lookup (ov_hash s))(bid \<mapsto> sz)"
    "block_hash_find (ov_hash s) bid = None"
  shows "ov_inv (s\<lparr>ov_hash := h, ov_idx := AList.update bid (length (ov_table s)) (ov_idx s),
    ov_table := ov_table s @ [new_block_entry bid sz lb le]\<rparr>)"
proof -
  let ?e = "new_block_entry bid sz lb le"
  have ix: "index_ok s" and sp: "space_ok (ov_budget s) (ov_next_offset s) (map space_of (ov_table s))"
    using assms(1) by (auto simp: ov_inv_def)
  have "\<not> primary (space_of ?e)" "sp_off (space_of ?e) = 0"
    by (simp_all add: primary_def space_of_def new_block_entry_def sp_off_def)
  with space_ok_append [OF sp] have "space_ok (ov_budget s) (ov_next_offset s) (map space_of (ov_table s @ [?e]))"
    by simp
  moreover have "index_ok (s\<lparr>ov_hash := h, ov_idx := AList.update bid (length (ov_table s)) (ov_idx s),
      ov_table := ov_table s @ [?e]\<rparr>)"
    using ix assms(2,3) index_okD(3,4) [OF ix]
    by (auto simp: index_ok_def update_conv' nth_append new_block_entry_def less_Suc_eq)
  ultimately show ?thesis by (simp add: ov_inv_def)
qed

lemma register_block_inv:
  assumes "ov_inv s" "0 < hash_room (ov_hash s)"
  shows "\<exists>s'. register_block r s = Some s' \<and> ov_inv s' \<and>
    hash_room (ov_hash s) \<le> Suc (hash_room (ov_hash s'))"
proof -
  obtain bid sz lb le where r: "r = (bid, sz, lb, le)" by (cases r) auto
  show ?thesis
  proof (cases "block_hash_find (ov_hash s) bid")
    case (Some i)
    with touch_block_inv [OF assms(1) Some] show ?thesis by (auto simp: r register_block_def)
  next
    case None
    have "hash_ok (ov_hash s)" using assms(1) by (simp add: ov_inv_def index_ok_def)
    from bh.ins_ok [OF this assms(2), of bid sz] obtain h where h: "block_hash_insert (ov_hash s) bid sz = Some h"
      "hash_ok h" "hash_lookup h = (hash_lookup (ov_hash s))(bid \<mapsto> sz)"
      "hash_room (ov_hash s) \<le> Suc (hash_room h)" by blast
    let ?n = "length (ov_table s)"
    let ?s1 = "s\<lparr>ov_hash := h, ov_idx := AList.update bid ?n (ov_idx s),
      ov_table := ov_table s @ [new_block_entry bid sz lb le]\<rparr>"
    obtain b s2 where pop: "free_list_try_pop (size_to_class sz) lb le ?s1 = (b, s2)" by fastforce
    note s2 = free_list_try_pop_simps [OF pop]
    have inv2: "ov_inv s2" using add_entry_inv [OF assms(1) h(2,3) None] s2(1) by simp
    have n2: "?n < length (ov_table s2)" "be_flag (ov_table s2 ! ?n) = 1" "be_size (ov_table s2 ! ?n) = sz"
      using s2(3) by (simp_all add: new_block_entry_def)
    let ?s' = "if b \<noteq> 0 then reuse_block ?n b sz s2 else bump_block ?n sz s2"
    have res: "register_block r s = Some ?s'"
      using None h(1) pop by (simp add: r register_block_def Let_def)
    have "ov_inv ?s'"
    proof (cases "b = 0")
      case True
      then show ?thesis using bump_block_inv [OF inv2 n2] by simp
    next
      case False
      with free_list_try_pop_registered [OF pop] s2(4) obtain j where j: "map_of (ov_idx s2) b = Some j"
        by auto
      then show ?thesis
        using False share_offset_inv [OF inv2 ov_inv_idx [OF inv2 j] n2(1)]
        by (simp add: reuse_block_share [OF j n2(3)])
    qed
    moreover have "ov_hash ?s' = h"
      using s2(2) by (simp add: reuse_block_def bump_block_def Let_def)
    ultimately show ?thesis using res h(4) by auto
  qed
qed

lemma register_blocks_inv:
  assumes "ov_inv s" "length rs \<le> hash_room (ov_hash s)"
  shows "\<exists>s'. register_blocks rs s = Some s' \<and> ov_inv s' \<and>
    hash_room (ov_hash s) \<le> length rs + hash_room (ov_hash s')"
  using assms
proof (induction rs arbitrary: s)
  case Nil
  then show ?case by simp
next
  case (Cons r rs)
  then have "0 < hash_room (ov_hash s)" by simp
  from register_block_inv [OF Cons.prems(1) this, of r] obtain s1 where s1: "register_block r s = Some s1"
    "ov_inv s1" "hash_room (ov_hash s) \<le> Suc (hash_room (ov_hash s1))" by blast
  with Cons.prems(2) have "length rs \<le> hash_room (ov_hash s1)" by simp
  from Cons.IH [OF s1(2) this] s1 show ?case by fastforce
qed

section \<open>The invariant over a graph\<close>

lemma register_block_frame:
  "register_block r s = Some s' \<Longrightarrow>
     ov_budget s' = ov_budget s \<and> ov_allocs s' = ov_allocs s \<and> ov_mode s' = ov_mode s"
  by (cases r)
     (auto simp: register_block_def touch_block_def reuse_block_def bump_block_def
        free_list_try_pop_def Let_def split: option.splits prod.splits if_splits)

lemma register_blocks_frame:
  "register_blocks rs s = Some s' \<Longrightarrow>
     ov_budget s' = ov_budget s \<and> ov_allocs s' = ov_allocs s \<and> ov_mode s' = ov_mode s"
  by (induction rs arbitrary: s) (auto split: option.splits dest: register_block_frame)

lemma link_blocks_frame:
  "ov_budget (link_blocks id1 id2 s) = ov_budget s" "ov_allocs (link_blocks id1 id2 s) = ov_allocs s"
  "ov_mode (link_blocks id1 id2 s) = ov_mode s"
  by (auto simp: link_blocks_def link_offsets_def share_offset_def free_list_add_def Let_def
      split: option.splits)

text \<open>What the recording steps leave alone, and that they record no spill.\<close>

definition no_spill_recorded :: "overlap_state \<Rightarrow> bool" where
  "no_spill_recorded s \<longleftrightarrow> (\<forall>(op, a) \<in> set (ov_allocs s). \<not> oa_spilled a)"

definition ov_good :: "bytes \<Rightarrow> overlap_state \<Rightarrow> bool" where
  "ov_good budget s \<longleftrightarrow> ov_inv s \<and> ov_budget s = budget \<and> (0 < budget \<longrightarrow> no_spill_recorded s)"

lemma no_spill_update:
  assumes "no_spill_recorded s" "\<not> oa_spilled a"
  shows "no_spill_recorded (s\<lparr>ov_allocs := AList.update op a (ov_allocs s)\<rparr>)"
  using assms unfolding no_spill_recorded_def by (fastforce dest: in_set_alist_update)

lemma record_input_good:
  "ov_good budget s \<Longrightarrow> ov_good budget (record_input x s)" "ov_hash (record_input x s) = ov_hash s"
  by (auto simp: record_input_def ov_good_def entry_alloc_def no_spill_update
      split: prod.splits option.splits)

lemma record_inputs_good:
  "ov_good budget s \<Longrightarrow> ov_good budget (fold record_input xs s)"
  "ov_hash (fold record_input xs s) = ov_hash s"
  by (induction xs arbitrary: s) (auto simp: record_input_good)

lemma record_output_good:
  assumes "ov_good budget s"
  shows "ov_good budget (record_output op bid s)" "ov_hash (record_output op bid s) = ov_hash s"
proof -
  have "\<not> ov_budget s < ov_next_offset s" if "0 < budget"
    using assms that by (auto simp: ov_good_def ov_inv_def space_ok_def)
  with assms show "ov_good budget (record_output op bid s)" "ov_hash (record_output op bid s) = ov_hash s"
    by (auto simp: record_output_def ov_good_def entry_alloc_def no_spill_update Let_def split: option.splits)
qed

lemma record_lone_output_good:
  "ov_good budget s \<Longrightarrow> ov_good budget (record_lone_output op bid s)"
  "ov_hash (record_lone_output op bid s) = ov_hash s"
  by (auto simp: record_lone_output_def ov_good_def no_spill_update Let_def)

lemma force_contiguous_good:
  assumes "ov_good budget s" "rs \<noteq> []" "length rs \<le> hash_room (ov_hash s)"
  shows "\<exists>s'. force_contiguous rs s = Some (fst (hd rs), s') \<and> ov_good budget s' \<and>
    hash_room (ov_hash s) \<le> length rs + hash_room (ov_hash s')"
proof -
  from assms(1) have "ov_inv s" by (simp add: ov_good_def)
  from register_blocks_inv [OF this assms(3)] obtain s' where s': "register_blocks rs s = Some s'" "ov_inv s'"
    "hash_room (ov_hash s) \<le> length rs + hash_room (ov_hash s')" by blast
  with register_blocks_frame [OF s'(1)] assms show ?thesis
    by (simp add: force_contiguous_def ov_good_def no_spill_recorded_def)
qed

lemma allow_tensor_overlap_good:
  assumes "ov_good budget s" "Suc (length (opd_inputs od)) \<le> hash_room (ov_hash s)"
  shows "\<exists>s'. allow_tensor_overlap_opdef desc od k s = Some s' \<and> ov_good budget s' \<and>
    hash_room (ov_hash s) \<le> Suc (length (opd_inputs od)) + hash_room (ov_hash s')"
proof (cases "ov_mode s \<noteq> 0 \<or> is_const od \<or> tensor_size32 (opd_output_def od) = 0")
  case True
  then show ?thesis using assms(1) by (auto simp: allow_tensor_overlap_opdef_def)
next
  case False
  obtain bid s0 where o: "output_block_id od s = (bid, s0)" by fastforce
  then have s0: "ov_good budget s0" "ov_hash s0 = ov_hash s"
    using assms(1) by (auto simp: output_block_id_def ov_good_def no_spill_recorded_def split: if_splits)
  obtain lb le where l: "(case desc (opd_op_id od) of Some l \<Rightarrow> l | None \<Rightarrow> (of_nat k, of_nat k)) = (lb, le)"
    by fastforce
  let ?ins = "map (input_req desc) (filter (\<lambda>c. src_id c \<noteq> 0) (opd_inputs od))"
  let ?rs = "?ins @ [(bid, tensor_size32 (opd_output_def od), lb, le)]"
  have len: "length ?rs \<le> Suc (length (opd_inputs od))" by simp
  have "?rs \<noteq> []" "length ?rs \<le> hash_room (ov_hash s0)" using le_trans [OF len assms(2)] s0(2) by simp_all
  from force_contiguous_good [OF s0(1) this] obtain s1 where s1:
    "force_contiguous ?rs s0 = Some (fst (hd ?rs), s1)" "ov_good budget s1"
    "hash_room (ov_hash s0) \<le> length ?rs + hash_room (ov_hash s1)" by blast
  have room: "hash_room (ov_hash s) \<le> Suc (length (opd_inputs od)) + hash_room (ov_hash s1)"
    using le_trans [OF s1(3) add_right_mono [OF len]] s0(2) by simp
  show ?thesis
  proof (cases "?ins = []")
    case True
    then show ?thesis
      using False o l s1 room record_lone_output_good(1) [OF s1(2)] record_lone_output_good(2)
      by (simp add: allow_tensor_overlap_opdef_def Let_def)
  next
    case ne: False
    let ?s2 = "link_blocks (fst (hd ?ins)) bid s1"
    have s2: "ov_good budget ?s2" "ov_hash ?s2 = ov_hash s1"
      using s1(2) link_blocks_inv [of s1] link_blocks_frame
      by (auto simp: ov_good_def no_spill_recorded_def)
    show ?thesis
      using False o l s1 room ne s2 record_output_good [OF s2(1)] record_inputs_good
      by (simp add: allow_tensor_overlap_opdef_def Let_def)
  qed
qed

definition op_blocks :: "op_def option \<Rightarrow> nat" where
  "op_blocks od = (case od of None \<Rightarrow> 0 | Some od \<Rightarrow> Suc (length (opd_inputs od)))"

lemma op_blocks_Some [simp]: "op_blocks (Some od) = Suc (length (opd_inputs od))"
  by (simp add: op_blocks_def)

lemma overlap_loop_good:
  assumes "ov_good budget s" "sum_list (map op_blocks ods) \<le> hash_room (ov_hash s)"
  shows "\<exists>s'. overlap_loop desc ods k s = Some s' \<and> ov_good budget s'"
  using assms
proof (induction ods arbitrary: k s)
  case Nil
  then show ?case by simp
next
  case (Cons od ods)
  show ?case
  proof (cases "overlap_skip od")
    case True
    with Cons show ?thesis by simp
  next
    case False
    then obtain d where d: "od = Some d" by (auto simp: overlap_skip_def split: option.splits)
    with Cons.prems(2) have "Suc (length (opd_inputs d)) \<le> hash_room (ov_hash s)" by simp
    from allow_tensor_overlap_good [OF Cons.prems(1) this, of desc k] obtain s1 where s1:
      "allow_tensor_overlap_opdef desc d k s = Some s1" "ov_good budget s1"
      "hash_room (ov_hash s) \<le> Suc (length (opd_inputs d)) + hash_room (ov_hash s1)" by blast
    with Cons.prems(2) d have "sum_list (map op_blocks ods) \<le> hash_room (ov_hash s1)"
      by simp
    from Cons.IH [OF s1(2) this] s1(1) False d show ?thesis by simp
  qed
qed

lemma overlap_init_good: "ov_good budget (set_overlap_budget budget overlap_init)"
  by (auto simp: ov_good_def ov_inv_def index_ok_def space_ok_def overlap_init_def set_overlap_budget_def
      no_spill_recorded_def hash_lookup_empty hash_ok_def)

lemma vtcm_overlap_alloc_good:
  assumes "sum_list (map op_blocks ods) < 2 ^ 30"
  shows "\<exists>s. vtcm_overlap_alloc desc ods usable overlap_init = Some s \<and> ov_good usable s"
  unfolding vtcm_overlap_alloc_def
  by (rule overlap_loop_good [OF overlap_init_good])
     (use assms in \<open>simp add: overlap_init_def set_overlap_budget_def hash_room_def empty_hash_def\<close>)

lemma allocate_tcm_loop_id:
  assumes "index_ok s" "set bids \<subseteq> dom (map_of (ov_idx s))"
  shows "allocate_tcm_loop bids s = Some s"
  using assms(2)
proof (induction bids)
  case (Cons b bids)
  then have "block_hash_find (ov_hash s) b \<noteq> None"
    using assms(1) by (auto simp: find_None_iff index_ok_def)
  with Cons show ?case by (auto simp: allocate_tcm_block_def)
qed simp

section \<open>Properties\<close>

definition owns_bytes :: "block_entry \<Rightarrow> bool" where
  "owns_bytes be \<longleftrightarrow> be_flag be = 1 \<and> be_vtcm_offset be \<noteq> 0"

definition block_end :: "block_entry \<Rightarrow> bytes" where
  "block_end be = be_vtcm_offset be + round_up 128 (unat (be_size be))"

lemma space_of_simps [simp]:
  "primary (space_of be) = owns_bytes be" "sp_off (space_of be) = be_vtcm_offset be"
  "sp_end (space_of be) = block_end be"
  by (simp_all add: primary_def space_of_def owns_bytes_def sp_off_def sp_end_def block_end_def)


definition demo_tensor :: "nat \<Rightarrow> output_def" where
  "demo_tensor n = \<lparr>out_rank = 1, out_dims = [n], out_element_size = 1\<rparr>"

definition demo_node :: "op_id \<Rightarrow> nat \<Rightarrow> (op_id \<times> nat) list \<Rightarrow> op_def option" where
  "demo_node i n ins = Some \<lparr>opd_flags = 1, opd_op_id = i, opd_name = None,
     opd_output_def = demo_tensor n, opd_flags2 = 0,
     opd_inputs = map (\<lambda>(j, m). \<lparr>src_id = j, out_idx = 0, src_out_def = demo_tensor m\<rparr>) ins,
     opd_consumers = []\<rparr>"

definition demo_chain :: "op_def option list" where
  "demo_chain = [demo_node 1 128 [], demo_node 2 128 [(1, 128)]]"


text \<open>
  the closing pass does nothing. Every block that the per-operator pass registers is in the block
  index already, so \<open>vtcm_block_alloc_finalize\<close>, its reverse-lifetime order and its 2048-byte bump
  leave the allocator exactly as it was.
\<close>

lemma vtcm_block_alloc_finalize_identity:
  assumes "sum_list (map op_blocks ods) < 2 ^ 30"
    and "vtcm_overlap_alloc desc ods usable overlap_init = Some s"
  shows "vtcm_block_alloc_finalize s = Some s"
proof -
  have ix: "index_ok s" using vtcm_overlap_alloc_good [OF assms(1), of desc usable] assms(2)
    by (auto simp: ov_good_def ov_inv_def)
  have "set (sort_blocks_by_reverse_lifetime_end s (map fst (ov_idx s))) \<subseteq> dom (map_of (ov_idx s))"
    by (auto simp: sort_blocks_by_reverse_lifetime_end_def dom_map_of_conv_image_fst)
  from allocate_tcm_loop_id [OF ix this] show ?thesis
    by (simp add: vtcm_block_alloc_finalize_def allocate_tcm_blocks_internal_def)
qed

lemma vtcm_block_alloc_finalize_identity_witness:
  "\<exists>s. vtcm_overlap_alloc (\<lambda>_. None) demo_chain 4096 overlap_init = Some s \<and>
    vtcm_block_alloc_finalize s = Some s"
proof -
  have n: "sum_list (map op_blocks demo_chain) < 2 ^ 30" by (simp add: demo_chain_def demo_node_def)
  from vtcm_overlap_alloc_good [OF n, of "\<lambda>_. None" 4096] obtain s where
    "vtcm_overlap_alloc (\<lambda>_. None) demo_chain 4096 overlap_init = Some s" by blast
  with vtcm_block_alloc_finalize_identity [OF n this] show ?thesis by blast
qed

text \<open>
  with a positive budget no allocation is ever reported as spilled, although blocks that do not
  fit get no space: the recorded condition asks for a bump pointer beyond the budget, and the bump
  pointer never passes the budget.
\<close>

lemma vtcm_overlap_alloc_never_reports_spill:
  assumes "sum_list (map op_blocks ods) < 2 ^ 30" and "0 < usable"
    and "vtcm_overlap_alloc desc ods usable overlap_init = Some s"
    and "map_of (ov_allocs s) op = Some a"
  shows "\<not> oa_spilled a"
  using vtcm_overlap_alloc_good [OF assms(1), of desc usable] assms(2-4)
  by (fastforce simp: ov_good_def no_spill_recorded_def dest: map_of_SomeD)

definition demo_big :: "op_def option list" where
  "demo_big = [demo_node 1 128 [], demo_node 2 256 []]"

lemma vtcm_overlap_alloc_never_reports_spill_witness:
  "\<exists>s a. vtcm_overlap_alloc (\<lambda>_. None) demo_big 256 overlap_init = Some s \<and>
    map_of (ov_allocs s) 2 = Some a \<and> \<not> oa_spilled a"
proof -
  have n: "sum_list (map op_blocks demo_big) < 2 ^ 30" by (simp add: demo_big_def demo_node_def)
  have "map_option (\<lambda>s. map_option oa_block_id (map_of (ov_allocs s) 2))
      (vtcm_overlap_alloc (\<lambda>_. None) demo_big 256 overlap_init) = Some (Some 2)" by code_simp
  then obtain s a where s: "vtcm_overlap_alloc (\<lambda>_. None) demo_big 256 overlap_init = Some s"
    "map_of (ov_allocs s) 2 = Some a" unfolding map_option_eq_Some by blast
  have "\<not> oa_spilled a" by (rule vtcm_overlap_alloc_never_reports_spill [OF n _ s]) simp
  with s show ?thesis by blast
qed

text \<open>Two blocks whose lives meet and whose byte ranges meet.\<close>

definition blocks_clash :: "block_entry \<Rightarrow> block_entry \<Rightarrow> bool" where
  "blocks_clash a b \<longleftrightarrow>
     life_meet (unat (be_life_begin a)) (unat (be_life_end a)) (unat (be_life_begin b)) (unat (be_life_end b)) \<and>
     \<not> range_disj (be_vtcm_offset a) (be_vtcm_offset a + unat (be_size a))
         (be_vtcm_offset b) (be_vtcm_offset b + unat (be_size b))"

definition demo_life :: life_desc where
  "demo_life = map_of [(1, (0, 0)), (2, (1, 3)), (3, (2, 9)), (4, (3, 3)), (5, (4, 9))]"

definition demo_reuse :: "op_def option list" where
  "demo_reuse = [demo_node 1 128 [], demo_node 2 256 [], demo_node 3 128 [],
     demo_node 4 128 [(2, 256)], demo_node 5 384 []]"

text \<open>
  The free lists hand out blocks that are too small. A size class holds every size between two
  powers of two and the pop checks lives only: in this five-operator graph block 5 (384 bytes) takes
  the place of block 2 (256 bytes) and runs over block 3, which is live at the same time.
\<close>

theorem free_list_reuse_overruns:
  "map_option (\<lambda>s. (be_block_id (ov_table s ! 4), be_linked_to (ov_table s ! 4),
       be_block_id (ov_table s ! 2), blocks_clash (ov_table s ! 4) (ov_table s ! 2)))
     (vtcm_overlap_alloc demo_life demo_reuse 4096 overlap_init) = Some (5, 2, 3, True)"
  by code_simp

text \<open>
  Offset 0 is a legal offset and the mark for no offset at once. Linking the first block of the
  pool to its consumer's equally large output moves it onto that output: an operator's input and
  output then share every byte while both are live.
\<close>

theorem link_blocks_aliases_first_block:
  "map_option (\<lambda>s. (be_vtcm_offset (ov_table s ! 0), be_vtcm_offset (ov_table s ! 1),
       blocks_clash (ov_table s ! 0) (ov_table s ! 1)))
     (vtcm_overlap_alloc (map_of [(1, (0, 1)), (2, (1, 2))]) demo_chain 4096 overlap_init) =
     Some (128, 128, True)"
  by code_simp

text \<open>
  An absent input (\<open>src_id = 0\<close>) shifts the recorded inputs. The second input's block is recorded
  under operator id 0 and the operator that produced it gets no record.
\<close>

theorem record_inputs_misaligned:
  "map_option (\<lambda>s. (map_option oa_block_id (map_of (ov_allocs s) 0), map_of (ov_allocs s) 5))
     (vtcm_overlap_alloc (\<lambda>_. None) [demo_node 7 128 [(0, 128), (5, 128)]] 4096 overlap_init) =
     Some (Some 5, None)"
  by code_simp

text \<open>
  the persistent pools lie back to back from offset 0, the first holds exactly the non-empty
  blocks without a producer, and the fixed 256-byte scratch pool closes the list.
\<close>

lemma make_persistent_pools_layout:
  "(\<forall>i. Suc i < length (make_persistent_pools s) \<longrightarrow>
      pp_base_offset (make_persistent_pools s ! Suc i) =
      pp_base_offset (make_persistent_pools s ! i) + pp_total_size (make_persistent_pools s ! i)) \<and>
   pp_base_offset (hd (make_persistent_pools s)) = 0 \<and>
   pp_pool_id (last (make_persistent_pools s)) = 0x100 \<and>
   sum_list (map pp_total_size (make_persistent_pools s)) =
     0x100 + sum_list (map (unat \<circ> be_size) (filter (\<lambda>be. be_size be \<noteq> 0 \<and> be_life_begin be = 0) (ov_table s))) \<and>
   sum_list (map pp_block_count (make_persistent_pools s)) =
     length (filter (\<lambda>be. be_size be \<noteq> 0 \<and> be_life_begin be = 0) (ov_table s))"
proof -
  have r: "filter (\<lambda>be. has_persistent_bit be \<and> \<not> has_replaceable_bit be)
      (filter (\<lambda>be. be_size be \<noteq> 0) (rev (ov_table s))) =
      rev (filter (\<lambda>be. be_size be \<noteq> 0 \<and> be_life_begin be = 0) (ov_table s))"
    by (simp add: rev_filter has_persistent_bit_def has_replaceable_bit_def conj_commute)
  show ?thesis
    unfolding make_persistent_pools_def Let_def r
    by (cases "filter (\<lambda>be. be_size be \<noteq> 0 \<and> be_life_begin be = 0) (ov_table s) = []")
       (simp_all add: block_pool_def next_base_def has_replaceable_bit_def nth_append less_Suc_eq
          rev_map [symmetric])
qed

lemma make_persistent_pools_layout_witness:
  "length (make_persistent_pools overlap_init) = 1 \<and> pp_base_offset (hd (make_persistent_pools overlap_init)) = 0"
  using make_persistent_pools_layout [of overlap_init]
  by (simp add: make_persistent_pools_def overlap_init_def Let_def block_pool_def)

end
