(* ===== verification/CpModel.thy ===== *)
theory CpModel
  imports Prelude
begin

text \<open>
  The data of the CP scheduling oracle (\<open>compiler/include/hnnx/vtcm/cp_solver.hpp\<close>): problems,
  options, retention segments, tasks and solutions; the preprocessing of \<open>CPSolver::Impl\<close> and the
  independent checker \<open>CPSolver::verify\<close> of \<open>compiler/src/vtcm/cp_solver.cpp\<close>.

  Sizes, costs and slots are natural numbers (the code's 64-bit sums are far from wrapping for the
  instances it admits). The checker's result is the first violated check, or \<open>None\<close>.
  The declarative specification \<open>cp_valid\<close> states the numbered equations of the header without the
  checker's counters; the theorem at the end shows that an accepted solution satisfies it.
  A segment's \<open>vtcm_offset\<close> is \<open>None\<close> where the code stores the sentinel \<open>kUnplaced\<close>.
  \<open>bound_gap\<close>, a floating point statistic, is not modelled.
\<close>

section \<open>Data\<close>

datatype cp_mode = FULL | PAGING_ONLY | REMAT_ONLY | SEQ_ONLY

datatype cp_objective = DDR_BYTES | PEAK_RESIDENT | TOTAL_COMPUTE

datatype cost_model = UNIFORM | BYTES | COST_TABLE

record cp_tensor =
  ct_id :: op_id
  ct_m :: bytes
  ct_w :: nat
  ct_C :: nat
  ct_no_remat :: bool

record cp_problem =
  cp_nodes :: "cp_tensor list"
  cp_edges :: "(nat \<times> nat) list"
  cp_M :: bytes
  cp_W :: nat
  cp_topo_hint :: "op_id list"

record cp_options =
  co_mode :: cp_mode
  co_objective :: cp_objective
  co_cost_model :: cost_model
  co_respect_topo_order :: bool
  co_node_limit :: nat
  co_time_limit_ms :: nat
  co_max_exact_nodes :: nat
  co_C_default :: nat

record cp_segment =
  sg_s :: nat
  sg_e :: nat
  sg_active :: bool
  sg_fill_start :: bool
  sg_spill_end :: bool
  sg_vtcm_offset :: "bytes option"
  sg_ddr_offset :: bytes

datatype task_kind = COMPUTE | REMAT | PAGE_IN | PAGE_OUT

record cp_task =
  tk_kind :: task_kind
  tk_v :: op_id
  tk_bytes :: bytes
  tk_slot :: nat

text \<open>
  The checker's messages, and the parts of \<open>abort_reason\<close> (the code joins them into one string).
\<close>

datatype verify_fail =
    SegmentsSize | MarkedInfeasible | UnknownTensor | TwoTasks task_kind
  | PageOutBeforeStart | StartsNotIncreasing | Seg0Inactive | Seg0StartMismatch
  | Seg0EndBeforeStart | SpillEndMismatch | NoReopenTask | FillStartMismatch
  | Seg1StartMismatch | Seg1EndBeforeStart | SegmentsOverlap | FillWithoutSpill
  | FillAddressMismatch | ReopenWithoutSeg1 | NotCovered | NotComputedOnce
  | ResidencyExceedsM | PeakMismatch | ComputeBudget | DdrMismatch
  | ComputeMismatch | CountersMismatch

datatype abort_reason =
    Timeout | NodeLimit | ExactSizeLimit | ComputeBelowSum | TensorExceedsM | SearchExhausted
  | GreedyInfeasible | GreedyW | VerifyFailed verify_fail

record cp_solution =
  so_feasible :: bool
  so_segments :: "(cp_segment \<times> cp_segment) list"
  so_seq :: "cp_task list"
  so_ddr_bytes :: bytes
  so_peak_resident :: bytes
  so_total_compute :: nat
  so_remat_count :: nat
  so_spill_count :: nat
  so_placement_degraded :: nat
  so_vtcm_arena_used :: bytes
  so_ddr_arena_used :: bytes
  so_optimal :: bool
  so_nodes_explored :: nat
  so_abort_reason :: "abort_reason list"

definition cp_n :: "cp_problem \<Rightarrow> nat" where
  "cp_n p = length (cp_nodes p)"

definition default_options :: cp_options where
  "default_options = \<lparr>co_mode = FULL, co_objective = DDR_BYTES, co_cost_model = BYTES,
     co_respect_topo_order = True, co_node_limit = 5000000, co_time_limit_ms = 5000,
     co_max_exact_nodes = 50, co_C_default = 2\<rparr>"

definition empty_segment :: cp_segment where
  "empty_segment = \<lparr>sg_s = 0, sg_e = 0, sg_active = False, sg_fill_start = False, sg_spill_end = False,
     sg_vtcm_offset = Some 0, sg_ddr_offset = 0\<rparr>"

definition empty_solution :: cp_solution where
  "empty_solution = \<lparr>so_feasible = False, so_segments = [], so_seq = [], so_ddr_bytes = 0,
     so_peak_resident = 0, so_total_compute = 0, so_remat_count = 0, so_spill_count = 0,
     so_placement_degraded = 0, so_vtcm_arena_used = 0, so_ddr_arena_used = 0, so_optimal = False,
     so_nodes_explored = 0, so_abort_reason = []\<rparr>"

section \<open>Preprocessing\<close>

definition remat_allowed_mode :: "cp_mode \<Rightarrow> bool" where
  "remat_allowed_mode md \<longleftrightarrow> md = FULL \<or> md = REMAT_ONLY"

definition paging_allowed_mode :: "cp_mode \<Rightarrow> bool" where
  "paging_allowed_mode md \<longleftrightarrow> md = FULL \<or> md = PAGING_ONLY"

definition mode_objective :: "cp_mode \<Rightarrow> cp_objective" where
  "mode_objective md =
     (if md = REMAT_ONLY then TOTAL_COMPUTE else if md = SEQ_ONLY then PEAK_RESIDENT else DDR_BYTES)"

record cp_ctx =
  cx_p :: cp_problem
  cx_o :: cp_options
  cx_obj :: cp_objective
  cx_m :: "bytes list"
  cx_w :: "nat list"
  cx_C :: "nat list"
  cx_preds :: "nat list list"
  cx_cons :: "nat list list"
  cx_outdeg :: "nat list"
  cx_topo_rank :: "nat list"
  cx_topo_seq :: "nat list"
  cx_may_serve_remat :: "bool list"
  cx_sum_w :: nat

definition node_w :: "cp_tensor \<Rightarrow> nat" where
  "node_w t = (if ct_w t \<noteq> 0 then ct_w t else 1)"

definition node_C :: "cp_options \<Rightarrow> cp_tensor \<Rightarrow> nat" where
  "node_C opts t =
     (if co_mode opts = SEQ_ONLY \<or> ct_no_remat t then 1 else if ct_C t \<noteq> 0 then ct_C t else 1)"

definition good_edges :: "cp_problem \<Rightarrow> (nat \<times> nat) list" where
  "good_edges p = filter (\<lambda>(u, v). u < cp_n p \<and> v < cp_n p \<and> u \<noteq> v) (cp_edges p)"

definition node_preds :: "cp_problem \<Rightarrow> nat \<Rightarrow> nat list" where
  "node_preds p v = remdups_adj (sort (map fst (filter (\<lambda>(u, w). w = v) (good_edges p))))"

definition node_cons :: "cp_problem \<Rightarrow> nat \<Rightarrow> nat list" where
  "node_cons p u = remdups_adj (sort (map snd (filter (\<lambda>(w, v). w = u) (good_edges p))))"

text \<open>The hinted ids in order, each taking its unranked nodes; then the rest in index order.\<close>

fun rank_hint :: "op_id list \<Rightarrow> op_id list \<Rightarrow> nat list \<Rightarrow> nat list" where
  "rank_hint ids [] sq = sq"
| "rank_hint ids (i # hint) sq =
     rank_hint ids hint (sq @ filter (\<lambda>v. v \<notin> set sq \<and> ids ! v = i) [0..<length ids])"

definition topo_sequence :: "cp_problem \<Rightarrow> nat list" where
  "topo_sequence p =
     (let sq = rank_hint (map ct_id (cp_nodes p)) (cp_topo_hint p) []
      in sq @ filter (\<lambda>v. v \<notin> set sq) [0..<cp_n p])"

fun index_of :: "'a \<Rightarrow> 'a list \<Rightarrow> nat" where
  "index_of x [] = 0"
| "index_of x (y # ys) = (if x = y then 0 else Suc (index_of x ys))"

definition preprocess :: "cp_problem \<Rightarrow> cp_options \<Rightarrow> cp_ctx" where
  "preprocess p opts =
     (let n = cp_n p; Cs = map (node_C opts) (cp_nodes p); ws = map node_w (cp_nodes p);
          sq = topo_sequence p
      in \<lparr>cx_p = p, cx_o = opts, cx_obj = mode_objective (co_mode opts),
          cx_m = map ct_m (cp_nodes p), cx_w = ws, cx_C = Cs,
          cx_preds = map (node_preds p) [0..<n], cx_cons = map (node_cons p) [0..<n],
          cx_outdeg = map (\<lambda>u. length (node_cons p u)) [0..<n],
          cx_topo_rank = map (\<lambda>v. index_of v sq) [0..<n], cx_topo_seq = sq,
          cx_may_serve_remat =
            map (\<lambda>u. remat_allowed_mode (co_mode opts) \<and> (\<exists>c \<in> set (node_cons p u). 2 \<le> Cs ! c)) [0..<n],
          cx_sum_w = sum_list ws\<rparr>)"

section \<open>The checker\<close>

record census =
  cen_ns :: "((task_kind \<times> nat) \<times> nat) list"
  cen_slots :: "((task_kind \<times> nat) \<times> nat) list"
  cen_last_start :: nat
  cen_ddr :: bytes
  cen_compute :: nat

definition census_init :: census where
  "census_init = \<lparr>cen_ns = [], cen_slots = [], cen_last_start = 0, cen_ddr = 0,
     cen_compute = 0\<rparr>"

text \<open>
  The zero-initialised count and slot vectors of the four task kinds, as one sparse vector each.
\<close>

definition entry_at :: "((task_kind \<times> nat) \<times> nat) list \<Rightarrow> task_kind \<Rightarrow> nat \<Rightarrow> nat" where
  "entry_at xs k v = (case map_of xs (k, v) of None \<Rightarrow> 0 | Some x \<Rightarrow> x)"

definition cen_n :: "census \<Rightarrow> task_kind \<Rightarrow> nat \<Rightarrow> nat" where
  "cen_n c = entry_at (cen_ns c)"

definition cen_slot :: "census \<Rightarrow> task_kind \<Rightarrow> nat \<Rightarrow> nat" where
  "cen_slot c = entry_at (cen_slots c)"

lemma entry_at_simps [simp]:
  "entry_at [] k v = 0"
  "entry_at (AList.update (k, v) x xs) k' v' = (if k' = k \<and> v' = v then x else entry_at xs k' v')"
  by (simp_all add: entry_at_def update_conv')

definition node_idx :: "cp_problem \<Rightarrow> op_id \<Rightarrow> nat option" where
  "node_idx p i = map_of (rev (zip (map ct_id (cp_nodes p)) [0..<cp_n p])) i"

definition task_ddr :: "cp_problem \<Rightarrow> task_kind \<Rightarrow> nat \<Rightarrow> bytes" where
  "task_ddr p k v = (if k = PAGE_IN \<or> k = PAGE_OUT then ct_m (cp_nodes p ! v) else 0)"

definition task_compute :: "cp_problem \<Rightarrow> task_kind \<Rightarrow> nat \<Rightarrow> nat" where
  "task_compute p k v = (if k = COMPUTE \<or> k = REMAT then node_w (cp_nodes p ! v) else 0)"

definition census_step :: "cp_problem \<Rightarrow> cp_task \<Rightarrow> census \<Rightarrow> verify_fail + census" where
  "census_step p t c =
     (case node_idx p (tk_v t) of
        None \<Rightarrow> Inl UnknownTensor
      | Some v \<Rightarrow>
          let k = tk_kind t; n = Suc (cen_n c k v)
          in if 1 < n then Inl (TwoTasks k)
             else if k = PAGE_OUT \<and> tk_slot t < cen_last_start c
               then Inl PageOutBeforeStart
             else if k \<noteq> PAGE_OUT \<and> tk_slot t \<le> cen_last_start c
               then Inl StartsNotIncreasing
             else Inr \<lparr>cen_ns = AList.update (k, v) n (cen_ns c),
                       cen_slots = AList.update (k, v) (tk_slot t) (cen_slots c),
                       cen_last_start = (if k = PAGE_OUT then cen_last_start c else tk_slot t),
                       cen_ddr = cen_ddr c + task_ddr p k v,
                       cen_compute = cen_compute c + task_compute p k v\<rparr>)"

fun census_all :: "cp_problem \<Rightarrow> cp_task list \<Rightarrow> census \<Rightarrow> verify_fail + census" where
  "census_all p [] c = Inr c"
| "census_all p (t # ts) c =
     (case census_step p t c of Inl m \<Rightarrow> Inl m | Inr c' \<Rightarrow> census_all p ts c')"

text \<open>The first failing check of a list of checks.\<close>

fun first_fail :: "(bool \<times> verify_fail) list \<Rightarrow> verify_fail option" where
  "first_fail [] = None"
| "first_fail ((ok, m) # cs) = (if ok then first_fail cs else Some m)"

definition seg_checks :: "census \<Rightarrow> cp_solution \<Rightarrow> nat \<Rightarrow> (bool \<times> verify_fail) list" where
  "seg_checks c s v =
     (let (s0, s1) = so_segments s ! v;
          pin = cen_n c PAGE_IN v; rem = cen_n c REMAT v
      in [(sg_active s0, Seg0Inactive),
          (sg_s s0 = cen_slot c COMPUTE v, Seg0StartMismatch),
          (sg_s s0 \<le> sg_e s0, Seg0EndBeforeStart),
          (sg_spill_end s0 = (cen_n c PAGE_OUT v = 1), SpillEndMismatch)] @
         (if sg_active s1
          then [(rem + pin = 1, NoReopenTask),
                (sg_fill_start s1 = (pin = 1), FillStartMismatch),
                (sg_s s1 = (if pin \<noteq> 0 then cen_slot c PAGE_IN v else cen_slot c REMAT v), Seg1StartMismatch),
                (sg_s s1 \<le> sg_e s1, Seg1EndBeforeStart),
                (sg_e s0 \<le> sg_s s1, SegmentsOverlap),
                (\<not> (sg_fill_start s1 \<and> \<not> sg_spill_end s0), FillWithoutSpill),
                (\<not> (sg_fill_start s1 \<and> sg_ddr_offset s1 \<noteq> sg_ddr_offset s0),
                 FillAddressMismatch)]
          else [(rem = 0 \<and> pin = 0, ReopenWithoutSeg1)]))"

definition seg_open :: "cp_segment \<Rightarrow> nat \<Rightarrow> bool" where
  "seg_open sg slot \<longleftrightarrow> sg_active sg \<and> sg_s sg \<le> slot \<and> slot \<le> sg_e sg"

definition node_residency :: "cp_problem \<Rightarrow> cp_solution \<Rightarrow> nat \<Rightarrow> nat \<Rightarrow> bytes" where
  "node_residency p s slot v =
     (if seg_open (fst (so_segments s ! v)) slot then ct_m (cp_nodes p ! v) else 0) +
     (if seg_open (snd (so_segments s ! v)) slot then ct_m (cp_nodes p ! v) else 0)"

definition residency :: "cp_problem \<Rightarrow> cp_solution \<Rightarrow> nat \<Rightarrow> bytes" where
  "residency p s slot = sum_list (map (node_residency p s slot) [0..<cp_n p])"

definition checked_peak :: "cp_problem \<Rightarrow> cp_solution \<Rightarrow> bytes" where
  "checked_peak p s = fold (\<lambda>slot pk. max pk (residency p s slot)) [1..<2 * cp_n p + 3] 0"

definition verify_preds :: "cp_problem \<Rightarrow> nat \<Rightarrow> nat list" where
  "verify_preds p v = map fst (filter (\<lambda>(u, w). u < cp_n p \<and> w < cp_n p \<and> w = v) (cp_edges p))"

definition covers :: "cp_solution \<Rightarrow> nat \<Rightarrow> nat \<Rightarrow> bool" where
  "covers s u slot \<longleftrightarrow> seg_open (fst (so_segments s ! u)) slot \<or> seg_open (snd (so_segments s ! u)) slot"

definition cover_checks :: "cp_problem \<Rightarrow> census \<Rightarrow> cp_solution \<Rightarrow> nat \<Rightarrow> (bool \<times> verify_fail) list" where
  "cover_checks p c s v =
     (let msg = NotCovered
      in map (\<lambda>u. (covers s u (cen_slot c COMPUTE v), msg)) (verify_preds p v) @
         (if cen_slot c REMAT v = 0 then []
          else map (\<lambda>u. (covers s u (cen_slot c REMAT v), msg)) (verify_preds p v)))"

definition count_kind :: "task_kind \<Rightarrow> cp_solution \<Rightarrow> nat" where
  "count_kind k s = length (filter (\<lambda>t. tk_kind t = k) (so_seq s))"

definition verify :: "cp_problem \<Rightarrow> cp_solution \<Rightarrow> verify_fail option" where
  "verify p s =
     (if length (so_segments s) \<noteq> cp_n p then Some SegmentsSize
      else if \<not> so_feasible s then Some MarkedInfeasible
      else case census_all p (so_seq s) census_init of
             Inl m \<Rightarrow> Some m
           | Inr c \<Rightarrow>
               first_fail
                 (map (\<lambda>v. (cen_n c COMPUTE v = 1, NotComputedOnce)) [0..<cp_n p] @
                  concat (map (seg_checks c s) [0..<cp_n p]) @
                  [(checked_peak p s \<le> cp_M p, ResidencyExceedsM),
                   (checked_peak p s = so_peak_resident s, PeakMismatch)] @
                  concat (map (cover_checks p c s) [0..<cp_n p]) @
                  [(cen_compute c \<le> cp_W p, ComputeBudget),
                   (cen_ddr c = so_ddr_bytes s, DdrMismatch),
                   (cen_compute c = so_total_compute s, ComputeMismatch),
                   (count_kind REMAT s = so_remat_count s \<and> count_kind PAGE_OUT s = so_spill_count s,
                    CountersMismatch)]))"

section \<open>The declarative specification\<close>

definition tasks_of :: "cp_problem \<Rightarrow> task_kind \<Rightarrow> nat \<Rightarrow> cp_task list \<Rightarrow> cp_task list" where
  "tasks_of p k v ts = filter (\<lambda>t. tk_kind t = k \<and> node_idx p (tk_v t) = Some v) ts"

definition start_slots :: "cp_task list \<Rightarrow> nat list" where
  "start_slots ts = map tk_slot (filter (\<lambda>t. tk_kind t \<noteq> PAGE_OUT) ts)"

definition the_node :: "cp_problem \<Rightarrow> cp_task \<Rightarrow> nat" where
  "the_node p t = the (node_idx p (tk_v t))"

definition seq_ddr :: "cp_problem \<Rightarrow> cp_task list \<Rightarrow> bytes" where
  "seq_ddr p ts = sum_list (map (\<lambda>t. task_ddr p (tk_kind t) (the_node p t)) ts)"

definition seq_compute :: "cp_problem \<Rightarrow> cp_task list \<Rightarrow> nat" where
  "seq_compute p ts = sum_list (map (\<lambda>t. task_compute p (tk_kind t) (the_node p t)) ts)"

text \<open>Equations 4, 5, 9 and 14: how the segments of a node relate to its tasks.\<close>

definition seg_valid :: "cp_problem \<Rightarrow> cp_solution \<Rightarrow> nat \<Rightarrow> bool" where
  "seg_valid p s v \<longleftrightarrow>
     (let (s0, s1) = so_segments s ! v; ts = so_seq s
      in sg_active s0 \<and> map tk_slot (tasks_of p COMPUTE v ts) = [sg_s s0] \<and> sg_s s0 \<le> sg_e s0 \<and>
         (sg_spill_end s0 \<longleftrightarrow> length (tasks_of p PAGE_OUT v ts) = 1) \<and>
         (if sg_active s1
          then sg_e s0 \<le> sg_s s1 \<and> sg_s s1 \<le> sg_e s1 \<and>
               (if sg_fill_start s1
                then sg_spill_end s0 \<and> sg_ddr_offset s1 = sg_ddr_offset s0 \<and>
                     map tk_slot (tasks_of p PAGE_IN v ts) = [sg_s s1] \<and> tasks_of p REMAT v ts = []
                else map tk_slot (tasks_of p REMAT v ts) = [sg_s s1] \<and> tasks_of p PAGE_IN v ts = [])
          else tasks_of p REMAT v ts = [] \<and> tasks_of p PAGE_IN v ts = []))"

definition cp_valid :: "cp_problem \<Rightarrow> cp_solution \<Rightarrow> bool" where
  "cp_valid p s \<longleftrightarrow>
     length (so_segments s) = cp_n p \<and>
     (\<forall>t \<in> set (so_seq s). node_idx p (tk_v t) \<noteq> None) \<and>
     (\<forall>k v. length (tasks_of p k v (so_seq s)) \<le> 1) \<and>
     sorted_wrt (<) (0 # start_slots (so_seq s)) \<and>
     (\<forall>v < cp_n p. seg_valid p s v) \<and>
     (\<forall>slot. 1 \<le> slot \<and> slot \<le> 2 * cp_n p + 2 \<longrightarrow> residency p s slot \<le> so_peak_resident s) \<and>
     so_peak_resident s \<le> cp_M p \<and>
     (\<forall>t \<in> set (so_seq s). tk_kind t = COMPUTE \<or> tk_kind t = REMAT \<longrightarrow>
        (\<forall>u. (u, the_node p t) \<in> set (cp_edges p) \<and> u < cp_n p \<longrightarrow> covers s u (tk_slot t))) \<and>
     seq_compute p (so_seq s) = so_total_compute s \<and> so_total_compute s \<le> cp_W p \<and>
     seq_ddr p (so_seq s) = so_ddr_bytes s"

section \<open>Soundness of the checker\<close>

lemma first_fail_None: "first_fail cs = None \<longleftrightarrow> (\<forall>(ok, m) \<in> set cs. ok)"
  by (induction cs rule: first_fail.induct) auto

lemma node_idx_less: "node_idx p i = Some v \<Longrightarrow> v < cp_n p"
  unfolding node_idx_def by (auto dest!: map_of_SomeD set_zip_rightD)

definition census_inv :: "cp_problem \<Rightarrow> cp_task list \<Rightarrow> census \<Rightarrow> bool" where
  "census_inv p ts c \<longleftrightarrow>
     (\<forall>t \<in> set ts. node_idx p (tk_v t) \<noteq> None) \<and>
     (\<forall>k v. cen_n c k v = length (tasks_of p k v ts) \<and> length (tasks_of p k v ts) \<le> 1 \<and>
        (if tasks_of p k v ts = [] then cen_slot c k v = 0
         else map tk_slot (tasks_of p k v ts) = [cen_slot c k v])) \<and>
     sorted_wrt (<) (0 # start_slots ts) \<and> (\<forall>x \<in> set (start_slots ts). x \<le> cen_last_start c) \<and>
     cen_ddr c = seq_ddr p ts \<and> cen_compute c = seq_compute p ts"

lemma census_invD:
  assumes "census_inv p ts c"
  shows "t \<in> set ts \<Longrightarrow> node_idx p (tk_v t) \<noteq> None"
    "cen_n c k v = length (tasks_of p k v ts)" "length (tasks_of p k v ts) \<le> 1"
    "tasks_of p k v ts \<noteq> [] \<Longrightarrow> map tk_slot (tasks_of p k v ts) = [cen_slot c k v]"
    "x \<in> set (start_slots ts) \<Longrightarrow> 0 < x"
  using assms by (auto simp: census_inv_def)

lemma census_inv_init: "census_inv p [] census_init"
  by (simp add: census_inv_def census_init_def cen_n_def cen_slot_def tasks_of_def start_slots_def seq_ddr_def seq_compute_def)

lemma tasks_of_snoc:
  "tasks_of p k v (ts @ [t]) =
     tasks_of p k v ts @ (if tk_kind t = k \<and> node_idx p (tk_v t) = Some v then [t] else [])"
  by (simp add: tasks_of_def)

lemma census_step_inv:
  assumes "census_inv p ts c" "census_step p t c = Inr c'"
  shows "census_inv p (ts @ [t]) c'"
proof -
  obtain v where v: "node_idx p (tk_v t) = Some v"
    using assms(2) by (auto simp: census_step_def split: option.splits)
  let ?k = "tk_kind t"
  from assms(2) v have n0: "cen_n c ?k v = 0"
    and slot: "if ?k = PAGE_OUT then cen_last_start c \<le> tk_slot t else cen_last_start c < tk_slot t"
    and c': "c' = \<lparr>cen_ns = AList.update (?k, v) 1 (cen_ns c),
                 cen_slots = AList.update (?k, v) (tk_slot t) (cen_slots c),
                 cen_last_start = (if ?k = PAGE_OUT then cen_last_start c else tk_slot t),
                 cen_ddr = cen_ddr c + task_ddr p ?k v,
                 cen_compute = cen_compute c + task_compute p ?k v\<rparr>"
    by (auto simp: census_step_def Let_def split: if_splits)
  have upd: "cen_n c' k u = (if k = ?k \<and> u = v then 1 else cen_n c k u)"
    "cen_slot c' k u = (if k = ?k \<and> u = v then tk_slot t else cen_slot c k u)" for k u
    by (simp_all add: c' cen_n_def cen_slot_def)
  from assms(1) n0 have e0: "tasks_of p ?k v ts = []" by (auto simp: census_inv_def)
  have st: "start_slots (ts @ [t]) = start_slots ts @ (if ?k = PAGE_OUT then [] else [tk_slot t])"
    by (simp add: start_slots_def)
  have "cen_n c' k u = length (tasks_of p k u (ts @ [t])) \<and> length (tasks_of p k u (ts @ [t])) \<le> 1 \<and>
      (if tasks_of p k u (ts @ [t]) = [] then cen_slot c' k u = 0
       else map tk_slot (tasks_of p k u (ts @ [t])) = [cen_slot c' k u])" for k u
    using assms(1) e0 by (auto simp: census_inv_def upd tasks_of_snoc v)
  moreover have "sorted_wrt (<) (0 # start_slots (ts @ [t]))"
    using assms(1) slot by (auto simp: census_inv_def st sorted_wrt_append)
  moreover have "\<forall>x \<in> set (start_slots (ts @ [t])). x \<le> cen_last_start c'"
    using assms(1) slot by (fastforce simp: census_inv_def st c')
  moreover have "cen_ddr c' = seq_ddr p (ts @ [t])" "cen_compute c' = seq_compute p (ts @ [t])"
    using assms(1) v by (simp_all add: census_inv_def c' seq_ddr_def seq_compute_def the_node_def)
  moreover have "\<forall>x \<in> set (ts @ [t]). node_idx p (tk_v x) \<noteq> None"
    using assms(1) v by (auto simp: census_inv_def)
  ultimately show ?thesis unfolding census_inv_def by blast
qed

lemma census_all_inv:
  "census_inv p pre c \<Longrightarrow> census_all p ts c = Inr c' \<Longrightarrow> census_inv p (pre @ ts) c'"
proof (induction ts arbitrary: pre c)
  case (Cons t ts)
  then obtain c1 where c1: "census_step p t c = Inr c1" "census_all p ts c1 = Inr c'"
    by (auto split: sum.splits)
  from Cons.IH [OF census_step_inv [OF Cons.prems(1) c1(1)] c1(2)] show ?case by simp
qed simp

lemma fold_max_ge: "x \<in> set xs \<Longrightarrow> (f x :: nat) \<le> fold (\<lambda>x m. max m (f x)) xs a"
proof (induction xs arbitrary: a)
  case (Cons y ys)
  have "b \<le> fold (\<lambda>x m. max m (f x)) ys b" for b :: nat
    by (induction ys arbitrary: b) (auto intro: order_trans [OF max.cobounded1])
  with Cons show ?case by (auto intro: order_trans [OF max.cobounded2])
qed simp

lemma residency_le_checked_peak:
  assumes "1 \<le> slot" "slot \<le> 2 * cp_n p + 2"
  shows "residency p s slot \<le> checked_peak p s"
  unfolding checked_peak_def by (rule fold_max_ge) (use assms in auto)

lemma seg_checks_valid:
  assumes "census_inv p (so_seq s) c" "cen_n c COMPUTE v = 1" "\<forall>(ok, m) \<in> set (seg_checks c s v). ok"
  shows "seg_valid p s v"
proof -
  obtain s0 s1 where sg: "so_segments s ! v = (s0, s1)" by fastforce
  note n = census_invD(2) [OF assms(1)] and slots = census_invD(4) [OF assms(1)]
  have comp: "map tk_slot (tasks_of p COMPUTE v (so_seq s)) = [cen_slot c COMPUTE v]"
    by (rule slots) (use n [of COMPUTE v] assms(2) in auto)
  note chk = assms(3) [unfolded seg_checks_def sg Let_def prod.case]
  show ?thesis
  proof (cases "sg_active s1")
    case False
    then show ?thesis using chk comp n by (simp add: seg_valid_def sg)
  next
    case act: True
    show ?thesis
    proof (cases "sg_fill_start s1")
      case True
      with chk act have c: "cen_n c PAGE_IN v = 1" "cen_n c REMAT v = 0" by simp_all
      have "map tk_slot (tasks_of p PAGE_IN v (so_seq s)) = [cen_slot c PAGE_IN v]"
        by (rule slots) (use n [of PAGE_IN v] c in auto)
      then show ?thesis using n [of REMAT v] c chk True act comp n [of PAGE_OUT v] by (auto simp: seg_valid_def sg)
    next
      case False
      have "cen_n c REMAT v + cen_n c PAGE_IN v = 1" "cen_n c PAGE_IN v \<noteq> 1"
        using chk act False by simp_all
      then have c: "cen_n c PAGE_IN v = 0" "cen_n c REMAT v = 1" by simp_all
      have "map tk_slot (tasks_of p REMAT v (so_seq s)) = [cen_slot c REMAT v]"
        by (rule slots) (use n [of REMAT v] c in auto)
      then show ?thesis using n [of PAGE_IN v] c chk False act comp n [of PAGE_OUT v] by (auto simp: seg_valid_def sg)
    qed
  qed
qed

lemma cover_checks_valid:
  assumes "census_inv p (so_seq s) c" "t \<in> set (so_seq s)" "tk_kind t = COMPUTE \<or> tk_kind t = REMAT"
    "\<forall>v < cp_n p. \<forall>(ok, m) \<in> set (cover_checks p c s v). ok"
    "(u, the_node p t) \<in> set (cp_edges p)" "u < cp_n p"
  shows "covers s u (tk_slot t)"
proof -
  obtain v where v: "node_idx p (tk_v t) = Some v"
    using census_invD(1) [OF assms(1,2)] by auto
  then have vn: "v < cp_n p" "the_node p t = v" by (auto simp: node_idx_less the_node_def)
  have mem: "t \<in> set (tasks_of p (tk_kind t) v (so_seq s))" using assms(2) v by (simp add: tasks_of_def)
  then have "map tk_slot (tasks_of p (tk_kind t) v (so_seq s)) = [cen_slot c (tk_kind t) v]"
    by (intro census_invD(4) [OF assms(1)]) auto
  with mem have sl: "cen_slot c (tk_kind t) v = tk_slot t"
    by (cases "tasks_of p (tk_kind t) v (so_seq s)") auto
  have "tk_slot t \<in> set (start_slots (so_seq s))" using assms(2,3) by (auto simp: start_slots_def)
  then have "0 < tk_slot t" by (rule census_invD(5) [OF assms(1)])
  moreover have "u \<in> set (verify_preds p v)"
    using assms(5,6) vn by (force simp: verify_preds_def)
  ultimately have "(covers s u (tk_slot t), NotCovered)
      \<in> set (cover_checks p c s v)"
    using assms(3) sl by (elim disjE) (simp_all add: cover_checks_def Let_def)
  with assms(4) vn(1) show ?thesis by blast
qed

lemma verify_sound:
  assumes "verify p s = None"
  shows "cp_valid p s"
proof -
  from assms obtain c where c: "census_all p (so_seq s) census_init = Inr c"
    and len: "length (so_segments s) = cp_n p"
    by (auto simp: verify_def split: if_splits sum.splits)
  have inv: "census_inv p (so_seq s) c" using census_all_inv [OF census_inv_init c] by simp
  from assms c len have chk:
    "\<forall>v < cp_n p. cen_n c COMPUTE v = 1" "\<forall>v < cp_n p. \<forall>(ok, m) \<in> set (seg_checks c s v). ok"
    "\<forall>v < cp_n p. \<forall>(ok, m) \<in> set (cover_checks p c s v). ok"
    "checked_peak p s \<le> cp_M p" "checked_peak p s = so_peak_resident s" "cen_compute c \<le> cp_W p"
    "cen_ddr c = so_ddr_bytes s" "cen_compute c = so_total_compute s"
    by (auto simp: verify_def first_fail_None ball_Un split: if_splits)
  have "\<forall>v < cp_n p. seg_valid p s v" using seg_checks_valid [OF inv] chk(1,2) by blast
  moreover have "\<forall>slot. 1 \<le> slot \<and> slot \<le> 2 * cp_n p + 2 \<longrightarrow> residency p s slot \<le> so_peak_resident s"
    using residency_le_checked_peak chk(5) by metis
  moreover have "\<forall>t \<in> set (so_seq s). tk_kind t = COMPUTE \<or> tk_kind t = REMAT \<longrightarrow>
      (\<forall>u. (u, the_node p t) \<in> set (cp_edges p) \<and> u < cp_n p \<longrightarrow> covers s u (tk_slot t))"
    using cover_checks_valid [OF inv _ _ chk(3)] by blast
  ultimately show ?thesis
    using inv len chk(4-8) by (auto simp: cp_valid_def census_inv_def)
qed

section \<open>Residency beyond the checked slots\<close>

lemma cp_valid_seg_starts:
  assumes "cp_valid p s" "v < cp_n p" "sg = fst (so_segments s ! v) \<or> sg = snd (so_segments s ! v)" "sg_active sg"
  shows "sg_s sg \<in> set (start_slots (so_seq s))"
proof -
  have start: "x \<in> set (start_slots (so_seq s))"
    if "map tk_slot (tasks_of p k v (so_seq s)) = [x]" "k \<noteq> PAGE_OUT" for k x
  proof -
    from that(1) obtain t where "tasks_of p k v (so_seq s) = [t]" "tk_slot t = x" by auto
    then have "t \<in> set (so_seq s)" "tk_kind t = k" "tk_slot t = x"
      unfolding tasks_of_def by (auto simp: filter_eq_Cons_iff)
    with that(2) show ?thesis by (auto simp: start_slots_def)
  qed
  obtain s0 s1 where sg: "so_segments s ! v = (s0, s1)" by fastforce
  have sv: "seg_valid p s v" using assms(1,2) by (simp add: cp_valid_def)
  then have "map tk_slot (tasks_of p COMPUTE v (so_seq s)) = [sg_s s0]"
    by (simp add: seg_valid_def sg Let_def)
  then have "sg_s s0 \<in> set (start_slots (so_seq s))" by (rule start) simp
  moreover have "sg_s s1 \<in> set (start_slots (so_seq s))" if "sg_active s1"
    using sv that start [of PAGE_IN "sg_s s1"] start [of REMAT "sg_s s1"]
    by (simp add: seg_valid_def sg Let_def split: if_splits)
  ultimately show ?thesis using assms(3,4) sg by auto
qed

lemma residency_mono_slots:
  assumes "cp_valid p s" "\<forall>x \<in> set (start_slots (so_seq s)). x \<le> b" "b \<le> slot"
  shows "residency p s slot \<le> residency p s b"
proof -
  have "seg_open sg slot \<Longrightarrow> seg_open sg b"
    if "v < cp_n p" "sg = fst (so_segments s ! v) \<or> sg = snd (so_segments s ! v)" for sg v
    using cp_valid_seg_starts [OF assms(1) that] assms(2,3) by (auto simp: seg_open_def)
  then have "node_residency p s slot v \<le> node_residency p s b v" if "v < cp_n p" for v
    using that by (simp add: node_residency_def)
  then show ?thesis unfolding residency_def by (intro sum_list_mono) simp
qed

section \<open>The topological sequence\<close>

lemma rank_hint_ok:
  assumes "distinct sq" "set sq \<subseteq> {..<length ids}"
  shows "distinct (rank_hint ids hint sq) \<and> set (rank_hint ids hint sq) \<subseteq> {..<length ids}"
  using assms by (induction ids hint sq rule: rank_hint.induct) auto

lemma topo_sequence_ok: "distinct (topo_sequence p)" "set (topo_sequence p) = {..<cp_n p}"
  using rank_hint_ok [of "[]" "map ct_id (cp_nodes p)" "cp_topo_hint p"]
  by (auto simp: topo_sequence_def Let_def cp_n_def)

lemma distinct_remdups_adj_sorted: "sorted xs \<Longrightarrow> distinct (remdups_adj xs)"
  by (induction xs rule: remdups_adj.induct) (auto simp: antisym)

lemma node_preds_ok:
  "distinct (node_preds p v)" "u \<in> set (node_preds p v) \<Longrightarrow> u < cp_n p \<and> u \<noteq> v \<and> v < cp_n p"
  by (auto simp: node_preds_def good_edges_def distinct_remdups_adj_sorted)

section \<open>Properties\<close>

text \<open>
  C6: a solution that \<open>CPSolver::verify\<close> accepts satisfies the equations of the formal model: every
  node is computed exactly once and reopened or spilled at most once, start slots increase strictly,
  segments match their tasks, a fill follows a spill of the same tensor at the same DDR address, the
  operands of every COMPUTE and REMAT are resident at its slot, residency stays within the capacity,
  and the reported compute, DDR and peak figures are the true ones.
\<close>

theorem verify_accepts_only_valid:
  assumes "verify p s = None"
  shows "cp_valid p s"
  using assms by (rule verify_sound)

definition demo_problem :: cp_problem where
  "demo_problem = \<lparr>cp_nodes = [\<lparr>ct_id = 10, ct_m = 1, ct_w = 1, ct_C = 2, ct_no_remat = False\<rparr>,
       \<lparr>ct_id = 11, ct_m = 1, ct_w = 1, ct_C = 2, ct_no_remat = False\<rparr>],
     cp_edges = [(0, 1)], cp_M = 2, cp_W = 2, cp_topo_hint = [10, 11]\<rparr>"

definition demo_seg :: "nat \<Rightarrow> nat \<Rightarrow> cp_segment" where
  "demo_seg b e = empty_segment\<lparr>sg_s := b, sg_e := e, sg_active := True\<rparr>"

definition demo_solution :: "nat \<Rightarrow> nat \<Rightarrow> bytes \<Rightarrow> cp_solution" where
  "demo_solution t1 t2 pk = empty_solution\<lparr>so_feasible := True,
     so_segments := [(demo_seg t1 t2, empty_segment), (demo_seg t2 t2, empty_segment)],
     so_seq := [\<lparr>tk_kind = COMPUTE, tk_v = 10, tk_bytes = 1, tk_slot = t1\<rparr>,
                \<lparr>tk_kind = COMPUTE, tk_v = 11, tk_bytes = 1, tk_slot = t2\<rparr>],
     so_peak_resident := pk, so_total_compute := 2\<rparr>"

theorem verify_accepts_only_valid_witness:
  "verify demo_problem (demo_solution 1 2 2) = None \<and> cp_valid demo_problem (demo_solution 1 2 2)"
proof -
  have "verify demo_problem (demo_solution 1 2 2) = None" by code_simp
  with verify_accepts_only_valid [OF this] show ?thesis by blast
qed

text \<open>
  for an accepted solution whose tasks start at or before slot \<open>2 n + 2\<close>, the last slot that the
  checker looks at, the capacity is respected at every slot, not only at the checked ones.
\<close>

lemma verify_capacity_all_slots:
  assumes "verify p s = None" and "\<forall>x \<in> set (start_slots (so_seq s)). x \<le> 2 * cp_n p + 2" and "1 \<le> slot"
  shows "residency p s slot \<le> cp_M p"
proof -
  have v: "cp_valid p s" using assms(1) by (rule verify_sound)
  have chk: "residency p s x \<le> cp_M p" if "1 \<le> x" "x \<le> 2 * cp_n p + 2" for x
    using v that unfolding cp_valid_def by (meson le_trans)
  show ?thesis
  proof (cases "slot \<le> 2 * cp_n p + 2")
    case True
    then show ?thesis using chk assms(3) by simp
  next
    case False
    then have "residency p s slot \<le> residency p s (2 * cp_n p + 2)"
      by (intro residency_mono_slots [OF v assms(2)]) simp
    also have "\<dots> \<le> cp_M p" by (rule chk) simp_all
    finally show ?thesis .
  qed
qed

lemma verify_capacity_all_slots_witness: "residency demo_problem (demo_solution 1 2 2) 50 \<le> 2"
proof -
  have "verify demo_problem (demo_solution 1 2 2) = None" by code_simp
  moreover have "start_slots (so_seq (demo_solution 1 2 2)) = [1, 2]" "cp_n demo_problem = 2"
    "cp_M demo_problem = 2" by code_simp+
  ultimately show ?thesis using verify_capacity_all_slots [of demo_problem "demo_solution 1 2 2" 50] by simp
qed

text \<open>
  the bound on the start slots is needed. The checker never looks beyond slot \<open>2 n + 2\<close>, so it accepts
  this two-node schedule at slots 7 and 8 although both one-byte tensors are resident at slot 8 and
  the capacity is one byte.
\<close>

lemma verify_ignores_late_slots:
  "verify (demo_problem\<lparr>cp_M := 1\<rparr>) (demo_solution 7 8 0) = None \<and>
   residency (demo_problem\<lparr>cp_M := 1\<rparr>) (demo_solution 7 8 0) 8 = 2"
  by code_simp

text \<open>
  the ranking of the preprocessing is a permutation of the nodes, whatever the hint holds
  (unknown ids, repeated ids, missing ids).
\<close>

lemma topo_sequence_permutation:
  "mset (topo_sequence p) = mset [0..<cp_n p]"
  using topo_sequence_ok [of p] set_eq_iff_mset_eq_distinct [of "topo_sequence p" "[0..<cp_n p]"]
  by (auto simp: atLeast0LessThan)

end
