(* ===== verification/CpSearch.thy ===== *)
theory CpSearch
  imports CpModel
begin

text \<open>
  The exact depth-first branch and bound of \<open>CPSolver::Impl\<close>
  (\<open>compiler/src/vtcm/cp_solver.cpp\<close>): the search state, its transitions and their undo, the lower
  bounds, \<open>dfs\<close>, \<open>close_rec\<close>, \<open>task_phase\<close>, \<open>evict_and_place\<close>, \<open>evict_rec\<close> and \<open>leaf\<close>.

  The members of \<open>Impl\<close> are split in two records: \<open>cfg\<close>, what every branch undoes before it
  returns, and \<open>bk\<close>, what survives a branch (the incumbent, the counters, the abort flag, \<open>peak\<close> and
  \<open>seg_start\<close>, which \<open>unplace\<close> does not restore). Counters that the code decreases are integers. The
  vectors used as stacks (\<open>log\<close>, \<open>lc_undo\<close>) are lists with the newest entry first.

  The mutual recursion goes through \<open>dfs\<close> alone: the other functions take the recursive call as the
  argument \<open>k\<close> and recurse over their candidate list. \<open>dfs\<close> has a fuel, and running out of it sets the
  flag \<open>bk_out_of_fuel\<close>, which the code does not have; \<open>dfs_keeps\<close> shows that fuel above the number of
  tasks still possible is never used up. \<open>late\<close> stands for the clock: whether the time limit has
  passed when the node counter has the given value.
\<close>

section \<open>State\<close>

datatype st = UNCOMPUTED | LIVE0 | CLOSED_DDR | CLOSED_FREE | LIVE1 | DONE

datatype log_kind = L_COMPUTE | L_REMAT | L_FILL | L_SPILL | L_CLOSE

record ent =
  en_slot :: nat
  en_k :: log_kind
  en_v :: nat
  en_e :: nat

record cand =
  cd_kind :: nat
  cd_v :: nat
  cd_rnk :: nat

record cfg =
  cf_st :: "st list"
  cf_unsched :: "int list"
  cf_last_cons :: "nat list"
  cf_lc_undo :: "nat list list"
  cf_ncomputed :: nat
  cf_next_topo :: nat
  cf_resident :: int
  cf_spill_b :: int
  cf_fill_b :: int
  cf_compute_used :: int
  cf_computed_w :: int
  cf_remats :: int
  cf_spills :: int
  cf_t :: nat
  cf_log :: "ent list"

record bk =
  bk_seg_start :: "nat list"
  bk_peak :: int
  bk_have_inc :: bool
  bk_inc_k0 :: int
  bk_inc_k1 :: int
  bk_inc_k2 :: int
  bk_inc_log :: "ent list"
  bk_inc_ddr :: int
  bk_inc_peak :: int
  bk_inc_compute :: int
  bk_inc_remats :: int
  bk_inc_spills :: int
  bk_inc_slots :: nat
  bk_nodes :: nat
  bk_aborted :: bool
  bk_abort_reason :: "abort_reason list"
  bk_frontier_lb :: "int option"
  bk_out_of_fuel :: bool

type_synonym search = "cfg \<times> bk"

abbreviation nn :: "cp_ctx \<Rightarrow> nat" where
  "nn cx \<equiv> cp_n (cx_p cx)"

abbreviation mm :: "cp_ctx \<Rightarrow> nat \<Rightarrow> int" where
  "mm cx v \<equiv> int (cx_m cx ! v)"

abbreviation ww :: "cp_ctx \<Rightarrow> nat \<Rightarrow> int" where
  "ww cx v \<equiv> int (cx_w cx ! v)"

abbreviation aborted :: "search \<Rightarrow> bool" where
  "aborted s \<equiv> bk_aborted (snd s)"

definition remat_allowed :: "cp_ctx \<Rightarrow> bool" where
  "remat_allowed cx = remat_allowed_mode (co_mode (cx_o cx))"

definition paging_allowed :: "cp_ctx \<Rightarrow> bool" where
  "paging_allowed cx = paging_allowed_mode (co_mode (cx_o cx))"

definition is_live :: "cfg \<Rightarrow> nat \<Rightarrow> bool" where
  "is_live c u \<longleftrightarrow> cf_st c ! u = LIVE0 \<or> cf_st c ! u = LIVE1"

definition future_need :: "cp_ctx \<Rightarrow> cfg \<Rightarrow> nat \<Rightarrow> bool" where
  "future_need cx c u \<longleftrightarrow> 0 < cf_unsched c ! u \<or> cx_may_serve_remat cx ! u"

definition preds_open :: "cp_ctx \<Rightarrow> cfg \<Rightarrow> nat \<Rightarrow> bool" where
  "preds_open cx c v \<longleftrightarrow> list_all (is_live c) (cx_preds cx ! v)"

section \<open>Dead branches and bounds\<close>

definition reopen_floor :: "cp_ctx \<Rightarrow> cfg \<Rightarrow> st \<Rightarrow> (nat \<Rightarrow> int) \<Rightarrow> int" where
  "reopen_floor cx c z cost =
     sum_list (map cost (filter (\<lambda>u. cf_st c ! u = z \<and> 0 < cf_unsched c ! u) [0..<nn cx]))"

definition compute_floor :: "cp_ctx \<Rightarrow> cfg \<Rightarrow> int" where
  "compute_floor cx c = int (cx_sum_w cx) - cf_computed_w c + cf_compute_used c"

definition dead_state :: "cp_ctx \<Rightarrow> cfg \<Rightarrow> bool" where
  "dead_state cx c \<longleftrightarrow>
     (\<not> remat_allowed cx \<and>
      list_ex (\<lambda>u. cf_st c ! u = CLOSED_FREE \<and> (0 < cf_unsched c ! u \<or> cx_may_serve_remat cx ! u)) [0..<nn cx]) \<or>
     (co_mode (cx_o cx) \<noteq> SEQ_ONLY \<and>
      int (cp_W (cx_p cx)) <
        compute_floor cx c + (if remat_allowed cx then reopen_floor cx c CLOSED_FREE (ww cx) else 0))"

definition lb_objective :: "cp_ctx \<Rightarrow> cfg \<Rightarrow> bk \<Rightarrow> int" where
  "lb_objective cx c b =
     (case cx_obj cx of
        DDR_BYTES \<Rightarrow> cf_spill_b c + cf_fill_b c + reopen_floor cx c CLOSED_DDR (mm cx)
      | TOTAL_COMPUTE \<Rightarrow> compute_floor cx c + reopen_floor cx c CLOSED_FREE (ww cx)
      | PEAK_RESIDENT \<Rightarrow> (if cf_resident c < bk_peak b then bk_peak b else cf_resident c))"

definition lb_tiebreak :: "cp_ctx \<Rightarrow> cfg \<Rightarrow> int" where
  "lb_tiebreak cx c =
     (case cx_obj cx of
        DDR_BYTES \<Rightarrow> compute_floor cx c + (if remat_allowed cx then reopen_floor cx c CLOSED_FREE (ww cx) else 0)
      | TOTAL_COMPUTE \<Rightarrow> cf_spill_b c + cf_fill_b c + reopen_floor cx c CLOSED_DDR (mm cx)
      | PEAK_RESIDENT \<Rightarrow> int (cf_t c))"

definition prune_by_bound :: "cp_ctx \<Rightarrow> cfg \<Rightarrow> bk \<Rightarrow> bool" where
  "prune_by_bound cx c b \<longleftrightarrow>
     (if \<not> bk_have_inc b then False
      else if lb_objective cx c b \<noteq> bk_inc_k0 b then bk_inc_k0 b < lb_objective cx c b
      else bk_inc_k1 b \<le> lb_tiebreak cx c)"

definition note_frontier :: "cp_ctx \<Rightarrow> search \<Rightarrow> search" where
  "note_frontier cx = (\<lambda>(c, b).
     if \<not> bk_aborted b then (c, b)
     else let lb = lb_objective cx c b
          in if (case bk_frontier_lb b of None \<Rightarrow> True | Some f \<Rightarrow> lb < f)
             then (c, b\<lparr>bk_frontier_lb := Some lb\<rparr>) else (c, b))"

definition abort_with :: "abort_reason \<Rightarrow> bk \<Rightarrow> bk" where
  "abort_with r b = b\<lparr>bk_aborted := True,
     bk_abort_reason := (if bk_abort_reason b = [] then [r] else bk_abort_reason b)\<rparr>"

definition time_over :: "(nat \<Rightarrow> bool) \<Rightarrow> bk \<Rightarrow> bool \<times> bk" where
  "time_over late b =
     (if bk_aborted b then (True, b)
      else if bk_nodes b mod 4096 \<noteq> 0 then (False, b)
      else if late (bk_nodes b) then (True, abort_with Timeout b)
      else (False, b))"

definition count_node :: "search \<Rightarrow> search" where
  "count_node = (\<lambda>(c, b). (c, b\<lparr>bk_nodes := Suc (bk_nodes b)\<rparr>))"

section \<open>Transitions\<close>

definition push_close :: "cfg \<Rightarrow> log_kind \<Rightarrow> nat \<Rightarrow> ent list" where
  "push_close c k u = \<lparr>en_slot = cf_t c, en_k = k, en_v = u, en_e = cf_t c\<rparr> # cf_log c"

definition close_l0 :: "cp_ctx \<Rightarrow> nat \<Rightarrow> bool \<Rightarrow> cfg \<Rightarrow> cfg" where
  "close_l0 cx u to_ddr c =
     (if to_ddr
      then c\<lparr>cf_resident := cf_resident c - mm cx u, cf_st := (cf_st c)[u := CLOSED_DDR],
             cf_spill_b := cf_spill_b c + mm cx u, cf_spills := cf_spills c + 1,
             cf_log := push_close c L_SPILL u\<rparr>
      else c\<lparr>cf_resident := cf_resident c - mm cx u, cf_st := (cf_st c)[u := CLOSED_FREE],
             cf_log := push_close c L_CLOSE u\<rparr>)"

definition reopen_l0 :: "cp_ctx \<Rightarrow> nat \<Rightarrow> bool \<Rightarrow> cfg \<Rightarrow> cfg" where
  "reopen_l0 cx u was_ddr c =
     (if was_ddr
      then c\<lparr>cf_resident := cf_resident c + mm cx u, cf_st := (cf_st c)[u := LIVE0],
             cf_spill_b := cf_spill_b c - mm cx u, cf_spills := cf_spills c - 1,
             cf_log := tl (cf_log c)\<rparr>
      else c\<lparr>cf_resident := cf_resident c + mm cx u, cf_st := (cf_st c)[u := LIVE0],
             cf_log := tl (cf_log c)\<rparr>)"

text \<open>Ending a segment for good, and taking that back.\<close>

definition finish :: "cp_ctx \<Rightarrow> nat \<Rightarrow> cfg \<Rightarrow> cfg" where
  "finish cx u c = c\<lparr>cf_resident := cf_resident c - mm cx u, cf_st := (cf_st c)[u := DONE],
     cf_log := push_close c L_CLOSE u\<rparr>"

definition unfinish :: "cp_ctx \<Rightarrow> nat \<Rightarrow> st \<Rightarrow> cfg \<Rightarrow> cfg" where
  "unfinish cx u z c = c\<lparr>cf_resident := cf_resident c + mm cx u, cf_st := (cf_st c)[u := z],
     cf_log := tl (cf_log c)\<rparr>"

fun consume :: "nat \<Rightarrow> nat list \<Rightarrow> nat list \<Rightarrow> nat list \<times> nat list" where
  "consume slot [] lc = ([], lc)"
| "consume slot (u # us) lc =
     (let (undo, lc') = consume slot us (lc[u := slot]) in (lc ! u # undo, lc'))"

fun restore :: "nat list \<Rightarrow> nat list \<Rightarrow> nat list \<Rightarrow> nat list" where
  "restore (u # us) (x # xs) lc = restore us xs (lc[u := x])"
| "restore us xs lc = lc"

definition shift_unsched :: "int \<Rightarrow> nat list \<Rightarrow> int list \<Rightarrow> int list" where
  "shift_unsched d us l = fold (\<lambda>u l. l[u := l ! u + d]) us l"

definition place_cfg :: "cp_ctx \<Rightarrow> cand \<Rightarrow> nat \<Rightarrow> cfg \<Rightarrow> cfg" where
  "place_cfg cx d slot c =
     (let v = cd_v d; ps = cx_preds cx ! v; (undo, lc) = consume slot ps (cf_last_cons c)
      in if cd_kind d = 0
         then c\<lparr>cf_st := (cf_st c)[v := LIVE0], cf_resident := cf_resident c + mm cx v,
                cf_compute_used := cf_compute_used c + ww cx v,
                cf_computed_w := cf_computed_w c + ww cx v, cf_ncomputed := Suc (cf_ncomputed c),
                cf_next_topo := (if co_respect_topo_order (cx_o cx) then Suc (cf_next_topo c) else cf_next_topo c),
                cf_unsched := shift_unsched (- 1) ps (cf_unsched c), cf_last_cons := lc,
                cf_lc_undo := undo # cf_lc_undo c,
                cf_log := \<lparr>en_slot = slot, en_k = L_COMPUTE, en_v = v, en_e = 0\<rparr> # cf_log c\<rparr>
         else if cd_kind d = 1
         then c\<lparr>cf_st := (cf_st c)[v := LIVE1], cf_resident := cf_resident c + mm cx v,
                cf_compute_used := cf_compute_used c + ww cx v, cf_remats := cf_remats c + 1,
                cf_last_cons := lc, cf_lc_undo := undo # cf_lc_undo c,
                cf_log := \<lparr>en_slot = slot, en_k = L_REMAT, en_v = v, en_e = 0\<rparr> # cf_log c\<rparr>
         else c\<lparr>cf_st := (cf_st c)[v := LIVE1], cf_resident := cf_resident c + mm cx v,
                cf_fill_b := cf_fill_b c + mm cx v, cf_lc_undo := [] # cf_lc_undo c,
                cf_log := \<lparr>en_slot = slot, en_k = L_FILL, en_v = v, en_e = 0\<rparr> # cf_log c\<rparr>)"

definition place :: "cp_ctx \<Rightarrow> cand \<Rightarrow> nat \<Rightarrow> search \<Rightarrow> search" where
  "place cx d slot = (\<lambda>(c, b).
     let c' = place_cfg cx d slot c
     in (c', b\<lparr>bk_seg_start := (bk_seg_start b)[cd_v d := slot],
               bk_peak := (if bk_peak b < cf_resident c' then cf_resident c' else bk_peak b)\<rparr>))"

definition unplace :: "cp_ctx \<Rightarrow> cand \<Rightarrow> cfg \<Rightarrow> cfg" where
  "unplace cx d c =
     (let v = cd_v d; ps = cx_preds cx ! v; undo = hd (cf_lc_undo c)
      in if cd_kind d = 0
         then c\<lparr>cf_unsched := shift_unsched 1 ps (cf_unsched c),
                cf_last_cons := restore ps undo (cf_last_cons c), cf_lc_undo := tl (cf_lc_undo c),
                cf_next_topo := (if co_respect_topo_order (cx_o cx) then cf_next_topo c - 1 else cf_next_topo c),
                cf_ncomputed := cf_ncomputed c - 1, cf_computed_w := cf_computed_w c - ww cx v,
                cf_compute_used := cf_compute_used c - ww cx v,
                cf_resident := cf_resident c - mm cx v, cf_st := (cf_st c)[v := UNCOMPUTED],
                cf_log := tl (cf_log c)\<rparr>
         else if cd_kind d = 1
         then c\<lparr>cf_last_cons := restore ps undo (cf_last_cons c), cf_lc_undo := tl (cf_lc_undo c),
                cf_remats := cf_remats c - 1, cf_compute_used := cf_compute_used c - ww cx v,
                cf_resident := cf_resident c - mm cx v, cf_st := (cf_st c)[v := CLOSED_FREE],
                cf_log := tl (cf_log c)\<rparr>
         else c\<lparr>cf_lc_undo := tl (cf_lc_undo c), cf_fill_b := cf_fill_b c - mm cx v,
                cf_resident := cf_resident c - mm cx v, cf_st := (cf_st c)[v := CLOSED_DDR],
                cf_log := tl (cf_log c)\<rparr>)"

section \<open>The search\<close>

definition on_cfg :: "(cfg \<Rightarrow> cfg) \<Rightarrow> search \<Rightarrow> search" where
  "on_cfg f s = (f (fst s), snd s)"

definition place_and_go :: "cp_ctx \<Rightarrow> (search \<Rightarrow> search) \<Rightarrow> cand \<Rightarrow> nat \<Rightarrow> search \<Rightarrow> search" where
  "place_and_go cx k d slot s =
     (let saved_t = cf_t (fst s);
          s1 = k (on_cfg (cf_t_update (\<lambda>_. slot)) (place cx d slot s))
      in on_cfg (unplace cx d) (on_cfg (cf_t_update (\<lambda>_. saved_t)) s1))"

fun evict_rec :: "cp_ctx \<Rightarrow> (search \<Rightarrow> search) \<Rightarrow> cand \<Rightarrow> nat \<Rightarrow> nat list \<Rightarrow> search \<Rightarrow> search" where
  "evict_rec cx k d slot vict s =
     (if aborted s then note_frontier cx s
      else
        let s0 = count_node s
        in if cf_resident (fst s0) + mm cx (cd_v d) \<le> int (cp_M (cx_p cx)) then place_and_go cx k d slot s0
           else case vict of
                  [] \<Rightarrow> s0
                | u # us \<Rightarrow>
                    if cf_st (fst s0) ! u = LIVE1
                    then let s1 = on_cfg (unfinish cx u LIVE1) (evict_rec cx k d slot us (on_cfg (finish cx u) s0))
                         in if aborted s1 then s1 else evict_rec cx k d slot us s1
                    else
                      let s1 = (if remat_allowed cx \<and> 2 \<le> cx_C cx ! u
                                then on_cfg (reopen_l0 cx u False)
                                       (evict_rec cx k d slot us (on_cfg (close_l0 cx u False) s0))
                                else s0)
                      in if aborted s1 then s1
                         else
                           let s2 = (if paging_allowed cx \<and> 2 \<le> cx_C cx ! u \<and> future_need cx (fst s1) u
                                     then on_cfg (reopen_l0 cx u True)
                                            (evict_rec cx k d slot us (on_cfg (close_l0 cx u True) s1))
                                     else s1)
                           in if aborted s2 then s2 else evict_rec cx k d slot us s2)"

definition victims :: "cp_ctx \<Rightarrow> cfg \<Rightarrow> cand \<Rightarrow> nat list" where
  "victims cx c d =
     sort_key (\<lambda>u. (- mm cx u, cx_topo_rank cx ! u, u))
       (filter (\<lambda>u. u \<notin> set (cx_preds cx ! cd_v d) \<and>
          (if cf_st c ! u = LIVE1 then cf_unsched c ! u = 0
           else cf_st c ! u = LIVE0 \<and> cf_last_cons c ! u \<noteq> cf_t c \<and>
             (remat_allowed cx \<and> 2 \<le> cx_C cx ! u \<or>
              paging_allowed cx \<and> 2 \<le> cx_C cx ! u \<and> future_need cx c u)))
        [0..<nn cx])"

definition evict_and_place :: "cp_ctx \<Rightarrow> (search \<Rightarrow> search) \<Rightarrow> cand \<Rightarrow> nat \<Rightarrow> search \<Rightarrow> search" where
  "evict_and_place cx k d slot s =
     (let s0 = count_node s in evict_rec cx k d slot (victims cx (fst s0) d) s0)"

definition task_cand :: "cp_ctx \<Rightarrow> cfg \<Rightarrow> nat \<Rightarrow> cand option" where
  "task_cand cx c v =
     (let r = cx_topo_rank cx ! v; affordable = cf_compute_used c + ww cx v \<le> int (cp_W (cx_p cx))
      in case cf_st c ! v of
           UNCOMPUTED \<Rightarrow>
             if (co_respect_topo_order (cx_o cx) \<and>
                  (length (cx_topo_seq cx) \<le> cf_next_topo c \<or> cx_topo_seq cx ! cf_next_topo c \<noteq> v)) \<or>
                \<not> preds_open cx c v \<or> \<not> affordable then None
             else Some \<lparr>cd_kind = 0, cd_v = v, cd_rnk = r\<rparr>
         | CLOSED_FREE \<Rightarrow>
             if \<not> remat_allowed cx \<or> cx_C cx ! v < 2 \<or> \<not> future_need cx c v \<or> \<not> preds_open cx c v \<or>
                \<not> affordable then None
             else Some \<lparr>cd_kind = 1, cd_v = v, cd_rnk = r\<rparr>
         | CLOSED_DDR \<Rightarrow>
             if \<not> paging_allowed cx \<or> cx_C cx ! v < 2 \<or> \<not> future_need cx c v then None
             else Some \<lparr>cd_kind = 2, cd_v = v, cd_rnk = r\<rparr>
         | _ \<Rightarrow> None)"

definition task_cands :: "cp_ctx \<Rightarrow> cfg \<Rightarrow> cand list" where
  "task_cands cx c =
     sort_key (\<lambda>d. (cd_rnk d, cd_kind d, cd_v d)) (List.map_filter (task_cand cx c) [0..<nn cx])"

fun task_loop :: "cp_ctx \<Rightarrow> (search \<Rightarrow> search) \<Rightarrow> nat \<Rightarrow> cand list \<Rightarrow> search \<Rightarrow> search" where
  "task_loop cx k slot [] s = s"
| "task_loop cx k slot (d # ds) s =
     (let s1 = (if cf_resident (fst s) + mm cx (cd_v d) \<le> int (cp_M (cx_p cx))
                then place_and_go cx k d slot s else evict_and_place cx k d slot s)
      in if aborted s1 then note_frontier cx s1 else task_loop cx k slot ds s1)"

definition task_phase :: "cp_ctx \<Rightarrow> (search \<Rightarrow> search) \<Rightarrow> search \<Rightarrow> search" where
  "task_phase cx k s =
     (if aborted s then note_frontier cx s
      else let s0 = count_node s
           in task_loop cx k (Suc (cf_t (fst s0))) (task_cands cx (fst s0)) s0)"

fun close_rec :: "cp_ctx \<Rightarrow> (search \<Rightarrow> search) \<Rightarrow> nat list \<Rightarrow> search \<Rightarrow> search" where
  "close_rec cx k cands s =
     (if aborted s then note_frontier cx s
      else
        let s0 = count_node s
        in case cands of
             [] \<Rightarrow> task_phase cx k s0
           | u # us \<Rightarrow>
               if cf_st (fst s0) ! u = LIVE1
               then let s1 = on_cfg (unfinish cx u LIVE1) (close_rec cx k us (on_cfg (finish cx u) s0))
                    in if aborted s1 then s1 else close_rec cx k us s1
               else
                 let s1 = (if remat_allowed cx
                           then on_cfg (reopen_l0 cx u False) (close_rec cx k us (on_cfg (close_l0 cx u False) s0))
                           else s0)
                 in if aborted s1 then s1
                    else
                      let s2 = close_rec cx k us s1
                      in if aborted s2 then s2
                         else if paging_allowed cx \<and> 2 \<le> cx_C cx ! u \<and> future_need cx (fst s2) u
                         then on_cfg (reopen_l0 cx u True) (close_rec cx k us (on_cfg (close_l0 cx u True) s2))
                         else s2)"

declare evict_rec.simps [simp del] close_rec.simps [simp del]

definition close_cands :: "cp_ctx \<Rightarrow> cfg \<Rightarrow> nat list" where
  "close_cands cx c =
     (if cf_t c = 0 then []
      else sort_key (\<lambda>u. (cx_topo_rank cx ! u, u))
             (filter (\<lambda>u. (cf_st c ! u = LIVE0 \<or> cf_st c ! u = LIVE1 \<and> cf_unsched c ! u = 0) \<and>
                cf_last_cons c ! u = cf_t c) [0..<nn cx]))"

text \<open>Closing every open tensor that satisfies \<open>P\<close>, with what is needed to reopen them.\<close>

fun finish_all :: "cp_ctx \<Rightarrow> (nat \<Rightarrow> bool) \<Rightarrow> nat list \<Rightarrow> cfg \<Rightarrow> (nat \<times> st) list \<times> cfg" where
  "finish_all cx P [] c = ([], c)"
| "finish_all cx P (u # us) c =
     (if is_live c u \<and> P u
      then let (undo, c') = finish_all cx P us (finish cx u c) in (undo @ [(u, cf_st c ! u)], c')
      else finish_all cx P us c)"

definition unfinish_all :: "cp_ctx \<Rightarrow> (nat \<times> st) list \<Rightarrow> cfg \<Rightarrow> cfg" where
  "unfinish_all cx undo c = fold (\<lambda>(u, z). unfinish cx u z) undo c"

definition leaf_keys :: "cp_ctx \<Rightarrow> cfg \<Rightarrow> bk \<Rightarrow> int \<times> int \<times> int" where
  "leaf_keys cx c b =
     (let ddr = cf_spill_b c + cf_fill_b c
      in case cx_obj cx of
           TOTAL_COMPUTE \<Rightarrow> (cf_compute_used c, ddr, int (cf_t c))
         | PEAK_RESIDENT \<Rightarrow> (bk_peak b, int (cf_t c), ddr)
         | DDR_BYTES \<Rightarrow> (ddr, cf_compute_used c, int (cf_t c)))"

definition inc_keys :: "bk \<Rightarrow> int \<times> int \<times> int" where
  "inc_keys b = (bk_inc_k0 b, bk_inc_k1 b, bk_inc_k2 b)"

definition key_less :: "int \<times> int \<times> int \<Rightarrow> int \<times> int \<times> int \<Rightarrow> bool" where
  "key_less = (\<lambda>(k0, k1, k2) (i0, i1, i2).
     k0 < i0 \<or> (k0 = i0 \<and> (k1 < i1 \<or> (k1 = i1 \<and> k2 < i2))))"

definition take_incumbent :: "cp_ctx \<Rightarrow> cfg \<Rightarrow> bk \<Rightarrow> bk" where
  "take_incumbent cx c b =
     (let (k0, k1, k2) = leaf_keys cx c b
      in if \<not> bk_have_inc b \<or> key_less (k0, k1, k2) (inc_keys b)
         then b\<lparr>bk_have_inc := True, bk_inc_k0 := k0, bk_inc_k1 := k1, bk_inc_k2 := k2,
                bk_inc_log := rev (cf_log c), bk_inc_ddr := cf_spill_b c + cf_fill_b c,
                bk_inc_peak := bk_peak b, bk_inc_compute := cf_compute_used c,
                bk_inc_remats := cf_remats c, bk_inc_spills := cf_spills c, bk_inc_slots := cf_t c\<rparr>
         else b)"

definition leaf :: "cp_ctx \<Rightarrow> search \<Rightarrow> search" where
  "leaf cx = (\<lambda>(c, b).
     let (opened, c1) = finish_all cx (\<lambda>_. True) [0..<nn cx] c
     in (unfinish_all cx opened c1, take_incumbent cx c1 b))"

fun dfs :: "nat \<Rightarrow> (nat \<Rightarrow> bool) \<Rightarrow> cp_ctx \<Rightarrow> search \<Rightarrow> search" where
  "dfs 0 late cx s = (fst s, (snd s)\<lparr>bk_out_of_fuel := True\<rparr>)"
| "dfs (Suc fuel) late cx s =
     (if aborted s then note_frontier cx s
      else
        let s1 = count_node s
        in if co_node_limit (cx_o cx) < bk_nodes (snd s1)
           then note_frontier cx (fst s1, abort_with NodeLimit (snd s1))
           else
             let (over, b2) = time_over late (snd s1)
             in if over then note_frontier cx (fst s1, b2)
                else
                  let (closed_dead, c2) = finish_all cx (\<lambda>u. \<not> future_need cx (fst s1) u) [0..<nn cx] (fst s1);
                      s3 = (if cf_ncomputed c2 = nn cx then leaf cx (c2, b2)
                            else if \<not> dead_state cx c2 \<and> \<not> prune_by_bound cx c2 b2
                            then close_rec cx (dfs fuel late cx) (close_cands cx c2) (c2, b2)
                            else (c2, b2))
                  in on_cfg (unfinish_all cx closed_dead) s3)"

section \<open>Undo\<close>

named_theorems undo_simps "a transition followed by its undo"

lemma update_back: "xs ! u = z \<Longrightarrow> xs[u := y, u := z] = xs"
  by (metis list_update_id list_update_overwrite)

lemma update_same: "xs ! u = z \<Longrightarrow> xs[u := z] = xs"
  by auto

lemma reopen_close_l0 [undo_simps]:
  "cf_st c ! u = LIVE0 \<Longrightarrow> reopen_l0 cx u d (close_l0 cx u d c) = c"
  by (auto simp: reopen_l0_def close_l0_def push_close_def update_same)

lemma unfinish_finish [undo_simps]: "cf_st c ! u = z \<Longrightarrow> unfinish cx u z (finish cx u c) = c"
  by (simp add: unfinish_def finish_def push_close_def update_same)

lemma restore_update:
  "u \<notin> set us \<Longrightarrow> restore us xs (lc[u := x]) = (restore us xs lc)[u := x]"
proof (induction us xs lc rule: restore.induct)
  case (1 v us y ys lc)
  then show ?case by (auto simp: list_update_swap)
qed auto

lemma restore_consume:
  "distinct us \<Longrightarrow> consume slot us lc = (undo, lc') \<Longrightarrow> restore us undo lc' = lc"
proof (induction us arbitrary: lc undo lc')
  case (Cons u us)
  obtain undo' lc'' where c: "consume slot us (lc[u := slot]) = (undo', lc'')" by fastforce
  with Cons.prems have r: "undo = lc ! u # undo'" "lc' = lc''" by auto
  have "restore us undo' lc'' = lc[u := slot]" using Cons.IH [OF _ c] Cons.prems(1) by simp
  then show ?case using Cons.prems(1) by (simp add: r restore_update update_back)
qed simp

lemma shift_unsched_nth:
  "distinct us \<Longrightarrow> i < length l \<Longrightarrow> shift_unsched d us l ! i = (if i \<in> set us then l ! i + d else l ! i)"
  unfolding shift_unsched_def
proof (induction us arbitrary: l)
  case (Cons a us)
  then show ?case by (cases "a = i") auto
qed simp

lemma length_shift_unsched [simp]: "length (shift_unsched d us l) = length l"
  unfolding shift_unsched_def by (induction us arbitrary: l) auto

lemma shift_unsched_back: "distinct us \<Longrightarrow> shift_unsched 1 us (shift_unsched (- 1) us l) = l"
  by (rule nth_equalityI) (auto simp: shift_unsched_nth)

definition cand_state :: "nat \<Rightarrow> st" where
  "cand_state k = (if k = 0 then UNCOMPUTED else if k = 1 then CLOSED_FREE else CLOSED_DDR)"

lemma unplace_place:
  assumes "distinct (cx_preds cx ! cd_v d)" "cf_st c ! cd_v d = cand_state (cd_kind d)"
  shows "unplace cx d (place_cfg cx d slot c) = c"
proof -
  obtain undo lc where c: "consume slot (cx_preds cx ! cd_v d) (cf_last_cons c) = (undo, lc)" by fastforce
  have r: "restore (cx_preds cx ! cd_v d) undo lc = cf_last_cons c" by (rule restore_consume [OF assms(1) c])
  have st: "(cf_st c)[cd_v d := y, cd_v d := cand_state (cd_kind d)] = cf_st c" for y
    using assms(2) by (rule update_back)
  show ?thesis
    using st c r assms(1)
    by (auto simp: unplace_def place_cfg_def Let_def cand_state_def shift_unsched_back split: if_splits)
qed

lemma finish_all_undo: "finish_all cx P us c = (undo, c') \<Longrightarrow> unfinish_all cx undo c' = c"
proof (induction us arbitrary: c undo c')
  case Nil
  then show ?case by (simp add: unfinish_all_def)
next
  case (Cons u us)
  show ?case
  proof (cases "is_live c u \<and> P u")
    case True
    obtain undo' c'' where f: "finish_all cx P us (finish cx u c) = (undo', c'')" by fastforce
    with Cons.prems True have "undo = undo' @ [(u, cf_st c ! u)]" "c' = c''" by auto
    with Cons.IH [OF f] show ?thesis by (simp add: unfinish_all_def undo_simps)
  next
    case False
    with Cons show ?thesis by auto
  qed
qed

section \<open>The potential\<close>

text \<open>How many more tasks a tensor in a given state can start.\<close>

fun tasks_left :: "st \<Rightarrow> nat" where
  "tasks_left UNCOMPUTED = 2"
| "tasks_left LIVE0 = 1"
| "tasks_left CLOSED_DDR = 1"
| "tasks_left CLOSED_FREE = 1"
| "tasks_left LIVE1 = 0"
| "tasks_left DONE = 0"

definition pot :: "cfg \<Rightarrow> nat" where
  "pot c = sum_list (map tasks_left (cf_st c))"

lemma sum_list_update_le:
  assumes "f x \<le> (f (xs ! i) :: nat)"
  shows "sum_list (map f (xs[i := x])) \<le> sum_list (map f xs)"
  using assms by (induction xs arbitrary: i) (auto split: nat.split)

lemma sum_list_update_less:
  assumes "i < length xs" "f x < (f (xs ! i) :: nat)"
  shows "sum_list (map f (xs[i := x])) < sum_list (map f xs)"
  using assms
proof (induction xs arbitrary: i)
  case (Cons y ys)
  then show ?case by (cases i) auto
qed simp

lemma pot_closes:
  "pot (finish cx u c) \<le> pot c"
  "cf_st c ! u = LIVE0 \<Longrightarrow> pot (close_l0 cx u d c) \<le> pot c"
  unfolding pot_def finish_def close_l0_def by (auto intro!: sum_list_update_le)

lemma pot_finish_all: "finish_all cx P us c = (undo, c') \<Longrightarrow> pot c' \<le> pot c"
proof (induction us arbitrary: c undo c')
  case (Cons u us)
  show ?case
  proof (cases "is_live c u \<and> P u")
    case True
    obtain undo' c'' where f: "finish_all cx P us (finish cx u c) = (undo', c'')" by fastforce
    with Cons.prems True Cons.IH [OF f] pot_closes(1) [of cx u c] show ?thesis by auto
  next
    case False
    with Cons show ?thesis by auto
  qed
qed simp

lemma pot_place:
  assumes "cd_v d < length (cf_st c)" "cf_st c ! cd_v d = cand_state (cd_kind d)"
  shows "pot (place_cfg cx d slot c) < pot c"
  using assms unfolding pot_def place_cfg_def
  by (auto simp: Let_def cand_state_def split: prod.splits if_splits intro!: sum_list_update_less)

section \<open>What a branch keeps\<close>

lemma key_less_iff: "key_less a b \<longleftrightarrow> a < b"
  by (cases a; cases b) (auto simp: key_less_def)

text \<open>
  The bookkeeping only moves forward: the fuel is untouched, an abort stays, and an incumbent is only
  replaced by one that is no worse in the lexicographic order of the keys.
\<close>

definition bk_rel :: "bk \<Rightarrow> bk \<Rightarrow> bool" where
  "bk_rel b b' \<longleftrightarrow> bk_out_of_fuel b' = bk_out_of_fuel b \<and> (bk_aborted b \<longrightarrow> bk_aborted b') \<and>
     (bk_have_inc b \<longrightarrow> bk_have_inc b' \<and> inc_keys b' \<le> inc_keys b)"

definition keep :: "search \<Rightarrow> search \<Rightarrow> bool" where
  "keep s s' \<longleftrightarrow> fst s' = fst s \<and> bk_rel (snd s) (snd s')"

lemma bk_rel_refl [simp]: "bk_rel b b"
  by (simp add: bk_rel_def)

lemma bk_rel_trans: "bk_rel a b \<Longrightarrow> bk_rel b c \<Longrightarrow> bk_rel a c"
  by (auto simp: bk_rel_def)

lemma keep_refl [simp]: "keep s s"
  by (simp add: keep_def)

lemma keep_trans: "keep a b \<Longrightarrow> keep b c \<Longrightarrow> keep a c"
  by (auto simp: keep_def intro: bk_rel_trans)

lemma keep_note_frontier [simp]: "keep s (note_frontier cx s)"
  by (cases s) (auto simp: note_frontier_def keep_def bk_rel_def inc_keys_def Let_def)

lemma keep_count_node [simp]: "keep s (count_node s)"
  by (cases s) (auto simp: count_node_def keep_def bk_rel_def inc_keys_def)

lemma bk_rel_abort [simp]: "bk_rel b (abort_with r b)"
  by (auto simp: abort_with_def bk_rel_def inc_keys_def)

lemma bk_rel_incumbent [simp]: "bk_rel b (take_incumbent cx c b)"
  by (auto simp: take_incumbent_def bk_rel_def inc_keys_def key_less_iff Let_def split: prod.splits)

lemma keep_undo:
  assumes "keep (on_cfg f s) (g (on_cfg f s))" "h (f (fst s)) = fst s"
  shows "keep s (on_cfg h (g (on_cfg f s)))"
  using assms by (simp add: keep_def on_cfg_def)

definition ctx_ok :: "cp_ctx \<Rightarrow> bool" where
  "ctx_ok cx \<longleftrightarrow> (\<forall>v < nn cx. distinct (cx_preds cx ! v))"

definition sized :: "cp_ctx \<Rightarrow> search \<Rightarrow> bool" where
  "sized cx s \<longleftrightarrow> length (cf_st (fst s)) = nn cx"

definition k_ok :: "cp_ctx \<Rightarrow> nat \<Rightarrow> (search \<Rightarrow> search) \<Rightarrow> bool" where
  "k_ok cx N k \<longleftrightarrow> (\<forall>s. sized cx s \<and> pot (fst s) < N \<longrightarrow> keep s (k s))"

definition cand_ok :: "cp_ctx \<Rightarrow> search \<Rightarrow> cand \<Rightarrow> bool" where
  "cand_ok cx s d \<longleftrightarrow> cd_v d < nn cx \<and> cf_st (fst s) ! cd_v d = cand_state (cd_kind d)"

lemma cf_t_same: "r\<lparr>cf_t := cf_t r\<rparr> = r"
  by simp

lemma place_and_go_keep:
  assumes "ctx_ok cx" "k_ok cx N k" "sized cx s" "cand_ok cx s d" "pot (fst s) \<le> N"
  shows "keep s (place_and_go cx k d slot s)"
proof -
  obtain c b where s: "s = (c, b)" by fastforce
  let ?c1 = "(place_cfg cx d slot c)\<lparr>cf_t := slot\<rparr>"
  define b1 where "b1 = snd (place cx d slot s)"
  have p: "on_cfg (cf_t_update (\<lambda>_. slot)) (place cx d slot s) = (?c1, b1)"
    by (simp add: b1_def s on_cfg_def place_def Let_def)
  have rel: "bk_rel b b1" by (simp add: b1_def s place_def Let_def bk_rel_def inc_keys_def)
  have len: "length (cf_st (place_cfg cx d slot c)) = length (cf_st c)" "cf_t (place_cfg cx d slot c) = cf_t c"
    by (auto simp: place_cfg_def Let_def split: prod.splits)
  have "pot ?c1 < N"
    using pot_place [of d c cx slot] assms(3-5) by (auto simp: s sized_def cand_ok_def pot_def)
  then have k: "keep (?c1, b1) (k (?c1, b1))"
    using assms(2,3) len by (auto simp: k_ok_def sized_def s)
  then obtain b2 where b2: "k (?c1, b1) = (?c1, b2)" "bk_rel b1 b2"
    by (cases "k (?c1, b1)") (auto simp: keep_def)
  have "unplace cx d (place_cfg cx d slot c) = c"
    using assms(1,4) by (intro unplace_place) (auto simp: ctx_ok_def cand_ok_def s)
  moreover have "?c1\<lparr>cf_t := cf_t c\<rparr> = place_cfg cx d slot c"
    using cf_t_same [of "place_cfg cx d slot c"] by (simp add: len(2))
  moreover have "place_and_go cx k d slot s = (unplace cx d (?c1\<lparr>cf_t := cf_t c\<rparr>), b2)"
    unfolding place_and_go_def Let_def p b2(1) by (simp add: s on_cfg_def)
  ultimately show ?thesis using bk_rel_trans [OF rel b2(2)] by (simp add: keep_def s)
qed

lemma keep_fst: "keep s s' \<Longrightarrow> fst s' = fst s"
  by (simp add: keep_def)

lemma fst_count_node [simp]: "fst (count_node s) = fst s"
  by (cases s) (simp add: count_node_def)

lemma on_cfg_fst [simp]: "fst (on_cfg f s) = f (fst s)"
  by (simp add: on_cfg_def)

text \<open>What closing one tensor leaves in place for the others.\<close>

definition live_set :: "cp_ctx \<Rightarrow> cfg \<Rightarrow> nat list \<Rightarrow> bool" where
  "live_set cx c us \<longleftrightarrow> distinct us \<and> (\<forall>u \<in> set us. u < nn cx \<and> is_live c u)"

lemma live_set_tl: "live_set cx c (u # us) \<Longrightarrow> live_set cx c us"
  by (simp add: live_set_def)

lemma live_set_step:
  assumes "live_set cx c (u # us)"
  shows "live_set cx (finish cx u c) us" "live_set cx (close_l0 cx u d c) us"
proof -
  have "(cf_st c)[u := z] ! v = cf_st c ! v" if "v \<in> set us" for v z
    using assms that by (cases "v = u") (auto simp: live_set_def)
  with assms show "live_set cx (finish cx u c) us" "live_set cx (close_l0 cx u d c) us"
    by (auto simp: live_set_def is_live_def finish_def close_l0_def)
qed

lemma sized_step [simp]:
  "sized cx (on_cfg (finish cx u) s) = sized cx s" "sized cx (on_cfg (close_l0 cx u z) s) = sized cx s"
  "sized cx (count_node s) = sized cx s"
  by (auto simp: sized_def finish_def close_l0_def)

lemma keep_sized: "keep s s' \<Longrightarrow> sized cx s' = sized cx s"
  by (simp add: keep_def sized_def)

text \<open>
  The situation in which the two enumerations of closes run: within the potential, with the tensors
  still to be decided open, and (in the eviction) with the task to be placed still placeable.
\<close>

definition sit :: "cp_ctx \<Rightarrow> nat \<Rightarrow> (cfg \<Rightarrow> bool) \<Rightarrow> nat list \<Rightarrow> search \<Rightarrow> bool" where
  "sit cx N Q us s \<longleftrightarrow> sized cx s \<and> pot (fst s) \<le> N \<and> live_set cx (fst s) us \<and> Q (fst s)"

definition closable :: "(cfg \<Rightarrow> bool) \<Rightarrow> bool" where
  "closable Q \<longleftrightarrow> (\<forall>cx u z c. Q c \<and> is_live c u \<longrightarrow> Q (finish cx u c) \<and> Q (close_l0 cx u z c))"

lemma sit_keep: "sit cx N Q us s \<Longrightarrow> keep s s' \<Longrightarrow> sit cx N Q us s'"
  by (simp add: sit_def keep_sized keep_fst)

lemma sit_tl: "sit cx N Q (u # us) s \<Longrightarrow> sit cx N Q us s"
  by (auto simp: sit_def dest: live_set_tl)

lemma sit_finish:
  assumes "closable Q" "sit cx N Q (u # us) s"
  shows "sit cx N Q us (on_cfg (finish cx u) s)"
  using assms pot_closes(1) [of cx u "fst s"] live_set_step(1) [of cx "fst s" u us]
  by (auto simp: sit_def closable_def live_set_def)

lemma sit_close:
  assumes "closable Q" "sit cx N Q (u # us) s" "cf_st (fst s) ! u = LIVE0"
  shows "sit cx N Q us (on_cfg (close_l0 cx u z) s)"
  using assms pot_closes(2) [OF assms(3), of cx z] live_set_step(2) [of cx "fst s" u us z]
  by (auto simp: sit_def closable_def live_set_def)

text \<open>One close branch of an enumeration \<open>g\<close> that keeps the state.\<close>

lemma branch_finish:
  assumes "closable Q" "sit cx N Q (u # us) s" "cf_st (fst s) ! u = LIVE1"
    and "\<And>x. sit cx N Q us x \<Longrightarrow> keep x (g x)"
  shows "keep s (on_cfg (unfinish cx u LIVE1) (g (on_cfg (finish cx u) s)))"
  using assms(4) [OF sit_finish [OF assms(1,2)]] assms(3) by (intro keep_undo) (simp_all add: undo_simps)

lemma branch_close:
  assumes "closable Q" "sit cx N Q (u # us) s" "cf_st (fst s) ! u = LIVE0"
    and "\<And>x. sit cx N Q us x \<Longrightarrow> keep x (g x)"
  shows "keep s (on_cfg (reopen_l0 cx u z) (g (on_cfg (close_l0 cx u z) s)))"
  using assms(4) [OF sit_close [OF assms(1-3)]] assms(3) by (intro keep_undo) (simp_all add: undo_simps)

lemma sit_live:
  assumes "sit cx N Q (u # us) s" "cf_st (fst s) ! u \<noteq> LIVE1"
  shows "cf_st (fst s) ! u = LIVE0"
  using assms by (auto simp: sit_def live_set_def is_live_def)

lemma closable_cand: "closable (\<lambda>c. cd_v d < n \<and> cf_st c ! cd_v d = cand_state (cd_kind d))"
  unfolding closable_def
proof (intro allI impI)
  fix cx u z c
  assume a: "(cd_v d < n \<and> cf_st c ! cd_v d = cand_state (cd_kind d)) \<and> is_live c u"
  then have "cd_v d \<noteq> u" by (auto simp: is_live_def cand_state_def split: if_splits)
  with a show "(cd_v d < n \<and> cf_st (finish cx u c) ! cd_v d = cand_state (cd_kind d)) \<and>
      (cd_v d < n \<and> cf_st (close_l0 cx u z c) ! cd_v d = cand_state (cd_kind d))"
    by (simp add: finish_def close_l0_def)
qed

lemma keep_if: "(P \<Longrightarrow> keep s a) \<Longrightarrow> (\<not> P \<Longrightarrow> keep s b) \<Longrightarrow> keep s (if P then a else b)"
  by simp

lemma evict_rec_keep:
  assumes "ctx_ok cx" "k_ok cx N k"
    and "sit cx N (\<lambda>c. cd_v d < nn cx \<and> cf_st c ! cd_v d = cand_state (cd_kind d)) vict s"
  shows "keep s (evict_rec cx k d slot vict s)"
  using assms(3)
proof (induction vict arbitrary: s)
  case Nil
  then have "keep (count_node s) (place_and_go cx k d slot (count_node s))"
    by (intro place_and_go_keep [OF assms(1,2)]) (simp_all add: cand_ok_def sit_def)
  then show ?case
    by (auto simp: evict_rec.simps [of cx k d slot "[]"] Let_def intro: keep_trans [OF keep_count_node])
next
  case (Cons u us)
  let ?Q = "\<lambda>c. cd_v d < nn cx \<and> cf_st c ! cd_v d = cand_state (cd_kind d)"
  let ?E = "evict_rec cx k d slot us"
  define s0 where "s0 = count_node s"
  have k0: "keep s s0" by (simp add: s0_def)
  note at0 = sit_keep [OF Cons.prems k0]
  have go: "keep s0 (place_and_go cx k d slot s0)"
    using at0 by (intro place_and_go_keep [OF assms(1,2)]) (simp_all add: cand_ok_def sit_def)
  have skip: "keep x (?E x)" if "keep s0 x" for x
    by (rule Cons.IH [OF sit_tl [OF sit_keep [OF at0 that]]])
  have fin: "keep s0 (on_cfg (unfinish cx u LIVE1) (?E (on_cfg (finish cx u) s0)))"
    if "cf_st (fst s0) ! u = LIVE1"
    by (rule branch_finish [OF closable_cand at0 that Cons.IH])
  have cls: "keep x (on_cfg (reopen_l0 cx u z) (?E (on_cfg (close_l0 cx u z) x)))"
    if "keep s0 x" "cf_st (fst s0) ! u \<noteq> LIVE1" for x z
    by (rule branch_close [OF closable_cand sit_keep [OF at0 that(1)] _ Cons.IH])
       (use that sit_live [OF at0] in \<open>simp add: keep_fst\<close>)
  define s1 where "s1 = (if remat_allowed cx \<and> 2 \<le> cx_C cx ! u
    then on_cfg (reopen_l0 cx u False) (?E (on_cfg (close_l0 cx u False) s0)) else s0)"
  define s2 where "s2 = (if paging_allowed cx \<and> 2 \<le> cx_C cx ! u \<and> future_need cx (fst s1) u
    then on_cfg (reopen_l0 cx u True) (?E (on_cfg (close_l0 cx u True) s1)) else s1)"
  have k1: "keep s0 s1" if "cf_st (fst s0) ! u \<noteq> LIVE1"
    using cls [OF keep_refl that] by (simp add: s1_def)
  have k2: "keep s0 s2" if "cf_st (fst s0) ! u \<noteq> LIVE1"
    using keep_trans [OF k1 [OF that] cls [OF k1 [OF that] that]] k1 [OF that] by (simp add: s2_def)
  define f1 where "f1 = on_cfg (unfinish cx u LIVE1) (?E (on_cfg (finish cx u) s0))"
  have eq: "evict_rec cx k d slot (u # us) s =
      (if aborted s then note_frontier cx s
       else if cf_resident (fst s0) + mm cx (cd_v d) \<le> int (cp_M (cx_p cx)) then place_and_go cx k d slot s0
       else if cf_st (fst s0) ! u = LIVE1 then if aborted f1 then f1 else ?E f1
       else if aborted s1 then s1 else if aborted s2 then s2 else ?E s2)"
    by (subst evict_rec.simps) (simp only: Let_def list.case s0_def s1_def s2_def f1_def)
  have "keep s0 (if cf_st (fst s0) ! u = LIVE1 then if aborted f1 then f1 else ?E f1
      else if aborted s1 then s1 else if aborted s2 then s2 else ?E s2)"
    using fin [folded f1_def] k1 k2 keep_trans [OF _ skip] by (intro keep_if) simp_all
  then show ?case
    unfolding eq by (intro keep_if keep_note_frontier keep_trans [OF k0] go) simp_all
qed

lemma victims_live: "live_set cx c (victims cx c d)"
  by (auto simp: live_set_def victims_def is_live_def split: if_splits)

lemma evict_and_place_keep:
  assumes "ctx_ok cx" "k_ok cx N k" "sized cx s" "cand_ok cx s d" "pot (fst s) \<le> N"
  shows "keep s (evict_and_place cx k d slot s)"
proof -
  have "keep (count_node s) (evict_rec cx k d slot (victims cx (fst s) d) (count_node s))"
    by (rule evict_rec_keep [OF assms(1,2)])
       (use assms(3-5) victims_live in \<open>simp add: sit_def cand_ok_def\<close>)
  then show ?thesis
    using keep_trans [OF keep_count_node] by (simp add: evict_and_place_def Let_def)
qed

lemma task_loop_keep:
  assumes "ctx_ok cx" "k_ok cx N k" "sized cx s" "\<forall>d \<in> set ds. cand_ok cx s d" "pot (fst s) \<le> N"
  shows "keep s (task_loop cx k slot ds s)"
  using assms(3-)
proof (induction ds arbitrary: s)
  case (Cons d ds)
  define s1 where "s1 = (if cf_resident (fst s) + mm cx (cd_v d) \<le> int (cp_M (cx_p cx))
                then place_and_go cx k d slot s else evict_and_place cx k d slot s)"
  have k1: "keep s s1"
    using Cons.prems place_and_go_keep [OF assms(1,2)] evict_and_place_keep [OF assms(1,2)]
    by (simp add: s1_def)
  then have "keep s1 (task_loop cx k slot ds s1)"
    using Cons.prems by (intro Cons.IH) (simp_all add: keep_sized cand_ok_def keep_fst)
  then have "keep s (if aborted s1 then note_frontier cx s1 else task_loop cx k slot ds s1)"
    using keep_trans [OF k1] by simp
  then show ?case unfolding task_loop.simps Let_def s1_def [symmetric] .
qed simp

lemma task_cand_ok: "task_cand cx c v = Some d \<Longrightarrow> cd_v d = v \<and> cf_st c ! v = cand_state (cd_kind d)"
  by (auto simp: task_cand_def Let_def cand_state_def split: st.splits if_splits)

lemma task_cands_ok: "d \<in> set (task_cands cx c) \<Longrightarrow> cd_v d < nn cx \<and> cf_st c ! cd_v d = cand_state (cd_kind d)"
  by (auto simp: task_cands_def List.map_filter_def dest: task_cand_ok)

lemma task_phase_keep:
  assumes "ctx_ok cx" "k_ok cx N k" "sized cx s" "pot (fst s) \<le> N"
  shows "keep s (task_phase cx k s)"
proof -
  have "keep (count_node s) (task_loop cx k (Suc (cf_t (fst s))) (task_cands cx (fst s)) (count_node s))"
    by (rule task_loop_keep [OF assms(1,2)]) (use assms(3,4) task_cands_ok in \<open>auto simp: cand_ok_def\<close>)
  then show ?thesis
    using keep_trans [OF keep_count_node] by (simp add: task_phase_def Let_def)
qed

lemma close_rec_keep:
  assumes "ctx_ok cx" "k_ok cx N k" "sit cx N (\<lambda>_. True) cands s"
  shows "keep s (close_rec cx k cands s)"
  using assms(3)
proof (induction cands arbitrary: s)
  case Nil
  then have "keep (count_node s) (task_phase cx k (count_node s))"
    by (intro task_phase_keep [OF assms(1,2)]) (simp_all add: sit_def)
  then show ?case
    by (auto simp: close_rec.simps [of cx k "[]"] Let_def intro: keep_trans [OF keep_count_node])
next
  case (Cons u us)
  let ?E = "close_rec cx k us"
  define s0 where "s0 = count_node s"
  have k0: "keep s s0" by (simp add: s0_def)
  note at0 = sit_keep [OF Cons.prems k0]
  have cl: "closable (\<lambda>_. True)" by (simp add: closable_def)
  have skip: "keep x (?E x)" if "keep s0 x" for x
    by (rule Cons.IH [OF sit_tl [OF sit_keep [OF at0 that]]])
  have fin: "keep s0 (on_cfg (unfinish cx u LIVE1) (?E (on_cfg (finish cx u) s0)))"
    if "cf_st (fst s0) ! u = LIVE1"
    by (rule branch_finish [OF cl at0 that Cons.IH])
  have cls: "keep x (on_cfg (reopen_l0 cx u z) (?E (on_cfg (close_l0 cx u z) x)))"
    if "keep s0 x" "cf_st (fst s0) ! u \<noteq> LIVE1" for x z
    by (rule branch_close [OF cl sit_keep [OF at0 that(1)] _ Cons.IH])
       (use that sit_live [OF at0] in \<open>simp add: keep_fst\<close>)
  define s1 where "s1 = (if remat_allowed cx
    then on_cfg (reopen_l0 cx u False) (?E (on_cfg (close_l0 cx u False) s0)) else s0)"
  define s2 where "s2 = ?E s1"
  define s3 where "s3 = on_cfg (reopen_l0 cx u True) (?E (on_cfg (close_l0 cx u True) s2))"
  define f1 where "f1 = on_cfg (unfinish cx u LIVE1) (?E (on_cfg (finish cx u) s0))"
  have k1: "keep s0 s1" if "cf_st (fst s0) ! u \<noteq> LIVE1"
    using cls [OF keep_refl that] by (simp add: s1_def)
  have k2: "keep s0 s2" if "cf_st (fst s0) ! u \<noteq> LIVE1"
    using keep_trans [OF k1 [OF that] skip [OF k1 [OF that]]] by (simp add: s2_def)
  have k3: "keep s0 s3" if "cf_st (fst s0) ! u \<noteq> LIVE1"
    using keep_trans [OF k2 [OF that] cls [OF k2 [OF that] that]] by (simp add: s3_def)
  have eq: "close_rec cx k (u # us) s =
      (if aborted s then note_frontier cx s
       else if cf_st (fst s0) ! u = LIVE1 then if aborted f1 then f1 else ?E f1
       else if aborted s1 then s1 else if aborted s2 then s2
       else if paging_allowed cx \<and> 2 \<le> cx_C cx ! u \<and> future_need cx (fst s2) u then s3 else s2)"
    by (subst close_rec.simps) (simp only: Let_def list.case s0_def s1_def s2_def s3_def f1_def)
  have "keep s0 (if cf_st (fst s0) ! u = LIVE1 then if aborted f1 then f1 else ?E f1
      else if aborted s1 then s1 else if aborted s2 then s2
      else if paging_allowed cx \<and> 2 \<le> cx_C cx ! u \<and> future_need cx (fst s2) u then s3 else s2)"
    using fin [folded f1_def] k1 k2 k3 keep_trans [OF _ skip] by (intro keep_if) simp_all
  then show ?case
    unfolding eq by (intro keep_if keep_note_frontier keep_trans [OF k0]) simp_all
qed

lemma leaf_keep: "keep s (leaf cx s)"
proof -
  obtain c b where s: "s = (c, b)" by fastforce
  obtain opened c1 where f: "finish_all cx (\<lambda>_. True) [0..<nn cx] c = (opened, c1)" by fastforce
  show ?thesis using finish_all_undo [OF f] by (simp add: s leaf_def f keep_def)
qed

lemma length_finish_all: "finish_all cx P us c = (undo, c') \<Longrightarrow> length (cf_st c') = length (cf_st c)"
  by (induction us arbitrary: c undo c') (auto simp: finish_def Let_def split: if_splits prod.splits)

lemma time_over_rel: "time_over late b = (over, b') \<Longrightarrow> bk_rel b b'"
  by (auto simp: time_over_def split: if_splits)

text \<open>
  Every run of the search gives back the configuration it was started in, and never runs out of fuel
  when its fuel exceeds the number of tasks still possible.
\<close>

lemma dfs_keeps:
  assumes "ctx_ok cx"
  shows "sized cx s \<Longrightarrow> pot (fst s) < fuel \<Longrightarrow> keep s (dfs fuel late cx s)"
proof (induction fuel arbitrary: s)
  case (Suc fuel)
  define s1 where "s1 = count_node s"
  have k1: "keep s s1" by (simp add: s1_def)
  obtain over b2 where t: "time_over late (snd s1) = (over, b2)" by fastforce
  have kb: "keep s1 (fst s1, b2)" using time_over_rel [OF t] by (simp add: keep_def)
  obtain dead c2 where f: "finish_all cx (\<lambda>u. \<not> future_need cx (fst s1) u) [0..<nn cx] (fst s1) = (dead, c2)"
    by fastforce
  define s3 where "s3 = (if cf_ncomputed c2 = nn cx then leaf cx (c2, b2)
    else if \<not> dead_state cx c2 \<and> \<not> prune_by_bound cx c2 b2
    then close_rec cx (dfs fuel late cx) (close_cands cx c2) (c2, b2) else (c2, b2))"
  have kok: "k_ok cx (pot (fst s)) (dfs fuel late cx)"
    using Suc.IH Suc.prems(2) by (auto simp: k_ok_def)
  have "sit cx (pot (fst s)) (\<lambda>_. True) (close_cands cx c2) (c2, b2)"
    using Suc.prems(1) pot_finish_all [OF f] length_finish_all [OF f]
    by (auto simp: sit_def sized_def s1_def live_set_def close_cands_def is_live_def)
  then have "keep (c2, b2) s3"
    using close_rec_keep [OF assms kok] by (simp add: s3_def leaf_keep)
  then have "keep (fst s1, b2) (on_cfg (unfinish_all cx dead) s3)"
    using finish_all_undo [OF f] by (simp add: keep_def on_cfg_def)
  then have k3: "keep s1 (on_cfg (unfinish_all cx dead) s3)" using keep_trans [OF kb] by blast
  have kn: "keep s1 (note_frontier cx (fst s1, abort_with NodeLimit (snd s1)))"
    by (rule keep_trans [OF _ keep_note_frontier]) (simp add: keep_def)
  have eq: "dfs (Suc fuel) late cx s =
      (if aborted s then note_frontier cx s
       else if co_node_limit (cx_o cx) < bk_nodes (snd s1)
         then note_frontier cx (fst s1, abort_with NodeLimit (snd s1))
       else if over then note_frontier cx (fst s1, b2)
       else on_cfg (unfinish_all cx dead) s3)"
    using t f by (simp add: s1_def [symmetric] s3_def Let_def)
  show ?case
    unfolding eq using k3 kn keep_trans [OF kb keep_note_frontier]
    by (intro keep_if keep_note_frontier keep_trans [OF k1])
qed simp

end
