(* ===== verification/CpSolve.thy ===== *)
theory CpSolve
  imports CpSearch LifetimeAlloc
begin

text \<open>
  From event logs to solutions (\<open>compiler/src/vtcm/cp_solver.cpp\<close>): \<open>extract_from\<close>, the first-fit
  placement \<open>place_offsets\<close>, \<open>recompute_peak\<close>, the greedy fallback \<open>solve_greedy\<close> and
  \<open>CPSolver::solve\<close>. \<open>late\<close> stands for the clock, as in the search.
\<close>

section \<open>Extraction\<close>

definition kAlign :: nat where "kAlign = 128"

definition kBytesPerW :: nat where "kBytesPerW = 2048"

definition align_up :: "nat \<Rightarrow> nat \<Rightarrow> nat" where
  "align_up x a = (x + a - 1) div a * a"

type_synonym segs = "(cp_segment \<times> cp_segment) list"

definition seg :: "segs \<Rightarrow> nat \<Rightarrow> nat \<Rightarrow> cp_segment" where
  "seg sgs v i = (if i = 0 then fst (sgs ! v) else snd (sgs ! v))"

definition upd_seg :: "segs \<Rightarrow> nat \<Rightarrow> nat \<Rightarrow> (cp_segment \<Rightarrow> cp_segment) \<Rightarrow> segs" where
  "upd_seg sgs v i f =
     (let (a, b) = sgs ! v
      in if i = 0 then sgs[v := (f a, b)] else if i = 1 then sgs[v := (a, f b)] else sgs)"

definition ext_step :: "ent \<Rightarrow> segs \<times> nat list \<Rightarrow> segs \<times> nat list" where
  "ext_step e = (\<lambda>(sgs, open_seg).
     let v = en_v e
     in case en_k e of
          L_COMPUTE \<Rightarrow> (upd_seg sgs v 0 (sg_s_update (\<lambda>_. en_slot e)), open_seg[v := 0])
        | L_SPILL \<Rightarrow>
            (upd_seg sgs v (open_seg ! v) (\<lambda>g. g\<lparr>sg_e := en_e e, sg_spill_end := True\<rparr>), open_seg[v := 255])
        | L_CLOSE \<Rightarrow> (upd_seg sgs v (open_seg ! v) (sg_e_update (\<lambda>_. en_e e)), open_seg[v := 255])
        | _ \<Rightarrow>
            (upd_seg sgs v 1 (\<lambda>g. g\<lparr>sg_s := en_slot e, sg_fill_start := (en_k e = L_FILL), sg_active := True\<rparr>),
             open_seg[v := 1]))"

definition ext_segments :: "nat \<Rightarrow> ent list \<Rightarrow> segs" where
  "ext_segments n lg =
     map (\<lambda>(a, b). (a\<lparr>sg_active := True\<rparr>, b))
       (fst (fold ext_step lg (replicate n (empty_segment, empty_segment), replicate n 255)))"

fun log_task_kind :: "log_kind \<Rightarrow> task_kind option" where
  "log_task_kind L_COMPUTE = Some COMPUTE"
| "log_task_kind L_REMAT = Some REMAT"
| "log_task_kind L_FILL = Some PAGE_IN"
| "log_task_kind L_SPILL = Some PAGE_OUT"
| "log_task_kind L_CLOSE = None"

definition ext_task :: "cp_ctx \<Rightarrow> ent \<Rightarrow> cp_task option" where
  "ext_task cx e = map_option (\<lambda>k. \<lparr>tk_kind = k, tk_v = ct_id (cp_nodes (cx_p cx) ! en_v e),
       tk_bytes = cx_m cx ! en_v e, tk_slot = en_slot e\<rparr>) (log_task_kind (en_k e))"

definition log_sum :: "(ent \<Rightarrow> bool) \<Rightarrow> (nat \<Rightarrow> nat) \<Rightarrow> ent list \<Rightarrow> nat" where
  "log_sum P f lg = sum_list (map (\<lambda>e. f (en_v e)) (filter P lg))"

section \<open>Placement\<close>

function shrink_align :: "cp_ctx \<Rightarrow> nat \<Rightarrow> nat" where
  "shrink_align cx a =
     (if 1 < a \<and> (cp_M (cx_p cx) < a \<or> list_ex (\<lambda>v. (cx_m cx ! v) mod a \<noteq> 0) [0..<nn cx])
      then shrink_align cx (a div 2) else a)"
  by pat_completeness auto
termination by (relation "measure snd") auto

declare shrink_align.simps [simp del]

record placed_seg =
  pl_s :: nat
  pl_e :: nat
  pl_off :: bytes
  pl_sz :: bytes

definition place_order :: "cp_ctx \<Rightarrow> segs \<Rightarrow> (nat \<times> nat) list" where
  "place_order cx sgs =
     sort_key (\<lambda>(v, i). (sg_s (seg sgs v i), - int (cx_m cx ! v), v))
       (filter (\<lambda>(v, i). sg_active (seg sgs v i)) (List.product [0..<nn cx] [0, 1]))"

definition off_cands :: "nat \<Rightarrow> segs \<Rightarrow> nat \<Rightarrow> nat \<Rightarrow> placed_seg list \<Rightarrow> bytes list" where
  "off_cands a sgs v i pls =
     remdups_adj (sort (0 # (if i = 1 then case sg_vtcm_offset (seg sgs v 0) of None \<Rightarrow> [] | Some off \<Rightarrow> [off]
                             else []) @
        concat (map (\<lambda>q. [pl_off q, align_up (pl_off q + pl_sz q) a]) pls)))"

definition pl_clash :: "cp_segment \<Rightarrow> bytes \<Rightarrow> bytes \<Rightarrow> placed_seg \<Rightarrow> bool" where
  "pl_clash sg off sz q \<longleftrightarrow>
     \<not> (sg_e sg < pl_s q \<or> pl_e q < sg_s sg) \<and> \<not> (off + sz \<le> pl_off q \<or> pl_off q + pl_sz q \<le> off)"

record place_state =
  ps_segs :: segs
  ps_done :: "placed_seg list"
  ps_degraded :: nat
  ps_arena :: bytes

definition place_seg :: "cp_ctx \<Rightarrow> nat \<Rightarrow> nat \<times> nat \<Rightarrow> place_state \<Rightarrow> place_state" where
  "place_seg cx a = (\<lambda>(v, i) ps.
     let sgs = upd_seg (ps_segs ps) v i (sg_vtcm_offset_update (\<lambda>_. None));
         sg = seg sgs v i; sz = align_up (cx_m cx ! v) a
     in case find (\<lambda>off. off + sz \<le> cp_M (cx_p cx) \<and> \<not> list_ex (pl_clash sg off sz) (ps_done ps))
               (off_cands a sgs v i (ps_done ps)) of
          None \<Rightarrow> ps\<lparr>ps_segs := sgs, ps_degraded := Suc (ps_degraded ps)\<rparr>
        | Some off \<Rightarrow>
            ps\<lparr>ps_segs := upd_seg sgs v i (sg_vtcm_offset_update (\<lambda>_. Some off)),
               ps_done := ps_done ps @ [\<lparr>pl_s = sg_s sg, pl_e = sg_e sg, pl_off = off, pl_sz = sz\<rparr>],
               ps_arena := max (ps_arena ps) (off + sz)\<rparr>)"

definition place_all :: "cp_ctx \<Rightarrow> segs \<Rightarrow> place_state" where
  "place_all cx sgs =
     fold (place_seg cx (shrink_align cx kAlign)) (place_order cx sgs)
       \<lparr>ps_segs = sgs, ps_done = [], ps_degraded = 0, ps_arena = 0\<rparr>"

text \<open>The DDR arena: one bump per spill event, in log order.\<close>

definition ddr_step :: "cp_ctx \<Rightarrow> ent \<Rightarrow> segs \<times> bytes \<Rightarrow> segs \<times> bytes" where
  "ddr_step cx e = (\<lambda>(sgs, cur).
     if en_k e \<noteq> L_SPILL then (sgs, cur)
     else let v = en_v e;
              sgs1 = upd_seg sgs v 0 (sg_ddr_offset_update (\<lambda>_. cur));
              sgs2 = (if sg_active (seg sgs1 v 1) \<and> sg_fill_start (seg sgs1 v 1)
                      then upd_seg sgs1 v 1 (sg_ddr_offset_update (\<lambda>_. cur)) else sgs1)
          in (sgs2, cur + cx_m cx ! v))"

definition place_offsets :: "cp_ctx \<Rightarrow> ent list \<Rightarrow> cp_solution \<Rightarrow> cp_solution" where
  "place_offsets cx lg s =
     (let ps = place_all cx (so_segments s);
          (sgs, cur) = fold (ddr_step cx) lg (ps_segs ps, 0)
      in s\<lparr>so_segments := sgs, so_placement_degraded := so_placement_degraded s + ps_degraded ps,
           so_vtcm_arena_used := max (so_vtcm_arena_used s) (ps_arena ps), so_ddr_arena_used := cur\<rparr>)"

definition slot_residency :: "cp_ctx \<Rightarrow> segs \<Rightarrow> nat \<Rightarrow> bytes" where
  "slot_residency cx sgs slot =
     sum_list (map (\<lambda>v. if seg_open (seg sgs v 0) slot \<or> seg_open (seg sgs v 1) slot then cx_m cx ! v else 0)
       [0..<nn cx])"

definition recompute_peak :: "cp_ctx \<Rightarrow> cp_solution \<Rightarrow> bytes" where
  "recompute_peak cx s = fold (\<lambda>slot pk. max pk (slot_residency cx (so_segments s) slot)) [1..<2 * nn cx + 3] 0"

definition extract_from :: "cp_ctx \<Rightarrow> nat \<Rightarrow> ent list \<Rightarrow> cp_solution" where
  "extract_from cx nodes lg =
     (let s = empty_solution\<lparr>so_feasible := True, so_segments := ext_segments (nn cx) lg,
            so_seq := List.map_filter (ext_task cx) lg,
            so_ddr_bytes := log_sum (\<lambda>e. en_k e = L_SPILL \<or> en_k e = L_FILL) ((!) (cx_m cx)) lg,
            so_total_compute := log_sum (\<lambda>e. en_k e = L_COMPUTE \<or> en_k e = L_REMAT) ((!) (cx_w cx)) lg,
            so_remat_count := length (filter (\<lambda>e. en_k e = L_REMAT) lg),
            so_spill_count := length (filter (\<lambda>e. en_k e = L_SPILL) lg)\<rparr>;
          s1 = place_offsets cx lg s
      in s1\<lparr>so_peak_resident := recompute_peak cx s1, so_nodes_explored := nodes\<rparr>)"

section \<open>The greedy fallback\<close>

record greedy =
  gr_log :: "ent list"
  gr_live :: "bool list"
  gr_paged :: "bool list"
  gr_spilled :: "bool list"
  gr_res :: int
  gr_cu :: nat
  gr_sl :: nat

definition gr_crank :: "cp_ctx \<Rightarrow> nat list" where
  "gr_crank cx = fold (\<lambda>r l. l[cx_topo_seq cx ! r := r]) [0..<nn cx] (replicate (nn cx) 0)"

definition gr_last_rank :: "cp_ctx \<Rightarrow> nat list" where
  "gr_last_rank cx = fold (\<lambda>(u, v) l. if l ! u < gr_crank cx ! v then l[u := gr_crank cx ! v] else l)
     (cp_edges (cx_p cx)) (replicate (nn cx) 0)"

definition gr_push :: "log_kind \<Rightarrow> nat \<Rightarrow> nat \<Rightarrow> greedy \<Rightarrow> greedy" where
  "gr_push k u e g = g\<lparr>gr_log := gr_log g @ [\<lparr>en_slot = gr_sl g, en_k = k, en_v = u, en_e = e\<rparr>]\<rparr>"

fun gr_fill :: "cp_ctx \<Rightarrow> nat list \<Rightarrow> greedy \<Rightarrow> greedy option" where
  "gr_fill cx [] g = Some g"
| "gr_fill cx (u # us) g =
     (if gr_live g ! u then gr_fill cx us g
      else if gr_paged g ! u
      then gr_fill cx us (gr_push L_FILL u 0
             (g\<lparr>gr_live := (gr_live g)[u := True], gr_paged := (gr_paged g)[u := False],
                gr_res := gr_res g + mm cx u, gr_sl := Suc (gr_sl g)\<rparr>))
      else None)"

definition gr_discard :: "cp_ctx \<Rightarrow> nat \<Rightarrow> nat \<Rightarrow> greedy \<Rightarrow> greedy" where
  "gr_discard cx r u g =
     (if gr_live g ! u \<and> \<not> gr_paged g ! u \<and> gr_last_rank cx ! u = r \<and> gr_crank cx ! u \<le> r
      then gr_push L_CLOSE u (gr_sl g)
             (g\<lparr>gr_live := (gr_live g)[u := False], gr_res := gr_res g - mm cx u\<rparr>)
      else g)"

fun gr_spill :: "cp_ctx \<Rightarrow> nat list \<Rightarrow> int \<Rightarrow> greedy \<Rightarrow> int \<times> greedy" where
  "gr_spill cx [] forced g = (forced, g)"
| "gr_spill cx (u # us) forced g =
     (if forced \<le> int (cp_M (cx_p cx)) then (forced, g)
      else gr_spill cx us (forced - mm cx u)
             (gr_push L_SPILL u (gr_sl g)
               (g\<lparr>gr_live := (gr_live g)[u := False], gr_paged := (gr_paged g)[u := True],
                  gr_spilled := (gr_spilled g)[u := True], gr_res := gr_res g - mm cx u\<rparr>)))"

definition gr_victims :: "cp_ctx \<Rightarrow> nat \<Rightarrow> nat \<Rightarrow> greedy \<Rightarrow> nat list" where
  "gr_victims cx r nxt g =
     sort_key (\<lambda>u. - mm cx u)
       (filter (\<lambda>u. gr_live g ! u \<and> \<not> gr_spilled g ! u \<and> Suc r < gr_last_rank cx ! u \<and>
          u \<notin> set (cx_preds cx ! nxt) \<and> 2 \<le> cx_C cx ! u) [0..<nn cx])"

definition gr_lookahead :: "cp_ctx \<Rightarrow> nat \<Rightarrow> greedy \<Rightarrow> abort_reason + greedy" where
  "gr_lookahead cx r g =
     (if nn cx \<le> Suc r then Inr g
      else
        let nxt = cx_topo_seq cx ! Suc r;
            forced = gr_res g + mm cx nxt +
              sum_list (map (mm cx) (filter (\<lambda>u. \<not> gr_live g ! u \<and> gr_paged g ! u) (cx_preds cx ! nxt)))
        in if forced \<le> int (cp_M (cx_p cx)) then Inr g
           else if \<not> paging_allowed cx then Inl GreedyInfeasible
           else let (forced', g') = gr_spill cx (gr_victims cx r nxt g) forced g
                in if int (cp_M (cx_p cx)) < forced' then Inl GreedyInfeasible else Inr g')"

definition gr_step :: "cp_ctx \<Rightarrow> nat \<Rightarrow> greedy \<Rightarrow> abort_reason + greedy" where
  "gr_step cx r g =
     (let c = cx_topo_seq cx ! r
      in case gr_fill cx (cx_preds cx ! c) g of
           None \<Rightarrow> Inl GreedyInfeasible
         | Some g1 \<Rightarrow>
             let g2 = g1\<lparr>gr_live := (gr_live g1)[c := True], gr_res := gr_res g1 + mm cx c,
                         gr_cu := gr_cu g1 + cx_w cx ! c\<rparr>
             in if cp_W (cx_p cx) < gr_cu g2 then Inl GreedyW
                else let g3 = gr_push L_COMPUTE c 0 (g2\<lparr>gr_sl := Suc (gr_sl g2)\<rparr>)
                     in if int (cp_M (cx_p cx)) < gr_res g3 then Inl GreedyInfeasible
                        else gr_lookahead cx r (fold (gr_discard cx r) [0..<nn cx] g3))"

fun gr_loop :: "cp_ctx \<Rightarrow> nat list \<Rightarrow> greedy \<Rightarrow> abort_reason + greedy" where
  "gr_loop cx [] g = Inr g"
| "gr_loop cx (r # rs) g = (case gr_step cx r g of Inl e \<Rightarrow> Inl e | Inr g' \<Rightarrow> gr_loop cx rs g')"

definition gr_init :: "cp_ctx \<Rightarrow> greedy" where
  "gr_init cx = \<lparr>gr_log = [], gr_live = replicate (nn cx) False, gr_paged = replicate (nn cx) False,
     gr_spilled = replicate (nn cx) False, gr_res = 0, gr_cu = 0, gr_sl = 0\<rparr>"

definition solve_greedy :: "cp_ctx \<Rightarrow> nat \<Rightarrow> abort_reason list \<Rightarrow> cp_solution" where
  "solve_greedy cx nodes why =
     (case gr_loop cx [0..<nn cx] (gr_init cx) of
        Inl extra \<Rightarrow> empty_solution\<lparr>so_abort_reason := why @ [extra]\<rparr>
      | Inr g \<Rightarrow>
          let g1 = fold (\<lambda>u h. if gr_live g ! u then gr_push L_CLOSE u (gr_sl h) h else h) [0..<nn cx] g;
              s = (extract_from cx nodes (gr_log g1))
                    \<lparr>so_optimal := False, so_abort_reason := why, so_nodes_explored := nodes\<rparr>
          in case verify (cx_p cx) s of
               None \<Rightarrow> s
             | Some m \<Rightarrow> s\<lparr>so_feasible := False, so_abort_reason := so_abort_reason s @ [VerifyFailed m]\<rparr>)"

section \<open>The entry point\<close>

definition init_cfg :: "cp_ctx \<Rightarrow> cfg" where
  "init_cfg cx = \<lparr>cf_st = replicate (nn cx) UNCOMPUTED, cf_unsched = map int (cx_outdeg cx),
     cf_last_cons = replicate (nn cx) 0, cf_lc_undo = [], cf_ncomputed = 0, cf_next_topo = 0,
     cf_resident = 0, cf_spill_b = 0, cf_fill_b = 0, cf_compute_used = 0, cf_computed_w = 0,
     cf_remats = 0, cf_spills = 0, cf_t = 0, cf_log = []\<rparr>"

definition init_bk :: "cp_ctx \<Rightarrow> bk" where
  "init_bk cx = \<lparr>bk_seg_start = replicate (nn cx) 0, bk_peak = 0, bk_have_inc = False, bk_inc_k0 = 0,
     bk_inc_k1 = 0, bk_inc_k2 = 0, bk_inc_log = [], bk_inc_ddr = 0, bk_inc_peak = 0, bk_inc_compute = 0,
     bk_inc_remats = 0, bk_inc_spills = 0, bk_inc_slots = 0, bk_nodes = 0, bk_aborted = False,
     bk_abort_reason = [], bk_frontier_lb = None, bk_out_of_fuel = False\<rparr>"

definition search_fuel :: "cp_ctx \<Rightarrow> nat" where
  "search_fuel cx = 2 * nn cx + 1"

definition run_search :: "(nat \<Rightarrow> bool) \<Rightarrow> cp_ctx \<Rightarrow> search" where
  "run_search late cx = dfs (search_fuel cx) late cx (init_cfg cx, init_bk cx)"

definition solve_exact :: "(nat \<Rightarrow> bool) \<Rightarrow> cp_ctx \<Rightarrow> cp_solution" where
  "solve_exact late cx =
     (let b = snd (run_search late cx)
      in if bk_have_inc b
         then let out = (extract_from cx (bk_nodes b) (bk_inc_log b))
                    \<lparr>so_optimal := \<not> bk_aborted b,
                     so_abort_reason := (if bk_aborted b then bk_abort_reason b else [])\<rparr>
              in case verify (cx_p cx) out of
                   None \<Rightarrow> out
                 | Some m \<Rightarrow> out\<lparr>so_feasible := False, so_optimal := False, so_abort_reason := [VerifyFailed m]\<rparr>
         else if bk_aborted b then solve_greedy cx (bk_nodes b) (bk_abort_reason b)
         else empty_solution\<lparr>so_abort_reason := [SearchExhausted]\<rparr>)"

definition solve :: "(nat \<Rightarrow> bool) \<Rightarrow> cp_problem \<Rightarrow> cp_options \<Rightarrow> cp_solution" where
  "solve late p opts =
     (let cx = preprocess p opts
      in if cp_n p = 0 then empty_solution\<lparr>so_feasible := True, so_optimal := True\<rparr>
         else if cp_W p < cx_sum_w cx then empty_solution\<lparr>so_abort_reason := [ComputeBelowSum]\<rparr>
         else if list_ex (\<lambda>v. cp_M p < cx_m cx ! v) [0..<cp_n p]
           then empty_solution\<lparr>so_abort_reason := [TensorExceedsM]\<rparr>
         else if co_max_exact_nodes opts < cp_n p then solve_greedy cx 0 [ExactSizeLimit]
         else solve_exact late cx)"

section \<open>The search from its initial state\<close>

lemma preprocess_simps [simp]:
  "cx_p (preprocess p opts) = p" "cx_o (preprocess p opts) = opts"
  "cx_m (preprocess p opts) = map ct_m (cp_nodes p)"
  by (simp_all add: preprocess_def Let_def)

lemma ctx_ok_preprocess: "ctx_ok (preprocess p opts)"
  by (simp add: ctx_ok_def preprocess_def Let_def node_preds_ok)

lemma run_search_keeps: "keep (init_cfg (preprocess p opts), init_bk (preprocess p opts)) (run_search late (preprocess p opts))"
  unfolding run_search_def
  by (rule dfs_keeps [OF ctx_ok_preprocess])
     (simp_all add: sized_def init_cfg_def pot_def search_fuel_def sum_list_replicate)

section \<open>Segments under placement\<close>

lemma length_upd_seg [simp]: "length (upd_seg sgs v i f) = length sgs"
  by (simp add: upd_seg_def Let_def split: prod.splits)

lemma seg_upd_seg:
  assumes "v < length sgs" "i < 2" "j < 2"
  shows "seg (upd_seg sgs v i f) w j = (if w = v \<and> j = i then f (seg sgs v i) else seg sgs w j)"
  using assms by (cases "w = v") (auto simp: seg_def upd_seg_def Let_def less_2_cases_iff split: prod.splits)

lemma align_up_ge: "0 < a \<Longrightarrow> x \<le> align_up x a"
proof -
  assume a: "0 < a"
  have "x + a - 1 = (x + a - 1) div a * a + (x + a - 1) mod a" by simp
  moreover have "(x + a - 1) mod a < a" using a by simp
  ultimately show ?thesis using a unfolding align_up_def by linarith
qed

lemma shrink_align_pos: "0 < a \<Longrightarrow> 0 < shrink_align cx a"
proof (induction cx a rule: shrink_align.induct)
  case (1 cx a)
  then show ?case by (subst shrink_align.simps) auto
qed

text \<open>The pairs placed so far are inside the capacity and do not meet in time and space.\<close>

definition seg_at :: "cp_ctx \<Rightarrow> nat \<Rightarrow> segs \<Rightarrow> nat \<times> nat \<Rightarrow> bytes \<Rightarrow> placed_seg" where
  "seg_at cx a sgs = (\<lambda>(v, i) off.
     \<lparr>pl_s = sg_s (seg sgs v i), pl_e = sg_e (seg sgs v i), pl_off = off, pl_sz = align_up (cx_m cx ! v) a\<rparr>)"

definition off_of :: "segs \<Rightarrow> nat \<times> nat \<Rightarrow> bytes option" where
  "off_of sgs = (\<lambda>(v, i). sg_vtcm_offset (seg sgs v i))"

definition meets :: "placed_seg \<Rightarrow> placed_seg \<Rightarrow> bool" where
  "meets q r \<longleftrightarrow> \<not> (pl_e q < pl_s r \<or> pl_e r < pl_s q) \<and>
     \<not> (pl_off q + pl_sz q \<le> pl_off r \<or> pl_off r + pl_sz r \<le> pl_off q)"

lemma meets_sym: "meets q r = meets r q"
  by (auto simp: meets_def)

definition pl_inv :: "cp_ctx \<Rightarrow> nat \<Rightarrow> segs \<Rightarrow> (nat \<times> nat) set \<Rightarrow> place_state \<Rightarrow> bool" where
  "pl_inv cx a sgs0 L ps \<longleftrightarrow>
     length (ps_segs ps) = length sgs0 \<and>
     (\<forall>v i. i < 2 \<longrightarrow> (seg (ps_segs ps) v i)\<lparr>sg_vtcm_offset := None\<rparr> = (seg sgs0 v i)\<lparr>sg_vtcm_offset := None\<rparr>) \<and>
     (\<forall>x \<in> L. \<forall>off. off_of (ps_segs ps) x = Some off \<longrightarrow>
        seg_at cx a sgs0 x off \<in> set (ps_done ps) \<and> off + align_up (cx_m cx ! fst x) a \<le> cp_M (cx_p cx)) \<and>
     (\<forall>x \<in> L. \<forall>y \<in> L. \<forall>o1 o2. x \<noteq> y \<and> off_of (ps_segs ps) x = Some o1 \<and> off_of (ps_segs ps) y = Some o2 \<longrightarrow>
        \<not> meets (seg_at cx a sgs0 x o1) (seg_at cx a sgs0 y o2))"

lemma seg_None_fields:
  assumes "g\<lparr>sg_vtcm_offset := None\<rparr> = h\<lparr>sg_vtcm_offset := None\<rparr>"
  shows "sg_s g = sg_s h" "sg_e g = sg_e h" "sg_active g = sg_active h" "sg_spill_end g = sg_spill_end h"
    "sg_fill_start g = sg_fill_start h" "sg_ddr_offset g = sg_ddr_offset h"
  using arg_cong [OF assms, of sg_s] arg_cong [OF assms, of sg_e] arg_cong [OF assms, of sg_active]
    arg_cong [OF assms, of sg_spill_end] arg_cong [OF assms, of sg_fill_start]
    arg_cong [OF assms, of sg_ddr_offset] by simp_all

lemma place_seg_inv:
  assumes inv: "pl_inv cx a sgs0 L ps" and x: "v < length sgs0" "i < 2" "(v, i) \<notin> L"
    and L: "\<forall>(w, j) \<in> L. w < length sgs0 \<and> j < 2"
  shows "pl_inv cx a sgs0 (insert (v, i) L) (place_seg cx a (v, i) ps)"
proof -
  define sgs where "sgs = upd_seg (ps_segs ps) v i (sg_vtcm_offset_update (\<lambda>_. None))"
  define sz where "sz = align_up (cx_m cx ! v) a"
  have len: "length (ps_segs ps) = length sgs0" using inv by (simp add: pl_inv_def)
  have fields: "(seg (ps_segs ps) w j)\<lparr>sg_vtcm_offset := None\<rparr> = (seg sgs0 w j)\<lparr>sg_vtcm_offset := None\<rparr>"
    if "j < 2" for w j using inv that by (simp add: pl_inv_def)
  have up: "seg (upd_seg sgs v i f) w j = (if w = v \<and> j = i then f ((seg (ps_segs ps) v i)\<lparr>sg_vtcm_offset := None\<rparr>)
      else seg (ps_segs ps) w j)" if "j < 2" for w j f
    using that x(1,2) len by (auto simp: sgs_def seg_upd_seg)
  have sgs: "seg sgs w j = (if w = v \<and> j = i then (seg (ps_segs ps) v i)\<lparr>sg_vtcm_offset := None\<rparr>
      else seg (ps_segs ps) w j)" if "j < 2" for w j
    using that x(1,2) len by (simp add: sgs_def seg_upd_seg)
  have lensgs: "length sgs = length sgs0" using len by (simp add: sgs_def)
  define r where "r = find (\<lambda>off. off + sz \<le> cp_M (cx_p cx) \<and> \<not> list_ex (pl_clash (seg sgs v i) off sz) (ps_done ps))
    (off_cands a sgs v i (ps_done ps))"
  have step: "place_seg cx a (v, i) ps = (case r of
      None \<Rightarrow> ps\<lparr>ps_segs := sgs, ps_degraded := Suc (ps_degraded ps)\<rparr>
    | Some off \<Rightarrow> ps\<lparr>ps_segs := upd_seg sgs v i (sg_vtcm_offset_update (\<lambda>_. Some off)),
         ps_done := ps_done ps @ [\<lparr>pl_s = sg_s (seg sgs v i), pl_e = sg_e (seg sgs v i), pl_off = off, pl_sz = sz\<rparr>],
         ps_arena := max (ps_arena ps) (off + sz)\<rparr>)"
    by (simp only: place_seg_def sgs_def sz_def r_def Let_def prod.case)
  have se: "sg_s (seg sgs v i) = sg_s (seg sgs0 v i)" "sg_e (seg sgs v i) = sg_e (seg sgs0 v i)"
    using seg_None_fields [OF fields [OF x(2)]] sgs [OF x(2), of v] by simp_all
  have old: "off_of (upd_seg sgs v i f) y = off_of (ps_segs ps) y" "off_of sgs y = off_of (ps_segs ps) y"
    if yL: "y \<in> L" for y f
  proof -
    obtain w j where y: "y = (w, j)" "j < 2" "(w, j) \<noteq> (v, i)" using yL L x(3) by (cases y) auto
    then show "off_of (upd_seg sgs v i f) y = off_of (ps_segs ps) y" "off_of sgs y = off_of (ps_segs ps) y"
      using up sgs by (auto simp: off_of_def)
  qed
  show ?thesis
  proof (cases r)
    case None
    have "off_of sgs (v, i) = None" using sgs [OF x(2), of v] by (simp add: off_of_def)
    then show ?thesis
      using inv fields sgs lensgs old(2) by (auto simp: pl_inv_def step None)
  next
    case (Some off)
    from Some have fit: "off + sz \<le> cp_M (cx_p cx)" "\<not> list_ex (pl_clash (seg sgs v i) off sz) (ps_done ps)"
      by (auto simp: r_def find_Some_iff)
    let ?t = "upd_seg sgs v i (sg_vtcm_offset_update (\<lambda>_. Some off))"
    have new: "off_of ?t (v, i) = Some off" using up [OF x(2), where w = v] by (simp add: off_of_def)
    have clear: "\<not> meets (seg_at cx a sgs0 (v, i) off) (seg_at cx a sgs0 y o2)"
      if "y \<in> L" "off_of (ps_segs ps) y = Some o2" for y o2
    proof -
      have "seg_at cx a sgs0 y o2 \<in> set (ps_done ps)" using inv that by (simp add: pl_inv_def)
      then have "\<not> pl_clash (seg sgs v i) off sz (seg_at cx a sgs0 y o2)"
        using fit(2) by (auto simp: list_ex_iff)
      then show ?thesis by (simp add: meets_def pl_clash_def seg_at_def sz_def se)
    qed
    have rec: "\<lparr>pl_s = sg_s (seg sgs v i), pl_e = sg_e (seg sgs v i), pl_off = off, pl_sz = sz\<rparr> = seg_at cx a sgs0 (v, i) off"
      by (simp add: seg_at_def se sz_def)
    have "(seg ?t w j)\<lparr>sg_vtcm_offset := None\<rparr> = (seg sgs0 w j)\<lparr>sg_vtcm_offset := None\<rparr>" if "j < 2" for w j
      using up [OF that] fields [OF that, of w] by auto
    then show ?thesis
      using inv lensgs old(1) new clear fit(1) x(3) rec
      unfolding pl_inv_def step Some
      by (simp add: sz_def) (metis meets_sym option.inject)
  qed
qed

lemma place_fold_inv:
  assumes "distinct xs" "\<forall>(v, i) \<in> set xs. v < length sgs0 \<and> i < 2" "pl_inv cx a sgs0 L ps"
    "set xs \<inter> L = {}" "\<forall>(w, j) \<in> L. w < length sgs0 \<and> j < 2"
  shows "pl_inv cx a sgs0 (set xs \<union> L) (fold (place_seg cx a) xs ps)"
  using assms
proof (induction xs arbitrary: L ps)
  case (Cons x xs)
  obtain v i where x: "x = (v, i)" by fastforce
  have "pl_inv cx a sgs0 (insert (v, i) L) (place_seg cx a (v, i) ps)"
    using Cons.prems x by (intro place_seg_inv) auto
  then have "pl_inv cx a sgs0 (set xs \<union> insert (v, i) L) (fold (place_seg cx a) xs (place_seg cx a (v, i) ps))"
    using Cons.prems x by (intro Cons.IH) auto
  then show ?case by (simp add: x)
qed simp

lemma place_order_ok:
  "distinct (place_order cx sgs)"
  "(v, i) \<in> set (place_order cx sgs) \<longleftrightarrow> v < nn cx \<and> i < 2 \<and> sg_active (seg sgs v i)"
  by (auto simp: place_order_def distinct_product less_2_cases_iff)

lemma place_all_inv:
  assumes "length sgs = nn cx"
  shows "pl_inv cx (shrink_align cx kAlign) sgs (set (place_order cx sgs)) (place_all cx sgs)"
proof -
  have "pl_inv cx (shrink_align cx kAlign) sgs (set (place_order cx sgs) \<union> {}) (place_all cx sgs)"
    unfolding place_all_def
    by (rule place_fold_inv) (use assms in \<open>auto simp: place_order_ok pl_inv_def\<close>)
  then show ?thesis by simp
qed

section \<open>The DDR arena\<close>

lemma ddr_step_seg:
  assumes "i < 2"
  shows "(seg (fst (ddr_step cx e (sgs, cur))) w i)\<lparr>sg_ddr_offset := 0\<rparr> = (seg sgs w i)\<lparr>sg_ddr_offset := 0\<rparr>"
    and "length (fst (ddr_step cx e (sgs, cur))) = length sgs"
    and "sg_ddr_offset (seg (fst (ddr_step cx e (sgs, cur))) w 0) =
      (if en_k e = L_SPILL \<and> en_v e = w \<and> w < length sgs then cur else sg_ddr_offset (seg sgs w 0))"
proof -
  have oob: "upd_seg s v j f = s" if "\<not> v < length s" for s v j f
    using that by (simp add: upd_seg_def Let_def list_update_beyond split: prod.splits)
  have c: "en_v e < length sgs \<or> \<not> en_v e < length sgs" by simp
  show "(seg (fst (ddr_step cx e (sgs, cur))) w i)\<lparr>sg_ddr_offset := 0\<rparr> = (seg sgs w i)\<lparr>sg_ddr_offset := 0\<rparr>"
    using c assms by (elim disjE) (auto simp: ddr_step_def Let_def seg_upd_seg oob)
  show "length (fst (ddr_step cx e (sgs, cur))) = length sgs" by (simp add: ddr_step_def Let_def)
  show "sg_ddr_offset (seg (fst (ddr_step cx e (sgs, cur))) w 0) =
      (if en_k e = L_SPILL \<and> en_v e = w \<and> w < length sgs then cur else sg_ddr_offset (seg sgs w 0))"
    using c by (elim disjE) (auto simp: ddr_step_def Let_def seg_upd_seg oob)
qed

definition spilled_in :: "ent list \<Rightarrow> nat \<Rightarrow> bool" where
  "spilled_in lg v \<longleftrightarrow> (\<exists>e \<in> set lg. en_k e = L_SPILL \<and> en_v e = v)"

definition ddr_inv :: "cp_ctx \<Rightarrow> segs \<Rightarrow> ent list \<Rightarrow> segs \<times> bytes \<Rightarrow> bool" where
  "ddr_inv cx sgs0 lg = (\<lambda>(sgs, cur).
     length sgs = length sgs0 \<and>
     (\<forall>w i. i < 2 \<longrightarrow> (seg sgs w i)\<lparr>sg_ddr_offset := 0\<rparr> = (seg sgs0 w i)\<lparr>sg_ddr_offset := 0\<rparr>) \<and>
     (\<forall>v < length sgs. spilled_in lg v \<longrightarrow> sg_ddr_offset (seg sgs v 0) + cx_m cx ! v \<le> cur) \<and>
     (\<forall>v < length sgs. \<forall>w < length sgs. v \<noteq> w \<and> spilled_in lg v \<and> spilled_in lg w \<longrightarrow>
        range_disj (sg_ddr_offset (seg sgs v 0)) (sg_ddr_offset (seg sgs v 0) + cx_m cx ! v)
          (sg_ddr_offset (seg sgs w 0)) (sg_ddr_offset (seg sgs w 0) + cx_m cx ! w)))"

lemma ddr_step_inv:
  assumes "ddr_inv cx sgs0 lg (sgs, cur)"
  shows "ddr_inv cx sgs0 (lg @ [e]) (ddr_step cx e (sgs, cur))"
proof -
  obtain sgs' cur' where s': "ddr_step cx e (sgs, cur) = (sgs', cur')" by fastforce
  have cur': "cur' = (if en_k e = L_SPILL then cur + cx_m cx ! en_v e else cur)"
    using s' by (auto simp: ddr_step_def Let_def split: if_splits)
  have len: "length sgs' = length sgs" using ddr_step_seg(2) [of 0 cx e sgs cur] s' by simp
  have keepf: "(seg sgs' w i)\<lparr>sg_ddr_offset := 0\<rparr> = (seg sgs w i)\<lparr>sg_ddr_offset := 0\<rparr>" if "i < 2" for w i
    using ddr_step_seg(1) [OF that, of cx e sgs cur w] s' by simp
  have off: "sg_ddr_offset (seg sgs' w 0) =
      (if en_k e = L_SPILL \<and> en_v e = w \<and> w < length sgs then cur else sg_ddr_offset (seg sgs w 0))" for w
    using ddr_step_seg(3) [of 0 cx e sgs cur w] s' by simp
  have sp: "spilled_in (lg @ [e]) v \<longleftrightarrow> spilled_in lg v \<or> (en_k e = L_SPILL \<and> en_v e = v)" for v
    by (auto simp: spilled_in_def)
  have below: "sg_ddr_offset (seg sgs v 0) + cx_m cx ! v \<le> cur" if "v < length sgs" "spilled_in lg v" for v
    using assms that by (simp add: ddr_inv_def)
  show ?thesis
    using assms keepf below unfolding s' ddr_inv_def prod.case len off sp cur'
    by (auto simp: range_disj_def trans_le_add1)
qed

lemma ddr_fold_inv:
  "ddr_inv cx sgs0 pre s \<Longrightarrow> ddr_inv cx sgs0 (pre @ lg) (fold (ddr_step cx) lg s)"
proof (induction lg arbitrary: pre s)
  case (Cons e lg)
  then show ?case using Cons.IH [of "pre @ [e]" "ddr_step cx e s"] ddr_step_inv by (cases s) simp
qed simp

lemma ddr_inv_init: "ddr_inv cx sgs [] (sgs, 0)"
  by (simp add: ddr_inv_def spilled_in_def)

section \<open>What an extracted solution guarantees\<close>

definition placement_ok :: "cp_problem \<Rightarrow> cp_solution \<Rightarrow> bool" where
  "placement_ok p s \<longleftrightarrow>
     (\<forall>v < length (so_segments s). \<forall>i < 2. \<forall>o1.
        sg_active (seg (so_segments s) v i) \<and> sg_vtcm_offset (seg (so_segments s) v i) = Some o1 \<longrightarrow>
        o1 + ct_m (cp_nodes p ! v) \<le> cp_M p \<and>
        (\<forall>w < length (so_segments s). \<forall>j < 2. \<forall>o2.
           (w, j) \<noteq> (v, i) \<and> sg_active (seg (so_segments s) w j) \<and>
           sg_vtcm_offset (seg (so_segments s) w j) = Some o2 \<and>
           life_meet (sg_s (seg (so_segments s) v i)) (sg_e (seg (so_segments s) v i))
             (sg_s (seg (so_segments s) w j)) (sg_e (seg (so_segments s) w j)) \<longrightarrow>
           range_disj o1 (o1 + ct_m (cp_nodes p ! v)) o2 (o2 + ct_m (cp_nodes p ! w))))"

definition arena_ok :: "cp_problem \<Rightarrow> cp_solution \<Rightarrow> bool" where
  "arena_ok p s \<longleftrightarrow>
     (\<forall>v < length (so_segments s). sg_spill_end (seg (so_segments s) v 0) \<longrightarrow>
        sg_ddr_offset (seg (so_segments s) v 0) + ct_m (cp_nodes p ! v) \<le> so_ddr_arena_used s \<and>
        (\<forall>w < length (so_segments s). w \<noteq> v \<and> sg_spill_end (seg (so_segments s) w 0) \<longrightarrow>
           range_disj (sg_ddr_offset (seg (so_segments s) v 0))
             (sg_ddr_offset (seg (so_segments s) v 0) + ct_m (cp_nodes p ! v))
             (sg_ddr_offset (seg (so_segments s) w 0))
             (sg_ddr_offset (seg (so_segments s) w 0) + ct_m (cp_nodes p ! w))))"

lemma seg_ddr_fields:
  assumes "g\<lparr>sg_ddr_offset := 0\<rparr> = h\<lparr>sg_ddr_offset := 0\<rparr>"
  shows "sg_s g = sg_s h" "sg_e g = sg_e h" "sg_active g = sg_active h" "sg_spill_end g = sg_spill_end h"
    "sg_vtcm_offset g = sg_vtcm_offset h"
  using arg_cong [OF assms, of sg_s] arg_cong [OF assms, of sg_e] arg_cong [OF assms, of sg_active]
    arg_cong [OF assms, of sg_spill_end] arg_cong [OF assms, of sg_vtcm_offset] by simp_all

lemma ext_fold_length:
  "length (fst (fold ext_step lg s)) = length (fst s)"
  by (induction lg arbitrary: s) (auto simp: ext_step_def Let_def split: log_kind.splits prod.splits)

lemma ext_segments_length [simp]: "length (ext_segments n lg) = n"
  by (simp add: ext_segments_def ext_fold_length)

lemma ext_step_spill:
  assumes "sg_spill_end (seg (fst (ext_step e (sgs, os))) w 0)" "w < length sgs"
  shows "sg_spill_end (seg sgs w 0) \<or> (en_k e = L_SPILL \<and> en_v e = w)"
proof (cases "en_v e < length sgs")
  case True
  have "sg_spill_end (seg (upd_seg sgs (en_v e) j f) w 0) \<Longrightarrow> \<forall>g. sg_spill_end (f g) = sg_spill_end g \<Longrightarrow>
      sg_spill_end (seg sgs w 0)" for j f
    using True assms(2) seg_upd_seg [of "en_v e" sgs j 0 f w] by (cases "j < 2") (auto simp: upd_seg_def Let_def split: if_splits prod.splits)
  moreover have "sg_spill_end (seg (upd_seg sgs (en_v e) j f) w 0) \<Longrightarrow> en_v e \<noteq> w \<Longrightarrow> sg_spill_end (seg sgs w 0)" for j f
    using True assms(2) seg_upd_seg [of "en_v e" sgs j 0 f w] by (cases "j < 2") (auto simp: upd_seg_def Let_def split: if_splits prod.splits)
  ultimately show ?thesis
    using assms(1) by (fastforce simp: ext_step_def Let_def split: log_kind.splits)
next
  case False
  then have "upd_seg sgs (en_v e) j f = sgs" for j f
    by (simp add: upd_seg_def Let_def list_update_beyond split: prod.splits)
  then show ?thesis using assms(1) by (auto simp: ext_step_def Let_def split: log_kind.splits)
qed

lemma ext_fold_spill:
  assumes "sg_spill_end (seg (fst (fold ext_step lg s)) w 0)" "w < length (fst s)"
  shows "sg_spill_end (seg (fst s) w 0) \<or> spilled_in lg w"
  using assms
proof (induction lg arbitrary: s)
  case (Cons e lg)
  have len: "w < length (fst (ext_step e s))" using Cons.prems(2) ext_fold_length [of "[e]" s] by simp
  have "sg_spill_end (seg (fst (ext_step e s)) w 0) \<or> spilled_in lg w"
    using Cons.IH [of "ext_step e s"] Cons.prems(1) len by simp
  then show ?case
    using ext_step_spill [of e "fst s" "snd s" w] Cons.prems(2) by (fastforce simp: spilled_in_def)
qed simp

lemma ext_segments_spill:
  assumes "w < n" "sg_spill_end (seg (ext_segments n lg) w 0)"
  shows "spilled_in lg w"
proof -
  let ?f = "fold ext_step lg (replicate n (empty_segment, empty_segment), replicate n 255)"
  have "w < length (fst ?f)" using assms(1) by (simp add: ext_fold_length)
  then have "sg_spill_end (seg (fst ?f) w 0)"
    using assms(2) by (auto simp: ext_segments_def seg_def split: prod.splits)
  from ext_fold_spill [OF this] assms(1) show ?thesis by (simp add: seg_def empty_segment_def)
qed

lemma extract_ok:
  assumes "cx = preprocess p opts"
  shows "placement_ok p (extract_from cx nodes lg)" "arena_ok p (extract_from cx nodes lg)"
proof -
  let ?sg = "ext_segments (nn cx) lg" and ?a = "shrink_align cx kAlign"
  obtain sgs cur where f: "fold (ddr_step cx) lg (ps_segs (place_all cx ?sg), 0) = (sgs, cur)" by fastforce
  have so: "so_segments (extract_from cx nodes lg) = sgs" "so_ddr_arena_used (extract_from cx nodes lg) = cur"
    by (simp_all add: extract_from_def Let_def place_offsets_def f)
  have pl: "pl_inv cx ?a ?sg (set (place_order cx ?sg)) (place_all cx ?sg)" by (rule place_all_inv) simp
  have dd: "ddr_inv cx (ps_segs (place_all cx ?sg)) lg (sgs, cur)"
    using ddr_fold_inv [OF ddr_inv_init, of cx "ps_segs (place_all cx ?sg)" lg] by (simp add: f)
  have len: "length sgs = nn cx" using dd pl by (simp add: ddr_inv_def pl_inv_def)
  have fd: "(seg sgs v i)\<lparr>sg_ddr_offset := 0\<rparr> = (seg (ps_segs (place_all cx ?sg)) v i)\<lparr>sg_ddr_offset := 0\<rparr>"
    if "i < 2" for v i using dd that by (simp add: ddr_inv_def)
  have fp: "(seg (ps_segs (place_all cx ?sg)) v i)\<lparr>sg_vtcm_offset := None\<rparr> = (seg ?sg v i)\<lparr>sg_vtcm_offset := None\<rparr>"
    if "i < 2" for v i using pl that by (simp add: pl_inv_def)
  have m: "cx_m cx ! v = ct_m (cp_nodes p ! v)" if "v < nn cx" for v using that by (simp add: assms cp_n_def)
  have big: "ct_m (cp_nodes p ! v) \<le> align_up (cx_m cx ! v) ?a" if "v < nn cx" for v
    using align_up_ge [OF shrink_align_pos [of kAlign cx]] m [OF that] by (simp add: kAlign_def)
  show "placement_ok p (extract_from cx nodes lg)"
    unfolding placement_ok_def so
  proof (intro allI impI conjI; elim conjE)
    fix v i o1
    assume v: "v < length sgs" and i: "i < 2" and act: "sg_active (seg sgs v i)"
      and o1: "sg_vtcm_offset (seg sgs v i) = Some o1"
    note x = seg_ddr_fields [OF fd [OF i, of v]] seg_None_fields [OF fp [OF i, of v]]
    have inL: "(v, i) \<in> set (place_order cx ?sg)" using v len i act x by (simp add: place_order_ok)
    have o1': "off_of (ps_segs (place_all cx ?sg)) (v, i) = Some o1" using o1 x by (simp add: off_of_def)
    have "o1 + align_up (cx_m cx ! v) ?a \<le> cp_M (cx_p cx)"
      using pl inL o1' unfolding pl_inv_def by fastforce
    then show "o1 + ct_m (cp_nodes p ! v) \<le> cp_M p"
      using big [of v] v len by (simp add: assms)
    fix w j o2
    assume w: "w < length sgs" and j: "j < 2" and ne: "(w, j) \<noteq> (v, i)" and actw: "sg_active (seg sgs w j)"
      and o2: "sg_vtcm_offset (seg sgs w j) = Some o2"
      and lm: "life_meet (sg_s (seg sgs v i)) (sg_e (seg sgs v i)) (sg_s (seg sgs w j)) (sg_e (seg sgs w j))"
    note y = seg_ddr_fields [OF fd [OF j, of w]] seg_None_fields [OF fp [OF j, of w]]
    have inLw: "(w, j) \<in> set (place_order cx ?sg)" using w len j actw y by (simp add: place_order_ok)
    have o2': "off_of (ps_segs (place_all cx ?sg)) (w, j) = Some o2" using o2 y by (simp add: off_of_def)
    have "\<not> meets (seg_at cx ?a ?sg (v, i) o1) (seg_at cx ?a ?sg (w, j) o2)"
      using pl inL inLw o1' o2' ne unfolding pl_inv_def by metis
    then have "range_disj o1 (o1 + align_up (cx_m cx ! v) ?a) o2 (o2 + align_up (cx_m cx ! w) ?a)"
      using lm x y by (auto simp: meets_def seg_at_def life_meet_def range_disj_def)
    then show "range_disj o1 (o1 + ct_m (cp_nodes p ! v)) o2 (o2 + ct_m (cp_nodes p ! w))"
      by (rule range_disj_mono) (use big v w len in auto)
  qed
  have sp: "spilled_in lg v" if "v < nn cx" "sg_spill_end (seg sgs v 0)" for v
    using that seg_ddr_fields [OF fd [of 0 v]] seg_None_fields [OF fp [of 0 v]]
    by (intro ext_segments_spill [OF that(1)]) simp
  show "arena_ok p (extract_from cx nodes lg)"
    using dd sp m unfolding arena_ok_def so ddr_inv_def prod.case len by simp
qed

section \<open>What the solver returns\<close>

lemma placement_ok_empty: "so_segments s = [] \<Longrightarrow> placement_ok p s"
  by (simp add: placement_ok_def)

lemma arena_ok_empty: "so_segments s = [] \<Longrightarrow> arena_ok p s"
  by (simp add: arena_ok_def)

text \<open>The two contracts depend on the segments and the arena only.\<close>

lemma placement_ok_cong: "so_segments s = so_segments t \<Longrightarrow> placement_ok p s = placement_ok p t"
  by (simp add: placement_ok_def)

lemma arena_ok_cong:
  "so_segments s = so_segments t \<Longrightarrow> so_ddr_arena_used s = so_ddr_arena_used t \<Longrightarrow> arena_ok p s = arena_ok p t"
  by (simp add: arena_ok_def)

text \<open>Every result of the solver is an empty solution or carries an extracted log's segments.\<close>

definition extracted :: "cp_ctx \<Rightarrow> cp_solution \<Rightarrow> bool" where
  "extracted cx s \<longleftrightarrow> so_segments s = [] \<or>
     (\<exists>nodes lg. so_segments s = so_segments (extract_from cx nodes lg) \<and>
        so_ddr_arena_used s = so_ddr_arena_used (extract_from cx nodes lg))"

lemma extracted_empty: "so_segments s = [] \<Longrightarrow> extracted cx s"
  by (simp add: extracted_def)

lemma extracted_from:
  "so_segments s = so_segments (extract_from cx nodes lg) \<Longrightarrow>
   so_ddr_arena_used s = so_ddr_arena_used (extract_from cx nodes lg) \<Longrightarrow> extracted cx s"
  by (auto simp: extracted_def)

lemma solve_greedy_extracted: "extracted cx (solve_greedy cx nodes why)"
proof (cases "gr_loop cx [0..<nn cx] (gr_init cx)")
  case (Inl a)
  then show ?thesis by (intro extracted_empty) (simp add: solve_greedy_def empty_solution_def)
next
  case (Inr g)
  define lg where
    "lg = gr_log (fold (\<lambda>u h. if gr_live g ! u then gr_push L_CLOSE u (gr_sl h) h else h) [0..<nn cx] g)"
  from Inr show ?thesis
    by (intro extracted_from [of _ _ nodes lg])
      (simp_all add: solve_greedy_def Let_def lg_def split: option.splits)
qed

lemma solve_exact_extracted: "extracted cx (solve_exact late cx)"
proof (cases "bk_have_inc (snd (run_search late cx))")
  case True
  then show ?thesis
    by (intro extracted_from [of _ _ "bk_nodes (snd (run_search late cx))" "bk_inc_log (snd (run_search late cx))"])
      (simp_all add: solve_exact_def Let_def split: option.splits)
next
  case False
  then show ?thesis
    by (simp add: solve_exact_def Let_def solve_greedy_extracted)
      (simp add: extracted_empty empty_solution_def)
qed

lemma solve_extracted: "extracted (preprocess p opts) (solve late p opts)"
  by (simp add: solve_def Let_def solve_greedy_extracted solve_exact_extracted)
    (simp add: extracted_empty empty_solution_def)

lemma extracted_ok:
  assumes "extracted (preprocess p opts) s"
  shows "placement_ok p s" "arena_ok p s"
proof -
  consider "so_segments s = []"
    | nodes lg where "so_segments s = so_segments (extract_from (preprocess p opts) nodes lg)"
        "so_ddr_arena_used s = so_ddr_arena_used (extract_from (preprocess p opts) nodes lg)"
    using assms by (auto simp: extracted_def)
  then have "placement_ok p s \<and> arena_ok p s"
  proof cases
    case 1
    then show ?thesis by (simp add: placement_ok_empty arena_ok_empty)
  next
    case (2 nodes lg)
    then show ?thesis
      using extract_ok [of "preprocess p opts" p opts nodes lg] placement_ok_cong [of s] arena_ok_cong [of s]
      by metis
  qed
  then show "placement_ok p s" "arena_ok p s" by simp_all
qed

text \<open>A feasible result of either path has passed the checker.\<close>

lemma solve_greedy_feasible:
  "so_feasible (solve_greedy cx nodes why) \<Longrightarrow> verify (cx_p cx) (solve_greedy cx nodes why) = None"
  by (auto simp: solve_greedy_def empty_solution_def Let_def split: sum.splits option.splits)

lemma solve_exact_feasible:
  "so_feasible (solve_exact late cx) \<Longrightarrow> verify (cx_p cx) (solve_exact late cx) = None"
  by (auto simp: solve_exact_def empty_solution_def Let_def solve_greedy_feasible split: option.splits if_splits)

lemma cp_valid_no_nodes:
  "cp_n p = 0 \<Longrightarrow> cp_valid p (empty_solution\<lparr>so_feasible := True, so_optimal := True\<rparr>)"
  by (simp add: cp_valid_def empty_solution_def tasks_of_def start_slots_def residency_def seq_compute_def seq_ddr_def)

lemma feasible_cp_valid:
  assumes "so_feasible (solve late p opts)"
  shows "cp_valid p (solve late p opts)"
proof (cases "cp_n p = 0")
  case True
  then show ?thesis by (simp add: solve_def cp_valid_no_nodes)
next
  case False
  then have "verify p (solve late p opts) = None"
    using assms solve_greedy_feasible [of "preprocess p opts"] solve_exact_feasible [of late "preprocess p opts"]
    by (auto simp: solve_def Let_def empty_solution_def split: if_splits)
  then show ?thesis by (rule verify_sound)
qed

section \<open>Properties\<close>

text \<open>
  C7: the branch-and-bound search ends within its fuel of \<open>2 n + 1\<close> levels, on every problem, with
  every clock and every limit, and its apply/undo transitions cancel: the configuration is the
  initial one again.
\<close>

theorem run_search_restores:
  "fst (run_search late (preprocess p opts)) = init_cfg (preprocess p opts) \<and>
   \<not> bk_out_of_fuel (snd (run_search late (preprocess p opts)))"
  using run_search_keeps [of p opts late] by (simp add: keep_def bk_rel_def init_bk_def)

text \<open>
  C8: whatever path the solver took (exact, aborted with an incumbent, greedy), a solution that it
  marks feasible satisfies the declarative specification \<open>cp_valid\<close>: one computation per tensor in
  increasing slots, segments that match the tasks, operands resident at every consumption, capacity
  and compute budget respected, and honest cost counters.
\<close>

theorem solve_feasible_valid:
  assumes "so_feasible (solve late p opts)"
  shows "cp_valid p (solve late p opts)"
  using assms by (rule feasible_cp_valid)

definition cp_demo_tensor :: "op_id \<Rightarrow> bytes \<Rightarrow> cp_tensor" where
  "cp_demo_tensor i m = \<lparr>ct_id = i, ct_m = m, ct_w = 1, ct_C = 2, ct_no_remat = False\<rparr>"

text \<open>With no exact search admitted, the solver takes the greedy path.\<close>

definition cp_demo_options :: cp_options where
  "cp_demo_options = \<lparr>co_mode = FULL, co_objective = DDR_BYTES, co_cost_model = BYTES,
     co_respect_topo_order = True, co_node_limit = 1, co_time_limit_ms = 1,
     co_max_exact_nodes = 0, co_C_default = 2\<rparr>"

definition cp_demo_chain :: cp_problem where
  "cp_demo_chain = \<lparr>cp_nodes = map (\<lambda>i. cp_demo_tensor i 1) [10, 11, 12, 13], cp_edges = [(0, 1), (1, 2), (0, 3), (2, 3)],
     cp_M = 3, cp_W = 4, cp_topo_hint = [10, 11, 12, 13]\<rparr>"

lemma cp_demo_feasible: "so_feasible (solve (\<lambda>_. False) cp_demo_chain cp_demo_options)"
  by code_simp

theorem solve_feasible_valid_witness: "cp_valid cp_demo_chain (solve (\<lambda>_. False) cp_demo_chain cp_demo_options)"
  by (rule solve_feasible_valid [OF cp_demo_feasible])

text \<open>
  C9: the offsets that the solver reports are sound on every path. Each active segment with an
  offset lies in the \<open>M\<close> bytes of the scratchpad, and two such segments whose slots meet occupy
  disjoint ranges. Segments that do not fit have no offset.
\<close>

theorem solve_placement_sound: "placement_ok p (solve late p opts)"
  by (rule extracted_ok(1) [OF solve_extracted])

text \<open>
  C10: the spilled tensors have pairwise disjoint ranges in the backing arena, all within the
  reported arena size.
\<close>

theorem solve_arena_sound: "arena_ok p (solve late p opts)"
  by (rule extracted_ok(2) [OF solve_extracted])

end
