(* ===== verification/OpenAddr.thy ===== *)
theory OpenAddr
  imports Prelude
begin

text \<open>
  Open addressing in tables whose size is a power of two, as a locale: the probe sequence of a key
  starts at its hash and advances by an odd step, so it visits every slot. A client fixes what a slot
  stores (its key and whether it is occupied) and the two numbers per key; the locale gives the
  invariant of such a table, what a probe finds, and that filling the free slot a probe stops at
  keeps the invariant.
\<close>

lemma probe_seq_neq:
  assumes "odd st" "i < j" "j < 2 ^ k"
  shows "(h + i * st) mod 2 ^ k \<noteq> (h + j * st) mod (2 ^ k :: nat)"
proof
  assume "(h + i * st) mod 2 ^ k = (h + j * st) mod 2 ^ k"
  then have "2 ^ k dvd (h + j * st) - (h + i * st)"
    using assms(2) by (intro mod_eq_dvd_iff_nat [THEN iffD1]) simp_all
  moreover have "(h + j * st) - (h + i * st) = (j - i) * st" by (simp add: diff_mult_distrib)
  moreover have "coprime (2 ^ k) st" using assms(1) by simp
  ultimately have "2 ^ k dvd j - i" by (simp add: coprime_dvd_mult_left_iff)
  with assms(2,3) show False by (auto dest: dvd_imp_le)
qed

lemma probe_seq_onto:
  assumes "odd st" "s < 2 ^ k"
  shows "\<exists>j < 2 ^ k. (h + j * st) mod 2 ^ k = (s :: nat)"
proof -
  let ?f = "\<lambda>j. (h + j * st) mod 2 ^ k"
  have "inj_on ?f {..<2 ^ k}" using probe_seq_neq [OF assms(1)] by (intro linorder_inj_onI) auto
  then have "?f ` {..<2 ^ k} = {..<2 ^ k}" by (intro endo_inj_surj) auto
  with assms(2) have "s \<in> ?f ` {..<2 ^ k}" by auto
  then show ?thesis by auto
qed

locale open_table =
  fixes key :: "'s \<Rightarrow> 'k" and occ :: "'s \<Rightarrow> bool" and hash step :: "'k \<Rightarrow> nat"
  assumes odd_step: "odd (step x)"
begin

definition pr :: "nat \<Rightarrow> 'k \<Rightarrow> nat \<Rightarrow> nat" where
  "pr k x j = (hash x + j * step x) mod 2 ^ k"

definition ok :: "nat \<Rightarrow> 's list \<Rightarrow> bool" where
  "ok k tab \<longleftrightarrow> length tab = 2 ^ k \<and>
     (\<forall>i < 2 ^ k. \<forall>j < 2 ^ k. occ (tab ! i) \<and> occ (tab ! j) \<and> key (tab ! i) = key (tab ! j) \<longrightarrow> i = j) \<and>
     (\<forall>i < 2 ^ k. occ (tab ! i) \<longrightarrow>
        (\<exists>j. pr k (key (tab ! i)) j = i \<and> (\<forall>m < j. occ (tab ! pr k (key (tab ! i)) m))))"

definition halts :: "'s list \<Rightarrow> 'k \<Rightarrow> nat \<Rightarrow> bool" where
  "halts tab x i \<longleftrightarrow> \<not> occ (tab ! i) \<or> key (tab ! i) = x"

definition content :: "'s list \<Rightarrow> 'k \<Rightarrow> 's option" where
  "content tab x = List.find (\<lambda>s. occ s \<and> key s = x) tab"

lemma pr_less [simp]: "pr k x j < 2 ^ k"
  by (simp add: pr_def)

lemma ok_length: "ok k tab \<Longrightarrow> length tab = 2 ^ k"
  by (simp add: ok_def)

lemma ok_unique:
  "ok k tab \<Longrightarrow> i < 2 ^ k \<Longrightarrow> j < 2 ^ k \<Longrightarrow> occ (tab ! i) \<Longrightarrow> occ (tab ! j) \<Longrightarrow>
     key (tab ! i) = key (tab ! j) \<Longrightarrow> i = j"
  by (simp add: ok_def)

lemma ok_reach:
  "ok k tab \<Longrightarrow> i < 2 ^ k \<Longrightarrow> occ (tab ! i) \<Longrightarrow>
     \<exists>j. pr k (key (tab ! i)) j = i \<and> (\<forall>m < j. occ (tab ! pr k (key (tab ! i)) m))"
  by (simp add: ok_def)

lemma content_Some:
  assumes "ok k tab" "i < 2 ^ k" "occ (tab ! i)"
  shows "content tab (key (tab ! i)) = Some (tab ! i)"
proof -
  have "tab ! i \<in> set tab" using assms ok_length by (metis nth_mem)
  then have "content tab (key (tab ! i)) \<noteq> None"
    using assms(3) unfolding content_def find_None_iff by blast
  then obtain s where s: "content tab (key (tab ! i)) = Some s" by auto
  then obtain j where j: "j < length tab" "occ s" "key s = key (tab ! i)" "s = tab ! j"
    unfolding content_def by (auto simp: find_Some_iff)
  have "j = i" by (rule ok_unique [OF assms(1)]) (use j assms ok_length [OF assms(1)] in auto)
  with s j show ?thesis by simp
qed

lemma content_None: "content tab x = None \<longleftrightarrow> (\<forall>s \<in> set tab. \<not> (occ s \<and> key s = x))"
  unfolding content_def find_None_iff by blast

lemma content_SomeD:
  "content tab x = Some s \<Longrightarrow> occ s \<and> key s = x \<and> (\<exists>i < length tab. s = tab ! i)"
  unfolding content_def by (auto simp: find_Some_iff)

text \<open>Where a probe stops first, the key is there or nowhere.\<close>

lemma content_first_halt:
  assumes "ok k tab" "halts tab x (pr k x j)" "\<forall>m < j. \<not> halts tab x (pr k x m)"
  shows "content tab x = (if occ (tab ! pr k x j) then Some (tab ! pr k x j) else None)"
proof (cases "occ (tab ! pr k x j)")
  case True
  with assms(2) have "key (tab ! pr k x j) = x" by (simp add: halts_def)
  with content_Some [OF assms(1) pr_less True] True show ?thesis by simp
next
  case False
  have "content tab x = None"
  proof (rule ccontr)
    assume "content tab x \<noteq> None"
    then obtain s where "content tab x = Some s" by auto
    then obtain i where i: "i < 2 ^ k" "occ (tab ! i)" "key (tab ! i) = x"
      using content_SomeD ok_length [OF assms(1)] by metis
    obtain j' where j': "pr k x j' = i" "\<forall>m < j'. occ (tab ! pr k x m)"
      using ok_reach [OF assms(1) i(1,2)] i(3) by auto
    have "halts tab x (pr k x j')" using i j' by (simp add: halts_def)
    then have "\<not> j' < j" using assms(3) by auto
    moreover have "\<not> j < j'" using j'(2) False by auto
    ultimately have "j = j'" by simp
    with False i j' show False by simp
  qed
  with False show ?thesis by simp
qed

lemma content_no_halt:
  assumes "ok k tab" "\<forall>m < 2 ^ k. \<not> halts tab x (pr k x m)"
  shows "content tab x = None" "\<forall>i < 2 ^ k. occ (tab ! i)"
proof -
  have all: "\<not> halts tab x i" if "i < 2 ^ k" for i
  proof -
    obtain j where "j < 2 ^ k" "pr k x j = i"
      using probe_seq_onto [OF odd_step \<open>i < 2 ^ k\<close>] unfolding pr_def by blast
    with assms(2) show ?thesis by auto
  qed
  then show "\<forall>i < 2 ^ k. occ (tab ! i)" by (simp add: halts_def)
  show "content tab x = None"
    unfolding content_None using all ok_length [OF assms(1)] by (fastforce simp: halts_def in_set_conv_nth)
qed

lemma first_halt_cases:
  obtains j where "j < 2 ^ k" "halts tab x (pr k x j)" "\<forall>m < j. \<not> halts tab x (pr k x m)"
  | "\<forall>m < (2 ^ k :: nat). \<not> halts tab x (pr k x m)"
proof (cases "\<exists>j < 2 ^ k. halts tab x (pr k x j)")
  case True
  let ?P = "\<lambda>j. halts tab x (pr k x j)"
  from True obtain j where j: "j < 2 ^ k" "?P j" by auto
  show ?thesis
  proof (rule that(1) [of "LEAST j. ?P j"])
    show "?P (LEAST j. ?P j)" using j(2) by (rule LeastI)
    show "(LEAST j. ?P j) < 2 ^ k" using Least_le [of ?P, OF j(2)] j(1) by simp
    show "\<forall>m < (LEAST j. ?P j). \<not> ?P m" using not_less_Least [of _ ?P] by blast
  qed
qed (auto intro: that(2))

text \<open>Writing an occupied slot with the probed key where the probe stops.\<close>

lemma ok_write:
  assumes "ok k tab" "halts tab x (pr k x j)" "\<forall>m < j. \<not> halts tab x (pr k x m)" "occ s" "key s = x"
  shows "ok k (tab[pr k x j := s])"
proof -
  let ?p = "pr k x j" and ?t = "tab[pr k x j := s]"
  have len: "length ?t = 2 ^ k" using ok_length [OF assms(1)] by simp
  have nth: "?t ! i = (if i = ?p then s else tab ! i)" if "i < 2 ^ k" for i
    using that ok_length [OF assms(1)] by simp
  have no: "key (tab ! i) \<noteq> x" if "i < 2 ^ k" "occ (tab ! i)" "i \<noteq> ?p" for i
  proof
    assume e: "key (tab ! i) = x"
    have "content tab x = Some (tab ! i)" using content_Some [OF assms(1) that(1,2)] e by simp
    then have "occ (tab ! ?p)" "tab ! ?p = tab ! i"
      using content_first_halt [OF assms(1-3)] by (auto split: if_splits)
    then show False using ok_unique [OF assms(1) that(1) pr_less that(2)] that(3) by simp
  qed
  have uniq: "\<forall>i < 2 ^ k. \<forall>l < 2 ^ k. occ (?t ! i) \<and> occ (?t ! l) \<and> key (?t ! i) = key (?t ! l) \<longrightarrow> i = l"
  proof (intro allI impI; elim conjE)
    fix i l
    assume i: "i < 2 ^ k" "l < 2 ^ k" and o: "occ (?t ! i)" "occ (?t ! l)" and e: "key (?t ! i) = key (?t ! l)"
    show "i = l"
    proof (cases "i = ?p \<or> l = ?p")
      case True
      then show ?thesis using no [of i] no [of l] i o e assms(5) by (auto simp: nth split: if_splits)
    next
      case False
      then show ?thesis using ok_unique [OF assms(1) i] i o e by (simp add: nth)
    qed
  qed
  have stay: "occ (tab ! i) \<Longrightarrow> occ (?t ! i)" if "i < 2 ^ k" for i
    using that assms(4) by (simp add: nth)
  have reach: "\<exists>l. pr k (key (?t ! i)) l = i \<and> (\<forall>m < l. occ (?t ! pr k (key (?t ! i)) m))"
    if i: "i < 2 ^ k" "occ (?t ! i)" for i
  proof (cases "i = ?p")
    case True
    have "\<forall>m < j. occ (?t ! pr k x m)"
    proof (intro allI impI)
      fix m assume "m < j"
      with assms(3) have "occ (tab ! pr k x m)" by (simp add: halts_def)
      then show "occ (?t ! pr k x m)" by (rule stay [OF pr_less])
    qed
    moreover have "key (?t ! i) = x" using True assms(5) i(1) nth by simp
    ultimately show ?thesis using True by auto
  next
    case False
    then have e: "?t ! i = tab ! i" using nth [OF i(1)] by simp
    then obtain l where l: "pr k (key (tab ! i)) l = i" "\<forall>m < l. occ (tab ! pr k (key (tab ! i)) m)"
      using ok_reach [OF assms(1) i(1)] i by auto
    have "\<forall>m < l. occ (?t ! pr k (key (tab ! i)) m)" using l(2) stay [OF pr_less] by blast
    with l(1) show ?thesis unfolding e by blast
  qed
  show ?thesis unfolding ok_def using len uniq reach by blast
qed

lemma content_write:
  assumes "ok k tab" "halts tab x (pr k x j)" "\<forall>m < j. \<not> halts tab x (pr k x m)" "occ s" "key s = x"
  shows "content (tab[pr k x j := s]) = (content tab)(x \<mapsto> s)"
proof
  fix y
  let ?p = "pr k x j" and ?t = "tab[pr k x j := s]"
  have okt: "ok k ?t" by (rule ok_write [OF assms])
  have p: "?t ! ?p = s" using ok_length [OF assms(1)] by simp
  show "content ?t y = ((content tab)(x \<mapsto> s)) y"
  proof (cases "y = x")
    case True
    then show ?thesis using content_Some [OF okt pr_less, of x j] p assms(4,5) by simp
  next
    case False
    have other: "halts tab x ?p" by (rule assms(2))
    show ?thesis
    proof (cases "content tab y")
      case None
      have "\<forall>z \<in> set ?t. \<not> (occ z \<and> key z = y)"
        using None False assms(5) by (auto simp: content_None dest!: in_set_updateD)
      then have "content ?t y = None" by (simp only: content_None)
      then show ?thesis using None False by simp
    next
      case (Some z)
      then obtain i where i: "i < 2 ^ k" "z = tab ! i" "occ z" "key z = y"
        using content_SomeD ok_length [OF assms(1)] by metis
      have "i \<noteq> ?p" using other i False by (auto simp: halts_def)
      then have "?t ! i = z" using i ok_length [OF assms(1)] by simp
      then have "content ?t y = Some z" using content_Some [OF okt i(1)] i by auto
      then show ?thesis using Some False by simp
    qed
  qed
qed

lemma ok_free: "\<forall>s \<in> set tab. \<not> occ s \<Longrightarrow> length tab = 2 ^ k \<Longrightarrow> ok k tab"
  by (simp add: ok_def)

end

end
