(* ===== verification/OpDescTable.thy ===== *)
theory OpDescTable
  imports GraphIr OpenAddr
begin

text \<open>
  The descriptors of the dependency graph and their hash table: \<open>DepOpDesc\<close>, \<open>OpDescHashBucket\<close> and
  \<open>fibonacci_hash_op\<close> of \<open>compiler/src/ir/graph_deps.cpp\<close>. The table is searched by linear probing with
  an odd step and grows when an insertion meets no free slot.

  Operator ids are natural numbers and are hashed as 64-bit words; slots, masks and steps are 32-bit
  words. A returned pointer is the index of the slot. The recursion of an insertion through the
  growth of the table is bounded by a depth; one level is shown to be enough.
\<close>

unbundle bit_operations_syntax

record dep_op_desc =
  dd_op_id :: op_id
  dd_opdef :: "op_def option"
  dd_flags :: "8 word"
  dd_life_begin :: nat
  dd_life_end :: nat
  dd_access_count :: nat
  dd_distance :: nat
  dd_predecessor :: nat
  dd_input_memgroups :: "nat list"
  dd_output_memgroups :: "nat list"
  dd_vtcm_requirement :: bytes
  dd_ddr_requirement :: bytes

definition empty_desc :: dep_op_desc where
  "empty_desc = \<lparr>dd_op_id = 0, dd_opdef = None, dd_flags = 0, dd_life_begin = 0, dd_life_end = 0,
     dd_access_count = 0, dd_distance = 0, dd_predecessor = 0, dd_input_memgroups = [],
     dd_output_memgroups = [], dd_vtcm_requirement = 0, dd_ddr_requirement = 0\<rparr>"

record op_bucket =
  ob_slots :: "dep_op_desc list"
  ob_mask :: u32
  ob_count :: nat

definition fibonacci_hash_op :: "op_id \<Rightarrow> u64" where
  "fibonacci_hash_op i =
     (let id = of_nat i :: u64;
          h1 = ucast (ucast (drop_bit 32 id) :: u32) * 0x192e2101 :: u64;
          lo = (ucast id :: u32) XOR ucast h1;
          h = ucast lo * 0x740f1de9 :: u64
      in drop_bit 32 h XOR h)"

definition op_slot :: "op_id \<Rightarrow> u32" where
  "op_slot i = ucast (fibonacci_hash_op i)"

definition op_step :: "op_id \<Rightarrow> u32" where
  "op_step i = (ucast (drop_bit 15 (fibonacci_hash_op i)) AND 0x1fffe) OR 1"

function bucket_size :: "nat \<Rightarrow> nat \<Rightarrow> nat" where
  "bucket_size sz bound = (if 0 < sz \<and> sz < bound then bucket_size (2 * sz) bound else sz)"
  by auto
termination by (relation "measure (\<lambda>(sz, bound). bound - sz)") auto

declare bucket_size.simps [simp del]

definition bucket_init :: "nat \<Rightarrow> op_bucket" where
  "bucket_init capacity =
     (let sz = bucket_size 16 (capacity * 2)
      in \<lparr>ob_slots = replicate sz empty_desc, ob_mask = of_nat sz - 1, ob_count = 0\<rparr>)"

text \<open>The slot where the probing of an id stops: a free one, or the one that holds the id.\<close>

fun op_scan :: "nat \<Rightarrow> dep_op_desc list \<Rightarrow> u32 \<Rightarrow> op_id \<Rightarrow> u32 \<Rightarrow> nat option" where
  "op_scan 0 slots msk i slot = None"
| "op_scan (Suc n) slots msk i slot =
     (let s = slots ! unat slot
      in if dd_flags s = 0 \<or> dd_flags s = 1 \<and> dd_op_id s = i then Some (unat slot)
         else op_scan n slots msk i ((slot + op_step i) AND msk))"

definition bucket_scan :: "op_bucket \<Rightarrow> op_id \<Rightarrow> nat option" where
  "bucket_scan b i =
     op_scan (Suc (unat (ob_mask b))) (ob_slots b) (ob_mask b) i (op_slot i AND ob_mask b)"

definition bucket_lookup :: "op_bucket \<Rightarrow> op_id \<Rightarrow> nat option" where
  "bucket_lookup b i =
     (if ob_mask b = 0 then None
      else case bucket_scan b i of
             None \<Rightarrow> None
           | Some j \<Rightarrow> if dd_flags (ob_slots b ! j) = 1 then Some j else None)"

text \<open>The insertion proper, without growth: the slot of the id, taking a free one if needed.\<close>

definition bucket_take :: "op_bucket \<Rightarrow> op_id \<Rightarrow> (nat \<times> op_bucket) option" where
  "bucket_take b i =
     (case bucket_scan b i of
        None \<Rightarrow> None
      | Some j \<Rightarrow>
          if dd_flags (ob_slots b ! j) = 0
          then Some (j, b\<lparr>ob_slots := (ob_slots b)[j := (ob_slots b ! j)\<lparr>dd_op_id := i, dd_flags := 1\<rparr>],
                          ob_count := ob_count b + 1\<rparr>)
          else Some (j, b))"

definition bucket_store :: "(op_bucket \<Rightarrow> op_id \<Rightarrow> (nat \<times> op_bucket) option) \<Rightarrow> dep_op_desc \<Rightarrow>
  op_bucket \<Rightarrow> op_bucket option" where
  "bucket_store ins s b =
     map_option (\<lambda>(j, b'). b'\<lparr>ob_slots := (ob_slots b')[j := s]\<rparr>) (ins b (dd_op_id s))"

fun store_all :: "(op_bucket \<Rightarrow> op_id \<Rightarrow> (nat \<times> op_bucket) option) \<Rightarrow> dep_op_desc list \<Rightarrow>
  op_bucket \<Rightarrow> op_bucket option" where
  "store_all ins [] b = Some b"
| "store_all ins (s # ss) b =
     (case bucket_store ins s b of None \<Rightarrow> None | Some b' \<Rightarrow> store_all ins ss b')"

fun bucket_insert_d :: "nat \<Rightarrow> op_bucket \<Rightarrow> op_id \<Rightarrow> (nat \<times> op_bucket) option" where
  "bucket_insert_d d b i =
     (let b0 = (if ob_mask b = 0 then bucket_init 64 else b)
      in case bucket_take b0 i of
           Some r \<Rightarrow> Some r
         | None \<Rightarrow>
             (case d of
                0 \<Rightarrow> None
              | Suc d' \<Rightarrow>
                  (case store_all (bucket_insert_d d') (filter (\<lambda>s. dd_flags s = 1) (ob_slots b0))
                          (bucket_init (2 * (unat (ob_mask b0) + 1))) of
                     None \<Rightarrow> None
                   | Some b1 \<Rightarrow> bucket_insert_d d' b1 i)))"

declare bucket_insert_d.simps [simp del]

definition bucket_insert :: "op_bucket \<Rightarrow> op_id \<Rightarrow> (nat \<times> op_bucket) option" where
  "bucket_insert b i = bucket_insert_d 1 b i"

section \<open>The table as an open-addressing table\<close>

definition desc_occ :: "dep_op_desc \<Rightarrow> bool" where
  "desc_occ s \<longleftrightarrow> dd_flags s = 1"

lemma odd_op_step: "odd (unat (op_step i))"
proof -
  have "bit (unat (op_step i)) 0" by (simp add: op_step_def bit_or_iff bit_unsigned_iff)
  then show ?thesis by (simp add: bit_0)
qed

interpretation ot: open_table dd_op_id desc_occ "\<lambda>i. unat (op_slot i)" "\<lambda>i. unat (op_step i)"
  by unfold_locales (rule odd_op_step)

text \<open>A table of \<open>2 ^ k\<close> slots whose flags are 0 or 1.\<close>

definition bucket_wf :: "nat \<Rightarrow> op_bucket \<Rightarrow> bool" where
  "bucket_wf k b \<longleftrightarrow> 4 \<le> k \<and> k \<le> 31 \<and> ob_mask b = mask k \<and> ot.ok k (ob_slots b) \<and>
     (\<forall>s \<in> set (ob_slots b). dd_flags s = 0 \<or> dd_flags s = 1)"

abbreviation bucket_map :: "op_bucket \<Rightarrow> op_id \<rightharpoonup> dep_op_desc" where
  "bucket_map b \<equiv> ot.content (ob_slots b)"

lemma halts_flags:
  assumes "bucket_wf k b" "j < 2 ^ k"
  shows "ot.halts (ob_slots b) i j \<longleftrightarrow>
    dd_flags (ob_slots b ! j) = 0 \<or> dd_flags (ob_slots b ! j) = 1 \<and> dd_op_id (ob_slots b ! j) = i"
proof -
  have "ob_slots b ! j \<in> set (ob_slots b)"
    using assms ot.ok_length [of k "ob_slots b"] by (auto simp: bucket_wf_def)
  then show ?thesis using assms(1) by (auto simp: bucket_wf_def ot.halts_def desc_occ_def)
qed

lemma op_scan_runs:
  assumes wf: "bucket_wf k b" and "unat slot = ot.pr k i m"
  shows "op_scan n (ob_slots b) (ob_mask b) i slot =
    (if \<exists>l < n. ot.halts (ob_slots b) i (ot.pr k i (m + l))
     then Some (ot.pr k i (m + (LEAST l. ot.halts (ob_slots b) i (ot.pr k i (m + l))))) else None)"
  using assms(2)
proof (induction n arbitrary: slot m)
  case (Suc n)
  let ?H = "\<lambda>m. ot.halts (ob_slots b) i (ot.pr k i m)"
  show ?case
  proof (cases "?H m")
    case True
    have "(LEAST l. ?H (m + l)) = 0" by (rule Least_equality) (use True in auto)
    moreover have "\<exists>l < Suc n. ?H (m + l)" using True by (intro exI [of _ 0]) simp
    ultimately show ?thesis
      using True halts_flags [OF wf ot.pr_less] by (simp add: Suc.prems Let_def)
  next
    case False
    have next_slot: "unat ((slot + op_step i) AND ob_mask b) = ot.pr k i (Suc m)"
      using wf by (simp add: bucket_wf_def unat_step_mask Suc.prems ot.pr_def mod_simps algebra_simps)
    have ex: "(\<exists>l < Suc n. ?H (m + l)) \<longleftrightarrow> (\<exists>l < n. ?H (Suc m + l))"
    proof
      assume "\<exists>l < Suc n. ?H (m + l)"
      then obtain l where l: "l < Suc n" "?H (m + l)" by blast
      with False obtain l' where "l = Suc l'" by (cases l) auto
      with l show "\<exists>l < n. ?H (Suc m + l)" by (intro exI [of _ l']) simp
    next
      assume "\<exists>l < n. ?H (Suc m + l)"
      then obtain l where "l < n" "?H (Suc m + l)" by blast
      then show "\<exists>l < Suc n. ?H (m + l)" by (intro exI [of _ "Suc l"]) simp
    qed
    have least: "(LEAST l. ?H (m + l)) = Suc (LEAST l. ?H (Suc m + l))" if "\<exists>l. ?H (Suc m + l)"
    proof -
      from that obtain l where "?H (m + Suc l)" by auto
      from Least_Suc [of "\<lambda>l. ?H (m + l)", OF this] False show ?thesis by simp
    qed
    have stop: "op_scan (Suc n) (ob_slots b) (ob_mask b) i slot =
        op_scan n (ob_slots b) (ob_mask b) i ((slot + op_step i) AND ob_mask b)"
      using False halts_flags [OF wf ot.pr_less, of i i m] by (auto simp: Suc.prems Let_def)
    show ?thesis
    proof (cases "\<exists>l < n. ?H (Suc m + l)")
      case True
      then have "(LEAST l. ?H (m + l)) = Suc (LEAST l. ?H (Suc m + l))" by (intro least) blast
      then show ?thesis unfolding stop Suc.IH [OF next_slot] ex using True by simp
    next
      case False
      then show ?thesis unfolding stop Suc.IH [OF next_slot] ex by auto
    qed
  qed
qed simp

text \<open>What the scan of a table finds.\<close>

lemma bucket_scan_cases:
  assumes wf: "bucket_wf k b"
  obtains j where "bucket_scan b i = Some (ot.pr k i j)" "ot.halts (ob_slots b) i (ot.pr k i j)"
      "\<forall>m < j. \<not> ot.halts (ob_slots b) i (ot.pr k i m)"
  | "bucket_scan b i = None" "bucket_map b i = None" "\<forall>j < 2 ^ k. desc_occ (ob_slots b ! j)"
proof -
  have k: "k \<le> 32" "ob_mask b = mask k" and ok: "ot.ok k (ob_slots b)" using wf by (auto simp: bucket_wf_def)
  have m: "Suc (unat (ob_mask b)) = 2 ^ k"
    using wf by (simp add: bucket_wf_def unat_mask_u32)
  have start: "unat (op_slot i AND ob_mask b) = ot.pr k i 0"
    by (simp add: k(2) unat_and_mask ot.pr_def)
  note scan = op_scan_runs [OF wf start, of "2 ^ k"]
  show ?thesis
  proof (rule ot.first_halt_cases [of k "ob_slots b" i])
    fix j
    assume j: "j < 2 ^ k" "ot.halts (ob_slots b) i (ot.pr k i j)"
      "\<forall>m < j. \<not> ot.halts (ob_slots b) i (ot.pr k i m)"
    have "(LEAST l. ot.halts (ob_slots b) i (ot.pr k i (0 + l))) = j"
      by (rule Least_equality) (use j in \<open>auto simp: not_less [symmetric]\<close>)
    then have "bucket_scan b i = Some (ot.pr k i j)"
      using scan j by (auto simp: bucket_scan_def m)
    then show ?thesis using j by (intro that(1)) auto
  next
    assume no: "\<forall>m < 2 ^ k. \<not> ot.halts (ob_slots b) i (ot.pr k i m)"
    then have "bucket_scan b i = None" using scan by (simp add: bucket_scan_def m)
    then show ?thesis using ot.content_no_halt [OF ok no] by (intro that(2)) auto
  qed
qed


section \<open>Lookup and insertion\<close>

lemma bucket_wf_mask:
  assumes "bucket_wf k b"
  shows "ob_mask b \<noteq> 0" "unat (ob_mask b) + 1 = 2 ^ k"
proof -
  show m: "unat (ob_mask b) + 1 = 2 ^ k"
    using unat_mask_u32 [of k] assms by (simp add: bucket_wf_def)
  show "ob_mask b \<noteq> 0"
  proof
    assume "ob_mask b = 0"
    with m have "(2 :: nat) ^ k = 1" by simp
    then show False using assms by (simp add: bucket_wf_def)
  qed
qed

lemma bucket_lookup_map:
  assumes wf: "bucket_wf k b"
  shows "map_option (\<lambda>j. ob_slots b ! j) (bucket_lookup b i) = bucket_map b i"
    "bucket_lookup b i = Some j \<Longrightarrow> j < 2 ^ k"
proof -
  have m: "ob_mask b \<noteq> 0" by (rule bucket_wf_mask(1) [OF wf])
  have ok: "ot.ok k (ob_slots b)" using wf by (simp add: bucket_wf_def)
  show "map_option (\<lambda>j. ob_slots b ! j) (bucket_lookup b i) = bucket_map b i"
  proof (rule bucket_scan_cases [OF wf, of i])
    fix j assume j: "bucket_scan b i = Some (ot.pr k i j)" "ot.halts (ob_slots b) i (ot.pr k i j)"
      "\<forall>m < j. \<not> ot.halts (ob_slots b) i (ot.pr k i m)"
    show ?thesis
      using ot.content_first_halt [OF ok j(2,3)] m by (simp add: bucket_lookup_def j(1) desc_occ_def)
  qed (use m in \<open>simp add: bucket_lookup_def\<close>)
  assume l: "bucket_lookup b i = Some j"
  show "j < 2 ^ k"
    by (rule bucket_scan_cases [OF wf, of i]) (use l m in \<open>auto simp: bucket_lookup_def split: if_splits\<close>)
qed

lemma bucket_wf_write:
  assumes wf: "bucket_wf k b" and "ot.halts (ob_slots b) i (ot.pr k i j)"
    "\<forall>m < j. \<not> ot.halts (ob_slots b) i (ot.pr k i m)" "dd_flags s = 1" "dd_op_id s = i"
    "b' = b\<lparr>ob_slots := (ob_slots b)[ot.pr k i j := s], ob_count := c\<rparr>"
  shows "bucket_wf k b'" "bucket_map b' = (bucket_map b)(i \<mapsto> s)"
proof -
  have ok: "ot.ok k (ob_slots b)" using wf by (simp add: bucket_wf_def)
  have occ: "desc_occ s" using assms(4) by (simp add: desc_occ_def)
  show "bucket_wf k b'"
    using wf ot.ok_write [OF ok assms(2,3) occ assms(5)] assms(4,6)
    by (auto simp: bucket_wf_def dest!: in_set_updateD)
  show "bucket_map b' = (bucket_map b)(i \<mapsto> s)"
    using ot.content_write [OF ok assms(2,3) occ assms(5)] assms(6) by simp
qed

text \<open>
  An insertion that finds room leaves a table that maps the id to the returned slot: the old
  descriptor, or a default one for a new id.
\<close>

definition free_slots :: "op_bucket \<Rightarrow> bool" where
  "free_slots b \<longleftrightarrow> (\<exists>s \<in> set (ob_slots b). \<not> desc_occ s)"

definition blank_slots :: "op_bucket \<Rightarrow> bool" where
  "blank_slots b \<longleftrightarrow> (\<forall>s \<in> set (ob_slots b). dd_flags s = 0 \<longrightarrow> s = empty_desc)"

definition fresh_desc :: "op_id \<Rightarrow> dep_op_desc" where
  "fresh_desc i = empty_desc\<lparr>dd_op_id := i, dd_flags := 1\<rparr>"

lemma bucket_take_ok:
  assumes wf: "bucket_wf k b" and bl: "blank_slots b" and room: "free_slots b \<or> bucket_map b i \<noteq> None"
  obtains j b' where "bucket_take b i = Some (j, b')" "bucket_wf k b'" "blank_slots b'" "j < 2 ^ k"
    "bucket_map b' = (bucket_map b)(i \<mapsto> (case bucket_map b i of None \<Rightarrow> fresh_desc i | Some s \<Rightarrow> s))"
    "ob_slots b' ! j = (case bucket_map b i of None \<Rightarrow> fresh_desc i | Some s \<Rightarrow> s)"
    "\<And>s. dd_flags s = 1 \<Longrightarrow> dd_op_id s = i \<Longrightarrow> bucket_wf k (b'\<lparr>ob_slots := (ob_slots b')[j := s]\<rparr>) \<and>
       blank_slots (b'\<lparr>ob_slots := (ob_slots b')[j := s]\<rparr>) \<and>
       bucket_map (b'\<lparr>ob_slots := (ob_slots b')[j := s]\<rparr>) = (bucket_map b)(i \<mapsto> s)"
proof (rule bucket_scan_cases [OF wf, of i])
  have ok: "ot.ok k (ob_slots b)" and len: "length (ob_slots b) = 2 ^ k"
    using wf ot.ok_length by (auto simp: bucket_wf_def)
  {
    fix j assume j: "bucket_scan b i = Some (ot.pr k i j)" "ot.halts (ob_slots b) i (ot.pr k i j)"
      "\<forall>m < j. \<not> ot.halts (ob_slots b) i (ot.pr k i m)"
    let ?p = "ot.pr k i j"
    let ?s = "case bucket_map b i of None \<Rightarrow> fresh_desc i | Some s \<Rightarrow> s"
    have p: "ob_slots b ! ?p \<in> set (ob_slots b)" using len by simp
    note c = ot.content_first_halt [OF ok j(2,3)]
    define b' where "b' = (if dd_flags (ob_slots b ! ?p) = 0
        then b\<lparr>ob_slots := (ob_slots b)[?p := (ob_slots b ! ?p)\<lparr>dd_op_id := i, dd_flags := 1\<rparr>],
               ob_count := ob_count b + 1\<rparr> else b)"
    have take: "bucket_take b i = Some (?p, b')" by (simp add: bucket_take_def j(1) b'_def)
    have new: "ob_slots b' = (ob_slots b)[?p := ?s]"
    proof (cases "dd_flags (ob_slots b ! ?p) = 0")
      case True
      then have "ob_slots b ! ?p = empty_desc" using bl p by (auto simp: blank_slots_def)
      then show ?thesis using True c by (simp add: b'_def desc_occ_def fresh_desc_def)
    next
      case False
      then have "desc_occ (ob_slots b ! ?p)" using wf p by (auto simp: bucket_wf_def desc_occ_def)
      then show ?thesis using False c by (simp add: b'_def)
    qed
    have mask: "ob_mask b' = ob_mask b" by (simp add: b'_def)
    have all: "bucket_wf k (b'\<lparr>ob_slots := (ob_slots b')[?p := s]\<rparr>) \<and>
       blank_slots (b'\<lparr>ob_slots := (ob_slots b')[?p := s]\<rparr>) \<and>
       bucket_map (b'\<lparr>ob_slots := (ob_slots b')[?p := s]\<rparr>) = (bucket_map b)(i \<mapsto> s)"
      if s: "dd_flags s = 1" "dd_op_id s = i" for s
    proof -
      have e: "ob_slots (b'\<lparr>ob_slots := (ob_slots b')[?p := s]\<rparr>) =
          ob_slots (b\<lparr>ob_slots := (ob_slots b)[?p := s], ob_count := c\<rparr>)" for c by (simp add: new)
      have "bucket_wf k (b'\<lparr>ob_slots := (ob_slots b')[?p := s]\<rparr>)"
        using bucket_wf_write(1) [OF wf j(2,3) s refl, of 0] mask by (simp add: bucket_wf_def new)
      moreover have "bucket_map (b'\<lparr>ob_slots := (ob_slots b')[?p := s]\<rparr>) = (bucket_map b)(i \<mapsto> s)"
        using bucket_wf_write(2) [OF wf j(2,3) s refl, of 0] by (simp add: new)
      moreover have "blank_slots (b'\<lparr>ob_slots := (ob_slots b')[?p := s]\<rparr>)"
        using bl s by (auto simp: blank_slots_def new dest!: in_set_updateD)
      ultimately show ?thesis by simp
    qed
    have s: "dd_flags ?s = 1" "dd_op_id ?s = i"
      using ot.content_SomeD [of "ob_slots b" i] by (auto simp: fresh_desc_def desc_occ_def split: option.splits)
    have same: "b'\<lparr>ob_slots := (ob_slots b')[?p := ?s]\<rparr> = b'"
      by (rule op_bucket.equality) (simp_all add: new)
    show thesis
    proof (rule that [of ?p b'])
      show "bucket_take b i = Some (?p, b')" by (rule take)
      show "bucket_wf k b'" "blank_slots b'" "bucket_map b' = (bucket_map b)(i \<mapsto> ?s)"
        using all [OF s] unfolding same by simp_all
      show "ob_slots b' ! ?p = ?s" by (simp add: new len)
    qed (rule ot.pr_less, rule all)
  next
    assume "bucket_scan b i = None" "bucket_map b i = None" "\<forall>j < 2 ^ k. desc_occ (ob_slots b ! j)"
    then show thesis using room len by (auto simp: free_slots_def in_set_conv_nth)
  }
qed


section \<open>Growth\<close>

lemma bucket_size_pow:
  "\<exists>k. bucket_size (2 ^ n) bound = 2 ^ k \<and> n \<le> k \<and> bound \<le> 2 ^ k \<and> (k = n \<or> 2 ^ k < 2 * bound)"
proof (induction "bound - 2 ^ n" arbitrary: n rule: less_induct)
  case less
  show ?case
  proof (cases "(2 :: nat) ^ n < bound")
    case True
    moreover have "(0 :: nat) < 2 ^ n" by simp
    ultimately have "bound - 2 ^ Suc n < bound - 2 ^ n" unfolding power_Suc by linarith
    from less [OF this] obtain k where k: "bucket_size (2 ^ Suc n) bound = 2 ^ k" "Suc n \<le> k" "bound \<le> 2 ^ k"
      "k = Suc n \<or> 2 ^ k < 2 * bound" by blast
    have "bucket_size (2 ^ n) bound = bucket_size (2 ^ Suc n) bound"
      using True by (subst bucket_size.simps) simp
    moreover have "2 ^ k < 2 * bound" using k(4) True by auto
    ultimately show ?thesis using k by (intro exI [of _ k]) auto
  next
    case False
    then have "bucket_size (2 ^ n) bound = 2 ^ n" by (subst bucket_size.simps) simp
    with False show ?thesis by (intro exI [of _ n]) auto
  qed
qed

lemma bucket_init_ok:
  assumes "c \<le> 2 ^ 30"
  obtains k where "bucket_wf k (bucket_init c)" "blank_slots (bucket_init c)"
    "bucket_map (bucket_init c) = Map.empty" "2 * c \<le> 2 ^ k"
proof -
  obtain k where k: "bucket_size (2 ^ 4) (c * 2) = 2 ^ k" "4 \<le> k" "c * 2 \<le> 2 ^ k" "k = 4 \<or> 2 ^ k < 2 * (c * 2)"
    using bucket_size_pow by blast
  have "k \<le> 31"
  proof (rule ccontr)
    assume "\<not> k \<le> 31"
    then have "(2 :: nat) ^ 32 \<le> 2 ^ k" by (intro power_increasing) auto
    also have "\<dots> < 2 ^ 32" using k(4) \<open>\<not> k \<le> 31\<close> assms by auto
    finally show False by simp
  qed
  have m: "(of_nat (2 ^ k) - 1 :: u32) = mask k" by (simp add: mask_eq_exp_minus_1)
  have sl: "ob_slots (bucket_init c) = replicate (2 ^ k) empty_desc"
    using k(1) by (simp add: bucket_init_def)
  have mk: "ob_mask (bucket_init c) = mask k"
    using k(1) m by (simp add: bucket_init_def)
  have "ot.ok k (ob_slots (bucket_init c))"
    by (rule ot.ok_free) (simp_all add: sl desc_occ_def empty_desc_def)
  then have "bucket_wf k (bucket_init c)"
    using k \<open>k \<le> 31\<close> mk by (simp add: bucket_wf_def) (simp add: sl empty_desc_def)
  moreover have "blank_slots (bucket_init c)" by (simp add: blank_slots_def sl)
  moreover have "bucket_map (bucket_init c) = Map.empty"
    by (rule ext) (simp add: ot.content_None sl desc_occ_def empty_desc_def)
  ultimately show ?thesis using k(3) that by simp
qed

lemma finite_bucket_dom: "finite (dom (bucket_map b))"
proof -
  have "dom (bucket_map b) \<subseteq> dd_op_id ` set (ob_slots b)"
    by (auto dest!: ot.content_SomeD)
  then show ?thesis by (rule finite_subset) simp
qed

lemma card_bucket_dom:
  assumes wf: "bucket_wf k b"
  shows "card (dom (bucket_map b)) \<le> 2 ^ k" "\<not> free_slots b \<Longrightarrow> card (dom (bucket_map b)) = 2 ^ k"
proof -
  have ok: "ot.ok k (ob_slots b)" and len: "length (ob_slots b) = 2 ^ k"
    using wf ot.ok_length by (auto simp: bucket_wf_def)
  let ?occ = "{j. j < 2 ^ k \<and> desc_occ (ob_slots b ! j)}" and ?f = "\<lambda>j. dd_op_id (ob_slots b ! j)"
  have dom: "dom (bucket_map b) = ?f ` ?occ"
  proof (intro equalityI subsetI)
    fix x assume "x \<in> dom (bucket_map b)"
    then obtain s where "bucket_map b x = Some s" by auto
    with ot.content_SomeD [OF this] len show "x \<in> ?f ` ?occ" by auto
  next
    fix x assume "x \<in> ?f ` ?occ"
    then show "x \<in> dom (bucket_map b)" using ot.content_Some [OF ok] by blast
  qed
  have inj: "inj_on ?f ?occ" using ot.ok_unique [OF ok] by (auto intro!: inj_onI)
  have card: "card (dom (bucket_map b)) = card ?occ" unfolding dom by (rule card_image [OF inj])
  have "card ?occ \<le> card {..<(2::nat) ^ k}" by (rule card_mono) auto
  then show "card (dom (bucket_map b)) \<le> 2 ^ k" using card by simp
  assume "\<not> free_slots b"
  then have "?occ = {..<2 ^ k}" using len by (auto simp: free_slots_def)
  with card show "card (dom (bucket_map b)) = 2 ^ k" by simp
qed

lemma bucket_insert_room:
  assumes wf: "bucket_wf k b" and bl: "blank_slots b" and room: "free_slots b \<or> bucket_map b i \<noteq> None"
  shows "bucket_insert_d d b i = bucket_take b i"
proof -
  obtain r where "bucket_take b i = Some r" using bucket_take_ok [OF assms] by metis
  then show ?thesis
    using bucket_wf_mask(1) [OF wf] by (subst bucket_insert_d.simps) (simp add: Let_def)
qed

text \<open>Re-inserting descriptors with distinct ids into a table with room for them.\<close>

lemma store_all_ok:
  assumes "bucket_wf k b" "blank_slots b" "\<forall>s \<in> set ss. dd_flags s = 1"
    "card (dom (bucket_map b)) + length ss \<le> 2 ^ k"
  shows "\<exists>b'. store_all (bucket_insert_d d) ss b = Some b' \<and> bucket_wf k b' \<and> blank_slots b' \<and>
    bucket_map b' = (bucket_map b)(map dd_op_id ss [\<mapsto>] ss)"
  using assms
proof (induction ss arbitrary: b)
  case (Cons s ss)
  have room: "free_slots b \<or> bucket_map b (dd_op_id s) \<noteq> None"
    using card_bucket_dom(2) [OF Cons.prems(1)] Cons.prems(4) by fastforce
  obtain j b' where t: "bucket_take b (dd_op_id s) = Some (j, b')"
    and post: "bucket_wf k (b'\<lparr>ob_slots := (ob_slots b')[j := s]\<rparr>) \<and>
       blank_slots (b'\<lparr>ob_slots := (ob_slots b')[j := s]\<rparr>) \<and>
       bucket_map (b'\<lparr>ob_slots := (ob_slots b')[j := s]\<rparr>) = (bucket_map b)(dd_op_id s \<mapsto> s)"
    using bucket_take_ok [OF Cons.prems(1,2) room] Cons.prems(3) by (metis list.set_intros(1))
  let ?b = "b'\<lparr>ob_slots := (ob_slots b')[j := s]\<rparr>"
  have st: "bucket_store (bucket_insert_d d) s b = Some ?b"
    using bucket_insert_room [OF Cons.prems(1,2) room] by (simp add: bucket_store_def t)
  have "card (dom (bucket_map ?b)) \<le> Suc (card (dom (bucket_map b)))"
    using post finite_bucket_dom [of b] by (simp add: card_insert_if)
  then have "card (dom (bucket_map ?b)) + length ss \<le> 2 ^ k" using Cons.prems(4) by simp
  with Cons.IH [of ?b] post Cons.prems(3) st show ?case by (simp add: map_upds_Cons)
qed auto


lemma map_upds_keys:
  assumes "distinct (map f ss)"
  shows "(Map.empty(map f ss [\<mapsto>] ss)) x = Some s \<longleftrightarrow> s \<in> set ss \<and> f s = x"
proof -
  have "(Map.empty(map f ss [\<mapsto>] ss)) x = map_of (rev (zip (map f ss) ss)) x"
    by (simp add: map_upds_def)
  also have "\<dots> = Some s \<longleftrightarrow> (x, s) \<in> set (rev (zip (map f ss) ss))"
    using assms by (intro map_of_eq_Some_iff) (simp flip: rev_map)
  also have "\<dots> \<longleftrightarrow> s \<in> set ss \<and> f s = x"
    by (auto simp: zip_map1 zip_same_conv_map)
  finally show ?thesis .
qed

lemma distinct_occupied:
  assumes wf: "bucket_wf k b"
  shows "distinct (map dd_op_id (filter desc_occ (ob_slots b)))"
proof -
  have ok: "ot.ok k (ob_slots b)" and len: "length (ob_slots b) = 2 ^ k"
    using wf ot.ok_length by (auto simp: bucket_wf_def)
  let ?js = "filter (\<lambda>j. desc_occ (ob_slots b ! j)) [0..<2 ^ k]"
  have "filter desc_occ (map ((!) (ob_slots b)) [0..<length (ob_slots b)]) = map ((!) (ob_slots b)) ?js"
    by (simp add: filter_map o_def len)
  then have "filter desc_occ (ob_slots b) = map ((!) (ob_slots b)) ?js" by (simp only: map_nth)
  moreover have "inj_on (\<lambda>j. dd_op_id (ob_slots b ! j)) (set ?js)"
    using ot.ok_unique [OF ok] by (auto intro!: inj_onI)
  ultimately show ?thesis by (simp add: distinct_map o_def)
qed

lemma bucket_map_iff:
  assumes "bucket_wf k b"
  shows "bucket_map b x = Some s \<longleftrightarrow> s \<in> set (ob_slots b) \<and> desc_occ s \<and> dd_op_id s = x"
proof -
  have ok: "ot.ok k (ob_slots b)" and len: "length (ob_slots b) = 2 ^ k"
    using assms ot.ok_length by (auto simp: bucket_wf_def)
  show ?thesis
  proof
    assume "bucket_map b x = Some s"
    then show "s \<in> set (ob_slots b) \<and> desc_occ s \<and> dd_op_id s = x"
      using ot.content_SomeD by (metis nth_mem)
  next
    assume s: "s \<in> set (ob_slots b) \<and> desc_occ s \<and> dd_op_id s = x"
    then obtain j where "j < 2 ^ k" "ob_slots b ! j = s" by (auto simp: in_set_conv_nth len)
    with s ot.content_Some [OF ok, of j] show "bucket_map b x = Some s" by auto
  qed
qed

lemma flag_filter: "filter (\<lambda>s. dd_flags s = 1) = filter desc_occ"
  by (simp add: desc_occ_def [abs_def])

lemma rebuilt_map:
  assumes wf: "bucket_wf k b"
  shows "Map.empty(map dd_op_id (filter desc_occ (ob_slots b)) [\<mapsto>] filter desc_occ (ob_slots b)) = bucket_map b"
    (is "?m = _")
proof
  fix x
  have "?m x = Some s \<longleftrightarrow> bucket_map b x = Some s" for s
    unfolding map_upds_keys [OF distinct_occupied [OF wf]] bucket_map_iff [OF wf] by auto
  then show "?m x = bucket_map b x" by (metis not_None_eq)
qed

lemma length_occupied:
  assumes "bucket_wf k b"
  shows "length (filter desc_occ (ob_slots b)) \<le> 2 ^ k"
  using assms ot.ok_length [of k "ob_slots b"] length_filter_le [of desc_occ "ob_slots b"]
  by (simp add: bucket_wf_def)

lemma bucket_rebuild_ok:
  assumes wf: "bucket_wf k b" and c: "length (filter desc_occ (ob_slots b)) \<le> c" "c \<le> 2 ^ 30"
  shows "\<exists>b' k'. store_all (bucket_insert_d d) (filter desc_occ (ob_slots b)) (bucket_init c) = Some b' \<and>
    bucket_wf k' b' \<and> blank_slots b' \<and> bucket_map b' = bucket_map b \<and> 2 * c \<le> 2 ^ k'"
proof -
  obtain k' where k': "bucket_wf k' (bucket_init c)" "blank_slots (bucket_init c)"
    "bucket_map (bucket_init c) = Map.empty" "2 * c \<le> 2 ^ k'"
    by (rule bucket_init_ok [OF c(2)])
  have "card (dom (bucket_map (bucket_init c))) + length (filter desc_occ (ob_slots b)) \<le> 2 ^ k'"
    using c(1) k'(3,4) by simp
  moreover have "\<forall>s \<in> set (filter desc_occ (ob_slots b)). dd_flags s = 1" by (simp add: desc_occ_def)
  ultimately show ?thesis
    using store_all_ok [OF k'(1,2), of "filter desc_occ (ob_slots b)" d] k'(3,4) rebuilt_map [OF wf] by metis
qed

lemma bucket_insert_ok:
  assumes wf: "bucket_wf k b" and bl: "blank_slots b" and few: "card (dom (bucket_map b)) < 2 ^ 28"
  obtains k' j b' where "bucket_insert b i = Some (j, b')" "bucket_wf k' b'" "blank_slots b'"
    "bucket_map b' = (bucket_map b)(i \<mapsto> (case bucket_map b i of None \<Rightarrow> fresh_desc i | Some s \<Rightarrow> s))"
    "ob_slots b' ! j = (case bucket_map b i of None \<Rightarrow> fresh_desc i | Some s \<Rightarrow> s)"
    "\<And>s. dd_flags s = 1 \<Longrightarrow> dd_op_id s = i \<Longrightarrow> bucket_wf k' (b'\<lparr>ob_slots := (ob_slots b')[j := s]\<rparr>) \<and>
       blank_slots (b'\<lparr>ob_slots := (ob_slots b')[j := s]\<rparr>) \<and>
       bucket_map (b'\<lparr>ob_slots := (ob_slots b')[j := s]\<rparr>) = (bucket_map b)(i \<mapsto> s)"
proof (cases "free_slots b \<or> bucket_map b i \<noteq> None")
  case True
  note ins = bucket_insert_room [OF wf bl True, of "Suc 0"]
  show ?thesis by (rule bucket_take_ok [OF wf bl True]) (rule that, auto simp: bucket_insert_def ins)
next
  case False
  have full: "card (dom (bucket_map b)) = 2 ^ k" using card_bucket_dom(2) [OF wf] False by simp
  have "\<forall>s \<in> set (ob_slots b). desc_occ s" using False by (simp add: free_slots_def)
  obtain b1 k1 where r: "store_all (bucket_insert_d 0) (filter desc_occ (ob_slots b)) (bucket_init (2 * 2 ^ k)) = Some b1"
    and b1: "bucket_wf k1 b1" "blank_slots b1" "bucket_map b1 = bucket_map b" "2 * (2 * 2 ^ k) \<le> (2 ^ k1 :: nat)"
    using bucket_rebuild_ok [OF wf, of "2 * 2 ^ k" 0] length_occupied [OF wf] few full by auto
  have none: "bucket_take b i = None"
  proof (rule bucket_scan_cases [OF wf, of i])
    fix j assume j: "bucket_scan b i = Some (ot.pr k i j)" "ot.halts (ob_slots b) i (ot.pr k i j)"
      "\<forall>m < j. \<not> ot.halts (ob_slots b) i (ot.pr k i m)"
    have ok: "ot.ok k (ob_slots b)" using wf by (simp add: bucket_wf_def)
    have "desc_occ (ob_slots b ! ot.pr k i j)"
      using \<open>\<forall>s \<in> set (ob_slots b). desc_occ s\<close> ot.ok_length [OF ok] by simp
    with ot.content_first_halt [OF ok j(2,3)] False show ?thesis by simp
  qed (simp add: bucket_take_def)
  have "(2 :: nat) ^ k < 2 * (2 * 2 ^ k)" by simp
  also note b1(4)
  finally have "(2 :: nat) ^ k < 2 ^ k1" .
  then have room: "free_slots b1 \<or> bucket_map b1 i \<noteq> None"
    using card_bucket_dom(2) [OF b1(1)] full b1(3) by (metis less_irrefl)
  have ins: "bucket_insert b i = bucket_take b1 i"
    using r none bucket_wf_mask [OF wf] bucket_insert_room [OF b1(1,2) room, of 0] unfolding bucket_insert_def
    by (subst bucket_insert_d.simps) (simp add: Let_def flag_filter)
  show ?thesis
    by (rule bucket_take_ok [OF b1(1,2) room]) (rule that, auto simp: ins b1(3))
qed

end
