(* ===== verification/GraphDeps.thy ===== *)
theory GraphDeps
  imports OpDescTable
begin

text \<open>
  The dependency graph of \<open>compiler/src/ir/graph_deps.cpp\<close>, which the allocators and the run list are
  planned from: registration of operators, memory groups, lifetimes, the eight stages of
  \<open>build_runlist\<close>, and \<open>GraphPrepare::build_graph_deps\<close> up to the call of the scheduler.

  A \<open>GraphDeps\<close> keeps every descriptor twice: in the slots of the hash table and in the linear list
  \<open>opdescs\<close>, a copy taken at registration. The model keeps both, since the passes write the list and
  the lookups read the table. \<open>OpDef\<close> pointers are the operator records themselves (\<open>None\<close> for null); the
  execution order of \<open>GraphPrepare\<close> is an argument. Counters and positions are natural numbers, flags
  8-bit words. The result \<open>None\<close> stands for an insertion deeper than the modelled recursion, which is
  shown not to happen.
\<close>

section \<open>State\<close>

record mem_group =
  mg_id :: nat
  mg_bytes :: bytes
  mg_is_tcm :: bool
  mg_gen_op_id :: op_id
  mg_consumers :: "op_id list"

record group_entry =
  ge_op_ids :: "op_id list"
  ge_group_ids :: "nat list"
  ge_op_count :: nat

record lifetime_info =
  li_op_id :: op_id
  li_first_use :: nat
  li_last_use :: nat
  li_access_count :: nat

record graph_deps =
  gd_opdescs :: "dep_op_desc list"
  gd_group_entries :: "group_entry list"
  gd_hash :: op_bucket
  gd_runlist :: "op_id list"
  gd_runlist_count :: nat
  gd_memgroups :: "mem_group list"
  gd_memgroup_map :: "(nat \<times> nat) list"
  gd_lifetimes :: "lifetime_info list"
  gd_ordering_state :: nat
  gd_max_distance :: nat
  gd_peak_tcm_use :: bytes
  gd_largest_tcm_op_id :: op_id
  gd_largest_tcm_op_size :: bytes

definition deps_init :: graph_deps where
  "deps_init = \<lparr>gd_opdescs = [], gd_group_entries = [], gd_hash = bucket_init 64, gd_runlist = [],
     gd_runlist_count = 0, gd_memgroups = [], gd_memgroup_map = [], gd_lifetimes = [],
     gd_ordering_state = 0, gd_max_distance = 0, gd_peak_tcm_use = 0, gd_largest_tcm_op_id = 0,
     gd_largest_tcm_op_size = 0\<rparr>"

definition find_opdesc :: "graph_deps \<Rightarrow> op_id \<Rightarrow> dep_op_desc option" where
  "find_opdesc deps i = map_option (\<lambda>j. ob_slots (gd_hash deps) ! j) (bucket_lookup (gd_hash deps) i)"

definition add_op :: "op_id \<Rightarrow> op_def \<Rightarrow> graph_deps \<Rightarrow> graph_deps option" where
  "add_op i od deps =
     (case bucket_insert (gd_hash deps) i of
        None \<Rightarrow> None
      | Some (j, b) \<Rightarrow>
          let d = ob_slots b ! j
          in if dd_opdef d = None
             then let d' = d\<lparr>dd_opdef := Some od, dd_op_id := i, dd_flags := 1\<rparr>
                  in Some (deps\<lparr>gd_hash := b\<lparr>ob_slots := (ob_slots b)[j := d']\<rparr>,
                                gd_opdescs := gd_opdescs deps @ [d']\<rparr>)
             else Some (deps\<lparr>gd_hash := b\<rparr>))"

section \<open>Memory groups and lifetimes\<close>

definition memgroup_step :: "dep_op_desc \<Rightarrow> mem_group list \<Rightarrow> dep_op_desc \<times> mem_group list" where
  "memgroup_step d mgs =
     (case dd_opdef d of
        None \<Rightarrow> (d, mgs)
      | Some od \<Rightarrow>
          (d\<lparr>dd_output_memgroups := dd_output_memgroups d @ [length mgs]\<rparr>,
           mgs @ [\<lparr>mg_id = length mgs, mg_bytes = out_bytes (opd_output_def od), mg_is_tcm = True,
                   mg_gen_op_id = dd_op_id d, mg_consumers = opd_consumers od\<rparr>]))"

fun memgroup_loop :: "dep_op_desc list \<Rightarrow> mem_group list \<Rightarrow> dep_op_desc list \<times> mem_group list" where
  "memgroup_loop [] mgs = ([], mgs)"
| "memgroup_loop (d # ds) mgs =
     (let (d', mgs') = memgroup_step d mgs; (ds', mgs'') = memgroup_loop ds mgs' in (d' # ds', mgs''))"

definition build_memgroups :: "graph_deps \<Rightarrow> graph_deps" where
  "build_memgroups deps =
     (let (ds, mgs) = memgroup_loop (gd_opdescs deps) []
      in deps\<lparr>gd_opdescs := ds, gd_memgroups := mgs, gd_memgroup_map := map (\<lambda>mg. (mg_id mg, mg_id mg)) mgs\<rparr>)"

text \<open>\<open>topo_idx[ordering[i]] = i\<close>: the last position of an id.\<close>

definition topo_idx :: "op_id list \<Rightarrow> op_id \<Rightarrow> nat option" where
  "topo_idx topo i = map_of (rev (zip topo [0..<length topo])) i"

definition last_use_step :: "op_id list \<Rightarrow> nat \<Rightarrow> op_id \<Rightarrow> nat" where
  "last_use_step topo lu cid =
     (case topo_idx topo cid of Some p \<Rightarrow> if lu < p then p else lu | None \<Rightarrow> lu)"

definition life_step :: "op_id list \<Rightarrow> dep_op_desc \<Rightarrow> dep_op_desc" where
  "life_step topo d =
     (case dd_opdef d of
        None \<Rightarrow> d
      | Some od \<Rightarrow>
          let fu = (case topo_idx topo (dd_op_id d) of Some p \<Rightarrow> p | None \<Rightarrow> 0)
          in d\<lparr>dd_life_begin := fu, dd_life_end := foldl (last_use_step topo) fu (opd_consumers od),
               dd_access_count := length (opd_consumers od)\<rparr>)"

definition life_info :: "dep_op_desc \<Rightarrow> lifetime_info" where
  "life_info d = \<lparr>li_op_id = dd_op_id d, li_first_use = dd_life_begin d, li_last_use = dd_life_end d,
     li_access_count = dd_access_count d\<rparr>"

definition compute_lifetimes :: "op_id list \<Rightarrow> graph_deps \<Rightarrow> graph_deps" where
  "compute_lifetimes topo deps =
     (if topo = []
      then let ds = map (\<lambda>(i, d). d\<lparr>dd_life_begin := i, dd_life_end := i,
                       dd_access_count := (case dd_opdef d of Some od \<Rightarrow> length (opd_consumers od) | None \<Rightarrow> 0)\<rparr>)
                     (zip [0..<length (gd_opdescs deps)] (gd_opdescs deps))
           in deps\<lparr>gd_opdescs := ds, gd_lifetimes := map life_info ds\<rparr>
      else let ds = map (life_step topo) (gd_opdescs deps)
           in deps\<lparr>gd_opdescs := ds,
                   gd_lifetimes := map life_info (filter (\<lambda>d. dd_opdef d \<noteq> None) ds)\<rparr>)"

section \<open>The stages of the run list\<close>

text \<open>\<open>op_idx[opdescs[i].op_id] = i\<close>.\<close>

definition desc_idx :: "dep_op_desc list \<Rightarrow> op_id \<Rightarrow> nat option" where
  "desc_idx ds i = map_of (rev (zip (map dd_op_id ds) [0..<length ds])) i"

definition mark_desc :: "dep_op_desc \<Rightarrow> dep_op_desc" where
  "mark_desc d =
     (if dd_flags d = 0 \<or> dd_flags d AND 0x20 \<noteq> 0 then d else d\<lparr>dd_flags := dd_flags d OR 0x80\<rparr>)"

definition starts_group :: "(op_id \<Rightarrow> nat option) \<Rightarrow> group_entry list \<Rightarrow> dep_op_desc \<Rightarrow> bool" where
  "starts_group idx gs d \<longleftrightarrow> gs = [] \<or>
     (case dd_opdef d of
        None \<Rightarrow> False
      | Some od \<Rightarrow> list_ex (\<lambda>c. idx (src_id c) \<noteq> None \<and> src_id c \<notin> set (ge_op_ids (last gs))) (opd_inputs od))"

definition group_add :: "op_id \<Rightarrow> group_entry \<Rightarrow> group_entry" where
  "group_add i g = g\<lparr>ge_op_ids := ge_op_ids g @ [i], ge_op_count := ge_op_count g + 1\<rparr>"

definition group_step ::
  "(op_id \<Rightarrow> nat option) \<Rightarrow> op_id \<Rightarrow> dep_op_desc list \<times> group_entry list \<Rightarrow> dep_op_desc list \<times> group_entry list"
where
  "group_step idx i = (\<lambda>(ds, gs).
     case idx i of
       None \<Rightarrow> (ds, gs)
     | Some j \<Rightarrow>
         if dd_flags (ds ! j) = 0 then (ds, gs)
         else let gs1 = (if starts_group idx gs (ds ! j)
                         then gs @ [\<lparr>ge_op_ids = [], ge_group_ids = [], ge_op_count = 0\<rparr>] else gs)
              in (ds[j := (ds ! j)\<lparr>dd_flags := dd_flags (ds ! j) AND NOT 0x80\<rparr>],
                  gs1[length gs1 - 1 := group_add i (last gs1)]))"

definition prepare_group_entries :: "op_id list \<Rightarrow> graph_deps \<Rightarrow> graph_deps" where
  "prepare_group_entries topo deps =
     (if gd_opdescs deps = [] then deps
      else let ds = map mark_desc (gd_opdescs deps);
               (ds', gs) = fold (group_step (desc_idx ds)) topo (ds, [])
           in deps\<lparr>gd_opdescs := ds', gd_group_entries := gs\<rparr>)"

definition populate_desc :: "graph_deps \<Rightarrow> dep_op_desc \<Rightarrow> dep_op_desc" where
  "populate_desc deps d =
     (case dd_opdef d of
        None \<Rightarrow> d
      | Some od \<Rightarrow>
          d\<lparr>dd_output_memgroups := dd_output_memgroups d @
              map mg_id (filter (\<lambda>mg. mg_gen_op_id mg = dd_op_id d) (gd_memgroups deps)),
            dd_input_memgroups := dd_input_memgroups d @
              concat (map (\<lambda>c. case find_opdesc deps (src_id c) of None \<Rightarrow> []
                                | Some s \<Rightarrow> dd_output_memgroups s) (opd_inputs od))\<rparr>)"

definition populate_groups_in_opdesc :: "graph_deps \<Rightarrow> graph_deps" where
  "populate_groups_in_opdesc deps = deps\<lparr>gd_opdescs := map (populate_desc deps) (gd_opdescs deps)\<rparr>"

definition drop_consumer :: "op_id \<Rightarrow> nat \<Rightarrow> mem_group list \<Rightarrow> mem_group list" where
  "drop_consumer i g mgs =
     (if g < length mgs then mgs[g := (mgs ! g)\<lparr>mg_consumers := filter (\<lambda>c. c \<noteq> i) (mg_consumers (mgs ! g))\<rparr>]
      else mgs)"

definition retire_desc :: "dep_op_desc \<Rightarrow> dep_op_desc" where
  "retire_desc d = d\<lparr>dd_output_memgroups := [], dd_input_memgroups := [],
     dd_flags := (dd_flags d AND NOT 0x04) OR 0x08\<rparr>"

fun remove_loop :: "dep_op_desc list \<Rightarrow> mem_group list \<Rightarrow> dep_op_desc list \<times> mem_group list" where
  "remove_loop [] mgs = ([], mgs)"
| "remove_loop (d # ds) mgs =
     (if dd_flags d AND 0x20 = 0
      then let (ds', mgs') = remove_loop ds mgs in (d # ds', mgs')
      else let mgs1 = fold (drop_consumer (dd_op_id d)) (dd_input_memgroups d)
                        (fold (drop_consumer (dd_op_id d)) (dd_output_memgroups d) mgs);
               (ds', mgs') = remove_loop ds mgs1
           in (retire_desc d # ds', mgs'))"

definition remove_unused_ops :: "graph_deps \<Rightarrow> graph_deps" where
  "remove_unused_ops deps =
     (let (ds, mgs) = remove_loop (gd_opdescs deps) (gd_memgroups deps)
      in deps\<lparr>gd_opdescs := ds, gd_memgroups := mgs\<rparr>)"

definition rebuild_hash_bucket :: "graph_deps \<Rightarrow> graph_deps option" where
  "rebuild_hash_bucket deps =
     (if ob_slots (gd_hash deps) = [] then Some deps
      else let valid = filter (\<lambda>d. dd_flags d = 1 \<and> dd_flags d AND 0x08 = 0) (ob_slots (gd_hash deps))
           in map_option (\<lambda>b. deps\<lparr>gd_hash := b\<rparr>) (store_all bucket_insert valid (bucket_init (length valid))))"

text \<open>
  The second removal. Its two tests on the memory groups cover all cases, so the removal itself is
  never reached; flags are 8 bits wide, so the mark \<open>0x100\<close> of the code has no effect on them.
\<close>

definition has_live_consumer :: "graph_deps \<Rightarrow> dep_op_desc \<Rightarrow> bool" where
  "has_live_consumer deps d =
     (case dd_opdef d of
        None \<Rightarrow> False
      | Some od \<Rightarrow> list_ex (\<lambda>c. case find_opdesc deps c of None \<Rightarrow> False
                                | Some e \<Rightarrow> dd_flags e AND 0x0f = 0x01) (opd_consumers od))"

definition remove_checked_desc :: "graph_deps \<Rightarrow> dep_op_desc \<Rightarrow> dep_op_desc" where
  "remove_checked_desc deps d =
     (if dd_flags d AND 0x0f \<noteq> 0x01 then d
      else if dd_input_memgroups d = [] \<and> dd_output_memgroups d = [] then d
      else if dd_input_memgroups d \<noteq> [] \<or> dd_output_memgroups d \<noteq> [] then d
      else if dd_distance d = 0 \<and> dd_predecessor d = 0 then d
      else if has_live_consumer deps d then d\<lparr>dd_output_memgroups := [], dd_input_memgroups := []\<rparr>
      else retire_desc d)"

definition remove_unused_ops_checked :: "graph_deps \<Rightarrow> graph_deps" where
  "remove_unused_ops_checked deps = deps\<lparr>gd_opdescs := map (remove_checked_desc deps) (gd_opdescs deps)\<rparr>"

section \<open>Distances\<close>

definition dist_start :: "(op_id \<Rightarrow> nat option) \<Rightarrow> nat \<times> dep_op_desc \<Rightarrow> dep_op_desc" where
  "dist_start idx = (\<lambda>(i, d).
     case dd_opdef d of
       None \<Rightarrow> d
     | Some od \<Rightarrow>
         d\<lparr>dd_distance := i,
           dd_predecessor := (case opd_inputs od of
               [] \<Rightarrow> 0 | c # cs \<Rightarrow> (case idx (src_id c) of Some p \<Rightarrow> p + 1 | None \<Rightarrow> 0))\<rparr>)"

definition dist_step :: "nat \<Rightarrow> bool \<times> dep_op_desc list \<times> nat \<Rightarrow> bool \<times> dep_op_desc list \<times> nat" where
  "dist_step i = (\<lambda>(changed, ds, mx).
     let d = ds ! i; p = dd_predecessor d - 1
     in if dd_opdef d = None \<or> dd_predecessor d = 0 \<or> length ds \<le> p \<or> dd_opdef (ds ! p) = None
        then (changed, ds, mx)
        else let nd = dd_distance (ds ! p) + 1
             in if dd_distance d < nd then (True, ds[i := d\<lparr>dd_distance := nd\<rparr>], max mx nd)
                else (changed, ds, mx))"

definition dist_pass :: "dep_op_desc list \<times> nat \<Rightarrow> bool \<times> dep_op_desc list \<times> nat" where
  "dist_pass s = fold dist_step [0..<length (fst s)] (False, s)"

text \<open>\<open>n\<close> is the number of passes left; the flag tells whether the last pass changed something.\<close>

fun dist_loop :: "nat \<Rightarrow> dep_op_desc list \<times> nat \<Rightarrow> bool \<times> dep_op_desc list \<times> nat" where
  "dist_loop 0 s = (True, s)"
| "dist_loop (Suc n) s = (let (changed, s') = dist_pass s in if changed then dist_loop n s' else (False, s'))"

definition set_distances_from_constraints :: "graph_deps \<Rightarrow> bool \<times> graph_deps" where
  "set_distances_from_constraints deps =
     (if gd_opdescs deps = [] then (True, deps)
      else let n = length (gd_opdescs deps);
               ds = map (dist_start (desc_idx (gd_opdescs deps))) (zip [0..<n] (gd_opdescs deps));
               mx = foldl max 0 (filter (\<lambda>i. dd_opdef (gd_opdescs deps ! i) \<noteq> None) [0..<n]);
               (changed, ds', mx') = dist_loop (n * 4 + 16) (ds, mx)
           in if changed then (False, deps\<lparr>gd_opdescs := ds'\<rparr>)
              else (True, deps\<lparr>gd_opdescs := ds', gd_max_distance := mx', gd_ordering_state := 2\<rparr>))"

section \<open>The run list\<close>

definition tcm_sums :: "dep_op_desc list \<Rightarrow> op_id list \<Rightarrow> bytes \<times> bytes" where
  "tcm_sums ds ids =
     foldl (\<lambda>(cur, peak) i. case desc_idx ds i of
         None \<Rightarrow> (cur, peak)
       | Some j \<Rightarrow> let c = cur + dd_vtcm_requirement (ds ! j) in (c, max peak c)) (0, 0) ids"

definition largest_tcm :: "dep_op_desc list \<Rightarrow> op_id \<times> bytes" where
  "largest_tcm ds =
     foldl (\<lambda>(i, sz) d. if dd_opdef d \<noteq> None \<and> sz < dd_vtcm_requirement d
                        then (dd_op_id d, dd_vtcm_requirement d) else (i, sz)) (0, 0) ds"

definition sanity_check :: "graph_deps \<Rightarrow> bool \<times> graph_deps" where
  "sanity_check deps =
     (if gd_ordering_state deps \<noteq> 2 then (False, deps)
      else if list_ex (\<lambda>mg. mg_gen_op_id mg \<noteq> 0 \<and> find_opdesc deps (mg_gen_op_id mg) = None) (gd_memgroups deps)
      then (False, deps)
      else (True, deps\<lparr>gd_peak_tcm_use := snd (tcm_sums (gd_opdescs deps) (gd_runlist deps)),
                       gd_largest_tcm_op_id := fst (largest_tcm (gd_opdescs deps)),
                       gd_largest_tcm_op_size := snd (largest_tcm (gd_opdescs deps))\<rparr>))"

definition runlist_of :: "graph_deps \<Rightarrow> op_id list \<Rightarrow> op_id list" where
  "runlist_of deps topo =
     map snd (sort_key fst
       (List.map_filter (\<lambda>i. map_option (\<lambda>d. (dd_distance d, i)) (find_opdesc deps i)) topo))"

definition build_runlist :: "op_id list \<Rightarrow> graph_deps \<Rightarrow> (bool \<times> graph_deps) option" where
  "build_runlist topo deps =
     (let d0 = deps\<lparr>gd_runlist := [], gd_runlist_count := 0\<rparr>;
          d3 = remove_unused_ops (populate_groups_in_opdesc (prepare_group_entries topo d0))
      in case rebuild_hash_bucket d3 of
           None \<Rightarrow> None
         | Some d4 \<Rightarrow>
             let (ok, d6) = set_distances_from_constraints (remove_unused_ops_checked d4)
             in if \<not> ok \<or> topo = [] then Some (False, d6)
                else let rl = runlist_of d6 topo;
                         (sane, d8) = sanity_check (d6\<lparr>gd_runlist := rl, gd_runlist_count := length rl\<rparr>)
                     in Some (sane \<and> rl \<noteq> [], d8))"

section \<open>The whole construction\<close>

definition op_active :: "op_def option \<Rightarrow> bool" where
  "op_active o1 = (case o1 of None \<Rightarrow> False | Some od \<Rightarrow> is_enabled od \<and> \<not> is_dead od)"

fun register_ops :: "op_def option list \<Rightarrow> graph_deps \<Rightarrow> graph_deps option" where
  "register_ops [] deps = Some deps"
| "register_ops (o1 # os) deps =
     (if op_active o1
      then case add_op (opd_op_id (the o1)) (the o1) deps of None \<Rightarrow> None | Some deps' \<Rightarrow> register_ops os deps'
      else register_ops os deps)"

definition estimate_desc :: "dep_op_desc \<Rightarrow> dep_op_desc" where
  "estimate_desc d =
     (case dd_opdef d of
        None \<Rightarrow> d
      | Some od \<Rightarrow> d\<lparr>dd_vtcm_requirement := out_bytes (opd_output_def od),
                      dd_ddr_requirement := out_bytes (opd_output_def od) div 5\<rparr>)"

definition build_graph_deps :: "op_def option list \<Rightarrow> op_id list \<Rightarrow> (bool \<times> graph_deps) option" where
  "build_graph_deps sorted_ops topo =
     (case register_ops sorted_ops deps_init of
        None \<Rightarrow> None
      | Some d1 \<Rightarrow>
          map_option (\<lambda>(ok, d2). (ok, d2\<lparr>gd_opdescs := map estimate_desc (gd_opdescs d2)\<rparr>))
            (build_runlist topo (compute_lifetimes topo (build_memgroups d1))))"


section \<open>Registration\<close>

definition start_desc :: "op_def \<Rightarrow> dep_op_desc" where
  "start_desc od = (fresh_desc (opd_op_id od))\<lparr>dd_opdef := Some od\<rparr>"

lemma start_desc_simps [simp]:
  "dd_op_id (start_desc od) = opd_op_id od" "dd_opdef (start_desc od) = Some od" "dd_flags (start_desc od) = 1"
  "dd_distance (start_desc od) = 0" "dd_output_memgroups (start_desc od) = []"
  by (simp_all add: start_desc_def fresh_desc_def empty_desc_def)

definition reg_map :: "op_def list \<Rightarrow> op_id \<rightharpoonup> dep_op_desc" where
  "reg_map acc i = map_option start_desc (List.find (\<lambda>od. opd_op_id od = i) acc)"

lemma find_append: "List.find P (xs @ ys) = (case List.find P xs of None \<Rightarrow> List.find P ys | Some x \<Rightarrow> Some x)"
  by (induction xs) auto

lemma reg_map_snoc_new:
  "reg_map acc i = None \<Longrightarrow> opd_op_id od = i \<Longrightarrow> reg_map (acc @ [od]) = (reg_map acc)(i \<mapsto> start_desc od)"
  by (rule ext) (auto simp: reg_map_def find_append split: option.splits)

lemma reg_map_snoc_old:
  "reg_map acc i \<noteq> None \<Longrightarrow> opd_op_id od = i \<Longrightarrow> reg_map (acc @ [od]) = reg_map acc"
  by (rule ext) (auto simp: reg_map_def find_append split: option.splits)

lemma reg_map_SomeD: "reg_map acc i = Some d \<Longrightarrow> \<exists>od \<in> set acc. d = start_desc od \<and> opd_op_id od = i"
  by (auto simp: reg_map_def find_Some_iff)

lemma reg_map_None: "reg_map acc i = None \<longleftrightarrow> i \<notin> opd_op_id ` set acc"
  by (auto simp: reg_map_def find_None_iff image_iff)

text \<open>
  After the operators \<open>acc\<close> have been added, the table holds the first operator of every id, and the
  list holds the same descriptors in order of registration.
\<close>

definition reg_inv :: "op_def list \<Rightarrow> graph_deps \<Rightarrow> bool" where
  "reg_inv acc deps \<longleftrightarrow>
     (\<exists>k. bucket_wf k (gd_hash deps)) \<and> blank_slots (gd_hash deps) \<and>
     bucket_map (gd_hash deps) = reg_map acc \<and>
     (\<exists>kept. gd_opdescs deps = map start_desc kept \<and> (distinct (map opd_op_id acc) \<longrightarrow> kept = acc))"

lemma card_reg_map: "card (dom (reg_map acc)) \<le> length acc"
proof -
  have "dom (reg_map acc) \<subseteq> opd_op_id ` set acc"
    by (auto dest!: reg_map_SomeD)
  then have "card (dom (reg_map acc)) \<le> card (opd_op_id ` set acc)" by (intro card_mono) auto
  also have "\<dots> \<le> card (set acc)" by (rule card_image_le) simp
  also have "\<dots> \<le> length acc" by (rule card_length)
  finally show ?thesis .
qed

lemma add_op_inv:
  assumes inv: "reg_inv acc deps" and few: "length acc < 2 ^ 28"
  shows "\<exists>deps'. add_op (opd_op_id od) od deps = Some deps' \<and> reg_inv (acc @ [od]) deps'"
proof -
  let ?i = "opd_op_id od"
  obtain k kept where wf: "bucket_wf k (gd_hash deps)" and bl: "blank_slots (gd_hash deps)"
    and m: "bucket_map (gd_hash deps) = reg_map acc"
    and kept: "gd_opdescs deps = map start_desc kept" "distinct (map opd_op_id acc) \<longrightarrow> kept = acc"
    using inv by (auto simp: reg_inv_def)
  have "card (dom (bucket_map (gd_hash deps))) < 2 ^ 28" using m card_reg_map [of acc] few by simp
  from bucket_insert_ok [OF wf bl this, of ?i] obtain k' j b'
    where ins: "bucket_insert (gd_hash deps) ?i = Some (j, b')" and b': "bucket_wf k' b'" "blank_slots b'"
    and mb: "bucket_map b' = (reg_map acc)(?i \<mapsto> (case reg_map acc ?i of None \<Rightarrow> fresh_desc ?i | Some s \<Rightarrow> s))"
    and sl: "ob_slots b' ! j = (case reg_map acc ?i of None \<Rightarrow> fresh_desc ?i | Some s \<Rightarrow> s)"
    and st: "\<And>s. dd_flags s = 1 \<Longrightarrow> dd_op_id s = ?i \<Longrightarrow> bucket_wf k' (b'\<lparr>ob_slots := (ob_slots b')[j := s]\<rparr>) \<and>
       blank_slots (b'\<lparr>ob_slots := (ob_slots b')[j := s]\<rparr>) \<and>
       bucket_map (b'\<lparr>ob_slots := (ob_slots b')[j := s]\<rparr>) = (reg_map acc)(?i \<mapsto> s)"
    unfolding m by metis
  show ?thesis
  proof (cases "reg_map acc ?i")
    case None
    let ?b = "b'\<lparr>ob_slots := (ob_slots b')[j := start_desc od]\<rparr>"
    have d: "(fresh_desc ?i)\<lparr>dd_opdef := Some od, dd_op_id := ?i, dd_flags := 1\<rparr> = start_desc od"
      by (simp add: start_desc_def fresh_desc_def)
    have "add_op ?i od deps = Some (deps\<lparr>gd_hash := ?b, gd_opdescs := gd_opdescs deps @ [start_desc od]\<rparr>)"
      using None sl d by (simp add: add_op_def ins Let_def) (simp add: fresh_desc_def empty_desc_def)
    moreover have "reg_inv (acc @ [od]) (deps\<lparr>gd_hash := ?b, gd_opdescs := gd_opdescs deps @ [start_desc od]\<rparr>)"
    proof -
      have "map start_desc kept @ [start_desc od] = map start_desc (kept @ [od])" by simp
      then show ?thesis
        unfolding reg_inv_def using st [of "start_desc od"] reg_map_snoc_new [OF None refl] kept
        by (auto intro!: exI [of _ "kept @ [od]"])
    qed
    ultimately show ?thesis by blast
  next
    case (Some s)
    then obtain od' where od': "s = start_desc od'" by (auto dest: reg_map_SomeD)
    have "add_op ?i od deps = Some (deps\<lparr>gd_hash := b'\<rparr>)"
      using Some sl od' by (simp add: add_op_def ins Let_def)
    moreover have "bucket_map b' = reg_map (acc @ [od])"
      using mb Some reg_map_snoc_old [of acc ?i od] by (auto simp: fun_upd_idem)
    moreover have "\<not> distinct (map opd_op_id (acc @ [od]))" using Some reg_map_None [of acc ?i] by auto
    ultimately show ?thesis using b' kept by (auto simp: reg_inv_def)
  qed
qed

lemma register_ops_inv:
  assumes "reg_inv acc deps" "length acc + length os < 2 ^ 28"
  shows "\<exists>deps'. register_ops os deps = Some deps' \<and> reg_inv (acc @ map the (filter op_active os)) deps'"
  using assms
proof (induction os arbitrary: acc deps)
  case (Cons o1 os)
  show ?case
  proof (cases "op_active o1")
    case True
    obtain deps' where d: "add_op (opd_op_id (the o1)) (the o1) deps = Some deps'" "reg_inv (acc @ [the o1]) deps'"
      using add_op_inv [OF Cons.prems(1)] Cons.prems(2) by force
    with Cons.IH [OF d(2)] True Cons.prems(2) show ?thesis by simp
  qed (use Cons in simp)
qed simp

lemma reg_inv_init: "reg_inv [] deps_init"
proof -
  obtain k where "bucket_wf k (bucket_init 64)" "blank_slots (bucket_init 64)"
    "bucket_map (bucket_init 64) = Map.empty" by (rule bucket_init_ok [of 64]) auto
  then show ?thesis by (auto simp: reg_inv_def deps_init_def reg_map_def fun_eq_iff)
qed

lemma find_opdesc_map:
  "bucket_wf k (gd_hash deps) \<Longrightarrow> find_opdesc deps i = bucket_map (gd_hash deps) i"
  by (simp add: find_opdesc_def bucket_lookup_map)

section \<open>What the passes leave alone\<close>

text \<open>The passes after the lifetimes keep ids, operators and lives of the list, and do not write the table.\<close>

definition life_view :: "dep_op_desc \<Rightarrow> op_id \<times> op_def option \<times> nat \<times> nat" where
  "life_view d = (dd_op_id d, dd_opdef d, dd_life_begin d, dd_life_end d)"

named_theorems pass_frame "what the passes over the descriptors keep"

lemma life_view_upd [simp]:
  "life_view (d\<lparr>dd_flags := f\<rparr>) = life_view d" "life_view (d\<lparr>dd_output_memgroups := g\<rparr>) = life_view d"
  "life_view (d\<lparr>dd_input_memgroups := h\<rparr>) = life_view d" "life_view (d\<lparr>dd_distance := x\<rparr>) = life_view d"
  "life_view (d\<lparr>dd_predecessor := q\<rparr>) = life_view d" "life_view (d\<lparr>dd_vtcm_requirement := v\<rparr>) = life_view d"
  "life_view (d\<lparr>dd_ddr_requirement := w\<rparr>) = life_view d"
  by (simp_all add: life_view_def)

lemma views_update: "life_view x = life_view (ds ! j) \<Longrightarrow> map life_view (ds[j := x]) = map life_view ds"
  by (rule map_update_entry)

lemma group_fold_view: "map life_view (fst (fold (group_step idx) is s)) = map life_view (fst s)"
proof (induction "is" arbitrary: s)
  case (Cons i "is")
  have "map life_view (fst (group_step idx i s)) = map life_view (fst s)"
    by (auto simp: group_step_def Let_def views_update split: option.splits prod.splits)
  with Cons show ?case by simp
qed simp

lemma prepare_frame [pass_frame]:
  "gd_hash (prepare_group_entries topo deps) = gd_hash deps"
  "gd_memgroups (prepare_group_entries topo deps) = gd_memgroups deps"
  "gd_runlist (prepare_group_entries topo deps) = gd_runlist deps"
  "map life_view (gd_opdescs (prepare_group_entries topo deps)) = map life_view (gd_opdescs deps)"
proof -
  have m: "map life_view (map mark_desc ds) = map life_view ds" for ds
    by (induction ds) (auto simp: mark_desc_def)
  show "gd_hash (prepare_group_entries topo deps) = gd_hash deps"
    "gd_memgroups (prepare_group_entries topo deps) = gd_memgroups deps"
    "gd_runlist (prepare_group_entries topo deps) = gd_runlist deps"
    by (auto simp: prepare_group_entries_def Let_def split: prod.splits)
  show "map life_view (gd_opdescs (prepare_group_entries topo deps)) = map life_view (gd_opdescs deps)"
    using group_fold_view [of "desc_idx (map mark_desc (gd_opdescs deps))" topo "(map mark_desc (gd_opdescs deps), [])"]
      m [of "gd_opdescs deps"]
    by (auto simp: prepare_group_entries_def Let_def split: prod.splits)
qed

lemma populate_frame [pass_frame]:
  "gd_hash (populate_groups_in_opdesc deps) = gd_hash deps"
  "gd_memgroups (populate_groups_in_opdesc deps) = gd_memgroups deps"
  "gd_runlist (populate_groups_in_opdesc deps) = gd_runlist deps"
  "map life_view (gd_opdescs (populate_groups_in_opdesc deps)) = map life_view (gd_opdescs deps)"
  by (auto simp: populate_groups_in_opdesc_def populate_desc_def split: option.splits)

lemma remove_loop_frame:
  "map life_view (fst (remove_loop ds mgs)) = map life_view ds"
  "map mg_gen_op_id (snd (remove_loop ds mgs)) = map mg_gen_op_id mgs"
proof -
  have drop: "map mg_gen_op_id (fold (drop_consumer i) gs ms) = map mg_gen_op_id ms" for i gs ms
    by (induction gs arbitrary: ms) (auto simp: drop_consumer_def map_update_entry)
  show "map life_view (fst (remove_loop ds mgs)) = map life_view ds"
    by (induction ds mgs rule: remove_loop.induct) (auto simp: Let_def retire_desc_def split: prod.splits)
  show "map mg_gen_op_id (snd (remove_loop ds mgs)) = map mg_gen_op_id mgs"
    by (induction ds mgs rule: remove_loop.induct) (auto simp: Let_def drop split: prod.splits)
qed

lemma remove_frame [pass_frame]:
  "gd_hash (remove_unused_ops deps) = gd_hash deps"
  "gd_runlist (remove_unused_ops deps) = gd_runlist deps"
  "map mg_gen_op_id (gd_memgroups (remove_unused_ops deps)) = map mg_gen_op_id (gd_memgroups deps)"
  "map life_view (gd_opdescs (remove_unused_ops deps)) = map life_view (gd_opdescs deps)"
  using remove_loop_frame [of "gd_opdescs deps" "gd_memgroups deps"]
  by (auto simp: remove_unused_ops_def split: prod.splits)

lemma remove_checked_id: "remove_unused_ops_checked deps = deps"
proof -
  have "map (remove_checked_desc deps) ds = ds" for ds
    by (rule map_idI) (auto simp: remove_checked_desc_def)
  then show ?thesis by (simp add: remove_unused_ops_checked_def)
qed

lemma dist_step_view: "map life_view (fst (snd (dist_step i s))) = map life_view (fst (snd s))"
  by (auto simp: dist_step_def Let_def views_update split: prod.splits)

lemma dist_fold_view: "map life_view (fst (snd (fold dist_step is s))) = map life_view (fst (snd s))"
  by (induction "is" arbitrary: s) (auto simp: dist_step_view)

lemma dist_loop_view: "map life_view (fst (snd (dist_loop n s))) = map life_view (fst s)"
proof (induction n arbitrary: s)
  case (Suc n)
  have "map life_view (fst (snd (dist_pass s))) = map life_view (fst s)"
    by (simp add: dist_pass_def dist_fold_view)
  with Suc show ?case by (auto simp: Let_def split: prod.splits)
qed simp

lemma dist_start_view:
  "map life_view (map (dist_start idx) (zip [0..<length ds] ds)) = map life_view ds"
  by (rule nth_equalityI) (auto simp: dist_start_def split: option.splits)

lemma distances_frame [pass_frame]:
  "gd_hash (snd (set_distances_from_constraints deps)) = gd_hash deps"
  "gd_memgroups (snd (set_distances_from_constraints deps)) = gd_memgroups deps"
  "gd_runlist (snd (set_distances_from_constraints deps)) = gd_runlist deps"
  "map life_view (gd_opdescs (snd (set_distances_from_constraints deps))) = map life_view (gd_opdescs deps)"
proof -
  show "gd_hash (snd (set_distances_from_constraints deps)) = gd_hash deps"
    "gd_memgroups (snd (set_distances_from_constraints deps)) = gd_memgroups deps"
    "gd_runlist (snd (set_distances_from_constraints deps)) = gd_runlist deps"
    by (auto simp: set_distances_from_constraints_def Let_def split: prod.splits)
  let ?n = "length (gd_opdescs deps)"
  let ?ds = "map (dist_start (desc_idx (gd_opdescs deps))) (zip [0..<?n] (gd_opdescs deps))"
  let ?mx = "foldl max 0 (filter (\<lambda>i. dd_opdef (gd_opdescs deps ! i) \<noteq> None) [0..<?n])"
  obtain ch ds' mx' where r: "dist_loop (?n * 4 + 16) (?ds, ?mx) = (ch, ds', mx')" by (metis prod_cases3)
  have "map life_view ds' = map life_view (gd_opdescs deps)"
    using dist_loop_view [of "?n * 4 + 16" "(?ds, ?mx)"] dist_start_view unfolding r by simp
  then show "map life_view (gd_opdescs (snd (set_distances_from_constraints deps))) = map life_view (gd_opdescs deps)"
    unfolding set_distances_from_constraints_def Let_def r by simp
qed


section \<open>Distances propagate to a fixed point\<close>

definition dist_ok :: "dep_op_desc list \<Rightarrow> nat \<Rightarrow> bool" where
  "dist_ok ds i \<longleftrightarrow>
     (let d = ds ! i; p = dd_predecessor d - 1
      in dd_opdef d \<noteq> None \<and> dd_predecessor d \<noteq> 0 \<and> p < length ds \<and> dd_opdef (ds ! p) \<noteq> None \<longrightarrow>
         dd_distance (ds ! p) < dd_distance d)"

lemma dist_step_cases:
  "dist_ok ds i \<Longrightarrow> dist_step i (ch, ds, mx) = (ch, ds, mx)"
  "\<not> dist_ok ds i \<Longrightarrow> fst (dist_step i (ch, ds, mx))"
  by (auto simp: dist_step_def dist_ok_def Let_def)

lemma dist_fold_True: "fst (fold dist_step is (True, s))"
proof (induction "is" arbitrary: s)
  case (Cons i "is")
  obtain ds mx where s: "s = (ds, mx)" by fastforce
  have "fst (dist_step i (True, s))" by (auto simp: s dist_step_def Let_def)
  with Cons [of "snd (dist_step i (True, s))"] show ?case by (cases "dist_step i (True, s)") auto
qed simp

lemma dist_fold_False:
  "fold dist_step is (False, ds, mx) = (False, s') \<longleftrightarrow> s' = (ds, mx) \<and> (\<forall>i \<in> set is. dist_ok ds i)"
proof (induction "is")
  case (Cons i "is")
  show ?case
  proof (cases "dist_ok ds i")
    case True
    with Cons show ?thesis by (simp add: dist_step_cases(1))
  next
    case False
    obtain ch s1 where d: "dist_step i (False, ds, mx) = (ch, s1)" by (metis surj_pair)
    with dist_step_cases(2) [OF False, of False mx] have "ch" by simp
    with d dist_fold_True [of "is" s1] False show ?thesis by auto
  qed
qed auto

lemma dist_loop_False:
  "dist_loop n s = (False, s') \<Longrightarrow> \<forall>i < length (fst s'). dist_ok (fst s') i"
proof (induction n arbitrary: s)
  case (Suc n)
  obtain ch s1 where p: "dist_pass s = (ch, s1)" by (metis surj_pair)
  show ?case
  proof (cases ch)
    case True
    with Suc p show ?thesis by simp
  next
    case False
    with p Suc.prems have "s' = s1" by simp
    moreover have "s1 = s \<and> (\<forall>i < length (fst s). dist_ok (fst s) i)"
      using p False dist_fold_False [of "[0..<length (fst s)]" "fst s" "snd s" s1] by (simp add: dist_pass_def)
    ultimately show ?thesis by simp
  qed
qed simp

lemma dist_pass_stable:
  "\<forall>i < length ds. dist_ok ds i \<Longrightarrow> dist_pass (ds, mx) = (False, ds, mx)"
  using dist_fold_False [of "[0..<length ds]" ds mx "(ds, mx)"] by (simp add: dist_pass_def)

lemma dist_loop_stable: "dist_pass s = (False, s) \<Longrightarrow> dist_loop (m + 16) s = (False, s)"
proof -
  assume p: "dist_pass s = (False, s)"
  have "dist_loop (Suc (m + 15)) s = (False, s)" unfolding dist_loop.simps p by simp
  moreover have "Suc (m + 15) = m + 16" by simp
  ultimately show ?thesis by (simp only:)
qed

lemma dist_start_ok:
  assumes "\<forall>i < length ds. \<forall>od c cs p. dd_opdef (ds ! i) = Some od \<and> opd_inputs od = c # cs \<and>
      desc_idx ds (src_id c) = Some p \<longrightarrow> p < i" and "i < length ds"
  shows "dist_ok (map (dist_start (desc_idx ds)) (zip [0..<length ds] ds)) i" (is "dist_ok ?ds i")
proof -
  have nth: "?ds ! j = dist_start (desc_idx ds) (j, ds ! j)" if "j < length ds" for j using that by simp
  have same: "dd_opdef (?ds ! j) = dd_opdef (ds ! j)" if "j < length ds" for j
    unfolding nth [OF that] by (simp add: dist_start_def split: option.splits)
  have dist: "dd_distance (?ds ! j) = j" if "j < length ds" "dd_opdef (ds ! j) \<noteq> None" for j
    unfolding nth [OF that(1)] using that(2) by (auto simp: dist_start_def)
  have pre: "dd_predecessor (?ds ! i) - 1 < i" if "dd_opdef (ds ! i) \<noteq> None" "dd_predecessor (?ds ! i) \<noteq> 0"
    using that assms unfolding nth [OF assms(2)]
    by (auto simp: dist_start_def split: list.splits option.splits)
  have len: "length ?ds = length ds" by simp
  have "dd_distance (?ds ! (dd_predecessor (?ds ! i) - 1)) < dd_distance (?ds ! i)"
    if a: "dd_opdef (?ds ! i) \<noteq> None" "dd_predecessor (?ds ! i) \<noteq> 0"
      "dd_opdef (?ds ! (dd_predecessor (?ds ! i) - 1)) \<noteq> None"
  proof -
    define p where "p = dd_predecessor (?ds ! i) - 1"
    have p: "p < i" unfolding p_def by (rule pre) (use a same [OF assms(2)] in simp_all)
    then have pl: "p < length ds" using assms(2) by simp
    have "dd_opdef (ds ! p) \<noteq> None"
      using a(3) same [OF pl] unfolding p_def [symmetric] by (metis (no_types))
    then have "dd_distance (?ds ! p) = p" by (rule dist [OF pl])
    moreover have "dd_distance (?ds ! i) = i" by (rule dist [OF assms(2)]) (use a(1) same [OF assms(2)] in simp)
    ultimately show ?thesis using p unfolding p_def [symmetric] by (simp only:)
  qed
  then show ?thesis unfolding dist_ok_def Let_def by blast
qed


section \<open>The run list\<close>

lemma sanity_frame [pass_frame]:
  "gd_hash (snd (sanity_check deps)) = gd_hash deps" "gd_runlist (snd (sanity_check deps)) = gd_runlist deps"
  "gd_opdescs (snd (sanity_check deps)) = gd_opdescs deps"
  by (auto simp: sanity_check_def)

lemma length_occupied_card:
  assumes "bucket_wf k b"
  shows "length (filter desc_occ (ob_slots b)) = card (dom (bucket_map b))"
proof -
  have "dom (bucket_map b) = set (map dd_op_id (filter desc_occ (ob_slots b)))"
    using bucket_map_iff [OF assms] by (auto simp: dom_def image_iff)
  then show ?thesis using distinct_card [OF distinct_occupied [OF assms]] by simp
qed

lemma rebuild_ok:
  assumes wf: "bucket_wf k (gd_hash deps)" and few: "card (dom (bucket_map (gd_hash deps))) < 2 ^ 28"
  shows "\<exists>b k'. rebuild_hash_bucket deps = Some (deps\<lparr>gd_hash := b\<rparr>) \<and> bucket_wf k' b \<and>
    bucket_map b = bucket_map (gd_hash deps)"
proof -
  have ne: "ob_slots (gd_hash deps) \<noteq> []" using wf ot.ok_length by (fastforce simp: bucket_wf_def)
  have v: "(\<lambda>d. dd_flags d = 1 \<and> dd_flags d AND 8 = 0) = desc_occ"
    by (rule ext) (auto simp: desc_occ_def)
  have ins: "bucket_insert = bucket_insert_d 1" by (rule ext)+ (simp add: bucket_insert_def)
  let ?v = "filter desc_occ (ob_slots (gd_hash deps))"
  obtain b k' where b: "store_all (bucket_insert_d 1) ?v (bucket_init (length ?v)) = Some b" "bucket_wf k' b"
    "bucket_map b = bucket_map (gd_hash deps)"
    using bucket_rebuild_ok [OF wf, of "length ?v" 1] length_occupied_card [OF wf] few by auto
  have "rebuild_hash_bucket deps = Some (deps\<lparr>gd_hash := b\<rparr>)"
    using ne b(1) unfolding rebuild_hash_bucket_def v ins Let_def by simp
  with b(2,3) show ?thesis by blast
qed

lemma runlist_of_cong: "gd_hash d = gd_hash e \<Longrightarrow> runlist_of d topo = runlist_of e topo"
  by (simp add: runlist_of_def find_opdesc_def)

lemma runlist_of_nonempty: "i \<in> set topo \<Longrightarrow> find_opdesc deps i \<noteq> None \<Longrightarrow> runlist_of deps topo \<noteq> []"
  by (auto simp: runlist_of_def List.map_filter_def filter_empty_conv dest: arg_cong [of _ "[]" length])

text \<open>
  What makes the stages succeed: operators are registered after their first inputs, the generators
  of the memory groups are registered, and the order names some registered operator.
\<close>

definition preds_first :: "op_def list \<Rightarrow> bool" where
  "preds_first ods \<longleftrightarrow> (\<forall>i < length ods. \<forall>c cs p. opd_inputs (ods ! i) = c # cs \<and> p < length ods \<and>
     opd_op_id (ods ! p) = src_id c \<longrightarrow> p < i)"

definition runnable :: "op_id list \<Rightarrow> graph_deps \<Rightarrow> bool" where
  "runnable topo deps \<longleftrightarrow>
     (\<exists>ods. map (\<lambda>d. (dd_op_id d, dd_opdef d)) (gd_opdescs deps) = map (\<lambda>od. (opd_op_id od, Some od)) ods \<and>
        preds_first ods \<and> ods \<noteq> [] \<and>
        (\<forall>mg \<in> set (gd_memgroups deps). bucket_map (gd_hash deps) (mg_gen_op_id mg) \<noteq> None) \<and>
        (\<exists>i \<in> set topo. bucket_map (gd_hash deps) i \<noteq> None))"

lemma desc_idx_ops:
  assumes "map dd_op_id ds = map opd_op_id ods" "desc_idx ds i = Some p"
  shows "p < length ods \<and> opd_op_id (ods ! p) = i"
proof -
  have len: "length ds = length ods" using assms(1) by (metis length_map)
  have "(i, p) \<in> set (zip (map opd_op_id ods) [0..<length ods])"
    using map_of_SomeD [OF assms(2) [unfolded desc_idx_def]] unfolding assms(1) len by simp
  then show ?thesis by (auto simp: set_zip)
qed

lemma set_distances_ok:
  assumes "map (\<lambda>d. (dd_op_id d, dd_opdef d)) (gd_opdescs deps) = map (\<lambda>od. (opd_op_id od, Some od)) ods"
    "preds_first ods" "ods \<noteq> []"
  shows "\<exists>deps'. set_distances_from_constraints deps = (True, deps') \<and> gd_ordering_state deps' = 2"
proof -
  let ?ds = "gd_opdescs deps"
  have len: "length ?ds = length ods" using assms(1) by (metis length_map)
  have v: "dd_op_id (?ds ! i) = opd_op_id (ods ! i)" "dd_opdef (?ds ! i) = Some (ods ! i)" if "i < length ods" for i
    using arg_cong [OF assms(1), of "\<lambda>l. l ! i"] that len by simp_all
  have ids: "map dd_op_id ?ds = map opd_op_id ods" by (rule nth_equalityI) (use v len in auto)
  have "\<forall>i < length ?ds. \<forall>od c cs p. dd_opdef (?ds ! i) = Some od \<and> opd_inputs od = c # cs \<and>
      desc_idx ?ds (src_id c) = Some p \<longrightarrow> p < i"
    using assms(2) desc_idx_ops [OF ids] v unfolding preds_first_def len by (metis option.inject)
  note st = dist_start_ok [OF this]
  let ?ss = "map (dist_start (desc_idx ?ds)) (zip [0..<length ?ds] ?ds)"
  let ?mx = "foldl max 0 (filter (\<lambda>i. dd_opdef (?ds ! i) \<noteq> None) [0..<length ?ds])"
  have "dist_pass (?ss, ?mx) = (False, ?ss, ?mx)" by (rule dist_pass_stable) (use st in simp)
  then have l: "dist_loop (length ?ds * 4 + 16) (?ss, ?mx) = (False, ?ss, ?mx)" by (rule dist_loop_stable)
  have "?ds \<noteq> []" using len assms(3) by auto
  then show ?thesis unfolding set_distances_from_constraints_def Let_def l by simp
qed

lemma build_runlist_ok:
  assumes wf: "bucket_wf k (gd_hash deps)" and few: "card (dom (bucket_map (gd_hash deps))) < 2 ^ 28"
  shows "\<exists>ok d' k'. build_runlist topo deps = Some (ok, d') \<and> bucket_wf k' (gd_hash d') \<and>
    bucket_map (gd_hash d') = bucket_map (gd_hash deps) \<and>
    map life_view (gd_opdescs d') = map life_view (gd_opdescs deps) \<and>
    (ok \<longrightarrow> gd_runlist d' = runlist_of d' topo) \<and>
    (runnable topo deps \<longrightarrow> ok)"
proof -
  define d3 where "d3 = remove_unused_ops (populate_groups_in_opdesc (prepare_group_entries topo
      (deps\<lparr>gd_runlist := [], gd_runlist_count := 0\<rparr>)))"
  have h3: "gd_hash d3 = gd_hash deps" "map life_view (gd_opdescs d3) = map life_view (gd_opdescs deps)"
    by (simp_all add: d3_def pass_frame)
  have m3: "map mg_gen_op_id (gd_memgroups d3) = map mg_gen_op_id (gd_memgroups deps)"
    by (simp add: d3_def pass_frame)
  obtain b k' where r: "rebuild_hash_bucket d3 = Some (d3\<lparr>gd_hash := b\<rparr>)" and b: "bucket_wf k' b"
    "bucket_map b = bucket_map (gd_hash deps)"
    using rebuild_ok [of k d3] wf few h3 by auto
  obtain ok d6 where s: "set_distances_from_constraints (d3\<lparr>gd_hash := b\<rparr>) = (ok, d6)" by fastforce
  have h6: "gd_hash d6 = b" "map life_view (gd_opdescs d6) = map life_view (gd_opdescs deps)"
    using distances_frame [of "d3\<lparr>gd_hash := b\<rparr>"] h3 s by simp_all
  define rl where "rl = runlist_of d6 topo"
  obtain sane d8 where c: "sanity_check (d6\<lparr>gd_runlist := rl, gd_runlist_count := length rl\<rparr>) = (sane, d8)"
    by fastforce
  have h8: "gd_hash d8 = b" "gd_opdescs d8 = gd_opdescs d6" "gd_runlist d8 = rl"
    using sanity_frame [of "d6\<lparr>gd_runlist := rl, gd_runlist_count := length rl\<rparr>"] h6 c by simp_all
  have br: "build_runlist topo deps = (if \<not> ok \<or> topo = [] then Some (False, d6) else Some (sane \<and> rl \<noteq> [], d8))"
    unfolding build_runlist_def d3_def [symmetric] Let_def r remove_checked_id option.case s prod.case
      rl_def [symmetric] c by simp
  have success: "ok \<and> topo \<noteq> [] \<and> sane \<and> rl \<noteq> []" if run: "runnable topo deps"
  proof -
    obtain ods where ods: "map (\<lambda>d. (dd_op_id d, dd_opdef d)) (gd_opdescs deps) = map (\<lambda>od. (opd_op_id od, Some od)) ods"
      "preds_first ods" "ods \<noteq> []" and mgs: "\<forall>mg \<in> set (gd_memgroups deps). bucket_map b (mg_gen_op_id mg) \<noteq> None"
      and ex: "\<exists>i \<in> set topo. bucket_map b i \<noteq> None"
      using run b(2) unfolding runnable_def by auto
    have pr: "map (\<lambda>d. (dd_op_id d, dd_opdef d)) ds = map (\<lambda>(i, o1, r). (i, o1)) (map life_view ds)" for ds
      by (simp add: life_view_def o_def)
    have "map (\<lambda>d. (dd_op_id d, dd_opdef d)) (gd_opdescs (d3\<lparr>gd_hash := b\<rparr>)) = map (\<lambda>od. (opd_op_id od, Some od)) ods"
      using ods(1) h3(2) unfolding pr by simp
    from set_distances_ok [OF this ods(2,3)] s have k: "ok" "gd_ordering_state d6 = 2" by simp_all
    have "map mg_gen_op_id (gd_memgroups d6) = map mg_gen_op_id (gd_memgroups deps)"
      using distances_frame(2) [of "d3\<lparr>gd_hash := b\<rparr>"] s m3 by simp
    from arg_cong [OF this, of set]
    have gens: "mg_gen_op_id ` set (gd_memgroups d6) = mg_gen_op_id ` set (gd_memgroups deps)"
      by simp
    have mg6: "bucket_map b (mg_gen_op_id mg) \<noteq> None" if mem: "mg \<in> set (gd_memgroups d6)" for mg
    proof -
      obtain mg' where "mg' \<in> set (gd_memgroups deps)" "mg_gen_op_id mg = mg_gen_op_id mg'"
        using imageI [OF mem, of mg_gen_op_id] unfolding gens by (elim imageE)
      with mgs show ?thesis by simp
    qed
    have fd: "find_opdesc (d6\<lparr>gd_runlist := rl, gd_runlist_count := length rl\<rparr>) i = bucket_map b i" for i
      using find_opdesc_map b(1) h6(1) by simp
    have "\<not> list_ex (\<lambda>mg. mg_gen_op_id mg \<noteq> 0 \<and>
        find_opdesc (d6\<lparr>gd_runlist := rl, gd_runlist_count := length rl\<rparr>) (mg_gen_op_id mg) = None) (gd_memgroups d6)"
      unfolding fd list_ex_iff using mg6 by blast
    then have "sane" using c k(2) by (simp add: sanity_check_def)
    moreover have "find_opdesc d6 i = bucket_map b i" for i using find_opdesc_map b(1) h6(1) by simp
    then have "rl \<noteq> []" using runlist_of_nonempty ex unfolding rl_def by auto
    ultimately show ?thesis using k(1) ex by auto
  qed
  show ?thesis
  proof (cases "\<not> ok \<or> topo = []")
    case True
    with br success show ?thesis using b h6 by (intro exI [of _ False] exI [of _ d6] exI [of _ k']) auto
  next
    case False
    with br success show ?thesis using b h6 h8 runlist_of_cong [of d8 d6 topo, folded rl_def]
      by (intro exI [of _ "sane \<and> rl \<noteq> []"] exI [of _ d8] exI [of _ k']) simp
  qed
qed

lemma memgroup_loop_view: "map life_view (fst (memgroup_loop ds mgs)) = map life_view ds"
  by (induction ds mgs rule: memgroup_loop.induct)
    (auto simp: memgroup_step_def Let_def split: option.splits prod.splits)

lemma build_memgroups_frame [pass_frame]:
  "gd_hash (build_memgroups deps) = gd_hash deps"
  "map life_view (gd_opdescs (build_memgroups deps)) = map life_view (gd_opdescs deps)"
  using memgroup_loop_view [of "gd_opdescs deps" "[]"]
  by (auto simp: build_memgroups_def split: prod.splits)

lemma compute_lifetimes_frame [pass_frame]: "gd_hash (compute_lifetimes topo deps) = gd_hash deps"
  by (simp add: compute_lifetimes_def Let_def)

definition planned_life :: "op_id list \<Rightarrow> op_def \<Rightarrow> nat \<times> nat" where
  "planned_life topo od =
     (let fu = (case topo_idx topo (opd_op_id od) of Some p \<Rightarrow> p | None \<Rightarrow> 0)
      in (fu, foldl (last_use_step topo) fu (opd_consumers od)))"

lemma compute_lifetimes_view:
  assumes "topo \<noteq> []" and "map life_view (gd_opdescs deps) = map life_view (map start_desc kept)"
  shows "map life_view (gd_opdescs (compute_lifetimes topo deps)) =
    map (\<lambda>od. (opd_op_id od, Some od, planned_life topo od)) kept"
proof -
  have len: "length (gd_opdescs deps) = length kept" using assms(2) by (metis length_map)
  have v: "life_view (gd_opdescs deps ! i) = life_view (start_desc (kept ! i))" if "i < length kept" for i
    using arg_cong [OF assms(2), of "\<lambda>l. l ! i"] that len by simp
  show ?thesis
  proof (rule nth_equalityI)
    fix i assume "i < length (map life_view (gd_opdescs (compute_lifetimes topo deps)))"
    then have i: "i < length kept" using assms(1) len by (simp add: compute_lifetimes_def Let_def)
    then have "dd_opdef (gd_opdescs deps ! i) = Some (kept ! i)" "dd_op_id (gd_opdescs deps ! i) = opd_op_id (kept ! i)"
      using v [OF i] by (simp_all add: life_view_def)
    with i assms(1) len show "map life_view (gd_opdescs (compute_lifetimes topo deps)) ! i =
        map (\<lambda>od. (opd_op_id od, Some od, planned_life topo od)) kept ! i"
      by (simp add: compute_lifetimes_def Let_def life_step_def life_view_def planned_life_def)
  qed (use assms(1) len in \<open>simp add: compute_lifetimes_def Let_def\<close>)
qed

lemma estimate_view: "map life_view (map estimate_desc ds) = map life_view ds"
  by (induction ds) (auto simp: estimate_desc_def split: option.splits)

section \<open>The construction as a whole\<close>

definition schedulable :: "op_def option list \<Rightarrow> op_id list \<Rightarrow> bool" where
  "schedulable sorted_ops topo \<longleftrightarrow>
     (let ods = map the (filter op_active sorted_ops)
      in preds_first ods \<and> (\<exists>i \<in> set topo. i \<in> opd_op_id ` set ods))"

lemma memgroup_gens: "set (map mg_gen_op_id (snd (memgroup_loop ds mgs))) \<subseteq> set (map mg_gen_op_id mgs) \<union> dd_op_id ` set ds"
proof (induction ds mgs rule: memgroup_loop.induct)
  case (2 d ds mgs)
  obtain d' mgs' where s: "memgroup_step d mgs = (d', mgs')" by fastforce
  have "set (map mg_gen_op_id mgs') \<subseteq> set (map mg_gen_op_id mgs) \<union> {dd_op_id d}"
    using s by (auto simp: memgroup_step_def split: option.splits)
  moreover have "snd (memgroup_loop (d # ds) mgs) = snd (memgroup_loop ds mgs')"
    using s by (simp split: prod.splits)
  ultimately show ?case
    using 2 [OF s [symmetric] refl] by (simp only: list.set(2) image_insert) blast
qed simp

lemma runnable_start:
  assumes d1: "gd_opdescs d1 = map start_desc ods" "bucket_map (gd_hash d1) = reg_map ods"
    and "preds_first ods" "\<exists>i \<in> set topo. i \<in> opd_op_id ` set ods"
  shows "runnable topo (compute_lifetimes topo (build_memgroups d1))"
proof -
  let ?d = "compute_lifetimes topo (build_memgroups d1)"
  have ne: "topo \<noteq> []" using assms(4) by auto
  have "map life_view (gd_opdescs ?d) = map (\<lambda>od. (opd_op_id od, Some od, planned_life topo od)) ods"
    by (rule compute_lifetimes_view [OF ne]) (simp only: build_memgroups_frame d1)
  then have "map (\<lambda>(i, o1, r). (i, o1)) (map life_view (gd_opdescs ?d)) =
      map (\<lambda>(i, o1, r). (i, o1)) (map (\<lambda>od. (opd_op_id od, Some od, planned_life topo od)) ods)" by (simp only:)
  then have v: "map (\<lambda>d. (dd_op_id d, dd_opdef d)) (gd_opdescs ?d) = map (\<lambda>od. (opd_op_id od, Some od)) ods"
    by (simp add: life_view_def o_def)
  have "gd_memgroups ?d = snd (memgroup_loop (map start_desc ods) [])"
    by (simp add: compute_lifetimes_def build_memgroups_def d1(1) Let_def split: prod.splits)
  then have "mg_gen_op_id mg \<in> opd_op_id ` set ods" if "mg \<in> set (gd_memgroups ?d)" for mg
    using that memgroup_gens [of "map start_desc ods" "[]"] by (auto simp: image_image)
  then show ?thesis
    unfolding runnable_def
    using v assms(3,4) reg_map_None [of ods] by (intro exI [of _ ods]) (auto simp: pass_frame d1(2))
qed

lemma build_graph_deps_ok:
  assumes "length sorted_ops < 2 ^ 28"
  shows "\<exists>ok deps k kept. build_graph_deps sorted_ops topo = Some (ok, deps) \<and> bucket_wf k (gd_hash deps) \<and>
    bucket_map (gd_hash deps) = reg_map (map the (filter op_active sorted_ops)) \<and>
    (topo \<noteq> [] \<longrightarrow> map life_view (gd_opdescs deps) =
       map (\<lambda>od. (opd_op_id od, Some od, planned_life topo od)) kept) \<and>
    (ok \<longrightarrow> gd_runlist deps = runlist_of deps topo) \<and>
    (distinct (map opd_op_id (map the (filter op_active sorted_ops))) \<longrightarrow>
       kept = map the (filter op_active sorted_ops) \<and> (schedulable sorted_ops topo \<longrightarrow> ok))"
proof -
  let ?ods = "map the (filter op_active sorted_ops)"
  obtain d1 where d1: "register_ops sorted_ops deps_init = Some d1" "reg_inv ?ods d1"
    using register_ops_inv [OF reg_inv_init, of sorted_ops] assms by auto
  then obtain k kept where wf: "bucket_wf k (gd_hash d1)" and m: "bucket_map (gd_hash d1) = reg_map ?ods"
    and kept: "gd_opdescs d1 = map start_desc kept" "distinct (map opd_op_id ?ods) \<longrightarrow> kept = ?ods"
    by (auto simp: reg_inv_def)
  define d2 where "d2 = compute_lifetimes topo (build_memgroups d1)"
  have h2: "gd_hash d2 = gd_hash d1" by (simp add: d2_def pass_frame)
  have "card (dom (reg_map ?ods)) \<le> length sorted_ops"
    by (metis card_reg_map le_trans length_filter_le length_map)
  then have few: "card (dom (bucket_map (gd_hash d2))) < 2 ^ 28" using assms by (simp add: h2 m)
  obtain ok d3 k' where r: "build_runlist topo d2 = Some (ok, d3)" and d3: "bucket_wf k' (gd_hash d3)"
    "bucket_map (gd_hash d3) = reg_map ?ods" "map life_view (gd_opdescs d3) = map life_view (gd_opdescs d2)"
    "ok \<longrightarrow> gd_runlist d3 = runlist_of d3 topo" "runnable topo d2 \<longrightarrow> ok"
    using build_runlist_ok [of k d2 topo] few wf m h2 by auto
  let ?d = "d3\<lparr>gd_opdescs := map estimate_desc (gd_opdescs d3)\<rparr>"
  have "build_graph_deps sorted_ops topo = Some (ok, ?d)"
    using r by (simp add: build_graph_deps_def d1(1) d2_def)
  moreover have "map life_view (gd_opdescs ?d) = map (\<lambda>od. (opd_op_id od, Some od, planned_life topo od)) kept"
    if "topo \<noteq> []"
  proof -
    have "map life_view (gd_opdescs (build_memgroups d1)) = map life_view (map start_desc kept)"
      by (simp only: build_memgroups_frame kept(1))
    from compute_lifetimes_view [OF that this] show ?thesis
      using d3(3) estimate_view [of "gd_opdescs d3"] unfolding d2_def by simp
  qed
  moreover have "runlist_of ?d topo = runlist_of d3 topo" by (rule runlist_of_cong) simp
  moreover have "ok" if "distinct (map opd_op_id ?ods)" "schedulable sorted_ops topo"
    using d3(5) runnable_start [of d1 ?ods topo] kept that m by (simp add: d2_def schedulable_def Let_def)
  ultimately show ?thesis using d3(1,2,4) kept(2)
    by (intro exI [of _ ok] exI [of _ ?d] exI [of _ k'] exI [of _ kept]) simp
qed


lemma runlist_of_reg:
  assumes "bucket_wf k (gd_hash deps)" "bucket_map (gd_hash deps) = reg_map ods"
  shows "runlist_of deps topo = filter (\<lambda>i. i \<in> opd_op_id ` set ods) topo"
proof -
  have f: "find_opdesc deps i = reg_map ods i" for i using assms by (simp add: find_opdesc_map)
  have z: "map_option (\<lambda>d. (dd_distance d, i)) (reg_map ods i) =
      (if i \<in> opd_op_id ` set ods then Some (0, i) else None)" for i
    using reg_map_None [of ods i] by (cases "reg_map ods i") (auto dest!: reg_map_SomeD)
  have mf: "List.map_filter (\<lambda>i. if P i then Some (0 :: nat, i) else None) is = map (Pair 0) (filter P is)" for P "is"
    by (induction "is") (auto simp: List.map_filter_simps)
  have "sort_key fst (map (Pair (0 :: nat)) xs) = map (Pair 0) xs" for xs :: "op_id list"
    by (rule sort_key_id_if_sorted) (induction xs, auto)
  then show ?thesis unfolding runlist_of_def f z mf by (simp add: o_def)
qed

section \<open>Lives\<close>

lemma topo_idx_distinct:
  assumes "distinct topo"
  shows "topo_idx topo i = Some p \<longleftrightarrow> p < length topo \<and> topo ! p = i"
proof -
  have "topo_idx topo i = Some p \<longleftrightarrow> (i, p) \<in> set (rev (zip topo [0..<length topo]))"
    unfolding topo_idx_def using assms by (intro map_of_eq_Some_iff) (simp flip: rev_map)
  also have "\<dots> \<longleftrightarrow> p < length topo \<and> topo ! p = i"
    by (auto simp: set_zip)
  finally show ?thesis .
qed

lemma last_use_fold:
  assumes "distinct topo"
  shows "lu \<le> foldl (last_use_step topo) lu cs"
    "c \<in> set cs \<Longrightarrow> q < length topo \<Longrightarrow> topo ! q = c \<Longrightarrow> q \<le> foldl (last_use_step topo) lu cs"
    "foldl (last_use_step topo) lu cs = lu \<or>
       (\<exists>c \<in> set cs. foldl (last_use_step topo) lu cs < length topo \<and> topo ! foldl (last_use_step topo) lu cs = c)"
proof -
  have mono: "lu \<le> last_use_step topo lu c" for lu c by (auto simp: last_use_step_def split: option.splits)
  have le: "lu \<le> foldl (last_use_step topo) lu cs" for lu cs
    by (induction cs arbitrary: lu) (auto intro: le_trans mono)
  show "lu \<le> foldl (last_use_step topo) lu cs" by (rule le)
  show "c \<in> set cs \<Longrightarrow> q < length topo \<Longrightarrow> topo ! q = c \<Longrightarrow> q \<le> foldl (last_use_step topo) lu cs"
  proof (induction cs arbitrary: lu)
    case (Cons a cs)
    show ?case
    proof (cases "a = c")
      case True
      then have "topo_idx topo a = Some q" using Cons.prems assms by (simp add: topo_idx_distinct)
      then have "q \<le> last_use_step topo lu a" by (simp add: last_use_step_def)
      also have "\<dots> \<le> foldl (last_use_step topo) (last_use_step topo lu a) cs" by (rule le)
      finally show ?thesis by simp
    qed (use Cons in auto)
  qed simp
  show "foldl (last_use_step topo) lu cs = lu \<or>
       (\<exists>c \<in> set cs. foldl (last_use_step topo) lu cs < length topo \<and> topo ! foldl (last_use_step topo) lu cs = c)"
  proof (induction cs arbitrary: lu)
    case (Cons a cs)
    have "last_use_step topo lu a = lu \<or> (last_use_step topo lu a < length topo \<and> topo ! last_use_step topo lu a = a)"
      using topo_idx_distinct [OF assms, of a] by (auto simp: last_use_step_def split: option.splits)
    then show ?case using Cons [of "last_use_step topo lu a"] by auto
  qed simp
qed

section \<open>Properties\<close>

lemma build_graph_deps_full:
  assumes "length sorted_ops < 2 ^ 28" and "distinct (map opd_op_id (map the (filter op_active sorted_ops)))"
    and "schedulable sorted_ops topo"
  shows "\<exists>deps. build_graph_deps sorted_ops topo = Some (True, deps) \<and>
    map life_view (gd_opdescs deps) =
       map (\<lambda>od. (opd_op_id od, Some od, planned_life topo od)) (map the (filter op_active sorted_ops))"
proof -
  have "topo \<noteq> []" using assms(3) by (auto simp: schedulable_def Let_def)
  moreover obtain ok deps k kept where "build_graph_deps sorted_ops topo = Some (ok, deps) \<and> bucket_wf k (gd_hash deps) \<and>
    bucket_map (gd_hash deps) = reg_map (map the (filter op_active sorted_ops)) \<and>
    (topo \<noteq> [] \<longrightarrow> map life_view (gd_opdescs deps) =
       map (\<lambda>od. (opd_op_id od, Some od, planned_life topo od)) kept) \<and>
    (ok \<longrightarrow> gd_runlist deps = runlist_of deps topo) \<and>
    (distinct (map opd_op_id (map the (filter op_active sorted_ops))) \<longrightarrow>
       kept = map the (filter op_active sorted_ops) \<and> (schedulable sorted_ops topo \<longrightarrow> ok))"
    using build_graph_deps_ok [OF assms(1), of topo] by (elim exE)
  ultimately show ?thesis using assms(2,3) by (intro exI [of _ deps]) simp
qed

lemma deps_lives:
  assumes "length sorted_ops < 2 ^ 28" and "build_graph_deps sorted_ops topo = Some (ok, deps)"
    and "distinct topo" and "d \<in> set (gd_opdescs deps)" and "p < length topo" and "topo ! p = dd_op_id d"
  shows "\<exists>od. dd_opdef d = Some od \<and> opd_op_id od = dd_op_id d \<and> dd_life_begin d = p \<and> p \<le> dd_life_end d \<and>
    (\<forall>c q. c \<in> set (opd_consumers od) \<and> q < length topo \<and> topo ! q = c \<longrightarrow> q \<le> dd_life_end d) \<and>
    (dd_life_end d = p \<or> dd_life_end d < length topo \<and> topo ! dd_life_end d \<in> set (opd_consumers od))"
proof -
  have "topo \<noteq> []" using assms(5) by auto
  then obtain kept where v: "map life_view (gd_opdescs deps) =
      map (\<lambda>od. (opd_op_id od, Some od, planned_life topo od)) kept"
    using build_graph_deps_ok [OF assms(1), of topo] assms(2) by auto
  have "life_view d \<in> set (map life_view (gd_opdescs deps))" using assms(4) by simp
  then obtain od where od: "life_view d = (opd_op_id od, Some od, planned_life topo od)"
    unfolding v by auto
  then have d: "dd_opdef d = Some od" "opd_op_id od = dd_op_id d"
    "(dd_life_begin d, dd_life_end d) = planned_life topo od"
    by (simp_all add: life_view_def)
  have "topo_idx topo (opd_op_id od) = Some p"
    using assms(5,6) d(2) by (simp add: topo_idx_distinct [OF assms(3)])
  then have "dd_life_begin d = p" "dd_life_end d = foldl (last_use_step topo) p (opd_consumers od)"
    using d(3) by (simp_all add: planned_life_def)
  then show ?thesis
    using d(1,2) last_use_fold(1,3) [OF assms(3), of p "opd_consumers od"] last_use_fold(2) [OF assms(3)]
    by (intro exI [of _ od]) auto
qed

text \<open>
  C11: construction always returns, and every active operator is found under its id (the first
  one, should an id repeat), also after the table was rebuilt. But the descriptor found is the one
  written at registration: its lives, distance, memory groups and byte estimates are the defaults,
  whatever the later passes computed.
\<close>

theorem build_graph_deps_lookup:
  assumes "length sorted_ops < 2 ^ 28"
  shows "\<exists>ok deps. build_graph_deps sorted_ops topo = Some (ok, deps) \<and>
    (\<forall>i. find_opdesc deps i =
       map_option (\<lambda>od. empty_desc\<lparr>dd_op_id := i, dd_flags := 1, dd_opdef := Some od\<rparr>)
         (List.find (\<lambda>od. opd_op_id od = i) (map the (filter op_active sorted_ops))))"
proof -
  obtain ok deps k where b: "build_graph_deps sorted_ops topo = Some (ok, deps)" "bucket_wf k (gd_hash deps)"
    "bucket_map (gd_hash deps) = reg_map (map the (filter op_active sorted_ops))"
    using build_graph_deps_ok [OF assms, of topo] by blast
  have "map_option start_desc (List.find (\<lambda>od. opd_op_id od = i) xs) =
      map_option (\<lambda>od. empty_desc\<lparr>dd_op_id := i, dd_flags := 1, dd_opdef := Some od\<rparr>)
        (List.find (\<lambda>od. opd_op_id od = i) xs)" for i xs
    by (induction xs) (auto simp: start_desc_def fresh_desc_def)
  then show ?thesis using b by (auto simp: find_opdesc_map reg_map_def)
qed

definition demo_dep_op :: "op_id \<Rightarrow> op_id list \<Rightarrow> op_id list \<Rightarrow> op_def option" where
  "demo_dep_op i ins cs =
     (let od = \<lparr>out_rank = 1, out_dims = [4], out_element_size = 1\<rparr>
      in Some \<lparr>opd_flags = 1, opd_op_id = i, opd_name = None, opd_output_def = od, opd_flags2 = 0,
           opd_inputs = map (\<lambda>j. \<lparr>src_id = j, out_idx = 0, src_out_def = od\<rparr>) ins, opd_consumers = cs\<rparr>)"

theorem build_graph_deps_lookup_witness:
  "\<exists>ok deps. build_graph_deps [demo_dep_op 5 [] [6], demo_dep_op 6 [5] []] [5, 6] = Some (ok, deps) \<and>
     map_option dd_life_end (find_opdesc deps 5) = Some 0"
  using build_graph_deps_lookup [of "[demo_dep_op 5 [] [6], demo_dep_op 6 [5] []]" "[5, 6]"]
  by (auto simp: demo_dep_op_def Let_def op_active_def is_enabled_def is_dead_def empty_desc_def)

text \<open>
  for distinct active operators, registered after their first inputs, at least one of them in
  the given order, construction succeeds and the run list is the given order restricted to the active
  operators. The stable sort by distance has no influence, since it reads the distances from the
  table.
\<close>

lemma build_graph_deps_runlist:
  assumes "length sorted_ops < 2 ^ 28" and "distinct (map opd_op_id (map the (filter op_active sorted_ops)))"
    and "schedulable sorted_ops topo"
  shows "\<exists>deps. build_graph_deps sorted_ops topo = Some (True, deps) \<and>
    gd_runlist deps = filter (\<lambda>i. i \<in> opd_op_id ` the ` {o1 \<in> set sorted_ops. op_active o1}) topo"
proof -
  obtain ok deps k where b: "build_graph_deps sorted_ops topo = Some (ok, deps)" "bucket_wf k (gd_hash deps)"
    "bucket_map (gd_hash deps) = reg_map (map the (filter op_active sorted_ops))"
    "ok \<longrightarrow> gd_runlist deps = runlist_of deps topo" "ok"
    using build_graph_deps_ok [OF assms(1), of topo] assms(2,3) by blast
  then show ?thesis using runlist_of_reg [OF b(2,3), of topo] by (intro exI [of _ deps]) simp
qed

definition demo_dep_ops :: "op_def option list" where
  "demo_dep_ops = [demo_dep_op 5 [] [6], None, demo_dep_op 6 [5] []]"

lemma demo_dep_active:
  "map the (filter op_active demo_dep_ops) = map the [demo_dep_op 5 [] [6], demo_dep_op 6 [5] []]"
  by (simp add: demo_dep_ops_def demo_dep_op_def Let_def op_active_def is_enabled_def is_dead_def)

lemma demo_dep_schedulable:
  "length demo_dep_ops < 2 ^ 28" "distinct (map opd_op_id (map the (filter op_active demo_dep_ops)))"
  "schedulable demo_dep_ops [5, 9, 6]"
  by (simp_all add: schedulable_def demo_dep_active) (simp_all add: demo_dep_ops_def demo_dep_op_def Let_def
      preds_first_def less_Suc_eq nth_Cons')

lemma build_graph_deps_runlist_witness:
  "\<exists>deps. build_graph_deps demo_dep_ops [5, 9, 6] = Some (True, deps) \<and> gd_runlist deps = [5, 6]"
proof -
  have "the ` {o1 \<in> set demo_dep_ops. op_active o1} = {the (demo_dep_op 5 [] [6]), the (demo_dep_op 6 [5] [])}"
    using arg_cong [OF demo_dep_active, of set] by simp
  then show ?thesis
    using build_graph_deps_runlist [OF demo_dep_schedulable] by (simp add: demo_dep_op_def Let_def)
qed

text \<open>
  C12: the lives that the lifetime allocator reads from the list are right. For a repetition-free
  order, the life of an operator at position \<open>p\<close> begins at \<open>p\<close>, reaches the position of every
  consumer, and is no longer than that.
\<close>

theorem build_graph_deps_lives:
  assumes "length sorted_ops < 2 ^ 28" and "build_graph_deps sorted_ops topo = Some (ok, deps)"
    and "distinct topo" and "d \<in> set (gd_opdescs deps)" and "p < length topo" and "topo ! p = dd_op_id d"
  shows "\<exists>od. dd_opdef d = Some od \<and> opd_op_id od = dd_op_id d \<and> dd_life_begin d = p \<and> p \<le> dd_life_end d \<and>
    (\<forall>c q. c \<in> set (opd_consumers od) \<and> q < length topo \<and> topo ! q = c \<longrightarrow> q \<le> dd_life_end d) \<and>
    (dd_life_end d = p \<or> dd_life_end d < length topo \<and> topo ! dd_life_end d \<in> set (opd_consumers od))"
  using assms by (rule deps_lives)

lemma demo_dep_descs:
  "\<exists>deps d. build_graph_deps demo_dep_ops [5, 9, 6] = Some (True, deps) \<and> d \<in> set (gd_opdescs deps) \<and> dd_op_id d = 5"
proof -
  obtain deps where b: "build_graph_deps demo_dep_ops [5, 9, 6] = Some (True, deps)"
    and v: "map life_view (gd_opdescs deps) = map (\<lambda>od. (opd_op_id od, Some od, planned_life [5, 9, 6] od))
      (map the [demo_dep_op 5 [] [6], demo_dep_op 6 [5] []])"
    using build_graph_deps_full [OF demo_dep_schedulable] unfolding demo_dep_active by auto
  have "opd_op_id (the (demo_dep_op 5 [] [6])) = 5" by (simp add: demo_dep_op_def Let_def)
  then have "5 \<in> set (map fst (map life_view (gd_opdescs deps)))" unfolding v by simp
  with b show ?thesis by (auto simp: life_view_def)
qed

theorem build_graph_deps_lives_witness:
  "\<exists>deps d. build_graph_deps demo_dep_ops [5, 9, 6] = Some (True, deps) \<and> d \<in> set (gd_opdescs deps) \<and>
     dd_op_id d = 5 \<and> dd_life_begin d = 0"
proof -
  obtain deps d where d: "build_graph_deps demo_dep_ops [5, 9, 6] = Some (True, deps)" "d \<in> set (gd_opdescs deps)"
    "dd_op_id d = 5" using demo_dep_descs by blast
  have "dd_life_begin d = 0"
    using build_graph_deps_lives [OF _ d(1) _ d(2), of 0] d(3) by (auto simp: demo_dep_ops_def)
  with d show ?thesis by blast
qed

text \<open>
  When the propagation of distances reports success, every operator with a registered first
  input is farther than that input.
\<close>

theorem set_distances_sound:
  assumes "set_distances_from_constraints deps = (True, deps')" and "i < length (gd_opdescs deps')"
  shows "dist_ok (gd_opdescs deps') i"
proof (cases "gd_opdescs deps = []")
  case True
  then show ?thesis using assms by (simp add: set_distances_from_constraints_def)
next
  case False
  then obtain n s s' where "dist_loop n s = (False, s')" "gd_opdescs deps' = fst s'"
    using assms(1) by (auto simp: set_distances_from_constraints_def Let_def split: prod.splits if_splits)
  with dist_loop_False assms(2) show ?thesis by metis
qed

definition demo_dist_deps :: graph_deps where
  "demo_dist_deps = deps_init\<lparr>gd_hash := \<lparr>ob_slots = [], ob_mask = 0, ob_count = 0\<rparr>, gd_opdescs := map (start_desc \<circ> the) [demo_dep_op 6 [5] [], demo_dep_op 5 [] [6]]\<rparr>"

lemma demo_dist_run: "\<exists>deps'. set_distances_from_constraints demo_dist_deps = (True, deps') \<and> length (gd_opdescs deps') = 2"
proof -
  have "(\<lambda>(ok, deps'). ok \<and> length (gd_opdescs deps') = 2) (set_distances_from_constraints demo_dist_deps)" by code_simp
  then show ?thesis by (auto split: prod.splits)
qed

theorem set_distances_sound_witness:
  "\<exists>deps'. set_distances_from_constraints demo_dist_deps = (True, deps') \<and> dist_ok (gd_opdescs deps') 0"
proof -
  obtain deps' where d: "set_distances_from_constraints demo_dist_deps = (True, deps')" "length (gd_opdescs deps') = 2"
    using demo_dist_run by blast
  from set_distances_sound [OF d(1), of 0] d show ?thesis by auto
qed

text \<open>
  The propagation does succeed when operators were registered after their first inputs, and then the distance
  of an operator is its position.
\<close>

theorem set_distances_topological:
  assumes "\<forall>i < length (gd_opdescs deps). \<forall>od c cs p. dd_opdef (gd_opdescs deps ! i) = Some od \<and>
      opd_inputs od = c # cs \<and> desc_idx (gd_opdescs deps) (src_id c) = Some p \<longrightarrow> p < i"
  shows "\<exists>deps'. set_distances_from_constraints deps = (True, deps') \<and>
    (\<forall>i < length (gd_opdescs deps). dd_opdef (gd_opdescs deps ! i) \<noteq> None \<longrightarrow>
       dd_distance (gd_opdescs deps' ! i) = i)"
proof (cases "gd_opdescs deps = []")
  case True
  then show ?thesis by (simp add: set_distances_from_constraints_def)
next
  case False
  let ?ds = "gd_opdescs deps"
  let ?ss = "map (dist_start (desc_idx ?ds)) (zip [0..<length ?ds] ?ds)"
  let ?mx = "foldl max 0 (filter (\<lambda>i. dd_opdef (?ds ! i) \<noteq> None) [0..<length ?ds])"
  have "dist_pass (?ss, ?mx) = (False, ?ss, ?mx)"
    by (rule dist_pass_stable) (use dist_start_ok [OF assms] in simp)
  then have l: "dist_loop (length ?ds * 4 + 16) (?ss, ?mx) = (False, ?ss, ?mx)" by (rule dist_loop_stable)
  have "dd_distance (?ss ! i) = i" if "i < length ?ds" "dd_opdef (?ds ! i) \<noteq> None" for i
    using that by (auto simp: dist_start_def)
  then show ?thesis using False unfolding set_distances_from_constraints_def Let_def l by simp
qed


theorem set_distances_topological_witness:
  "\<exists>deps'. set_distances_from_constraints (deps_init\<lparr>gd_opdescs := [start_desc (the (demo_dep_op 5 [] [6]))]\<rparr>) = (True, deps') \<and>
     dd_distance (gd_opdescs deps' ! 0) = 0"
  using set_distances_topological [of "deps_init\<lparr>gd_opdescs := [start_desc (the (demo_dep_op 5 [] [6]))]\<rparr>"]
  by (simp add: demo_dep_op_def Let_def)

end
