(* ===== verification/DmaPlan.thy ===== *)
theory DmaPlan
  imports Prelude
begin

unbundle bit_operations_syntax

text \<open>
  Transfers between the scratchpad and DDR (\<open>compiler/src/dma/spill_fill.cpp\<close>,
  \<open>compiler/src/dma/op_emitter.cpp\<close>): the planner of synchronisation tokens, the emitter of DMA
  operation records, and the pressure-driven spill scheduler.

  Token ids are 32-bit words, since \<open>allocate\<close> increments one without a check. The position
  \<open>SIZE_MAX\<close> of a token that was never signalled is \<open>None\<close>. The emitter's position arguments are kept,
  although \<open>emit_dma_op\<close> ignores them. A run list enters the scheduler by its length only.
  The contract of the token planner is the locale \<open>token_log\<close>; the emitter is a step relation.
\<close>

section \<open>Synchronisation tokens\<close>

record token_entry =
  te_id :: u32
  te_signal_pos :: "nat option"
  te_signal_name :: string
  te_waits :: "nat list"

record token_manager =
  tm_next_id :: u32
  tm_tokens :: "token_entry list"

definition new_token :: "u32 \<Rightarrow> token_entry" where
  "new_token i = \<lparr>te_id = i, te_signal_pos = None, te_signal_name = [], te_waits = []\<rparr>"

definition tm_reset :: token_manager where
  "tm_reset = \<lparr>tm_next_id = 0x11, tm_tokens = []\<rparr>"

fun find_from :: "u32 \<Rightarrow> nat \<Rightarrow> token_entry list \<Rightarrow> nat option" where
  "find_from i k [] = None"
| "find_from i k (t # ts) = (if te_id t = i then Some k else find_from i (Suc k) ts)"

definition find_token :: "token_manager \<Rightarrow> u32 \<Rightarrow> nat option" where
  "find_token m i = find_from i 0 (tm_tokens m)"

definition tm_allocate :: "token_manager \<Rightarrow> u32 \<times> token_manager" where
  "tm_allocate m =
     (let i = tm_next_id m in (i, m\<lparr>tm_next_id := i + 2, tm_tokens := tm_tokens m @ [new_token i]\<rparr>))"

definition tm_reuse :: "u32 \<Rightarrow> token_manager \<Rightarrow> token_manager" where
  "tm_reuse i m =
     (case find_token m i of
        Some j \<Rightarrow> m
      | None \<Rightarrow> m\<lparr>tm_tokens := tm_tokens m @ [new_token i]\<rparr>)"

text \<open>The common head of \<open>signal\<close> and \<open>wait\<close>: find the token, or create and find it, then write it.\<close>

definition on_token :: "u32 \<Rightarrow> (token_entry \<Rightarrow> token_entry) \<Rightarrow> token_manager \<Rightarrow> token_manager" where
  "on_token i f m =
     (let m1 = (case find_token m i of None \<Rightarrow> tm_reuse i m | Some j \<Rightarrow> m)
      in case find_token m1 i of
           None \<Rightarrow> m1
         | Some j \<Rightarrow> m1\<lparr>tm_tokens := (tm_tokens m1)[j := f (tm_tokens m1 ! j)]\<rparr>)"

definition tm_signal :: "u32 \<Rightarrow> nat \<Rightarrow> string \<Rightarrow> token_manager \<Rightarrow> token_manager" where
  "tm_signal i pos nm = on_token i (\<lambda>t. t\<lparr>te_signal_pos := Some pos, te_signal_name := nm\<rparr>)"

definition tm_wait :: "u32 \<Rightarrow> nat \<Rightarrow> token_manager \<Rightarrow> token_manager" where
  "tm_wait i pos = on_token i (\<lambda>t. t\<lparr>te_waits := te_waits t @ [pos]\<rparr>)"

definition token_valid :: "nat option \<Rightarrow> nat list \<Rightarrow> bool" where
  "token_valid sp ws \<longleftrightarrow>
     \<not> (ws \<noteq> [] \<and> sp = None) \<and> list_all (\<lambda>w. case sp of None \<Rightarrow> False | Some s \<Rightarrow> \<not> w \<le> s) ws"

definition tm_validate :: "token_manager \<Rightarrow> bool" where
  "tm_validate m = list_all (\<lambda>t. token_valid (te_signal_pos t) (te_waits t)) (tm_tokens m)"

section \<open>The emitter of DMA operations\<close>

datatype dma_op_type =
    Spill | Fill | SpillWithDB | FillWithDB | MCSend | MCRecvRdy | MCRecvDone | MCRecvDone2
  | ChunkPreload | MSyncPost | MSyncWait | HVXSpawn | DmaCheckpointSet | DmaCheckpointWait

record dma_op_info =
  di_type :: dma_op_type
  di_src_offset :: bytes
  di_dst_offset :: bytes
  di_size :: bytes
  di_src_nsp :: nat
  di_dst_nsp :: nat
  di_mcid :: nat
  di_payload_size :: bytes
  di_is_multicast :: bool
  di_double_buffered :: bool
  di_synctoken_id :: u32
  di_flags :: "16 word"
  di_config :: "16 word"
  di_src_stride :: nat
  di_dst_stride :: nat
  di_width :: nat
  di_height :: nat

definition dma_info :: "dma_op_type \<Rightarrow> dma_op_info" where
  "dma_info ty = \<lparr>di_type = ty, di_src_offset = 0, di_dst_offset = 0, di_size = 0, di_src_nsp = 0,
     di_dst_nsp = 0, di_mcid = 0, di_payload_size = 0, di_is_multicast = False,
     di_double_buffered = False, di_synctoken_id = 0, di_flags = 0, di_config = 0, di_src_stride = 0,
     di_dst_stride = 0, di_width = 0, di_height = 0\<rparr>"

definition dma_mode_1d :: "16 word" where "dma_mode_1d = 0x0000"
definition dma_mode_2d :: "16 word" where "dma_mode_2d = 0x0001"
definition dma_mode_fill :: "16 word" where "dma_mode_fill = 0x0010"
definition dma_mode_spill :: "16 word" where "dma_mode_spill = 0x0020"

record op_emitter =
  em_ops :: "dma_op_info list"
  em_tokens :: token_manager

definition em_init :: op_emitter where
  "em_init = \<lparr>em_ops = [], em_tokens = tm_reset\<rparr>"

definition emit_dma_op :: "dma_op_info \<Rightarrow> nat \<Rightarrow> op_emitter \<Rightarrow> op_emitter" where
  "emit_dma_op info pos em = em\<lparr>em_ops := em_ops em @ [info]\<rparr>"

definition em_signal :: "u32 \<Rightarrow> nat \<Rightarrow> string \<Rightarrow> op_emitter \<Rightarrow> op_emitter" where
  "em_signal i pos nm em = em\<lparr>em_tokens := tm_signal i pos nm (em_tokens em)\<rparr>"

definition em_wait :: "u32 \<Rightarrow> nat \<Rightarrow> op_emitter \<Rightarrow> op_emitter" where
  "em_wait i pos em = em\<lparr>em_tokens := tm_wait i pos (em_tokens em)\<rparr>"

definition insert_preload_op :: "nat \<Rightarrow> nat \<Rightarrow> op_emitter \<Rightarrow> op_emitter" where
  "insert_preload_op pos prev =
     emit_dma_op ((dma_info ChunkPreload)\<lparr>di_src_offset := pos, di_dst_offset := prev\<rparr>) pos"

definition spill_info :: "bytes \<Rightarrow> bytes \<Rightarrow> bytes \<Rightarrow> bool \<Rightarrow> dma_op_info" where
  "spill_info vtcm ddr sz db =
     (dma_info (if db then SpillWithDB else Spill))\<lparr>di_src_offset := vtcm, di_dst_offset := ddr,
        di_size := sz, di_double_buffered := db, di_flags := dma_mode_spill OR dma_mode_1d\<rparr>"

definition fill_info :: "bytes \<Rightarrow> bytes \<Rightarrow> bytes \<Rightarrow> bool \<Rightarrow> dma_op_info" where
  "fill_info vtcm ddr sz db =
     (dma_info (if db then FillWithDB else Fill))\<lparr>di_src_offset := ddr, di_dst_offset := vtcm,
        di_size := sz, di_double_buffered := db, di_flags := dma_mode_fill OR dma_mode_1d\<rparr>"

definition insert_spill_fill_pair ::
  "bytes \<Rightarrow> bytes \<Rightarrow> bytes \<Rightarrow> nat \<Rightarrow> nat \<Rightarrow> bool \<Rightarrow> op_emitter \<Rightarrow> op_emitter" where
  "insert_spill_fill_pair vtcm ddr sz sp fp db em =
     emit_dma_op (fill_info vtcm ddr sz db) fp (emit_dma_op (spill_info vtcm ddr sz db) sp em)"

definition insert_spill_fill_pair_sync ::
  "bytes \<Rightarrow> bytes \<Rightarrow> bytes \<Rightarrow> nat \<Rightarrow> nat \<Rightarrow> bool \<Rightarrow> u32 \<Rightarrow> op_emitter \<Rightarrow> op_emitter" where
  "insert_spill_fill_pair_sync vtcm ddr sz sp fp db tok em =
     (let em1 = emit_dma_op ((spill_info vtcm ddr sz db)\<lparr>di_synctoken_id := tok\<rparr>) sp em;
          em2 = em_signal tok sp ''DmaCheckpointSet'' em1;
          em3 = emit_dma_op ((fill_info vtcm ddr sz db)\<lparr>di_synctoken_id := tok\<rparr>) fp em2
      in em_wait tok fp em3)"

definition insert_spill_fill_pair_2d ::
  "bytes \<Rightarrow> bytes \<Rightarrow> nat \<Rightarrow> nat \<Rightarrow> nat \<Rightarrow> nat \<Rightarrow> nat \<Rightarrow> nat \<Rightarrow> bool \<Rightarrow> u32 \<Rightarrow> op_emitter \<Rightarrow> op_emitter"
where
  "insert_spill_fill_pair_2d vtcm ddr width height ss ds sp fp db tok em =
     (let spill = (spill_info vtcm ddr (width * height) db)\<lparr>di_synctoken_id := tok,
            di_flags := dma_mode_spill OR dma_mode_2d, di_src_stride := ss, di_dst_stride := ds,
            di_width := width, di_height := height\<rparr>;
          fill = (fill_info vtcm ddr (width * height) db)\<lparr>di_synctoken_id := tok,
            di_flags := dma_mode_fill OR dma_mode_2d, di_src_stride := ds, di_dst_stride := ss,
            di_width := width, di_height := height\<rparr>;
          em1 = emit_dma_op spill sp em;
          em2 = (if tok \<noteq> 0 then em_signal tok sp ''DmaCheckpointSet(2D)'' em1 else em1);
          em3 = emit_dma_op fill fp em2
      in if tok \<noteq> 0 then em_wait tok fp em3 else em3)"

definition mc_info :: "dma_op_type \<Rightarrow> nat \<Rightarrow> nat \<Rightarrow> nat \<Rightarrow> bytes \<Rightarrow> dma_op_info" where
  "mc_info ty src dst mcid payload =
     (dma_info ty)\<lparr>di_src_nsp := src, di_dst_nsp := dst, di_mcid := mcid, di_payload_size := payload,
        di_is_multicast := True\<rparr>"

definition insert_mcast_pair ::
  "nat \<Rightarrow> nat \<Rightarrow> nat \<Rightarrow> bytes \<Rightarrow> nat \<Rightarrow> nat \<Rightarrow> op_emitter \<Rightarrow> op_emitter" where
  "insert_mcast_pair src dst mcid payload sp rp em =
     emit_dma_op (mc_info MCRecvRdy src dst mcid 0) rp
       (emit_dma_op (mc_info MCSend src dst mcid payload) sp em)"

definition insert_mcast_pair_sync ::
  "nat \<Rightarrow> nat \<Rightarrow> nat \<Rightarrow> bytes \<Rightarrow> nat \<Rightarrow> nat \<Rightarrow> u32 \<Rightarrow> op_emitter \<Rightarrow> op_emitter" where
  "insert_mcast_pair_sync src dst mcid payload sp rp tok em =
     (let em1 = emit_dma_op ((mc_info MCSend src dst mcid payload)\<lparr>di_synctoken_id := tok\<rparr>) sp em;
          em2 = em_signal tok sp ''MCSend'' em1;
          em3 = emit_dma_op ((mc_info MCRecvRdy src dst mcid 0)\<lparr>di_synctoken_id := tok\<rparr>) rp em2
      in em_wait tok rp em3)"

definition insert_dma_checkpoint_set :: "u32 \<Rightarrow> nat \<Rightarrow> string \<Rightarrow> op_emitter \<Rightarrow> op_emitter" where
  "insert_dma_checkpoint_set tok pos nm em =
     em_signal tok pos nm (emit_dma_op ((dma_info DmaCheckpointSet)\<lparr>di_synctoken_id := tok\<rparr>) pos em)"

definition insert_dma_checkpoint_wait :: "u32 \<Rightarrow> nat \<Rightarrow> op_emitter \<Rightarrow> op_emitter" where
  "insert_dma_checkpoint_wait tok pos em =
     em_wait tok pos (emit_dma_op ((dma_info DmaCheckpointWait)\<lparr>di_synctoken_id := tok\<rparr>) pos em)"

definition insert_msync_post :: "nat \<Rightarrow> op_emitter \<Rightarrow> op_emitter" where
  "insert_msync_post pos = emit_dma_op (dma_info MSyncPost) pos"

definition insert_msync_wait :: "nat \<Rightarrow> op_emitter \<Rightarrow> op_emitter" where
  "insert_msync_wait pos = emit_dma_op (dma_info MSyncWait) pos"

definition insert_hvx_spawn :: "nat \<Rightarrow> nat \<Rightarrow> op_emitter \<Rightarrow> op_emitter" where
  "insert_hvx_spawn fork_pos join_pos em =
     emit_dma_op (dma_info HVXSpawn) join_pos (emit_dma_op (dma_info HVXSpawn) fork_pos em)"

definition validate_spill_fill :: "op_emitter \<Rightarrow> bool" where
  "validate_spill_fill em = True"

definition combine_fills :: "op_emitter \<Rightarrow> op_emitter" where
  "combine_fills em = em"

section \<open>The spill scheduler\<close>

record pressure_point =
  pp_op_index :: nat
  pp_current_usage :: bytes
  pp_peak_usage :: bytes

record tensor_location =
  tl_vtcm_offset :: bytes
  tl_ddr_offset :: bytes
  tl_first_use :: nat
  tl_last_use :: nat
  tl_size :: bytes
  tl_in_vtcm :: bool

record spill_fill_plan =
  sf_spill_position :: nat
  sf_fill_position :: nat
  sf_vtcm_offset :: bytes
  sf_ddr_offset :: bytes
  sf_size :: bytes
  sf_double_buffered :: bool

text \<open>The unsigned subtractions of the code wrap, so its \<open>max\<close> with zero does nothing.\<close>

definition u64_sub :: "nat \<Rightarrow> nat \<Rightarrow> nat" where
  "u64_sub a b = (a + 2 ^ 64 - b) mod 2 ^ 64"

fun pressure_loop :: "nat \<Rightarrow> nat \<Rightarrow> bytes \<Rightarrow> bytes \<Rightarrow> pressure_point list" where
  "pressure_loop 0 i cur peak = []"
| "pressure_loop (Suc n) i cur peak =
     (let c = cur + 1024; pk = max peak c
      in \<lparr>pp_op_index = i, pp_current_usage = c, pp_peak_usage = pk\<rparr> #
         pressure_loop n (Suc i) (max 0 (u64_sub c (1024 div 2))) pk)"

definition compute_pressure_curve :: "nat \<Rightarrow> pressure_point list" where
  "compute_pressure_curve n = pressure_loop n 0 0 0"

text \<open>The resident tensor with the farthest last use: its index and distance.\<close>

definition farthest :: "nat \<Rightarrow> tensor_location list \<Rightarrow> nat \<times> nat" where
  "farthest i locs =
     fold (\<lambda>j (best, mx).
         if \<not> tl_in_vtcm (locs ! j) then (best, mx)
         else let d = u64_sub (tl_last_use (locs ! j)) i in if mx < d then (j, d) else (best, mx))
       [0..<length locs] (0, 0)"

definition plan_step ::
  "bytes \<Rightarrow> nat \<times> pressure_point \<Rightarrow> spill_fill_plan list \<times> tensor_location list \<Rightarrow>
   spill_fill_plan list \<times> tensor_location list" where
  "plan_step usable = (\<lambda>(i, pp) (plans, locs).
     if usable < pp_current_usage pp
     then let (b, mx) = farthest i locs
          in if 0 < mx
             then (plans @ [\<lparr>sf_spill_position = i, sf_fill_position = tl_last_use (locs ! b),
                     sf_vtcm_offset = tl_vtcm_offset (locs ! b), sf_ddr_offset = tl_ddr_offset (locs ! b),
                     sf_size = tl_size (locs ! b), sf_double_buffered = False\<rparr>],
                   locs[b := (locs ! b)\<lparr>tl_in_vtcm := False\<rparr>])
             else (plans, locs)
     else (plans, locs))"

definition spill_plan :: "nat \<Rightarrow> bytes \<Rightarrow> spill_fill_plan list" where
  "spill_plan n vtcm_size =
     (let curve = compute_pressure_curve n; usable = vtcm_size * 8 div 10
      in fst (fold (plan_step usable) (zip [0..<length curve] curve) ([], [])))"

definition concurrent_step :: "pressure_point \<Rightarrow> bytes \<times> bytes \<Rightarrow> bytes \<times> bytes" where
  "concurrent_step pp = (\<lambda>(mx, cur).
     let c = (if pp_peak_usage pp div 2 < pp_current_usage pp then cur + 1024 else max 0 (u64_sub cur 1024))
     in (max mx c, c))"

definition min_buffer_size :: "nat \<Rightarrow> bytes" where
  "min_buffer_size n =
     (fst (fold concurrent_step (compute_pressure_curve n) (0, 0)) + 127) div 128 * 128"

section \<open>Lemmas on tokens\<close>

lemma find_from_None: "find_from i k ts = None \<longleftrightarrow> i \<notin> te_id ` set ts"
  by (induction ts arbitrary: k) auto

lemma find_from_Some:
  "find_from i k ts = Some j \<longleftrightarrow> k \<le> j \<and> j - k < length ts \<and> te_id (ts ! (j - k)) = i \<and>
     (\<forall>l < j - k. te_id (ts ! l) \<noteq> i)"
proof (induction ts arbitrary: k)
  case (Cons t ts)
  show ?case
  proof (cases "te_id t = i")
    case True
    then show ?thesis by (auto simp: nth_Cons split: nat.splits)
  next
    case False
    have "(Suc k \<le> j \<and> j - Suc k < length ts \<and> te_id (ts ! (j - Suc k)) = i \<and> (\<forall>l < j - Suc k. te_id (ts ! l) \<noteq> i)) \<longleftrightarrow>
        k \<le> j \<and> j - k < length (t # ts) \<and> te_id ((t # ts) ! (j - k)) = i \<and> (\<forall>l < j - k. te_id ((t # ts) ! l) \<noteq> i)"
    proof (cases "Suc k \<le> j")
      case True
      then obtain d where "j = Suc k + d" using le_Suc_ex by blast
      then show ?thesis using False by (auto simp: Suc_diff_le less_Suc_eq_0_disj)
    qed (use False in \<open>auto simp: not_le less_Suc_eq\<close>)
    with False Cons.IH show ?thesis by simp
  qed
qed simp

lemma find_token_Some:
  "find_token m i = Some j \<longleftrightarrow> j < length (tm_tokens m) \<and> te_id (tm_tokens m ! j) = i \<and>
     (\<forall>l < j. te_id (tm_tokens m ! l) \<noteq> i)"
  by (simp add: find_token_def find_from_Some)

lemma find_token_None: "find_token m i = None \<longleftrightarrow> i \<notin> te_id ` set (tm_tokens m)"
  by (simp add: find_token_def find_from_None)

text \<open>
  What a manager knows of a token is its last signal and its waits, read from the first entry with
  the id. Later entries with the same id, which \<open>allocate\<close> can create, carry no waits.
\<close>

definition token_view :: "token_manager \<Rightarrow> u32 \<Rightarrow> nat option \<times> nat list" where
  "token_view m i =
     (case find_token m i of
        None \<Rightarrow> (None, [])
      | Some j \<Rightarrow> (te_signal_pos (tm_tokens m ! j), te_waits (tm_tokens m ! j)))"

definition tm_inv :: "token_manager \<Rightarrow> bool" where
  "tm_inv m \<longleftrightarrow> (\<forall>j < length (tm_tokens m). te_waits (tm_tokens m ! j) \<noteq> [] \<longrightarrow>
     find_token m (te_id (tm_tokens m ! j)) = Some j)"

lemma find_token_append:
  "tm_tokens m' = tm_tokens m @ [t] \<Longrightarrow> find_token m' i =
     (case find_token m i of Some j \<Rightarrow> Some j | None \<Rightarrow> if te_id t = i then Some (length (tm_tokens m)) else None)"
proof -
  assume a: "tm_tokens m' = tm_tokens m @ [t]"
  have "find_from i k (ts @ [t]) = (case find_from i k ts of Some j \<Rightarrow> Some j
      | None \<Rightarrow> if te_id t = i then Some (k + length ts) else None)" for k ts
    by (induction ts arbitrary: k) (auto split: option.split)
  with a show ?thesis by (simp add: find_token_def split: option.split)
qed

lemma append_blank:
  assumes "tm_inv m" "tm_tokens m' = tm_tokens m @ [new_token k]"
  shows "tm_inv m'" "token_view m' = token_view m"
proof -
  show "tm_inv m'"
    using assms(1) unfolding tm_inv_def find_token_append [OF assms(2)] assms(2)
    by (auto simp: nth_append new_token_def split: if_splits)
  show "token_view m' = token_view m"
  proof (rule ext)
    fix i
    show "token_view m' i = token_view m i"
    proof (cases "find_token m i")
      case None
      then show ?thesis
        using find_token_append [OF assms(2), of i] by (simp add: token_view_def assms(2) new_token_def)
    next
      case (Some j)
      then have "j < length (tm_tokens m)" by (simp add: find_token_Some)
      with Some show ?thesis
        using find_token_append [OF assms(2), of i] by (simp add: token_view_def assms(2) nth_append)
    qed
  qed
qed

lemma tm_reuse_ok:
  assumes "tm_inv m"
  shows "tm_inv (tm_reuse i m)" "token_view (tm_reuse i m) = token_view m" "find_token (tm_reuse i m) i \<noteq> None"
proof -
  have "tm_inv (tm_reuse i m) \<and> token_view (tm_reuse i m) = token_view m \<and> find_token (tm_reuse i m) i \<noteq> None"
  proof (cases "find_token m i")
    case None
    then have a: "tm_tokens (tm_reuse i m) = tm_tokens m @ [new_token i]" by (simp add: tm_reuse_def)
    show ?thesis
      using append_blank [OF assms a] find_token_append [OF a, of i] None by (simp add: new_token_def)
  next
    case (Some j)
    then show ?thesis using assms by (simp add: tm_reuse_def)
  qed
  then show "tm_inv (tm_reuse i m)" "token_view (tm_reuse i m) = token_view m" "find_token (tm_reuse i m) i \<noteq> None"
    by simp_all
qed

lemma find_from_ids: "map te_id ts = map te_id us \<Longrightarrow> find_from i k ts = find_from i k us"
proof (induction ts arbitrary: us k)
  case (Cons t ts)
  then obtain u vs where "us = u # vs" "te_id t = te_id u" "map te_id ts = map te_id vs" by (cases us) simp_all
  with Cons.IH show ?case by simp
qed simp

lemma update_token:
  assumes inv: "tm_inv m" and j: "find_token m i = Some j" and f: "\<And>t. te_id (f t) = te_id t"
    and m': "m' = m\<lparr>tm_tokens := (tm_tokens m)[j := f (tm_tokens m ! j)]\<rparr>"
  shows "tm_inv m'"
    "token_view m' = (token_view m)(i := (te_signal_pos (f (tm_tokens m ! j)), te_waits (f (tm_tokens m ! j))))"
proof -
  from j have l: "j < length (tm_tokens m)" "te_id (tm_tokens m ! j) = i" by (simp_all add: find_token_Some)
  have "map te_id (tm_tokens m') = map te_id (tm_tokens m)"
    using l by (simp add: m' f map_update) (metis list_update_id map_update)
  then have ft: "find_token m' k = find_token m k" for k
    unfolding find_token_def by (rule find_from_ids)
  show "tm_inv m'"
    using inv j l unfolding tm_inv_def ft by (auto simp: m' f nth_list_update split: if_splits)
  show "token_view m' = (token_view m)(i := (te_signal_pos (f (tm_tokens m ! j)), te_waits (f (tm_tokens m ! j))))"
  proof (rule ext)
    fix k
    show "token_view m' k = ((token_view m)(i := (te_signal_pos (f (tm_tokens m ! j)), te_waits (f (tm_tokens m ! j))))) k"
    proof (cases "k = i")
      case True
      then show ?thesis using j l ft [of i] by (simp add: token_view_def m')
    next
      case False
      then have "find_token m k \<noteq> Some j" using l by (auto simp: find_token_Some)
      then show ?thesis using False ft [of k] by (auto simp: token_view_def m' split: option.split)
    qed
  qed
qed

lemma on_token_ok:
  assumes inv: "tm_inv m" and f: "\<And>t. te_id (f t) = te_id t"
    and g: "\<And>t. (te_signal_pos (f t), te_waits (f t)) = g (te_signal_pos t, te_waits t)"
  shows "tm_inv (on_token i f m)" "token_view (on_token i f m) = (token_view m)(i := g (token_view m i))"
proof -
  define m1 where "m1 = (case find_token m i of None \<Rightarrow> tm_reuse i m | Some j \<Rightarrow> m)"
  have m1: "tm_inv m1" "token_view m1 = token_view m" "find_token m1 i \<noteq> None"
    using inv tm_reuse_ok [OF inv, of i] by (simp_all add: m1_def split: option.splits)
  then obtain j where j: "find_token m1 i = Some j" by blast
  have e: "on_token i f m = m1\<lparr>tm_tokens := (tm_tokens m1)[j := f (tm_tokens m1 ! j)]\<rparr>"
    by (simp add: on_token_def Let_def m1_def [symmetric] j)
  have "g (token_view m i) = (te_signal_pos (f (tm_tokens m1 ! j)), te_waits (f (tm_tokens m1 ! j)))"
    unfolding m1(2) [symmetric] g by (simp add: token_view_def j)
  with update_token [OF m1(1) j f e] m1(2)
  show "tm_inv (on_token i f m)" "token_view (on_token i f m) = (token_view m)(i := g (token_view m i))" by simp_all
qed

lemma validate_view:
  assumes "tm_inv m"
  shows "tm_validate m \<longleftrightarrow> (\<forall>i. token_valid (fst (token_view m i)) (snd (token_view m i)))"
proof
  assume "tm_validate m"
  then show "\<forall>i. token_valid (fst (token_view m i)) (snd (token_view m i))"
    by (auto simp: tm_validate_def list_all_length token_view_def find_token_Some token_valid_def split: option.splits)
next
  assume a: "\<forall>i. token_valid (fst (token_view m i)) (snd (token_view m i))"
  have "token_valid (te_signal_pos (tm_tokens m ! j)) (te_waits (tm_tokens m ! j))" if "j < length (tm_tokens m)" for j
  proof (cases "te_waits (tm_tokens m ! j) = []")
    case True
    then show ?thesis by (simp add: token_valid_def)
  next
    case False
    then have "find_token m (te_id (tm_tokens m ! j)) = Some j" using assms that by (simp add: tm_inv_def)
    then show ?thesis using spec [OF a, of "te_id (tm_tokens m ! j)"] by (simp add: token_view_def)
  qed
  then show "tm_validate m" by (simp add: tm_validate_def list_all_length)
qed

section \<open>The contract of a token planner\<close>

datatype token_event = Allocate | Reuse u32 | Signal u32 nat string | Await u32 nat

definition last_signal :: "token_event list \<Rightarrow> u32 \<Rightarrow> nat option" where
  "last_signal es i = fold (\<lambda>e acc. case e of Signal j p nm \<Rightarrow> if j = i then Some p else acc | _ \<Rightarrow> acc) es None"

definition awaits :: "token_event list \<Rightarrow> u32 \<Rightarrow> nat list" where
  "awaits es i = List.map_filter (\<lambda>e. case e of Await j p \<Rightarrow> if j = i then Some p else None | _ \<Rightarrow> None) es"

lemma last_signal_snoc [simp]:
  "last_signal (es @ [e]) i = (case e of Signal j p nm \<Rightarrow> if j = i then Some p else last_signal es i | _ \<Rightarrow> last_signal es i)"
  by (simp add: last_signal_def split: token_event.split)

lemma awaits_snoc [simp]:
  "awaits (es @ [e]) i = awaits es i @ (case e of Await j p \<Rightarrow> if j = i then [p] else [] | _ \<Rightarrow> [])"
  by (simp add: awaits_def List.map_filter_def split: token_event.split)

lemma awaits_iff: "w \<in> set (awaits es i) \<longleftrightarrow> Await i w \<in> set es"
  by (induction es rule: rev_induct) (auto simp: awaits_def List.map_filter_def split: token_event.splits)

locale token_log =
  fixes alloc :: "'m \<Rightarrow> u32 \<times> 'm"
    and reuse :: "u32 \<Rightarrow> 'm \<Rightarrow> 'm"
    and signal :: "u32 \<Rightarrow> nat \<Rightarrow> string \<Rightarrow> 'm \<Rightarrow> 'm"
    and await :: "u32 \<Rightarrow> nat \<Rightarrow> 'm \<Rightarrow> 'm"
    and ok :: "'m \<Rightarrow> bool"
    and view :: "'m \<Rightarrow> u32 \<Rightarrow> nat option \<times> nat list"
    and inv :: "'m \<Rightarrow> bool"
  assumes alloc_law: "inv m \<Longrightarrow> inv (snd (alloc m)) \<and> view (snd (alloc m)) = view m"
    and reuse_law: "inv m \<Longrightarrow> inv (reuse i m) \<and> view (reuse i m) = view m"
    and signal_law: "inv m \<Longrightarrow> inv (signal i p nm m) \<and>
      view (signal i p nm m) = (view m)(i := (Some p, snd (view m i)))"
    and await_law: "inv m \<Longrightarrow> inv (await i p m) \<and>
      view (await i p m) = (view m)(i := (fst (view m i), snd (view m i) @ [p]))"
    and ok_law: "inv m \<Longrightarrow> ok m \<longleftrightarrow> (\<forall>i. token_valid (fst (view m i)) (snd (view m i)))"
begin

lemma trace_view:
  assumes "inv m" "view m = (\<lambda>i. (None, []))"
  shows "inv (fold (\<lambda>e. case e of Allocate \<Rightarrow> (\<lambda>m. snd (alloc m)) | Reuse i \<Rightarrow> reuse i
       | Signal i p nm \<Rightarrow> signal i p nm | Await i p \<Rightarrow> await i p) es m) \<and>
    view (fold (\<lambda>e. case e of Allocate \<Rightarrow> (\<lambda>m. snd (alloc m)) | Reuse i \<Rightarrow> reuse i
       | Signal i p nm \<Rightarrow> signal i p nm | Await i p \<Rightarrow> await i p) es m) = (\<lambda>i. (last_signal es i, awaits es i))"
proof (induction es rule: rev_induct)
  case Nil
  then show ?case using assms by (simp add: last_signal_def awaits_def List.map_filter_def)
next
  case (snoc e es)
  then show ?case
    by (cases e) (auto simp: fun_eq_iff alloc_law reuse_law signal_law await_law)
qed

lemma trace_ok:
  assumes "inv m" "view m = (\<lambda>i. (None, []))"
  shows "ok (fold (\<lambda>e. case e of Allocate \<Rightarrow> (\<lambda>m. snd (alloc m)) | Reuse i \<Rightarrow> reuse i
       | Signal i p nm \<Rightarrow> signal i p nm | Await i p \<Rightarrow> await i p) es m) \<longleftrightarrow>
    (\<forall>i w. Await i w \<in> set es \<longrightarrow> (\<exists>p. last_signal es i = Some p \<and> p < w))"
proof -
  have "token_valid sp ws \<longleftrightarrow> (\<forall>w \<in> set ws. \<exists>p. sp = Some p \<and> p < w)" for sp ws
    by (cases sp) (auto simp: token_valid_def list_all_iff neq_Nil_conv)
  with trace_view [OF assms, of es] show ?thesis by (simp add: ok_law Ball_def awaits_iff)
qed

end

interpretation tl: token_log tm_allocate tm_reuse tm_signal tm_wait tm_validate token_view tm_inv
proof unfold_locales
  fix m i p nm
  assume inv: "tm_inv m"
  show "tm_inv (snd (tm_allocate m)) \<and> token_view (snd (tm_allocate m)) = token_view m"
    using append_blank [OF inv, of "snd (tm_allocate m)" "tm_next_id m"] by (simp add: tm_allocate_def Let_def)
  show "tm_inv (tm_reuse i m) \<and> token_view (tm_reuse i m) = token_view m"
    using tm_reuse_ok [OF inv] by simp
  show "tm_inv (tm_signal i p nm m) \<and> token_view (tm_signal i p nm m) = (token_view m)(i := (Some p, snd (token_view m i)))"
    unfolding tm_signal_def
    using on_token_ok [OF inv, of "\<lambda>t. t\<lparr>te_signal_pos := Some p, te_signal_name := nm\<rparr>" "\<lambda>v. (Some p, snd v)" i] by simp
  show "tm_inv (tm_wait i p m) \<and> token_view (tm_wait i p m) = (token_view m)(i := (fst (token_view m i), snd (token_view m i) @ [p]))"
    unfolding tm_wait_def
    using on_token_ok [OF inv, of "\<lambda>t. t\<lparr>te_waits := te_waits t @ [p]\<rparr>" "\<lambda>v. (fst v, snd v @ [p])" i] by simp
  show "tm_validate m \<longleftrightarrow> (\<forall>i. token_valid (fst (token_view m i)) (snd (token_view m i)))"
    by (rule validate_view [OF inv])
qed

lemma tm_reset_start: "tm_inv tm_reset" "token_view tm_reset = (\<lambda>i. (None, []))"
  by (auto simp: tm_inv_def tm_reset_def token_view_def find_token_def)

definition token_step :: "token_event \<Rightarrow> token_manager \<Rightarrow> token_manager" where
  "token_step e = (case e of Allocate \<Rightarrow> (\<lambda>m. snd (tm_allocate m)) | Reuse i \<Rightarrow> tm_reuse i
     | Signal i p nm \<Rightarrow> tm_signal i p nm | Await i p \<Rightarrow> tm_wait i p)"

section \<open>Steps of the emitter\<close>

inductive em_step :: "op_emitter \<Rightarrow> op_emitter \<Rightarrow> bool" where
  preload: "em_step em (insert_preload_op pos prev em)"
| pair: "em_step em (insert_spill_fill_pair vtcm ddr sz sp fp db em)"
| pair_sync: "em_step em (insert_spill_fill_pair_sync vtcm ddr sz sp fp db tok em)"
| pair_2d: "em_step em (insert_spill_fill_pair_2d vtcm ddr width height ss ds sp fp db tok em)"
| mcast: "em_step em (insert_mcast_pair src dst mcid payload sp rp em)"
| mcast_sync: "em_step em (insert_mcast_pair_sync src dst mcid payload sp rp tok em)"
| checkpoint_set: "em_step em (insert_dma_checkpoint_set tok pos nm em)"
| checkpoint_wait: "em_step em (insert_dma_checkpoint_wait tok pos em)"
| msync_post: "em_step em (insert_msync_post pos em)"
| msync_wait: "em_step em (insert_msync_wait pos em)"
| hvx_spawn: "em_step em (insert_hvx_spawn fork_pos join_pos em)"
| combine: "em_step em (combine_fills em)"

definition em_reachable :: "op_emitter \<Rightarrow> bool" where
  "em_reachable = em_step\<^sup>*\<^sup>* em_init"

definition is_fill :: "dma_op_info \<Rightarrow> bool" where
  "is_fill o1 \<longleftrightarrow> di_type o1 = Fill \<or> di_type o1 = FillWithDB"

text \<open>A fill brings back what a spill took away, from where the spill put it.\<close>

definition mirrors :: "dma_op_info \<Rightarrow> dma_op_info \<Rightarrow> bool" where
  "mirrors s f \<longleftrightarrow>
     (di_type s, di_type f) \<in> {(Spill, Fill), (SpillWithDB, FillWithDB)} \<and>
     di_src_offset f = di_dst_offset s \<and> di_dst_offset f = di_src_offset s \<and> di_size f = di_size s \<and>
     di_src_stride f = di_dst_stride s \<and> di_dst_stride f = di_src_stride s \<and>
     di_width f = di_width s \<and> di_height f = di_height s \<and> di_synctoken_id f = di_synctoken_id s"

definition paired :: "dma_op_info list \<Rightarrow> bool" where
  "paired xs \<longleftrightarrow> (\<forall>k < length xs. is_fill (xs ! k) \<longrightarrow> 0 < k \<and> mirrors (xs ! (k - 1)) (xs ! k))"

definition token_known :: "op_emitter \<Rightarrow> u32 \<Rightarrow> bool" where
  "token_known em tok \<longleftrightarrow> fst (token_view (em_tokens em) tok) \<noteq> None \<and> snd (token_view (em_tokens em) tok) \<noteq> []"

definition em_inv :: "op_emitter \<Rightarrow> bool" where
  "em_inv em \<longleftrightarrow> paired (em_ops em) \<and> tm_inv (em_tokens em) \<and>
     (\<forall>o1 \<in> set (em_ops em). (is_fill o1 \<or> di_type o1 = MCRecvRdy) \<and> di_synctoken_id o1 \<noteq> 0 \<longrightarrow>
        token_known em (di_synctoken_id o1))"

lemma paired_append:
  assumes "paired xs" "paired ys"
  shows "paired (xs @ ys)"
  unfolding paired_def
proof (intro allI impI)
  fix k assume k: "k < length (xs @ ys)" "is_fill ((xs @ ys) ! k)"
  show "0 < k \<and> mirrors ((xs @ ys) ! (k - 1)) ((xs @ ys) ! k)"
  proof (cases "k < length xs")
    case True
    then show ?thesis using assms(1) k by (auto simp: paired_def nth_append)
  next
    case False
    then obtain l where l: "k = length xs + l" "l < length ys" "is_fill (ys ! l)"
      using k by (auto simp: nth_append) (metis add_diff_inverse_nat nat_add_left_cancel_less)
    then have "0 < l \<and> mirrors (ys ! (l - 1)) (ys ! l)" using assms(2) by (simp add: paired_def)
    with l show ?thesis by (auto simp: nth_append)
  qed
qed

lemma paired_single: "\<not> is_fill x \<Longrightarrow> paired [x]"
  by (simp add: paired_def)

lemma paired_two: "\<not> is_fill x \<Longrightarrow> \<not> is_fill y \<or> mirrors x y \<Longrightarrow> paired [x, y]"
  by (auto simp: paired_def less_Suc_eq)

lemma em_inv_extend:
  assumes "em_inv em" "em_ops em' = em_ops em @ xs" "paired xs" "tm_inv (em_tokens em')"
    and "\<And>tok. token_known em tok \<Longrightarrow> token_known em' tok"
    and "\<And>x. x \<in> set xs \<Longrightarrow> (is_fill x \<or> di_type x = MCRecvRdy) \<and> di_synctoken_id x \<noteq> 0 \<Longrightarrow>
      token_known em' (di_synctoken_id x)"
  shows "em_inv em'"
  using assms by (auto simp: em_inv_def paired_append)

named_theorems em_defs "operations of the emitter"

lemmas em_op_defs [em_defs] =
  insert_preload_op_def insert_spill_fill_pair_def insert_spill_fill_pair_sync_def
  insert_spill_fill_pair_2d_def insert_mcast_pair_def insert_mcast_pair_sync_def
  insert_dma_checkpoint_set_def insert_dma_checkpoint_wait_def insert_msync_post_def
  insert_msync_wait_def insert_hvx_spawn_def combine_fills_def
  emit_dma_op_def em_signal_def em_wait_def

lemmas em_info_defs = spill_info_def fill_info_def mc_info_def dma_info_def is_fill_def

lemma em_inv_plain:
  assumes "em_inv em" "em_ops em' = em_ops em @ xs" "em_tokens em' = em_tokens em" "paired xs"
    "\<And>x. x \<in> set xs \<Longrightarrow> (is_fill x \<or> di_type x = MCRecvRdy) \<Longrightarrow> di_synctoken_id x = 0"
  shows "em_inv em'"
  by (rule em_inv_extend [OF assms(1,2,4)]) (use assms in \<open>auto simp: em_inv_def token_known_def\<close>)

lemma em_inv_synced:
  assumes "em_inv em" "em_ops em' = em_ops em @ xs" "paired xs"
    "em_tokens em' = tm_wait tok q (tm_signal tok p nm (em_tokens em))"
    "\<And>x. x \<in> set xs \<Longrightarrow> di_synctoken_id x = tok"
  shows "em_inv em'"
proof -
  have inv: "tm_inv (em_tokens em)" using assms(1) by (simp add: em_inv_def)
  have inv1: "tm_inv (tm_signal tok p nm (em_tokens em))" using tl.signal_law [OF inv] by simp
  have v: "token_view (em_tokens em') = (token_view (em_tokens em))(tok := (Some p, snd (token_view (em_tokens em) tok) @ [q]))"
    unfolding assms(4) using tl.await_law [OF inv1] tl.signal_law [OF inv] by auto
  have "tm_inv (em_tokens em')" unfolding assms(4) using tl.await_law [OF inv1] by blast
  then show ?thesis
    by (rule em_inv_extend [OF assms(1,2,3)]) (use assms(5) in \<open>auto simp: token_known_def v\<close>)
qed

lemma em_inv_marked:
  assumes "em_inv em" "em_ops em' = em_ops em @ [x]" "\<not> is_fill x" "di_type x \<noteq> MCRecvRdy"
    "em_tokens em' = tm_signal tok p nm (em_tokens em) \<or> em_tokens em' = tm_wait tok p (em_tokens em)"
  shows "em_inv em'"
proof -
  have inv: "tm_inv (em_tokens em)" using assms(1) by (simp add: em_inv_def)
  show ?thesis
    by (rule em_inv_extend [OF assms(1,2) paired_single [OF assms(3)]])
      (use assms(3-5) tl.await_law [OF inv] tl.signal_law [OF inv] in \<open>auto simp: token_known_def split: if_splits\<close>)
qed

lemma em_inv_single:
  "em_inv em \<Longrightarrow> \<not> is_fill x \<Longrightarrow> di_type x \<noteq> MCRecvRdy \<Longrightarrow> em_inv (emit_dma_op x pos em)"
  by (rule em_inv_plain [where xs = "[x]"]) (auto simp: emit_dma_op_def paired_single)

lemma info_token [simp]:
  "di_synctoken_id (dma_info ty) = 0" "di_synctoken_id (spill_info v d s db) = 0"
  "di_synctoken_id (fill_info v d s db) = 0" "di_synctoken_id (mc_info ty a b c n) = 0"
  "di_type (mc_info ty a b c n) = ty" "di_type (dma_info ty) = ty"
  by (simp_all add: em_info_defs)

lemma paired_spill_fill:
  "paired [spill_info v d s db, fill_info v d s db]"
  "paired [(spill_info v d s db)\<lparr>di_synctoken_id := tok\<rparr>, (fill_info v d s db)\<lparr>di_synctoken_id := tok\<rparr>]"
  "paired [(spill_info v d s db)\<lparr>di_synctoken_id := tok, di_flags := fl, di_src_stride := ss,
       di_dst_stride := ds, di_width := w, di_height := h\<rparr>,
     (fill_info v d s db)\<lparr>di_synctoken_id := tok, di_flags := fl', di_src_stride := ds,
       di_dst_stride := ss, di_width := w, di_height := h\<rparr>]"
  by (rule paired_two; simp add: em_info_defs mirrors_def)+

lemma paired_other:
  "di_type x \<notin> {Fill, FillWithDB} \<Longrightarrow> di_type y \<notin> {Fill, FillWithDB} \<Longrightarrow> paired [x, y]"
  by (rule paired_two) (simp_all add: is_fill_def)

lemma em_step_inv: "em_step em em' \<Longrightarrow> em_inv em \<Longrightarrow> em_inv em'"
proof (induction rule: em_step.induct)
  case (preload em pos prev)
  then show ?case unfolding insert_preload_op_def by (rule em_inv_single) (simp_all add: is_fill_def)
next
  case (pair em vtcm ddr sz sp fp db)
  then show ?case by (rule em_inv_plain [OF _ _ _ paired_spill_fill(1) [where v = vtcm and d = ddr and s = sz and db = db]]) (auto simp: em_defs)
next
  case (pair_sync em vtcm ddr sz sp fp db tok)
  then show ?case
    by (rule em_inv_synced [OF _ _ paired_spill_fill(2) [where v = vtcm and d = ddr and s = sz and db = db and tok = tok]])
      (auto simp: em_defs Let_def)
next
  case (pair_2d em vtcm ddr width height ss ds sp fp db tok)
  note p = paired_spill_fill(3) [where v = vtcm and d = ddr and s = "width * height" and db = db and tok = tok
      and fl = "dma_mode_spill OR dma_mode_2d" and ss = ss and ds = ds and w = width and h = height
      and fl' = "dma_mode_fill OR dma_mode_2d"]
  show ?case
  proof (cases "tok = 0")
    case True
    then show ?thesis
      by - (rule em_inv_plain [OF pair_2d _ _ p], auto simp: em_defs Let_def)
  next
    case False
    then show ?thesis
      by - (rule em_inv_synced [OF pair_2d _ p], auto simp: em_defs Let_def)
  qed
next
  case (mcast em src dst mcid payload sp rp)
  then show ?case
    by (rule em_inv_plain [where xs = "[mc_info MCSend src dst mcid payload, mc_info MCRecvRdy src dst mcid 0]"])
      (auto simp: em_defs intro: paired_other)
next
  case (mcast_sync em src dst mcid payload sp rp tok)
  then show ?case
    by (rule em_inv_synced [where xs = "[(mc_info MCSend src dst mcid payload)\<lparr>di_synctoken_id := tok\<rparr>,
        (mc_info MCRecvRdy src dst mcid 0)\<lparr>di_synctoken_id := tok\<rparr>]"
        and tok = tok and q = rp and p = sp and nm = "''MCSend''"])
      (auto simp: em_defs Let_def intro: paired_other)
next
  case (checkpoint_set em tok pos nm)
  then show ?case
    by (rule em_inv_marked [where tok = tok and p = pos and nm = nm and
        x = "(dma_info DmaCheckpointSet)\<lparr>di_synctoken_id := tok\<rparr>"]) (simp_all add: em_defs is_fill_def)
next
  case (checkpoint_wait em tok pos)
  then show ?case
    by (rule em_inv_marked [where tok = tok and p = pos and nm = "[]" and
        x = "(dma_info DmaCheckpointWait)\<lparr>di_synctoken_id := tok\<rparr>"]) (simp_all add: em_defs is_fill_def)
next
  case (hvx_spawn em fork_pos join_pos)
  then show ?case
    by (rule em_inv_plain [where xs = "[dma_info HVXSpawn, dma_info HVXSpawn]"])
      (auto simp: em_defs intro: paired_other)
qed (simp_all add: insert_msync_post_def insert_msync_wait_def combine_fills_def em_inv_single is_fill_def)

lemma em_reachable_inv: "em_reachable em \<Longrightarrow> em_inv em"
  unfolding em_reachable_def
proof (induction rule: rtranclp_induct)
  case base
  then show ?case by (simp add: em_inv_def em_init_def paired_def tm_reset_start)
qed (rule em_step_inv)

section \<open>Lemmas on the scheduler\<close>

lemma u64_sub_le: "b \<le> a \<Longrightarrow> a < 2 ^ 64 \<Longrightarrow> u64_sub a b = a - b"
proof -
  assume a: "b \<le> a" "a < 2 ^ 64"
  then have "a + 2 ^ 64 - b = (a - b) + 2 ^ 64" by simp
  then show ?thesis using a unfolding u64_sub_def by (simp only: mod_add_self2) simp
qed

lemma pressure_loop_steady:
  assumes "cur + 1024 + 512 * n < 2 ^ 64" "peak \<le> cur + 1024"
  shows "pressure_loop n i cur peak =
    map (\<lambda>k. \<lparr>pp_op_index = i + k, pp_current_usage = cur + 1024 + 512 * k, pp_peak_usage = cur + 1024 + 512 * k\<rparr>) [0..<n]"
  using assms
proof (induction n arbitrary: i cur peak)
  case (Suc n)
  have s: "u64_sub (cur + 1024) 512 = cur + 512" using Suc.prems by (subst u64_sub_le) simp_all
  have u: "map f [0..<Suc n] = f 0 # map (\<lambda>k. f (Suc k)) [0..<n]" for f :: "nat \<Rightarrow> pressure_point"
    by (rule nth_equalityI) (auto simp: nth_Cons simp del: upt_Suc split: nat.split)
  have "pressure_loop n (Suc i) (cur + 512) (cur + 1024) = map (\<lambda>k. \<lparr>pp_op_index = Suc i + k,
      pp_current_usage = cur + 512 + 1024 + 512 * k, pp_peak_usage = cur + 512 + 1024 + 512 * k\<rparr>) [0..<n]"
    by (rule Suc.IH) (use Suc.prems in simp_all)
  with Suc.prems s show ?case by (simp add: u Let_def max_absorb2 algebra_simps del: upt_Suc)
qed simp

lemma concurrent_all_high:
  assumes "\<forall>pp \<in> set pps. pp_peak_usage pp div 2 < pp_current_usage pp" "mx = cur"
  shows "fst (fold concurrent_step pps (mx, cur)) = cur + 1024 * length pps"
  using assms by (induction pps arbitrary: mx cur) (simp_all add: concurrent_step_def Let_def)

lemma plan_no_locations: "fold (plan_step u) xs (ps, []) = (ps, [])"
  by (induction xs) (auto simp: plan_step_def farthest_def)

section \<open>Properties\<close>

text \<open>
  C13: \<open>SynctokenManager::validate\<close> is exact. After any sequence of its operations it accepts iff every
  recorded wait on a token lies strictly after the position last signalled for that token. Ids that
  \<open>allocate\<close> hands out again do not disturb this.
\<close>

theorem token_trace_valid:
  "tm_validate (fold token_step es tm_reset) \<longleftrightarrow>
     (\<forall>i w. Await i w \<in> set es \<longrightarrow> (\<exists>p. last_signal es i = Some p \<and> p < w))"
proof -
  have "token_step = (\<lambda>e. case e of Allocate \<Rightarrow> (\<lambda>m. snd (tm_allocate m)) | Reuse i \<Rightarrow> tm_reuse i
       | Signal i p nm \<Rightarrow> tm_signal i p nm | Await i p \<Rightarrow> tm_wait i p)"
    by (rule ext) (simp add: token_step_def)
  with tl.trace_ok [OF tm_reset_start, of es] show ?thesis by simp
qed

theorem token_trace_valid_witness:
  "tm_validate (fold token_step [Allocate, Signal 17 3 [], Await 17 5] tm_reset) \<and>
   \<not> tm_validate (fold token_step [Allocate, Await 17 5, Signal 17 6 []] tm_reset)"
  using token_trace_valid [of "[Allocate, Signal 17 3 [], Await 17 5]"]
    token_trace_valid [of "[Allocate, Await 17 5, Signal 17 6 []]"]
  by (simp add: last_signal_def)



text \<open>
  The spill scheduler. Its table of tensor locations is never filled, so it plans no spill for
  any run list and scratchpad; and its estimate of the buffer is \<open>1024\<close> bytes for each operation of
  the run list, for every length below \<open>2 ^ 50\<close>: the unsigned arithmetic does not wrap and the
  decreasing branch of the estimate is never taken.
\<close>

lemma scheduler_behaviour:
  assumes "n < 2 ^ 50"
  shows "spill_plan n vtcm = [] \<and> min_buffer_size n = 1024 * n"
proof -
  have "compute_pressure_curve n = map (\<lambda>k. \<lparr>pp_op_index = 0 + k, pp_current_usage = 0 + 1024 + 512 * k,
      pp_peak_usage = 0 + 1024 + 512 * k\<rparr>) [0..<n]"
    unfolding compute_pressure_curve_def by (rule pressure_loop_steady) (use assms in simp_all)
  then have c: "\<forall>pp \<in> set (compute_pressure_curve n). pp_peak_usage pp div 2 < pp_current_usage pp"
    "length (compute_pressure_curve n) = n" by auto
  have "fst (fold concurrent_step (compute_pressure_curve n) (0, 0)) = 1024 * n"
    using concurrent_all_high [OF c(1) refl, of 0] c(2) by simp
  then have "min_buffer_size n = 1024 * n" by (simp add: min_buffer_size_def)
  then show ?thesis by (simp add: spill_plan_def plan_no_locations Let_def)
qed

lemma scheduler_behaviour_witness: "spill_plan 10 1024 = [] \<and> min_buffer_size 10 = 10240"
  using scheduler_behaviour [of 10 1024] by simp

end
