(* ===== verification/CpAdapters.thy ===== *)
theory CpAdapters
  imports CpSolve LifetimeAlloc
begin

text \<open>
  The adapters around the CP oracle (last section of \<open>compiler/src/vtcm/cp_solver.cpp\<close>): options from
  the environment, a problem from allocation requests, and the two channels back, allocation results
  and spill/fill plans.

  The environment is a function from names to values. \<open>strtoull\<close> with base 0 is modelled on
  character lists (white space, sign, octal and hexadecimal prefixes, range error). The slack added
  to the compute budget is a product of doubles; it is the parameter \<open>slack_w\<close>, a function of the
  sum of the costs. \<open>kUnplaced\<close> is \<open>None\<close>, as in the theory of the solver.
\<close>

section \<open>Numbers from the environment\<close>

definition digit_value :: "char \<Rightarrow> nat" where
  "digit_value c =
     (let k = (of_char c :: nat)
      in if 48 \<le> k \<and> k \<le> 57 then k - 48
         else if 65 \<le> k \<and> k \<le> 90 then k - 55
         else if 97 \<le> k \<and> k \<le> 122 then k - 87 else 99)"

definition is_space :: "char \<Rightarrow> bool" where
  "is_space c \<longleftrightarrow> (of_char c :: nat) \<in> {9, 10, 11, 12, 13, 32}"

definition horner :: "nat \<Rightarrow> nat list \<Rightarrow> nat" where
  "horner b ds = foldl (\<lambda>v d. v * b + d) 0 ds"

text \<open>The digits of a number after its sign, and their base.\<close>

definition base_digits :: "string \<Rightarrow> nat \<times> nat list" where
  "base_digits s =
     (let run = (\<lambda>b r. map digit_value (takeWhile (\<lambda>c. digit_value c < b) r))
      in case s of
           c # r \<Rightarrow>
             if digit_value c = 0
             then (case r of
                     x # h \<Rightarrow> if digit_value x = 33 \<and> run 16 h \<noteq> [] then (16, run 16 h) else (8, run 8 s)
                   | [] \<Rightarrow> (8, run 8 s))
             else (10, run 10 s)
         | [] \<Rightarrow> (10, []))"

text \<open>\<open>None\<close> when nothing was converted or the value is out of range; a minus sign negates modulo \<open>2 ^ 64\<close>.\<close>

definition strtoull :: "string \<Rightarrow> nat option" where
  "strtoull s =
     (let r = dropWhile is_space s;
          neg = (r \<noteq> [] \<and> hd r = CHR ''-'');
          r1 = (if r \<noteq> [] \<and> (hd r = CHR ''-'' \<or> hd r = CHR ''+'') then tl r else r);
          (b, ds) = base_digits r1; v = horner b ds
      in if ds = [] \<or> 2 ^ 64 \<le> v then None
         else Some (if neg then (2 ^ 64 - v) mod 2 ^ 64 else v))"

definition env_u64 :: "(string \<Rightarrow> string option) \<Rightarrow> string \<Rightarrow> nat option" where
  "env_u64 env nm = (case env nm of None \<Rightarrow> None | Some s \<Rightarrow> if s = [] then None else strtoull s)"

section \<open>Options\<close>

definition mode_name :: "cp_mode \<Rightarrow> string" where
  "mode_name md = (case md of PAGING_ONLY \<Rightarrow> ''cp-paging'' | REMAT_ONLY \<Rightarrow> ''cp-remat'' | SEQ_ONLY \<Rightarrow> ''cp-seq''
     | FULL \<Rightarrow> ''cp'')"

definition select_mode :: "string \<Rightarrow> cp_options option" where
  "select_mode sel =
     (if sel = ''cp'' then Some (default_options\<lparr>co_mode := FULL\<rparr>)
      else if sel = ''cp-paging'' then Some (default_options\<lparr>co_mode := PAGING_ONLY\<rparr>)
      else if sel = ''cp-remat'' then Some (default_options\<lparr>co_mode := REMAT_ONLY\<rparr>)
      else if sel = ''cp-seq'' then Some (default_options\<lparr>co_mode := SEQ_ONLY\<rparr>)
      else if sel = ''cp-reorder'' then Some (default_options\<lparr>co_mode := FULL, co_respect_topo_order := False\<rparr>)
      else None)"

definition with_limit :: "nat option \<Rightarrow> (nat \<Rightarrow> cp_options \<Rightarrow> cp_options) \<Rightarrow> cp_options \<Rightarrow> cp_options" where
  "with_limit u f opts = (case u of None \<Rightarrow> opts | Some v \<Rightarrow> if 0 < v then f v opts else opts)"

definition select_cost :: "string option \<Rightarrow> cp_options \<Rightarrow> cp_options" where
  "select_cost cm opts =
     (case cm of
        None \<Rightarrow> opts
      | Some s \<Rightarrow>
          if s = ''uniform'' then opts\<lparr>co_cost_model := UNIFORM\<rparr>
          else if s = ''bytes'' then opts\<lparr>co_cost_model := BYTES\<rparr>
          else if s = ''table'' then opts\<lparr>co_cost_model := COST_TABLE\<rparr> else opts)"

definition parse_cp_options_from_env :: "(string \<Rightarrow> string option) \<Rightarrow> cp_options option" where
  "parse_cp_options_from_env env =
     (case env ''HNNX_VTCM_ALLOCATOR'' of
        None \<Rightarrow> None
      | Some sel \<Rightarrow>
          if sel = [] \<or> sel = ''fancy'' then None
          else case select_mode sel of
            None \<Rightarrow> None
          | Some o0 \<Rightarrow>
              let o1 = with_limit (env_u64 env ''HNNX_CP_NODE_LIMIT'') (\<lambda>u opts. opts\<lparr>co_node_limit := u\<rparr>) o0;
                  o2 = with_limit (env_u64 env ''HNNX_CP_TIME_LIMIT_MS'')
                         (\<lambda>u opts. opts\<lparr>co_time_limit_ms := u mod 2 ^ 32\<rparr>) o1;
                  o3 = with_limit (env_u64 env ''HNNX_CP_MAX_NODES'')
                         (\<lambda>u opts. opts\<lparr>co_max_exact_nodes := u mod 2 ^ 32\<rparr>) o2;
                  o4 = select_cost (env ''HNNX_CP_COST_MODEL'') o3
              in Some (o4\<lparr>co_objective := mode_objective (co_mode o4)\<rparr>))"

section \<open>Problems from requests\<close>

definition request_tensor :: "cp_options \<Rightarrow> alloc_request \<Rightarrow> cp_tensor" where
  "request_tensor opts r =
     \<lparr>ct_id = ar_op_id r, ct_m = ar_size r,
      ct_w = (case co_cost_model opts of UNIFORM \<Rightarrow> 1
              | _ \<Rightarrow> 1 + (if ar_size r \<noteq> 0 then (ar_size r - 1) div 2048 else 0)),
      ct_C = co_C_default opts, ct_no_remat = False\<rparr>"

fun add_requests ::
  "cp_options \<Rightarrow> alloc_request list \<Rightarrow> cp_tensor list \<Rightarrow> (op_id \<times> nat) list \<Rightarrow> cp_tensor list \<times> (op_id \<times> nat) list"
where
  "add_requests opts [] nodes idx = (nodes, idx)"
| "add_requests opts (r # rs) nodes idx =
     (if map_of idx (ar_op_id r) \<noteq> None then add_requests opts rs nodes idx
      else add_requests opts rs (nodes @ [request_tensor opts r]) (AList.update (ar_op_id r) (length nodes) idx))"

definition index_edge :: "(op_id \<times> nat) list \<Rightarrow> op_id \<times> op_id \<Rightarrow> (nat \<times> nat) option" where
  "index_edge idx = (\<lambda>(i, j).
     case (map_of idx i, map_of idx j) of
       (Some a, Some b) \<Rightarrow> if a = b then None else Some (a, b)
     | _ \<Rightarrow> None)"

definition build_problem_from_requests ::
  "(nat \<Rightarrow> nat) \<Rightarrow> alloc_request list \<Rightarrow> (op_id \<times> op_id) list \<Rightarrow> bytes \<Rightarrow> op_id list \<Rightarrow> cp_options \<Rightarrow> cp_problem"
where
  "build_problem_from_requests slack_w requests edges budget topo opts =
     (let (nodes, idx) = add_requests opts requests [] [];
          sum_w = sum_list (map ct_w nodes);
          W = (sum_w + slack_w sum_w) mod 2 ^ 64
      in \<lparr>cp_nodes = nodes, cp_edges = List.map_filter (index_edge idx) edges, cp_M = budget,
          cp_W = (if W < sum_w then sum_w else W), cp_topo_hint = topo\<rparr>)"

section \<open>Results\<close>

fun results_loop :: "(cp_tensor \<times> cp_segment \<times> cp_segment) list \<Rightarrow> nat \<Rightarrow> alloc_map \<Rightarrow> alloc_map" where
  "results_loop [] block out = out"
| "results_loop ((t, s0, s1) # xs) block out =
     (case sg_vtcm_offset s0 of
        None \<Rightarrow> results_loop xs block
          (AList.update (ct_id t) \<lparr>res_offset = 0, res_block_id = 0, res_spilled = True\<rparr> out)
      | Some off \<Rightarrow> results_loop xs (block + 1)
          (AList.update (ct_id t) \<lparr>res_offset = off, res_block_id = block, res_spilled = False\<rparr> out))"

definition to_alloc_results :: "cp_solution \<Rightarrow> cp_problem \<Rightarrow> alloc_map" where
  "to_alloc_results sol p =
     (if length (so_segments sol) \<noteq> length (cp_nodes p) then []
      else results_loop (zip (cp_nodes p) (so_segments sol)) 1 [])"

record cp_plan =
  pn_spill_position :: nat
  pn_fill_position :: nat
  pn_vtcm_offset :: bytes
  pn_vtcm_offset_spill :: bytes
  pn_ddr_offset :: bytes
  pn_size :: bytes
  pn_double_buffered :: bool
  pn_op_id :: op_id

definition raw_preds :: "cp_problem \<Rightarrow> nat \<Rightarrow> nat list" where
  "raw_preds p v = map fst (filter (\<lambda>e. snd e = v) (cp_edges p))"

text \<open>The consumptions \<open>(slot, consumer)\<close> of a node in the order of the sequence.\<close>

definition consumptions :: "cp_problem \<Rightarrow> cp_solution \<Rightarrow> nat \<Rightarrow> (nat \<times> nat) list" where
  "consumptions p sol v =
     concat (map (\<lambda>t.
         if tk_kind t \<noteq> COMPUTE \<and> tk_kind t \<noteq> REMAT then []
         else case node_idx p (tk_v t) of
           None \<Rightarrow> []
         | Some c \<Rightarrow> map (\<lambda>u. (tk_slot t, c)) (filter (\<lambda>u. u = v) (raw_preds p c)))
       (so_seq sol))"

definition pick :: "(nat \<Rightarrow> nat \<Rightarrow> bool) \<Rightarrow> (nat \<times> nat) list \<Rightarrow> (nat \<times> nat) option" where
  "pick better cs =
     foldl (\<lambda>acc c. case acc of None \<Rightarrow> Some c | Some a \<Rightarrow> if better (fst c) (fst a) then Some c else acc) None cs"

definition topo_pos :: "cp_problem \<Rightarrow> op_id \<Rightarrow> nat" where
  "topo_pos p i =
     (case map_of (rev (zip (cp_topo_hint p) [0..<length (cp_topo_hint p)])) i of None \<Rightarrow> 0 | Some k \<Rightarrow> k)"

definition node_plan :: "cp_solution \<Rightarrow> cp_problem \<Rightarrow> nat \<Rightarrow> cp_plan option" where
  "node_plan sol p v =
     (let (s0, s1) = so_segments sol ! v; cs = consumptions p sol v
      in if \<not> sg_spill_end s0 \<or> \<not> sg_active s1 \<or> \<not> sg_fill_start s1 then None
         else case (pick (\<lambda>a b. b < a) (filter (\<lambda>c. fst c \<le> sg_e s0) cs),
                    pick (\<lambda>a b. a < b) (filter (\<lambda>c. sg_s s1 \<le> fst c) cs)) of
           (Some last0, Some first1) \<Rightarrow>
             Some \<lparr>pn_spill_position = topo_pos p (ct_id (cp_nodes p ! snd last0)),
                   pn_fill_position = topo_pos p (ct_id (cp_nodes p ! snd first1)),
                   pn_vtcm_offset = (case sg_vtcm_offset s1 of None \<Rightarrow> 0 | Some off \<Rightarrow> off),
                   pn_vtcm_offset_spill = (case sg_vtcm_offset s0 of None \<Rightarrow> 0 | Some off \<Rightarrow> off),
                   pn_ddr_offset = sg_ddr_offset s0, pn_size = ct_m (cp_nodes p ! v),
                   pn_double_buffered = False, pn_op_id = ct_id (cp_nodes p ! v)\<rparr>
         | _ \<Rightarrow> None)"

definition to_spill_fill_plans :: "cp_solution \<Rightarrow> cp_problem \<Rightarrow> cp_plan list" where
  "to_spill_fill_plans sol p =
     (if length (so_segments sol) \<noteq> length (cp_nodes p) then []
      else List.map_filter (node_plan sol p) [0..<length (cp_nodes p)])"

section \<open>Lemmas\<close>

definition idx_ok :: "cp_tensor list \<Rightarrow> (op_id \<times> nat) list \<Rightarrow> bool" where
  "idx_ok nodes idx \<longleftrightarrow> distinct (map ct_id nodes) \<and> (\<forall>t \<in> set nodes. 1 \<le> ct_w t) \<and>
     (\<forall>i k. map_of idx i = Some k \<longleftrightarrow> k < length nodes \<and> ct_id (nodes ! k) = i)"

lemma idx_ok_push:
  assumes ok: "idx_ok nodes idx" and new: "map_of idx (ar_op_id r) = None"
  shows "idx_ok (nodes @ [request_tensor opts r]) (AList.update (ar_op_id r) (length nodes) idx)"
proof -
  have "ct_id (nodes ! k) \<noteq> ar_op_id r" if "k < length nodes" for k
    using ok new that unfolding idx_ok_def by (metis option.distinct(1))
  moreover from this have "ar_op_id r \<notin> ct_id ` set nodes" by (metis imageE in_set_conv_nth)
  ultimately show ?thesis
    using ok unfolding idx_ok_def
    by (auto simp: update_conv' nth_append request_tensor_def less_Suc_eq split: cost_model.splits)
qed

lemma add_requests_ok:
  assumes "idx_ok nodes idx" "add_requests opts rs nodes idx = (nodes', idx')"
  shows "idx_ok nodes' idx' \<and> set (map ct_id nodes') = set (map ct_id nodes) \<union> ar_op_id ` set rs \<and>
    set nodes' \<subseteq> set nodes \<union> request_tensor opts ` set rs"
  using assms
proof (induction opts rs nodes idx rule: add_requests.induct)
  case (2 opts r rs nodes idx)
  show ?case
  proof (cases "map_of idx (ar_op_id r)")
    case None
    with 2 idx_ok_push [OF 2(3) None, of opts] show ?thesis by (auto simp: request_tensor_def)
  next
    case (Some k)
    then have "k < length nodes" "ct_id (nodes ! k) = ar_op_id r" using 2(3) by (simp_all add: idx_ok_def)
    then have "ar_op_id r \<in> ct_id ` set nodes" by (metis image_eqI nth_mem)
    with 2 Some show ?thesis by auto
  qed
qed simp

lemma idx_ok_Nil: "idx_ok [] []"
  by (simp add: idx_ok_def)

lemma results_loop_other:
  "i \<notin> (\<lambda>x. ct_id (fst x)) ` set xs \<Longrightarrow> map_of (results_loop xs b out) i = map_of out i"
  by (induction xs b out rule: results_loop.induct) (auto simp: update_conv' split: option.splits)

lemma results_loop_at:
  assumes "distinct (map ct_id (map fst xs))" "k < length xs"
  shows "\<exists>r. map_of (results_loop xs b out) (ct_id (fst (xs ! k))) = Some r \<and>
    (case sg_vtcm_offset (fst (snd (xs ! k))) of None \<Rightarrow> res_spilled r
     | Some off \<Rightarrow> \<not> res_spilled r \<and> res_offset r = off)"
  using assms
proof (induction xs b out arbitrary: k rule: results_loop.induct)
  case (2 t s0 s1 xs block out)
  have out: "map_of (results_loop xs b' out') (ct_id t) = map_of out' (ct_id t)" for b' out'
    by (rule results_loop_other) (use 2(3) in auto)
  show ?case
  proof (cases k)
    case 0
    then show ?thesis by (simp add: out update_conv' split: option.split)
  next
    case (Suc l)
    then show ?thesis
      using 2(1) [of l] 2(2) [of _ l] 2(3,4) by (cases "sg_vtcm_offset s0") auto
  qed
qed simp

lemma pick_best:
  assumes trans: "\<And>a b c :: nat. \<not> better a b \<Longrightarrow> \<not> better b c \<Longrightarrow> \<not> better a c"
    and asym: "\<And>a b :: nat. better a b \<Longrightarrow> \<not> better b a"
    and "pick better cs = Some x"
  shows "x \<in> set cs \<and> (\<forall>c \<in> set cs. \<not> better (fst c) (fst x))"
  using assms(3)
proof (induction cs arbitrary: x rule: rev_induct)
  case (snoc c cs)
  show ?case
  proof (cases "pick better cs")
    case None
    have "pick better ds = None \<Longrightarrow> ds = []" for ds
      by (induction ds rule: rev_induct) (auto simp: pick_def split: option.splits if_splits)
    with None have "cs = []" by blast
    with snoc.prems asym show ?thesis by (auto simp: pick_def)
  next
    case (Some a)
    from snoc.IH [OF Some] have a: "a \<in> set cs" "\<forall>c \<in> set cs. \<not> better (fst c) (fst a)" by auto
    have "x = (if better (fst c) (fst a) then c else a)"
      using snoc.prems Some by (auto simp: pick_def)
    then consider "x = c" "better (fst c) (fst a)" | "x = a" "\<not> better (fst c) (fst a)" by presburger
    then show ?thesis
    proof cases
      case 1
      have "\<not> better (fst d) (fst c)" if "d \<in> set cs" for d
        using trans [of "fst d" "fst a" "fst c"] a(2) asym [OF 1(2)] that by blast
      then show ?thesis using 1 asym by auto
    next
      case 2
      then show ?thesis using a by auto
    qed
  qed
qed (simp add: pick_def)

lemma disjoint_ranges_sum:
  assumes "finite V" "\<And>v. v \<in> V \<Longrightarrow> a v + m v \<le> (A :: nat)"
    and "\<And>v w. v \<in> V \<Longrightarrow> w \<in> V \<Longrightarrow> v \<noteq> w \<Longrightarrow> range_disj (a v) (a v + m v) (a w) (a w + m w)"
  shows "(\<Sum>v \<in> V. m v) \<le> A"
proof -
  have "(\<Sum>v \<in> V. m v) = (\<Sum>v \<in> V. card {a v..<a v + m v})" by simp
  also have "\<dots> = card (\<Union>v \<in> V. {a v..<a v + m v})"
    using assms(1,3) by (intro card_UN_disjoint [symmetric]) (auto simp: range_disj_def, fastforce)
  also have "\<dots> \<le> card {0..<A}"
    by (rule card_mono) (use assms(2) in fastforce)+
  finally show ?thesis by simp
qed

lemma node_plan_SomeD:
  assumes "node_plan sol p v = Some pl"
  obtains s0 s1 c0 c1 where "so_segments sol ! v = (s0, s1)" "sg_spill_end s0" "sg_active s1" "sg_fill_start s1"
    "pn_op_id pl = ct_id (cp_nodes p ! v)" "pn_size pl = ct_m (cp_nodes p ! v)" "pn_ddr_offset pl = sg_ddr_offset s0"
    "pn_spill_position pl = topo_pos p (ct_id (cp_nodes p ! snd c0))"
    "pn_fill_position pl = topo_pos p (ct_id (cp_nodes p ! snd c1))"
    "c0 \<in> set (consumptions p sol v)" "fst c0 \<le> sg_e s0"
    "\<And>c. c \<in> set (consumptions p sol v) \<Longrightarrow> fst c \<le> sg_e s0 \<Longrightarrow> fst c \<le> fst c0"
    "c1 \<in> set (consumptions p sol v)" "sg_s s1 \<le> fst c1"
    "\<And>c. c \<in> set (consumptions p sol v) \<Longrightarrow> sg_s s1 \<le> fst c \<Longrightarrow> fst c1 \<le> fst c"
proof -
  obtain s0 s1 where s: "so_segments sol ! v = (s0, s1)" by fastforce
  obtain c0 c1 where c: "pick (\<lambda>a b. b < a) (filter (\<lambda>c. fst c \<le> sg_e s0) (consumptions p sol v)) = Some c0"
    "pick (\<lambda>a b. a < b) (filter (\<lambda>c. sg_s s1 \<le> fst c) (consumptions p sol v)) = Some c1"
    using assms s by (auto simp: node_plan_def Let_def split: if_splits option.splits)
  have b0: "c0 \<in> set (consumptions p sol v)" "fst c0 \<le> sg_e s0"
    "\<And>c. c \<in> set (consumptions p sol v) \<Longrightarrow> fst c \<le> sg_e s0 \<Longrightarrow> fst c \<le> fst c0"
    using pick_best [OF _ _ c(1)] by (auto simp: not_less)
  have b1: "c1 \<in> set (consumptions p sol v)" "sg_s s1 \<le> fst c1"
    "\<And>c. c \<in> set (consumptions p sol v) \<Longrightarrow> sg_s s1 \<le> fst c \<Longrightarrow> fst c1 \<le> fst c"
    using pick_best [OF _ _ c(2)] by (auto simp: not_less)
  show ?thesis
    by (rule that [OF s _ _ _ _ _ _ _ _ b0 b1]) (use assms s c in \<open>auto simp: node_plan_def Let_def split: if_splits\<close>)
qed

lemma feasible_seg0:
  assumes "so_feasible (solve late p opts)" "v < cp_n p"
  shows "length (so_segments (solve late p opts)) = cp_n p" "sg_active (seg (so_segments (solve late p opts)) v 0)"
proof -
  have v: "length (so_segments (solve late p opts)) = cp_n p" "seg_valid p (solve late p opts) v"
    using feasible_cp_valid [OF assms(1)] assms(2) by (simp_all add: cp_valid_def)
  then show "length (so_segments (solve late p opts)) = cp_n p" "sg_active (seg (so_segments (solve late p opts)) v 0)"
    by (simp_all add: seg_valid_def seg_def Let_def split: prod.splits)
qed

lemma placement_okD:
  assumes "placement_ok p s" "v < length (so_segments s)" "i < 2" "sg_active (seg (so_segments s) v i)"
    "sg_vtcm_offset (seg (so_segments s) v i) = Some o1"
  shows "o1 + ct_m (cp_nodes p ! v) \<le> cp_M p"
    "w < length (so_segments s) \<Longrightarrow> j < 2 \<Longrightarrow> (w, j) \<noteq> (v, i) \<Longrightarrow> sg_active (seg (so_segments s) w j) \<Longrightarrow>
     sg_vtcm_offset (seg (so_segments s) w j) = Some o2 \<Longrightarrow>
     life_meet (sg_s (seg (so_segments s) v i)) (sg_e (seg (so_segments s) v i))
       (sg_s (seg (so_segments s) w j)) (sg_e (seg (so_segments s) w j)) \<Longrightarrow>
     range_disj o1 (o1 + ct_m (cp_nodes p ! v)) o2 (o2 + ct_m (cp_nodes p ! w))"
  using assms unfolding placement_ok_def by blast+

lemma set_map_filter_iff: "x \<in> set (List.map_filter f xs) \<longleftrightarrow> (\<exists>y \<in> set xs. f y = Some x)"
  by (force simp: List.map_filter_def)

lemma index_edge_Some:
  "index_edge idx (i, j) = Some (u, v) \<longleftrightarrow> map_of idx i = Some u \<and> map_of idx j = Some v \<and> u \<noteq> v"
  by (auto simp: index_edge_def split: option.splits if_splits)

lemma to_alloc_results_at:
  assumes "length (so_segments sol) = cp_n p" "distinct (map ct_id (cp_nodes p))" "v < cp_n p"
  shows "\<exists>r. map_of (to_alloc_results sol p) (ct_id (cp_nodes p ! v)) = Some r \<and>
    (case sg_vtcm_offset (seg (so_segments sol) v 0) of None \<Rightarrow> res_spilled r
     | Some off \<Rightarrow> \<not> res_spilled r \<and> res_offset r = off)"
  using results_loop_at [of "zip (cp_nodes p) (so_segments sol)" v 1 "[]"] assms
  by (simp add: to_alloc_results_def cp_n_def seg_def)

definition options_ok :: "cp_mode \<Rightarrow> cp_options \<Rightarrow> bool" where
  "options_ok md opts \<longleftrightarrow> co_mode opts = md \<and> co_respect_topo_order opts \<and> 0 < co_node_limit opts \<and>
     co_time_limit_ms opts < 2 ^ 32 \<and> co_max_exact_nodes opts < 2 ^ 32"

lemma options_ok_limit:
  "options_ok md opts \<Longrightarrow> (\<And>v. 0 < v \<Longrightarrow> options_ok md opts \<Longrightarrow> options_ok md (f v opts)) \<Longrightarrow> options_ok md (with_limit u f opts)"
  by (simp add: with_limit_def split: option.split)

lemma options_ok_cost: "options_ok md opts \<Longrightarrow> options_ok md (select_cost cm opts)"
  by (simp add: select_cost_def options_ok_def split: option.split)

text \<open>A plan describes node \<open>v\<close> of the solution.\<close>

definition plan_of :: "cp_solution \<Rightarrow> cp_problem \<Rightarrow> nat \<Rightarrow> cp_plan \<Rightarrow> bool" where
  "plan_of sol p v pl \<longleftrightarrow>
     (let (s0, s1) = so_segments sol ! v; cs = set (consumptions p sol v)
      in pn_op_id pl = ct_id (cp_nodes p ! v) \<and> pn_size pl = ct_m (cp_nodes p ! v) \<and>
         sg_spill_end s0 \<and> sg_fill_start s1 \<and>
         pn_ddr_offset pl = sg_ddr_offset s0 \<and> pn_ddr_offset pl = sg_ddr_offset s1 \<and>
         pn_ddr_offset pl + pn_size pl \<le> so_ddr_arena_used sol \<and>
         (\<exists>c \<in> cs. pn_spill_position pl = topo_pos p (ct_id (cp_nodes p ! snd c)) \<and> fst c \<le> sg_e s0 \<and>
            (\<forall>d \<in> cs. fst d \<le> sg_e s0 \<longrightarrow> fst d \<le> fst c)) \<and>
         (\<exists>c \<in> cs. pn_fill_position pl = topo_pos p (ct_id (cp_nodes p ! snd c)) \<and> sg_s s1 \<le> fst c \<and>
            (\<forall>d \<in> cs. sg_s s1 \<le> fst d \<longrightarrow> fst c \<le> fst d)))"

lemma node_plan_of:
  assumes "node_plan sol p v = Some pl" "seg_valid p sol v" "arena_ok p sol" "v < length (so_segments sol)"
  shows "plan_of sol p v pl"
proof -
  from assms(1) obtain s0 s1 c0 c1 where s: "so_segments sol ! v = (s0, s1)" "sg_spill_end s0" "sg_active s1" "sg_fill_start s1"
    and f: "pn_op_id pl = ct_id (cp_nodes p ! v)" "pn_size pl = ct_m (cp_nodes p ! v)" "pn_ddr_offset pl = sg_ddr_offset s0"
    and p0: "pn_spill_position pl = topo_pos p (ct_id (cp_nodes p ! snd c0))" "c0 \<in> set (consumptions p sol v)"
      "fst c0 \<le> sg_e s0" "\<And>c. c \<in> set (consumptions p sol v) \<Longrightarrow> fst c \<le> sg_e s0 \<Longrightarrow> fst c \<le> fst c0"
    and p1: "pn_fill_position pl = topo_pos p (ct_id (cp_nodes p ! snd c1))" "c1 \<in> set (consumptions p sol v)"
      "sg_s s1 \<le> fst c1" "\<And>c. c \<in> set (consumptions p sol v) \<Longrightarrow> sg_s s1 \<le> fst c \<Longrightarrow> fst c1 \<le> fst c"
    by (rule node_plan_SomeD) blast
  have "sg_ddr_offset s1 = sg_ddr_offset s0" using assms(2) s by (simp add: seg_valid_def Let_def)
  moreover have "sg_ddr_offset s0 + ct_m (cp_nodes p ! v) \<le> so_ddr_arena_used sol"
    using assms(3,4) s unfolding arena_ok_def by (auto simp: seg_def dest!: spec [of _ v])
  moreover have "\<exists>c \<in> set (consumptions p sol v). pn_spill_position pl = topo_pos p (ct_id (cp_nodes p ! snd c)) \<and>
      fst c \<le> sg_e s0 \<and> (\<forall>d \<in> set (consumptions p sol v). fst d \<le> sg_e s0 \<longrightarrow> fst d \<le> fst c)"
    using p0 by blast
  moreover have "\<exists>c \<in> set (consumptions p sol v). pn_fill_position pl = topo_pos p (ct_id (cp_nodes p ! snd c)) \<and>
      sg_s s1 \<le> fst c \<and> (\<forall>d \<in> set (consumptions p sol v). sg_s s1 \<le> fst d \<longrightarrow> fst c \<le> fst d)"
    using p1 by blast
  ultimately show ?thesis unfolding plan_of_def s(1) prod.case Let_def using s f by (simp only: simp_thms)
qed

lemma plan_sizes_arena:
  assumes "arena_ok p sol" "length (so_segments sol) = n"
  shows "sum_list (map pn_size (List.map_filter (node_plan sol p) [0..<n])) \<le> so_ddr_arena_used sol"
proof -
  let ?V = "{v \<in> {0..<n}. node_plan sol p v \<noteq> None}"
  let ?a = "\<lambda>v. sg_ddr_offset (seg (so_segments sol) v 0)"
  have pn: "pn_size (the (node_plan sol p v)) = ct_m (cp_nodes p ! v)" "sg_spill_end (seg (so_segments sol) v 0)"
    if mem: "v \<in> ?V" for v
  proof -
    obtain pl where pl: "node_plan sol p v = Some pl" using mem by auto
    then show "pn_size (the (node_plan sol p v)) = ct_m (cp_nodes p ! v)" "sg_spill_end (seg (so_segments sol) v 0)"
      by (auto elim!: node_plan_SomeD simp: seg_def)
  qed
  have "sum_list (map pn_size (List.map_filter (node_plan sol p) [0..<n])) = (\<Sum>v \<in> ?V. pn_size (the (node_plan sol p v)))"
    by (simp add: List.map_filter_def comp_def sum_list_distinct_conv_sum_set)
  also have "\<dots> = (\<Sum>v \<in> ?V. ct_m (cp_nodes p ! v))" by (rule sum.cong) (use pn in auto)
  also have "\<dots> \<le> so_ddr_arena_used sol"
    by (rule disjoint_ranges_sum [where a = ?a])
      (use assms pn(2) in \<open>auto simp: arena_ok_def\<close>)
  finally show ?thesis .
qed

lemma plans_in_arena:
  assumes "so_feasible (solve late p opts)"
  shows "sum_list (map pn_size (to_spill_fill_plans (solve late p opts) p)) \<le> so_ddr_arena_used (solve late p opts)"
proof -
  have len: "length (so_segments (solve late p opts)) = cp_n p"
    using feasible_cp_valid [OF assms] by (simp add: cp_valid_def)
  with plan_sizes_arena [OF extracted_ok(2) [OF solve_extracted] len] show ?thesis
    by (simp add: to_spill_fill_plans_def cp_n_def)
qed

section \<open>Properties\<close>

text \<open>
  The selector names that \<open>mode_name\<close> prints are read back as the same mode, with the objective
  that belongs to it and the topological order respected. A limit from the environment never makes
  the node limit zero, and the two 32-bit limits stay within their width, whatever the variables hold.
\<close>

lemma parse_mode_name:
  assumes "env ''HNNX_VTCM_ALLOCATOR'' = Some (mode_name md)"
  shows "\<exists>opts. parse_cp_options_from_env env = Some opts \<and> co_mode opts = md \<and>
    co_objective opts = mode_objective md \<and> co_respect_topo_order opts \<and> 0 < co_node_limit opts \<and>
    co_time_limit_ms opts < 2 ^ 32 \<and> co_max_exact_nodes opts < 2 ^ 32"
proof -
  define o0 where "o0 = default_options\<lparr>co_mode := md\<rparr>"
  have sel: "mode_name md \<noteq> []" "mode_name md \<noteq> ''fancy''" "select_mode (mode_name md) = Some o0"
    by (cases md; simp add: mode_name_def select_mode_def o0_def)+
  have "options_ok md o0" by (simp add: options_ok_def o0_def default_options_def)
  then have "options_ok md (select_cost (env ''HNNX_CP_COST_MODEL'') (with_limit (env_u64 env ''HNNX_CP_MAX_NODES'')
        (\<lambda>u opts. opts\<lparr>co_max_exact_nodes := u mod 2 ^ 32\<rparr>) (with_limit (env_u64 env ''HNNX_CP_TIME_LIMIT_MS'')
        (\<lambda>u opts. opts\<lparr>co_time_limit_ms := u mod 2 ^ 32\<rparr>) (with_limit (env_u64 env ''HNNX_CP_NODE_LIMIT'')
        (\<lambda>u opts. opts\<lparr>co_node_limit := u\<rparr>) o0))))" (is "options_ok md ?o4")
    by (intro options_ok_cost options_ok_limit) (simp_all add: options_ok_def)
  moreover have "parse_cp_options_from_env env = Some (?o4\<lparr>co_objective := mode_objective (co_mode ?o4)\<rparr>)"
    by (simp add: parse_cp_options_from_env_def assms sel Let_def)
  ultimately show ?thesis by (simp add: options_ok_def)
qed

lemma parse_mode_name_witness:
  "\<exists>opts. parse_cp_options_from_env (\<lambda>nm. if nm = ''HNNX_VTCM_ALLOCATOR'' then Some ''cp-remat'' else None) = Some opts \<and>
     co_mode opts = REMAT_ONLY \<and> co_objective opts = TOTAL_COMPUTE"
  using parse_mode_name [of "\<lambda>nm. if nm = ''HNNX_VTCM_ALLOCATOR'' then Some ''cp-remat'' else None" REMAT_ONLY]
  by (auto simp: mode_name_def mode_objective_def)

text \<open>
  C15: the problem built from requests is well formed, whatever the slack: its nodes are the requested
  ids, each once and with a positive cost; its edges are in range, without self loops, and are exactly
  the given edges between two different requested ids; the compute budget covers one computation of
  every node, so the solver never gives up for lack of it; the capacity is the given budget.
\<close>

theorem build_problem_wf:
  "let p = build_problem_from_requests slack_w requests edges budget topo opts
   in distinct (map ct_id (cp_nodes p)) \<and> ct_id ` set (cp_nodes p) = ar_op_id ` set requests \<and>
      (\<forall>t \<in> set (cp_nodes p). 1 \<le> ct_w t \<and> (\<exists>r \<in> set requests. t = request_tensor opts r)) \<and>
      good_edges p = cp_edges p \<and>
      (\<forall>i j. i \<noteq> j \<longrightarrow>
         ((i, j) \<in> (\<lambda>(u, v). (ct_id (cp_nodes p ! u), ct_id (cp_nodes p ! v))) ` set (cp_edges p) \<longleftrightarrow>
          (i, j) \<in> set edges \<and> i \<in> ar_op_id ` set requests \<and> j \<in> ar_op_id ` set requests)) \<and>
      sum_list (map ct_w (cp_nodes p)) \<le> cp_W p \<and> cp_M p = budget"
proof -
  obtain nodes idx where a: "add_requests opts requests [] [] = (nodes, idx)" by fastforce
  let ?p = "build_problem_from_requests slack_w requests edges budget topo opts"
  have p: "cp_nodes ?p = nodes" "cp_edges ?p = List.map_filter (index_edge idx) edges" "cp_M ?p = budget"
    "sum_list (map ct_w nodes) \<le> cp_W ?p"
    by (simp_all add: build_problem_from_requests_def a Let_def)
  have ok: "idx_ok nodes idx" and ids: "ct_id ` set nodes = ar_op_id ` set requests"
    and sub: "set nodes \<subseteq> request_tensor opts ` set requests"
    using add_requests_ok [OF idx_ok_Nil a] by simp_all
  have m: "map_of idx i = Some k \<longleftrightarrow> k < length nodes \<and> ct_id (nodes ! k) = i" for i k
    using ok by (simp add: idx_ok_def)
  have e: "(u, v) \<in> set (cp_edges ?p) \<longleftrightarrow>
      u < length nodes \<and> v < length nodes \<and> u \<noteq> v \<and> (ct_id (nodes ! u), ct_id (nodes ! v)) \<in> set edges" for u v
    unfolding p(2) set_map_filter_iff by (auto simp: index_edge_Some m split_paired_Bex_Sigma) (auto simp: Bex_def index_edge_Some m)
  have "good_edges ?p = cp_edges ?p"
    unfolding good_edges_def by (rule filter_True) (auto simp: e cp_n_def p(1))
  moreover have "(i, j) \<in> (\<lambda>(u, v). (ct_id (nodes ! u), ct_id (nodes ! v))) ` set (cp_edges ?p) \<longleftrightarrow>
      (i, j) \<in> set edges \<and> i \<in> ct_id ` set nodes \<and> j \<in> ct_id ` set nodes" (is "?l \<longleftrightarrow> ?r") if "i \<noteq> j" for i j
  proof
    assume ?l
    then show ?r by (auto simp: e)
  next
    assume r: ?r
    then obtain u v where uv: "u < length nodes" "i = ct_id (nodes ! u)" "v < length nodes" "j = ct_id (nodes ! v)"
      by (auto simp: in_set_conv_nth)
    then have "(u, v) \<in> set (cp_edges ?p)" using r that by (auto simp: e)
    then show ?l using uv by (auto intro: rev_image_eqI)
  qed
  ultimately show ?thesis
    using ok ids sub p by (auto simp: Let_def idx_ok_def)
qed

theorem build_problem_wf_witness:
  "good_edges (build_problem_from_requests (\<lambda>w. w div 4)
     [\<lparr>ar_op_id = 7, ar_size = 128, ar_life_begin = 0, ar_life_end = 1\<rparr>,
      \<lparr>ar_op_id = 8, ar_size = 64, ar_life_begin = 1, ar_life_end = 2\<rparr>] [(7, 8), (8, 8), (7, 9)] 512 [7, 8] default_options) =
   [(0, 1)]"
proof -
  let ?p = "build_problem_from_requests (\<lambda>w. w div 4)
     [\<lparr>ar_op_id = 7, ar_size = 128, ar_life_begin = 0, ar_life_end = 1\<rparr>,
      \<lparr>ar_op_id = 8, ar_size = 64, ar_life_begin = 1, ar_life_end = 2\<rparr>] [(7, 8), (8, 8), (7, 9)] 512 [7, 8] default_options"
  have "good_edges ?p = cp_edges ?p"
    using build_problem_wf [of "\<lambda>w. w div 4" "[\<lparr>ar_op_id = 7, ar_size = 128, ar_life_begin = 0, ar_life_end = 1\<rparr>,
      \<lparr>ar_op_id = 8, ar_size = 64, ar_life_begin = 1, ar_life_end = 2\<rparr>]" "[(7, 8), (8, 8), (7, 9)]" 512 "[7, 8]" default_options]
    unfolding Let_def by (elim conjE)
  moreover have "cp_edges ?p = [(0, 1)]"
    by (simp add: build_problem_from_requests_def Let_def index_edge_def List.map_filter_def)
  ultimately show ?thesis by simp
qed



text \<open>
  C17: each spill/fill plan of a feasible solution describes a tensor that the solution pages out and
  in again: its size, one DDR range for both ends inside the arena, the spill at the consumer served
  last by the first segment, the fill at the consumer served first by the second one. All plans
  together fit the arena, which is what the later pass checks.
\<close>

theorem plans_sound:
  assumes "so_feasible (solve late p opts)"
  shows "(\<forall>pl \<in> set (to_spill_fill_plans (solve late p opts) p). \<exists>v < cp_n p. plan_of (solve late p opts) p v pl) \<and>
    sum_list (map pn_size (to_spill_fill_plans (solve late p opts) p)) \<le> so_ddr_arena_used (solve late p opts)"
proof -
  let ?s = "solve late p opts"
  have len: "length (so_segments ?s) = cp_n p" and segv: "\<And>v. v < cp_n p \<Longrightarrow> seg_valid p ?s v"
    using feasible_cp_valid [OF assms] by (simp_all add: cp_valid_def)
  have ar: "arena_ok p ?s" by (rule extracted_ok(2) [OF solve_extracted])
  have plans: "to_spill_fill_plans ?s p = List.map_filter (node_plan ?s p) [0..<cp_n p]"
    using len by (simp add: to_spill_fill_plans_def cp_n_def)
  have "\<exists>v < cp_n p. plan_of ?s p v pl" if "pl \<in> set (to_spill_fill_plans ?s p)" for pl
    using that ar len segv unfolding plans set_map_filter_iff by (auto intro!: node_plan_of)
  with plans_in_arena [OF assms] show ?thesis by blast
qed

definition cp_demo_page :: "(nat \<times> nat) list \<Rightarrow> cp_problem" where
  "cp_demo_page es = \<lparr>cp_nodes = map (\<lambda>i. cp_demo_tensor i 1) [0, 1, 2, 3, 4], cp_edges = es,
     cp_M = 3, cp_W = 5, cp_topo_hint = [0, 1, 2, 3, 4]\<rparr>"

definition cp_demo_edges :: "(nat \<times> nat) list" where
  "cp_demo_edges = [(0, 1), (1, 3), (2, 3), (0, 4), (3, 4)]"

lemma cp_demo_page_run:
  "(let s = solve (\<lambda>_. False) (cp_demo_page cp_demo_edges) cp_demo_options; pls = to_spill_fill_plans s (cp_demo_page cp_demo_edges)
    in so_feasible s \<and> map pn_op_id pls = [0] \<and> map pn_vtcm_offset_spill pls = [0] \<and> map pn_vtcm_offset pls = [1] \<and>
       map pn_spill_position pls = [1] \<and> map pn_fill_position pls = [4] \<and> map pn_size pls = [1] \<and>
       so_ddr_arena_used s = 1 \<and> map_option res_offset (map_of (to_alloc_results s (cp_demo_page cp_demo_edges)) 0) = Some 0)"
  by code_simp

theorem plans_sound_witness:
  "\<exists>pl v. pl \<in> set (to_spill_fill_plans (solve (\<lambda>_. False) (cp_demo_page cp_demo_edges) cp_demo_options) (cp_demo_page cp_demo_edges)) \<and>
     v < cp_n (cp_demo_page cp_demo_edges) \<and> plan_of (solve (\<lambda>_. False) (cp_demo_page cp_demo_edges) cp_demo_options) (cp_demo_page cp_demo_edges) v pl"
proof -
  have f: "so_feasible (solve (\<lambda>_. False) (cp_demo_page cp_demo_edges) cp_demo_options)"
    and "to_spill_fill_plans (solve (\<lambda>_. False) (cp_demo_page cp_demo_edges) cp_demo_options) (cp_demo_page cp_demo_edges) \<noteq> []"
    using cp_demo_page_run by (auto simp: Let_def)
  then obtain pl where pl: "pl \<in> set (to_spill_fill_plans (solve (\<lambda>_. False) (cp_demo_page cp_demo_edges) cp_demo_options) (cp_demo_page cp_demo_edges))"
    by (meson list.set_sel(1))
  with plans_sound [OF f] show ?thesis by blast
qed

text \<open>
  A tensor that is paged out before any consumer reads it gets no plan, although the solution
  spills and fills it: the last served consumer of its first segment does not exist.
\<close>

lemma dropped_plan:
  "(let s = solve (\<lambda>_. False) (cp_demo_page [(1, 3), (2, 3), (0, 4), (3, 4)]) cp_demo_options
    in so_feasible s \<and> so_spill_count s = 1 \<and> so_ddr_bytes s = 2 \<and>
       to_spill_fill_plans s (cp_demo_page [(1, 3), (2, 3), (0, 4), (3, 4)]) = [])"
  by code_simp

end
