(* ===== verification/VtcmPlan.thy ===== *)
theory VtcmPlan
  imports CpAdapters GraphDeps DmaPlan
begin

text \<open>
  The planning of the scratchpad in \<open>GraphPrepare\<close> (\<open>compiler/src/ir/graph_prepare.cpp\<close>):
  \<open>vtcm_lifetime_alloc\<close> collects requests from the dependency graph and runs the CP oracle, if the
  environment selects it, or the lifetime allocator; \<open>post_spill_fill_design_pass\<close> replays the plans
  of the oracle through the emitter. This theory composes the components before it.

  The fields of \<open>GraphPrepare\<close> that these functions write form the state; the graph of dependencies,
  the execution order, the usable size of the scratchpad, the environment, the clock of the oracle and
  the slack of its compute budget are arguments. Log output is not modelled.
\<close>

record prepare_state =
  ps_vtcm_allocations :: alloc_map
  ps_cp_active :: bool
  ps_cp_plans :: "cp_plan list"
  ps_cp_solution :: cp_solution
  ps_cp_emitter :: "op_emitter option"

definition cleared_state :: prepare_state where
  "cleared_state = \<lparr>ps_vtcm_allocations = [], ps_cp_active = False, ps_cp_plans = [],
     ps_cp_solution = empty_solution, ps_cp_emitter = None\<rparr>"

section \<open>Requests\<close>

definition request_of :: "dep_op_desc \<Rightarrow> alloc_request option" where
  "request_of d =
     (case dd_opdef d of
        None \<Rightarrow> None
      | Some od \<Rightarrow>
          if is_const od \<or> opd_flags2 od AND 0x40 \<noteq> 0 \<or> dd_vtcm_requirement d = 0 then None
          else Some \<lparr>ar_op_id = dd_op_id d, ar_size = dd_vtcm_requirement d,
                     ar_life_begin = dd_life_begin d, ar_life_end = dd_life_end d\<rparr>)"

definition collect_requests :: "graph_deps \<Rightarrow> alloc_request list" where
  "collect_requests deps = List.map_filter request_of (gd_opdescs deps)"

definition request_edges :: "op_id set \<Rightarrow> graph_deps \<Rightarrow> (op_id \<times> op_id) list" where
  "request_edges ids deps =
     concat (map (\<lambda>d. case dd_opdef d of
         None \<Rightarrow> []
       | Some od \<Rightarrow>
           if dd_op_id d \<notin> ids then []
           else map (\<lambda>c. (src_id c, dd_op_id d))
                  (filter (\<lambda>c. src_id c \<noteq> dd_op_id d \<and> src_id c \<in> ids) (opd_inputs od)))
       (gd_opdescs deps))"

section \<open>Allocation\<close>

definition vtcm_lifetime_alloc_cp ::
  "(nat \<Rightarrow> bool) \<Rightarrow> (nat \<Rightarrow> nat) \<Rightarrow> graph_deps \<Rightarrow> op_id list \<Rightarrow> bytes \<Rightarrow> alloc_request list \<Rightarrow> cp_options \<Rightarrow>
   prepare_state \<Rightarrow> prepare_state option" where
  "vtcm_lifetime_alloc_cp late slack_w deps topo_order usable requests opts st =
     (let ids = ar_op_id ` set requests;
          problem = build_problem_from_requests slack_w requests (request_edges ids deps) usable
                      (filter (\<lambda>i. i \<in> ids) topo_order) opts;
          sol = solve late problem opts
      in if \<not> so_feasible sol then None
         else Some (st\<lparr>ps_vtcm_allocations :=
                  fold (\<lambda>(i, r). AList.update i r) (to_alloc_results sol problem) (ps_vtcm_allocations st),
                ps_cp_plans := to_spill_fill_plans sol problem, ps_cp_solution := sol, ps_cp_active := True\<rparr>))"

text \<open>The outer result is \<open>None\<close> when the lifetime allocator aborts.\<close>

definition vtcm_lifetime_alloc ::
  "(string \<Rightarrow> string option) \<Rightarrow> (nat \<Rightarrow> bool) \<Rightarrow> (nat \<Rightarrow> nat) \<Rightarrow> graph_deps option \<Rightarrow> op_id list \<Rightarrow> bytes \<Rightarrow>
   prepare_state option" where
  "vtcm_lifetime_alloc env late slack_w graph topo_order usable =
     (case graph of
        None \<Rightarrow> Some cleared_state
      | Some deps \<Rightarrow>
          let requests = collect_requests deps;
              greedy = map_option (\<lambda>st. cleared_state\<lparr>ps_vtcm_allocations := lifetime_allocs st\<rparr>)
                         (allocate_with_lifetime requests usable 128)
          in if requests = [] then Some cleared_state
             else case parse_cp_options_from_env env of
               None \<Rightarrow> greedy
             | Some opts \<Rightarrow>
                 (case vtcm_lifetime_alloc_cp late slack_w deps topo_order usable requests opts cleared_state of
                    Some st \<Rightarrow> Some st
                  | None \<Rightarrow> greedy))"

section \<open>Replay of the plans\<close>

text \<open>The loop over the plans: the bytes of all plans, or \<open>None\<close> when one is refused.\<close>

fun plan_arena :: "cp_plan list \<Rightarrow> bytes \<Rightarrow> bytes option" where
  "plan_arena [] arena = Some arena"
| "plan_arena (pl # pls) arena =
     (if pn_fill_position pl \<le> pn_spill_position pl \<or> pn_size pl = 0 then None
      else plan_arena pls (arena + pn_size pl))"

definition replay_plan :: "cp_plan \<Rightarrow> op_emitter \<Rightarrow> op_emitter" where
  "replay_plan pl =
     insert_spill_fill_pair (pn_vtcm_offset pl) (pn_ddr_offset pl) (pn_size pl) (pn_spill_position pl)
       (pn_fill_position pl) (pn_double_buffered pl)"

definition post_spill_fill_design_pass :: "bool \<Rightarrow> prepare_state \<Rightarrow> prepare_state" where
  "post_spill_fill_design_pass has_deps st =
     (if \<not> has_deps \<or> \<not> ps_cp_active st \<or> ps_cp_plans st = [] then st
      else case plan_arena (ps_cp_plans st) 0 of
        None \<Rightarrow> st\<lparr>ps_cp_plans := [], ps_cp_emitter := None\<rparr>
      | Some arena \<Rightarrow>
          if so_ddr_arena_used (ps_cp_solution st) < arena
          then st\<lparr>ps_cp_plans := [], ps_cp_emitter := None\<rparr>
          else let em = fold replay_plan (ps_cp_plans st) em_init
               in st\<lparr>ps_cp_emitter := (if validate_spill_fill em then Some em else None)\<rparr>)"

section \<open>Lemmas\<close>

lemma map_filter_conv: "List.map_filter f xs = map (the \<circ> f) (filter (\<lambda>x. f x \<noteq> None) xs)"
  by (simp add: List.map_filter_def)

lemma request_of_SomeD:
  assumes "request_of d = Some r"
  shows "ar_op_id r = dd_op_id d" "ar_size r = dd_vtcm_requirement d" "ar_life_begin r = dd_life_begin d"
    "ar_life_end r = dd_life_end d"
  using assms by (auto simp: request_of_def split: option.splits if_splits)

lemma collect_requests_iff: "r \<in> set (collect_requests deps) \<longleftrightarrow> (\<exists>d \<in> set (gd_opdescs deps). request_of d = Some r)"
  by (simp add: collect_requests_def set_map_filter_iff)

lemma collect_requests_wf:
  assumes "distinct (map dd_op_id (gd_opdescs deps))" "\<forall>d \<in> set (gd_opdescs deps). 128 dvd dd_vtcm_requirement d"
  shows "pool_wf (collect_requests deps)"
proof -
  let ?ds = "filter (\<lambda>d. request_of d \<noteq> None) (gd_opdescs deps)"
  have "map ar_op_id (collect_requests deps) = map dd_op_id ?ds"
    unfolding collect_requests_def map_filter_conv by (auto simp: request_of_SomeD)
  then have "distinct (map ar_op_id (collect_requests deps))"
    using distinct_map_filter [OF assms(1)] by simp
  moreover have "reqs_aligned 128 (collect_requests deps)"
    using assms(2) by (auto simp: reqs_aligned_def collect_requests_iff request_of_SomeD)
  ultimately show ?thesis by (simp add: pool_wf_def)
qed

lemma plan_arena_eq:
  "plan_arena pls a = (if \<forall>pl \<in> set pls. pn_spill_position pl < pn_fill_position pl \<and> pn_size pl \<noteq> 0
     then Some (a + sum_list (map pn_size pls)) else None)"
  by (induction pls a rule: plan_arena.induct) (auto simp: not_le)

lemma replay_ops:
  "em_ops (fold replay_plan pls em) = em_ops em @ concat (map (\<lambda>pl.
     [spill_info (pn_vtcm_offset pl) (pn_ddr_offset pl) (pn_size pl) (pn_double_buffered pl),
      fill_info (pn_vtcm_offset pl) (pn_ddr_offset pl) (pn_size pl) (pn_double_buffered pl)]) pls)"
  by (induction pls arbitrary: em) (simp_all add: replay_plan_def insert_spill_fill_pair_def emit_dma_op_def)

lemma replay_reachable: "em_reachable em \<Longrightarrow> em_reachable (fold replay_plan pls em)"
proof (induction pls arbitrary: em)
  case (Cons pl pls)
  have "em_reachable (replay_plan pl em)"
    using Cons.prems em_step.pair unfolding em_reachable_def replay_plan_def by (rule rtranclp.rtrancl_into_rtrancl)
  with Cons.IH show ?case by simp
qed simp

text \<open>A tensor is live at a step when it has been produced and a consumer is still to come.\<close>

definition live_at :: "op_id list \<Rightarrow> dep_op_desc \<Rightarrow> nat \<Rightarrow> bool" where
  "live_at topo d q \<longleftrightarrow> (\<exists>p < length topo. topo ! p = dd_op_id d \<and> p \<le> q \<and>
     (q = p \<or> (\<exists>q' od. dd_opdef d = Some od \<and> q' < length topo \<and> topo ! q' \<in> set (opd_consumers od) \<and> q \<le> q')))"

lemma live_in_life:
  assumes "length sorted_ops < 2 ^ 28" "build_graph_deps sorted_ops topo = Some (ok, deps)" "distinct topo"
    and "d \<in> set (gd_opdescs deps)" "live_at topo d q"
  shows "dd_life_begin d \<le> q \<and> q \<le> dd_life_end d"
proof -
  obtain p where p: "p < length topo" "topo ! p = dd_op_id d" "p \<le> q"
    "q = p \<or> (\<exists>q' od. dd_opdef d = Some od \<and> q' < length topo \<and> topo ! q' \<in> set (opd_consumers od) \<and> q \<le> q')"
    using assms(5) by (auto simp: live_at_def)
  from deps_lives [OF assms(1-4) p(1,2)] obtain od where od: "dd_opdef d = Some od" "dd_life_begin d = p"
    "p \<le> dd_life_end d" "\<forall>c q. c \<in> set (opd_consumers od) \<and> q < length topo \<and> topo ! q = c \<longrightarrow> q \<le> dd_life_end d"
    by blast
  show ?thesis
    using p(3,4)
  proof (elim disjE)
    assume "q = p"
    then show ?thesis using od by simp
  next
    assume "\<exists>q' od. dd_opdef d = Some od \<and> q' < length topo \<and> topo ! q' \<in> set (opd_consumers od) \<and> q \<le> q'"
    then obtain q' where "q' < length topo" "topo ! q' \<in> set (opd_consumers od)" "q \<le> q'" using od(1) by auto
    moreover from this have "q' \<le> dd_life_end d" using od(4) by blast
    ultimately show ?thesis using od(2) p(3) by simp
  qed
qed

lemma build_graph_deps_ids:
  assumes "length sorted_ops < 2 ^ 28" "build_graph_deps sorted_ops topo = Some (ok, deps)" "topo \<noteq> []"
    and "distinct (map opd_op_id (map the (filter op_active sorted_ops)))"
  shows "map dd_op_id (gd_opdescs deps) = map opd_op_id (map the (filter op_active sorted_ops))"
proof -
  have "map life_view (gd_opdescs deps) =
      map (\<lambda>od. (opd_op_id od, Some od, planned_life topo od)) (map the (filter op_active sorted_ops))"
    using build_graph_deps_ok [OF assms(1), of topo] assms(2-4) by auto
  from arg_cong [OF this, of "map fst"] show ?thesis by (simp add: life_view_def comp_def)
qed

lemma build_graph_deps_bytes:
  assumes "length sorted_ops < 2 ^ 28" "build_graph_deps sorted_ops topo = Some (ok, deps)" "topo \<noteq> []"
    and "distinct (map opd_op_id (map the (filter op_active sorted_ops)))" and "d \<in> set (gd_opdescs deps)"
  shows "\<exists>o1 \<in> set sorted_ops. op_active o1 \<and> dd_vtcm_requirement d = out_bytes (opd_output_def (the o1))"
proof -
  have v: "map life_view (gd_opdescs deps) =
      map (\<lambda>od. (opd_op_id od, Some od, planned_life topo od)) (map the (filter op_active sorted_ops))"
    using build_graph_deps_ok [OF assms(1), of topo] assms(2-4) by auto
  have "life_view d \<in> set (map life_view (gd_opdescs deps))" using assms(5) by simp
  then obtain o1 where o1: "o1 \<in> set sorted_ops" "op_active o1" "dd_opdef d = Some (the o1)"
    unfolding v by (auto simp: life_view_def)
  obtain ds where "gd_opdescs deps = map estimate_desc ds"
    using assms(2) by (auto simp: build_graph_deps_def split: option.splits)
  then obtain d0 where "d = estimate_desc d0" using assms(5) by auto
  with o1(3) have "dd_vtcm_requirement d = out_bytes (opd_output_def (the o1))"
    by (auto simp: estimate_desc_def split: option.splits)
  with o1 show ?thesis by blast
qed

section \<open>Properties\<close>

text \<open>
  C19: the default plan of the scratchpad, from the operators to the offsets. For a repetition-free
  order, distinct operators and tensor sizes that are multiples of 128, \<open>vtcm_lifetime_alloc\<close> does not
  abort, every requested tensor has an entry, and at every step of the order two resident tensors that
  are both live there occupy disjoint ranges of the scratchpad. In particular an operator never
  overwrites an operand, and its operands do not overlap.
\<close>

theorem vtcm_lifetime_alloc_safe:
  assumes "length sorted_ops < 2 ^ 28" and "build_graph_deps sorted_ops topo = Some (ok, deps)"
    and "distinct topo" and "topo \<noteq> []" and "distinct (map opd_op_id (map the (filter op_active sorted_ops)))"
    and "\<forall>o1 \<in> set sorted_ops. op_active o1 \<longrightarrow> 128 dvd out_bytes (opd_output_def (the o1))"
    and "parse_cp_options_from_env env = None"
  shows "\<exists>st. vtcm_lifetime_alloc env late slack_w (Some deps) topo usable = Some st \<and>
    (\<forall>d \<in> set (gd_opdescs deps). request_of d \<noteq> None \<longrightarrow>
       (\<exists>r. map_of (ps_vtcm_allocations st) (dd_op_id d) = Some r \<and>
          (\<not> res_spilled r \<longrightarrow> res_offset r + dd_vtcm_requirement d \<le> usable))) \<and>
    (\<forall>d \<in> set (gd_opdescs deps). \<forall>e \<in> set (gd_opdescs deps). \<forall>q r s.
       request_of d \<noteq> None \<and> request_of e \<noteq> None \<and> dd_op_id d \<noteq> dd_op_id e \<and> live_at topo d q \<and> live_at topo e q \<and>
       map_of (ps_vtcm_allocations st) (dd_op_id d) = Some r \<and> map_of (ps_vtcm_allocations st) (dd_op_id e) = Some s \<and>
       \<not> res_spilled r \<and> \<not> res_spilled s \<longrightarrow>
       range_disj (res_offset r) (res_offset r + dd_vtcm_requirement d)
         (res_offset s) (res_offset s + dd_vtcm_requirement e))"
proof (cases "collect_requests deps = []")
  case True
  then have "\<forall>d \<in> set (gd_opdescs deps). request_of d = None"
    by (metis collect_requests_iff empty_iff list.set(1) not_None_eq)
  with True show ?thesis by (simp add: vtcm_lifetime_alloc_def)
next
  case False
  have "distinct (map dd_op_id (gd_opdescs deps))"
    unfolding build_graph_deps_ids [OF assms(1,2,4,5)] by (rule assms(5))
  from lt128.pool_result [OF collect_requests_wf [OF this], of usable] obtain m
    where m: "pool_alloc (collect_requests deps) usable = Some m" "alloc_spec (collect_requests deps) usable m"
    using build_graph_deps_bytes [OF assms(1,2,4,5)] assms(6) by metis
  have run: "vtcm_lifetime_alloc env late slack_w (Some deps) topo usable = Some (cleared_state\<lparr>ps_vtcm_allocations := m\<rparr>)"
    using m(1) False by (auto simp: vtcm_lifetime_alloc_def assms(7) pool_alloc_def Let_def)
  have req: "\<exists>r. request_of d = Some r \<and> r \<in> set (collect_requests deps)" if "d \<in> set (gd_opdescs deps)" "request_of d \<noteq> None" for d
    using that by (auto simp: collect_requests_iff)
  have "\<exists>r. map_of m (dd_op_id d) = Some r \<and> (\<not> res_spilled r \<longrightarrow> res_offset r + dd_vtcm_requirement d \<le> usable)"
    if "d \<in> set (gd_opdescs deps)" "request_of d \<noteq> None" for d
    using req [OF that] m(2) by (auto simp: alloc_spec_def dest: request_of_SomeD) (metis request_of_SomeD(1,2))
  moreover have "range_disj (res_offset r) (res_offset r + dd_vtcm_requirement d) (res_offset s) (res_offset s + dd_vtcm_requirement e)"
    if d: "d \<in> set (gd_opdescs deps)" "request_of d \<noteq> None" "live_at topo d q" "map_of m (dd_op_id d) = Some r" "\<not> res_spilled r"
      and e: "e \<in> set (gd_opdescs deps)" "request_of e \<noteq> None" "live_at topo e q" "map_of m (dd_op_id e) = Some s" "\<not> res_spilled s"
      and ne: "dd_op_id d \<noteq> dd_op_id e" for d e q r s
  proof -
    obtain rd re where rd: "request_of d = Some rd" "rd \<in> set (collect_requests deps)"
      and re: "request_of e = Some re" "re \<in> set (collect_requests deps)" using req d(1,2) e(1,2) by meson
    have "life_meet (ar_life_begin rd) (ar_life_end rd) (ar_life_begin re) (ar_life_end re)"
      using live_in_life [OF assms(1-3) d(1,3)] live_in_life [OF assms(1-3) e(1,3)]
      by (auto simp: life_meet_def request_of_SomeD [OF rd(1)] request_of_SomeD [OF re(1)])
    moreover have "rd \<noteq> re" using ne request_of_SomeD(1) [OF rd(1)] request_of_SomeD(1) [OF re(1)] by auto
    moreover have "allocs_disj (collect_requests deps) m" using m(2) by (simp add: alloc_spec_def)
    ultimately show ?thesis
      using d(4,5) e(4,5) rd(2) re(2) request_of_SomeD [OF rd(1)] request_of_SomeD [OF re(1)]
      unfolding allocs_disj_def by metis
  qed
  ultimately show ?thesis unfolding run by (intro exI [of _ "cleared_state\<lparr>ps_vtcm_allocations := m\<rparr>"]) (simp, blast)
qed

definition plan_demo_op :: "op_id \<Rightarrow> nat \<Rightarrow> op_id list \<Rightarrow> op_id list \<Rightarrow> op_def" where
  "plan_demo_op i n ins cs =
     (let od = \<lparr>out_rank = 1, out_dims = [n], out_element_size = 1\<rparr>
      in \<lparr>opd_flags = 1, opd_op_id = i, opd_name = None, opd_output_def = od, opd_flags2 = 0,
          opd_inputs = map (\<lambda>j. \<lparr>src_id = j, out_idx = 0, src_out_def = od\<rparr>) ins, opd_consumers = cs\<rparr>)"

theorem vtcm_lifetime_alloc_safe_witness:
  "\<exists>ok deps st. build_graph_deps [Some (plan_demo_op 5 128 [] [6]), Some (plan_demo_op 6 256 [5] [])] [5, 6] = Some (ok, deps) \<and>
     vtcm_lifetime_alloc (\<lambda>_. None) (\<lambda>_. False) (\<lambda>w. w) (Some deps) [5, 6] 4096 = Some st"
proof -
  let ?ops = "[Some (plan_demo_op 5 128 [] [6]), Some (plan_demo_op 6 256 [5] [])]"
  have l: "length ?ops < 2 ^ 28" by simp
  obtain ok deps where b: "build_graph_deps ?ops [5, 6] = Some (ok, deps)"
    using build_graph_deps_ok [OF l, of "[5, 6]"] by blast
  have "distinct (map opd_op_id (map the (filter op_active ?ops)))"
    "\<forall>o1 \<in> set ?ops. op_active o1 \<longrightarrow> 128 dvd out_bytes (opd_output_def (the o1))"
    by (simp_all add: plan_demo_op_def Let_def op_active_def is_enabled_def is_dead_def out_bytes_def)
  moreover have "parse_cp_options_from_env (\<lambda>_. None) = None" by (simp add: parse_cp_options_from_env_def)
  ultimately show ?thesis
    using b vtcm_lifetime_alloc_safe [OF l b, of "\<lambda>_. None" "\<lambda>_. False" "\<lambda>w. w" 4096] by auto
qed


text \<open>Five one-byte tensors in three bytes; the first is paged out between its two consumers.\<close>

definition plan_demo_deps :: graph_deps where
  "plan_demo_deps = deps_init\<lparr>gd_opdescs := map (\<lambda>od. (start_desc od)\<lparr>dd_vtcm_requirement := 1\<rparr>)
     [plan_demo_op 0 1 [] [1, 4], plan_demo_op 1 1 [0] [3], plan_demo_op 2 1 [] [3], plan_demo_op 3 1 [1, 2] [4],
      plan_demo_op 4 1 [0, 3] []]\<rparr>"

definition plan_demo_state :: prepare_state where
  "plan_demo_state =
     (let s = solve (\<lambda>_. False) (cp_demo_page cp_demo_edges) cp_demo_options
      in cleared_state\<lparr>ps_vtcm_allocations := fold (\<lambda>(i, r). AList.update i r) (to_alloc_results s (cp_demo_page cp_demo_edges)) [],
           ps_cp_plans := to_spill_fill_plans s (cp_demo_page cp_demo_edges), ps_cp_solution := s, ps_cp_active := True\<rparr>)"

lemma plan_demo_run:
  "vtcm_lifetime_alloc_cp (\<lambda>_. False) (\<lambda>_. 0) plan_demo_deps [0, 1, 2, 3, 4] 3 (collect_requests plan_demo_deps)
     cp_demo_options cleared_state = Some plan_demo_state"
proof -
  have r: "collect_requests plan_demo_deps =
      map (\<lambda>i. \<lparr>ar_op_id = i, ar_size = 1, ar_life_begin = 0, ar_life_end = 0\<rparr>) [0, 1, 2, 3, 4]"
    by (simp add: collect_requests_def plan_demo_deps_def List.map_filter_def request_of_def is_const_def
        plan_demo_op_def Let_def start_desc_def fresh_desc_def empty_desc_def)
  have e: "request_edges {0, 1, 2, 3, 4} plan_demo_deps = cp_demo_edges"
    by (simp add: request_edges_def plan_demo_deps_def plan_demo_op_def Let_def cp_demo_edges_def)
  have ids: "ar_op_id ` set (collect_requests plan_demo_deps) = {0, 1, 2, 3, 4}" unfolding r by simp
  have o: "filter (\<lambda>i. i \<in> {0, 1, 2, 3, 4}) [0, 1, 2, 3, 4] = [0, 1, 2, 3, 4 :: op_id]" by simp
  have b: "build_problem_from_requests (\<lambda>_. 0) (collect_requests plan_demo_deps) cp_demo_edges 3 [0, 1, 2, 3, 4] cp_demo_options =
      cp_demo_page cp_demo_edges"
    unfolding r
    by (simp add: build_problem_from_requests_def Let_def cp_demo_page_def cp_demo_edges_def index_edge_def
        List.map_filter_def request_tensor_def cp_demo_tensor_def cp_demo_options_def)
  have "so_feasible (solve (\<lambda>_. False) (cp_demo_page cp_demo_edges) cp_demo_options)"
    using cp_demo_page_run by (simp add: Let_def)
  then show ?thesis
    unfolding vtcm_lifetime_alloc_cp_def Let_def ids e o b plan_demo_state_def by (simp add: cleared_state_def)
qed


text \<open>
  The spill of a replayed plan reads the place of the second segment, not of the first: in the
  example the tensor lies at offset 0 until it is spilled, and the emitted spill reads offset 1,
  where another tensor is live.
\<close>

lemma replay_spill_source:
  "map_option (\<lambda>em. map (\<lambda>o1. (di_type o1, di_src_offset o1)) (em_ops em))
     (ps_cp_emitter (post_spill_fill_design_pass True plan_demo_state)) = Some [(Spill, 1), (Fill, 0)] \<and>
   map pn_vtcm_offset_spill (ps_cp_plans plan_demo_state) = [0]"
  by code_simp

end
