(* ===== verification/Serializer.thy ===== *)
theory Serializer
  imports Prelude
begin

unbundle bit_operations_syntax

text \<open>
  The record stream of the context binary: the writer \<open>Serializer\<close> and the reader \<open>Deserz\<close> of
  \<open>compiler/src/serialize/serializer.cpp\<close>, with the tag code of \<open>bin_format.cpp\<close>.

  The writer is run twice, first to measure, then to write into a buffer of fixed size. Its state
  keeps the buffer, the cursor and the two mode flags; a store outside the buffer, which the code does
  not check, is the result \<open>None\<close>. The reader slides a window over the data; its errors are the two
  exceptions of the code and reads outside the buffer. Words are stored in little-endian order, as on
  the hosts the compiler runs on. Tensors are only counted by these functions, so a tensor pointer is
  represented by whether it is null.
\<close>

type_synonym byte = "8 word"

section \<open>Words and tags\<close>

definition u32_bytes :: "u32 \<Rightarrow> byte list" where
  "u32_bytes v = [ucast v, ucast (drop_bit 8 v), ucast (drop_bit 16 v), ucast (drop_bit 24 v)]"

definition bytes_u32 :: "byte list \<Rightarrow> u32" where
  "bytes_u32 bs = (ucast (bs ! 0) :: u32) OR push_bit 8 (ucast (bs ! 1)) OR push_bit 16 (ucast (bs ! 2)) OR
     push_bit 24 (ucast (bs ! 3))"

definition u64_bytes :: "u64 \<Rightarrow> byte list" where
  "u64_bytes v = map (\<lambda>k. ucast (drop_bit (8 * k) v)) [0..<8]"

definition encode_bin_tag :: "u32 \<Rightarrow> u32" where
  "encode_bin_tag tag = ((tag AND 0xFFFF) OR push_bit 16 tag) XOR 0xFFFF"

definition decode_bin_tag :: "u32 \<Rightarrow> u32" where
  "decode_bin_tag encoded = (encoded XOR 0xFFFF) AND 0xFFFF"

definition separator_normal :: u32 where "separator_normal = 0xFA0000FA"
definition separator_aux :: u32 where "separator_aux = 0xFA0000FE"

section \<open>The writer\<close>

record serializer =
  sz_buf :: "byte list"
  sz_bufp :: nat
  sz_bytes_filled :: nat
  sz_prescan :: bool
  sz_measure_only :: bool
  sz_f_188 :: nat
  sz_f_340 :: u32
  sz_f_348 :: u32
  sz_f_350 :: u32

definition current_position :: "serializer \<Rightarrow> nat" where
  "current_position s = sz_bytes_filled s + sz_bufp s"

definition set_prescan :: "bool \<Rightarrow> serializer \<Rightarrow> serializer" where
  "set_prescan b s = s\<lparr>sz_prescan := b\<rparr>"

definition set_measure_only :: "bool \<Rightarrow> serializer \<Rightarrow> serializer" where
  "set_measure_only b s = s\<lparr>sz_measure_only := b\<rparr>"

text \<open>A copy of bytes to the cursor, \<open>None\<close> if it leaves the buffer.\<close>

definition store_bytes :: "byte list \<Rightarrow> serializer \<Rightarrow> serializer option" where
  "store_bytes bs s =
     (if sz_bufp s + length bs \<le> length (sz_buf s)
      then Some (s\<lparr>sz_buf := take (sz_bufp s) (sz_buf s) @ bs @ drop (sz_bufp s + length bs) (sz_buf s),
                   sz_bufp := sz_bufp s + length bs\<rparr>)
      else None)"

definition pad_before :: "bool \<Rightarrow> serializer \<Rightarrow> nat" where
  "pad_before align4 s =
     (if align4 \<and> current_position s mod 4 \<noteq> 0 then 4 - current_position s mod 4 else 0)"

definition serialize_fwrite :: "byte list \<Rightarrow> bool \<Rightarrow> serializer \<Rightarrow> serializer option" where
  "serialize_fwrite data align4 s =
     (if sz_measure_only s \<or> sz_prescan s
      then Some (s\<lparr>sz_bytes_filled := sz_bytes_filled s + (length data + pad_before align4 s)\<rparr>)
      else Option.bind (store_bytes (replicate (pad_before align4 s) 0) s) (store_bytes data))"

definition flush_buffer :: "serializer \<Rightarrow> serializer" where
  "flush_buffer s = s\<lparr>sz_bytes_filled := sz_bytes_filled s + sz_bufp s, sz_bufp := 0\<rparr>"

text \<open>Statement sequences of the writer.\<close>

fun run_writes :: "(serializer \<Rightarrow> serializer option) list \<Rightarrow> serializer \<Rightarrow> serializer option" where
  "run_writes [] s = Some s"
| "run_writes (f # fs) s = Option.bind (f s) (run_writes fs)"

definition serialize_uint32 :: "u32 \<Rightarrow> u32 \<Rightarrow> u32 \<Rightarrow> serializer \<Rightarrow> serializer option" where
  "serialize_uint32 a b c =
     run_writes [serialize_fwrite (u32_bytes a) False, serialize_fwrite (u32_bytes b) False,
                 serialize_fwrite (u32_bytes c) False]"

definition write_uint32 :: "u32 \<Rightarrow> serializer \<Rightarrow> serializer option" where
  "write_uint32 v s =
     (if \<not> sz_measure_only s \<and> \<not> sz_prescan s then serialize_fwrite (u32_bytes v) False s
      else Some (s\<lparr>sz_bytes_filled := sz_bytes_filled s + 4\<rparr>))"

definition set_f_188 :: "nat \<Rightarrow> serializer \<Rightarrow> serializer option" where
  "set_f_188 v s = Some (s\<lparr>sz_f_188 := v\<rparr>)"

definition write_tagged_record :: "u32 \<Rightarrow> byte list \<Rightarrow> serializer \<Rightarrow> serializer option" where
  "write_tagged_record tag data s =
     (let wc = word_of_nat ((length data + 3) div 4)
      in run_writes
           ((if sz_f_188 s = 2 then [write_uint32 separator_aux, set_f_188 3] else []) @
            [serialize_uint32 (encode_bin_tag tag) wc wc] @
            (if data \<noteq> [] then [serialize_fwrite data True] else []) @
            (if sz_f_188 s = 0 then [set_f_188 1] else [])) s)"

definition sub64 :: "nat \<Rightarrow> nat \<Rightarrow> nat" where
  "sub64 a b = (if b \<le> a then a - b else 2 ^ 64 + a - b)"

text \<open>The space is an unsigned difference, so an offset behind the buffer is not caught.\<close>

definition rewrite_auxdata :: "nat \<Rightarrow> byte list \<Rightarrow> serializer \<Rightarrow> serializer option" where
  "rewrite_auxdata offset data s =
     (if sz_measure_only s \<or> sz_prescan s \<or> data = [] then Some s
      else let n = min (length data) (sub64 (length (sz_buf s)) offset)
           in if length (sz_buf s) < offset + n then None
              else Some (s\<lparr>sz_buf := take offset (sz_buf s) @ take n data @ drop (offset + n) (sz_buf s)\<rparr>))"

definition do_insert_preload_op :: "serializer \<Rightarrow> serializer" where
  "do_insert_preload_op s =
     s\<lparr>sz_f_348 := sz_f_340 s, sz_f_340 := word_of_nat (current_position s), sz_f_350 := sz_f_350 s + 1\<rparr>"

definition tensor_serialize :: "serializer \<Rightarrow> serializer option" where
  "tensor_serialize = write_uint32 0"

definition present_tensors :: "nat \<Rightarrow> bool list option \<Rightarrow> (serializer \<Rightarrow> serializer option) list" where
  "present_tensors n ts =
     (case ts of None \<Rightarrow> [] | Some present \<Rightarrow> map (\<lambda>_. tensor_serialize) (filter id (take n present)))"

definition op_serialize_func ::
  "bool \<Rightarrow> nat \<Rightarrow> bool list option \<Rightarrow> nat \<Rightarrow> bool list option \<Rightarrow> serializer \<Rightarrow> serializer option" where
  "op_serialize_func has_op n_in in_tens n_out out_tens =
     (if \<not> has_op then Some
      else run_writes
        (serialize_fwrite (u32_bytes (word_of_nat n_in) @ u32_bytes (word_of_nat n_out) @ u32_bytes 0) True #
         present_tensors n_in in_tens @ present_tensors n_out out_tens))"

definition op_for_tensor_func :: "bool \<Rightarrow> nat \<Rightarrow> bool list option \<Rightarrow> serializer \<Rightarrow> serializer option" where
  "op_for_tensor_func has_op n_out out_tens = op_serialize_func has_op 0 None n_out out_tens"

definition prescan_ops_func :: "u32 \<Rightarrow> serializer \<Rightarrow> serializer option" where
  "prescan_ops_func n_ops = serialize_fwrite (u32_bytes n_ops) True"

definition graph_io_tensors ::
  "nat \<Rightarrow> bool list option \<Rightarrow> nat \<Rightarrow> bool list option \<Rightarrow> bool \<Rightarrow> serializer \<Rightarrow> serializer option" where
  "graph_io_tensors n_in ins n_out outs input_only =
     run_writes
       (serialize_fwrite (u32_bytes (word_of_nat n_in) @ u32_bytes (if input_only then 0 else word_of_nat n_out)) True #
        present_tensors n_in ins @ (if input_only then [] else present_tensors n_out outs))"

definition before_runlists :: "u32 \<Rightarrow> u32 \<Rightarrow> u32 \<Rightarrow> u32 \<Rightarrow> u32 \<Rightarrow> serializer \<Rightarrow> serializer option" where
  "before_runlists norun main vec mtx segs =
     serialize_fwrite (concat (map u32_bytes [norun, main, vec, mtx, segs])) True"

definition after_non_runlist :: "serializer \<Rightarrow> serializer option" where
  "after_non_runlist = write_uint32 separator_normal"

definition after_runlist :: "serializer \<Rightarrow> serializer option" where
  "after_runlist = write_uint32 separator_normal"

definition serialize_op :: "u32 \<Rightarrow> serializer \<Rightarrow> serializer option" where
  "serialize_op seqno = write_uint32 seqno"

definition shape_serialize :: "byte list \<Rightarrow> serializer \<Rightarrow> serializer option" where
  "shape_serialize flags = (if flags \<noteq> [] then serialize_fwrite flags True else Some)"

definition spcl_add_u32 :: "u32 list \<Rightarrow> serializer \<Rightarrow> serializer option" where
  "spcl_add_u32 ws = (if ws \<noteq> [] then serialize_fwrite (concat (map u32_bytes ws)) True else Some)"

definition spcl_add_sized_vec :: "u32 option \<Rightarrow> serializer \<Rightarrow> serializer option" where
  "spcl_add_sized_vec w = (case w of None \<Rightarrow> Some | Some v \<Rightarrow> serialize_fwrite (u32_bytes v) True)"

definition spcl_fill_nullptr :: "nat \<Rightarrow> serializer \<Rightarrow> serializer option" where
  "spcl_fill_nullptr n = run_writes (replicate n (write_uint32 0))"

definition spcl_add_in_tensor :: "serializer \<Rightarrow> serializer option" where
  "spcl_add_in_tensor = tensor_serialize"

definition spcl_add_out_tensor :: "bool \<Rightarrow> serializer \<Rightarrow> serializer option" where
  "spcl_add_out_tensor present = (if present then tensor_serialize else Some)"

definition serialize_internal :: "byte list \<Rightarrow> serializer \<Rightarrow> serializer option" where
  "serialize_internal data = serialize_fwrite data True"

text \<open>
  One 24-byte entry per segment: index, operators per segment, estimated offset, reserved. The step of
  the offset is a product of 32-bit values.
\<close>

definition segment_entry :: "nat \<Rightarrow> u32 \<Rightarrow> nat \<Rightarrow> byte list" where
  "segment_entry start ops i =
     u32_bytes (word_of_nat i) @ u32_bytes ops @
     u64_bytes (word_of_nat start + word_of_nat i * ucast (ops * 64 :: u32)) @ replicate 8 0"

definition make_plan_for_deser_by_segments :: "int \<Rightarrow> u32 \<Rightarrow> serializer \<Rightarrow> serializer option" where
  "make_plan_for_deser_by_segments num_segments ops s =
     (if num_segments \<le> 0 then Some s
      else write_tagged_record 0x5347
             (concat (map (segment_entry (current_position s) ops) [0..<nat num_segments])) s)"

section \<open>The reader\<close>

datatype deser_error = Underflow | TooManyBytes | BadDeserializeStr | OutOfBounds

record deserz =
  dz_data :: "byte list"
  dz_bufp :: nat
  dz_limit :: nat
  dz_full :: bool

definition deserz_init :: "byte list \<Rightarrow> deserz" where
  "deserz_init bs = \<lparr>dz_data = bs, dz_bufp = 0, dz_limit = 0, dz_full = True\<rparr>"

definition fill_buffer :: "deserz \<Rightarrow> deser_error + deserz" where
  "fill_buffer d =
     (if length (dz_data d) \<le> dz_limit d then Inl Underflow
      else Inr (d\<lparr>dz_limit := (if 0x10000 < length (dz_data d) - dz_limit d then dz_limit d + 0x8000
                                else length (dz_data d))\<rparr>))"

definition byte_slice :: "nat \<Rightarrow> nat \<Rightarrow> 'a list \<Rightarrow> 'a list" where
  "byte_slice p n xs = take n (drop p xs)"

text \<open>
  The loop of \<open>deserialize_fread\<close>: \<open>todo\<close> bytes are still to be passed, \<open>sz\<close> is the unsigned counter of
  bytes still to be copied, \<open>keep\<close> whether there is a destination. The differences of pointers and
  the counter wrap.
\<close>

function fread_loop :: "bool \<Rightarrow> nat \<Rightarrow> nat \<Rightarrow> byte list \<Rightarrow> deserz \<Rightarrow> deser_error + byte list \<times> deserz" where
  "fread_loop keep todo sz out d =
     (if todo = 0 then Inr (out, d)
      else let avail = sub64 (dz_limit d) (dz_bufp d); chunk = min todo avail
           in if chunk = 0
              then case fill_buffer d of Inl e \<Rightarrow> Inl e | Inr d' \<Rightarrow> fread_loop keep todo sz out d'
              else if length (dz_data d) < dz_bufp d + chunk then Inl OutOfBounds
              else let d' = d\<lparr>dz_bufp := dz_bufp d + chunk\<rparr>
                   in if keep \<and> 0 < sz
                      then fread_loop keep (todo - chunk) (sub64 sz chunk) (out @ byte_slice (dz_bufp d) chunk (dz_data d)) d'
                      else fread_loop keep (todo - chunk) sz out d')"
  by pat_completeness auto
termination
  by (relation "measure (\<lambda>(keep, todo, sz, out, d). todo + (length (dz_data d) - dz_limit d))")
    (auto simp: fill_buffer_def split: if_splits)

definition pad_after :: "bool \<Rightarrow> nat \<Rightarrow> nat" where
  "pad_after align4 p = (if align4 \<and> p mod 4 \<noteq> 0 then 4 - p mod 4 else 0)"

definition deserialize_fread :: "bool \<Rightarrow> nat \<Rightarrow> bool \<Rightarrow> deserz \<Rightarrow> deser_error + byte list \<times> deserz" where
  "deserialize_fread keep n align4 d =
     fread_loop keep (n + pad_after align4 (dz_bufp d + n)) n [] d"

definition deserialize_uint32_arr :: "nat \<Rightarrow> deserz \<Rightarrow> deser_error + byte list \<times> deserz" where
  "deserialize_uint32_arr n = deserialize_fread True (n * 4) False"

definition deserialize_uint32_arr_sizet :: "nat \<Rightarrow> deserz \<Rightarrow> deser_error + byte list \<times> deserz" where
  "deserialize_uint32_arr_sizet n = deserialize_fread True (n * 8) False"

definition deserialize_skip_words :: "nat \<Rightarrow> deserz \<Rightarrow> deserz" where
  "deserialize_skip_words n d = d\<lparr>dz_bufp := dz_bufp d + n * 4\<rparr>"

definition deserialize_buf_withlen :: "nat \<Rightarrow> deserz \<Rightarrow> deser_error + byte list \<times> deserz" where
  "deserialize_buf_withlen n = deserialize_fread True n True"

definition deserialize_buf :: "nat \<Rightarrow> deserz \<Rightarrow> deser_error + byte list \<times> deserz" where
  "deserialize_buf n = deserialize_fread True n False"

text \<open>One word: refill an exhausted window, then copy four bytes.\<close>

definition next_u32 :: "deserz \<Rightarrow> deser_error + u32 \<times> deserz" where
  "next_u32 d =
     (case (if dz_limit d \<le> dz_bufp d then fill_buffer d else Inr d) of
        Inl e \<Rightarrow> Inl e
      | Inr d' \<Rightarrow>
          if length (dz_data d') < dz_bufp d' + 4 then Inl OutOfBounds
          else Inr (bytes_u32 (byte_slice (dz_bufp d') 4 (dz_data d')), d'\<lparr>dz_bufp := dz_bufp d' + 4\<rparr>))"

fun next_words :: "nat \<Rightarrow> deserz \<Rightarrow> deser_error + u32 list \<times> deserz" where
  "next_words 0 d = Inr ([], d)"
| "next_words (Suc n) d =
     (case next_u32 d of
        Inl e \<Rightarrow> Inl e
      | Inr (w, d') \<Rightarrow> (case next_words n d' of Inl e \<Rightarrow> Inl e | Inr (ws, d'') \<Rightarrow> Inr (w # ws, d'')))"

definition deserialize_uint32_x2 :: "deserz \<Rightarrow> deser_error + u32 list \<times> deserz" where
  "deserialize_uint32_x2 = next_words 2"

definition deserialize_uint32_x3 :: "deserz \<Rightarrow> deser_error + u32 list \<times> deserz" where
  "deserialize_uint32_x3 = next_words 3"

definition deserialize_uint32_x4 :: "deserz \<Rightarrow> deser_error + u32 list \<times> deserz" where
  "deserialize_uint32_x4 = next_words 4"

definition deserialize_str :: "deserz \<Rightarrow> deser_error + byte list \<times> deserz" where
  "deserialize_str d =
     (if \<not> dz_full d then Inl BadDeserializeStr
      else case next_u32 d of
        Inl e \<Rightarrow> Inl e
      | Inr (len, d') \<Rightarrow>
          if 0x1001 \<le> unat len then Inl TooManyBytes
          else (case deserialize_fread True (unat len) True d' of
                  Inl e \<Rightarrow> Inl e
                | Inr (bs, d'') \<Rightarrow> Inr (take (unat len) bs, d'')))"

declare fread_loop.simps [simp del]

section \<open>Words\<close>

lemma length_u32_bytes [simp]: "length (u32_bytes v) = 4"
  by (simp add: u32_bytes_def)

lemma bytes_u32_bytes: "bytes_u32 (u32_bytes v) = v"
proof (rule bit_word_eqI)
  fix n assume "n < LENGTH(32)"
  then have n: "n < 32" by simp
  then consider "n < 8" | "8 \<le> n" "n < 16" | "16 \<le> n" "n < 24" | "24 \<le> n" "n < 32" by linarith
  then show "bit (bytes_u32 (u32_bytes v)) n = bit v n"
    by cases (auto simp: bytes_u32_def u32_bytes_def bit_simps)
qed

lemma decode_encode: "decode_bin_tag (encode_bin_tag tag) = tag AND 0xFFFF"
proof -
  have m: "(0xFFFF :: u32) = mask 16" by (simp add: mask_eq_exp_minus_1)
  show ?thesis
    by (rule bit_word_eqI) (auto simp: decode_bin_tag_def encode_bin_tag_def m bit_simps)
qed

section \<open>Both passes advance alike\<close>

definition measuring :: "serializer \<Rightarrow> bool" where
  "measuring s \<longleftrightarrow> sz_measure_only s \<or> sz_prescan s"

definition padding :: "bool \<Rightarrow> nat \<Rightarrow> nat" where
  "padding align4 p = (if align4 \<and> p mod 4 \<noteq> 0 then 4 - p mod 4 else 0)"

lemma pad_before_eq: "pad_before align4 s = padding align4 (current_position s)"
  by (simp add: pad_before_def padding_def)

text \<open>
  \<open>writes f a\<close>: \<open>a\<close> gives, for a position and auxiliary state, the bytes that \<open>f\<close> appends there and
  the next auxiliary state. The measuring pass counts the bytes; the writing pass stores them and
  leaves the buffer iff they do not fit.
\<close>

definition step_ok :: "(serializer \<Rightarrow> serializer option) \<Rightarrow> serializer \<Rightarrow> nat \<Rightarrow> nat \<Rightarrow> bool" where
  "step_ok f s n x \<longleftrightarrow>
     (if measuring s then f s = Some (s\<lparr>sz_bytes_filled := sz_bytes_filled s + n, sz_f_188 := x\<rparr>)
      else if sz_bufp s + n \<le> length (sz_buf s)
      then \<exists>b. length b = length (sz_buf s) \<and> f s = Some (s\<lparr>sz_buf := b, sz_bufp := sz_bufp s + n, sz_f_188 := x\<rparr>)
      else f s = None)"

definition writes :: "(serializer \<Rightarrow> serializer option) \<Rightarrow> (nat \<Rightarrow> nat \<Rightarrow> nat \<times> nat) \<Rightarrow> bool" where
  "writes f a \<longleftrightarrow> (\<forall>s. sz_bufp s \<le> length (sz_buf s) \<longrightarrow>
     step_ok f s (fst (a (current_position s) (sz_f_188 s))) (snd (a (current_position s) (sz_f_188 s))))"

definition writer :: "(serializer \<Rightarrow> serializer option) \<Rightarrow> bool" where
  "writer f \<longleftrightarrow> (\<exists>a. writes f a)"

lemma writes_fwrite: "writes (serialize_fwrite data al) (\<lambda>p x. (padding al p + length data, x))"
proof -
  have "step_ok (serialize_fwrite data al) s (padding al (current_position s) + length data) (sz_f_188 s)"
    if "sz_bufp s \<le> length (sz_buf s)" for s
    by (cases "measuring s")
      (auto simp: step_ok_def serialize_fwrite_def measuring_def pad_before_eq store_bytes_def ac_simps
        intro!: exI [of _ "take (sz_bufp s) (sz_buf s) @ replicate (padding al (current_position s)) 0 @ data @
           drop (sz_bufp s + (padding al (current_position s) + length data)) (sz_buf s)"])
  then show ?thesis by (simp add: writes_def)
qed

lemma writes_Some: "writes Some (\<lambda>p x. (0, x))"
  by (auto simp: writes_def step_ok_def)

lemma writes_set_f_188: "writes (set_f_188 v) (\<lambda>p x. (0, v))"
  by (auto simp: writes_def step_ok_def set_f_188_def)

lemma step_seq:
  assumes f: "step_ok f s n x" and le: "sz_bufp s \<le> length (sz_buf s)"
    and g: "\<And>t. sz_bufp t \<le> length (sz_buf t) \<Longrightarrow> current_position t = current_position s + n \<Longrightarrow> sz_f_188 t = x \<Longrightarrow>
      step_ok g t n' x'"
  shows "step_ok (\<lambda>s. Option.bind (f s) g) s (n + n') x'"
proof (cases "measuring s")
  case True
  let ?t = "s\<lparr>sz_bytes_filled := sz_bytes_filled s + n, sz_f_188 := x\<rparr>"
  have "f s = Some ?t" using f True by (simp add: step_ok_def)
  moreover have "step_ok g ?t n' x'" by (rule g) (use le in \<open>simp_all add: current_position_def\<close>)
  moreover have "measuring ?t" using True by (simp add: measuring_def)
  ultimately show ?thesis using True by (simp add: step_ok_def ac_simps)
next
  case nm: False
  show ?thesis
  proof (cases "sz_bufp s + n \<le> length (sz_buf s)")
    case True
    then obtain b where b: "length b = length (sz_buf s)"
      "f s = Some (s\<lparr>sz_buf := b, sz_bufp := sz_bufp s + n, sz_f_188 := x\<rparr>)"
      using f nm by (auto simp: step_ok_def)
    let ?t = "s\<lparr>sz_buf := b, sz_bufp := sz_bufp s + n, sz_f_188 := x\<rparr>"
    have "step_ok g ?t n' x'" by (rule g) (use b True in \<open>simp_all add: current_position_def\<close>)
    moreover have "\<not> measuring ?t" using nm by (simp add: measuring_def)
    ultimately show ?thesis using nm b by (auto simp: step_ok_def add.assoc split: if_splits)
  next
    case False
    then show ?thesis using f nm by (simp add: step_ok_def)
  qed
qed

lemma writes_seq:
  assumes "writes f a" "writes g b"
  shows "writes (\<lambda>s. Option.bind (f s) g)
    (\<lambda>p x. (fst (a p x) + fst (b (p + fst (a p x)) (snd (a p x))), snd (b (p + fst (a p x)) (snd (a p x)))))"
proof -
  have "step_ok (\<lambda>s. Option.bind (f s) g) s
      (fst (a (current_position s) (sz_f_188 s)) + fst (b (current_position s + fst (a (current_position s) (sz_f_188 s)))
         (snd (a (current_position s) (sz_f_188 s)))))
      (snd (b (current_position s + fst (a (current_position s) (sz_f_188 s))) (snd (a (current_position s) (sz_f_188 s)))))"
    if "sz_bufp s \<le> length (sz_buf s)" for s
  proof (rule step_seq [OF _ that])
    show "step_ok f s (fst (a (current_position s) (sz_f_188 s))) (snd (a (current_position s) (sz_f_188 s)))"
      using assms(1) that by (simp add: writes_def)
  next
    fix t assume "sz_bufp t \<le> length (sz_buf t)"
      "current_position t = current_position s + fst (a (current_position s) (sz_f_188 s))"
      "sz_f_188 t = snd (a (current_position s) (sz_f_188 s))"
    then show "step_ok g t
        (fst (b (current_position s + fst (a (current_position s) (sz_f_188 s))) (snd (a (current_position s) (sz_f_188 s)))))
        (snd (b (current_position s + fst (a (current_position s) (sz_f_188 s))) (snd (a (current_position s) (sz_f_188 s)))))"
      using assms(2) unfolding writes_def by metis
  qed
  then show ?thesis by (simp add: writes_def)
qed

text \<open>Building blocks: sequences, choices on the auxiliary state, and dependence on the position.\<close>

lemma writer_fwrite: "writer (serialize_fwrite data al)"
  unfolding writer_def using writes_fwrite by blast

lemma writer_Some: "writer Some"
  unfolding writer_def using writes_Some by blast

lemma writer_set_f_188: "writer (set_f_188 v)"
  unfolding writer_def using writes_set_f_188 by blast

lemma writer_seq: "writer f \<Longrightarrow> writer g \<Longrightarrow> writer (\<lambda>s. Option.bind (f s) g)"
  unfolding writer_def using writes_seq by blast

lemma writer_run: "\<forall>f \<in> set fs. writer f \<Longrightarrow> writer (run_writes fs)"
proof (induction fs)
  case Nil
  have "run_writes [] = Some" by (rule ext) simp
  then show ?case by (simp add: writer_Some)
next
  case (Cons f fs)
  have "run_writes (f # fs) = (\<lambda>s. Option.bind (f s) (run_writes fs))" by (rule ext) simp
  with Cons show ?case by (simp add: writer_seq)
qed

lemma writer_if_aux:
  assumes "writer f" "writer g"
  shows "writer (\<lambda>s. if P (sz_f_188 s) then f s else g s)"
proof -
  from assms obtain a b where "writes f a" "writes g b" by (auto simp: writer_def)
  then have "writes (\<lambda>s. if P (sz_f_188 s) then f s else g s) (\<lambda>p x. if P x then a p x else b p x)"
    by (simp add: writes_def step_ok_def)
  then show ?thesis by (auto simp: writer_def)
qed

lemma writer_cong: "writer f \<Longrightarrow> (\<And>s. g s = f s) \<Longrightarrow> writer g"
  by (metis ext)

lemma writer_uint32: "writer (write_uint32 v)"
proof (rule writer_cong [OF writer_fwrite])
  show "write_uint32 v s = serialize_fwrite (u32_bytes v) False s" for s
    by (simp add: write_uint32_def serialize_fwrite_def pad_before_def)
qed

lemmas writer_basic = writer_fwrite writer_Some writer_set_f_188 writer_uint32

lemma writer_uint32_x3: "writer (serialize_uint32 a b c)"
  unfolding serialize_uint32_def by (rule writer_run) (simp add: writer_basic)

lemma writer_tagged: "writer (write_tagged_record tag data)"
proof -
  let ?h = "serialize_uint32 (encode_bin_tag tag) (word_of_nat ((length data + 3) div 4)) (word_of_nat ((length data + 3) div 4))"
  let ?d = "if data \<noteq> [] then [serialize_fwrite data True] else []"
  have "writer (\<lambda>s. if sz_f_188 s = 2 then run_writes ([write_uint32 separator_aux, set_f_188 3] @ [?h] @ ?d) s
      else (\<lambda>s. if sz_f_188 s = 0 then run_writes ([?h] @ ?d @ [set_f_188 1]) s else run_writes ([?h] @ ?d) s) s)"
    by (intro writer_if_aux writer_run) (auto simp: writer_basic writer_uint32_x3)
  then show ?thesis by (rule writer_cong) (simp add: write_tagged_record_def Let_def)
qed

text \<open>The operations of which a stream is composed.\<close>

inductive stream_op :: "(serializer \<Rightarrow> serializer option) \<Rightarrow> bool" where
  "stream_op (serialize_fwrite data al)"
| "stream_op (serialize_uint32 a b c)"
| "stream_op (write_uint32 v)"
| "stream_op (write_tagged_record tag data)"
| "stream_op (op_serialize_func has_op n_in ins n_out outs)"
| "stream_op (op_for_tensor_func has_op n_out outs)"
| "stream_op (prescan_ops_func n)"
| "stream_op (graph_io_tensors n_in ins n_out outs input_only)"
| "stream_op (before_runlists n1 n2 n3 n4 n5)"
| "stream_op after_non_runlist"
| "stream_op after_runlist"
| "stream_op (serialize_op n)"
| "stream_op (shape_serialize flags)"
| "stream_op (spcl_add_u32 ws)"
| "stream_op (spcl_add_sized_vec w)"
| "stream_op (spcl_fill_nullptr k)"
| "stream_op spcl_add_in_tensor"
| "stream_op (spcl_add_out_tensor present)"
| "stream_op (serialize_internal data)"

lemma writer_present: "f \<in> set (present_tensors n ts) \<Longrightarrow> writer f"
  by (auto simp: present_tensors_def tensor_serialize_def writer_uint32 split: option.splits)

lemma stream_op_writer: "stream_op f \<Longrightarrow> writer f"
proof (induction rule: stream_op.induct)
  case (5 has_op n_in ins n_out outs)
  have "writer (run_writes (serialize_fwrite (u32_bytes (word_of_nat n_in) @ u32_bytes (word_of_nat n_out) @ u32_bytes 0) True #
      present_tensors n_in ins @ present_tensors n_out outs))"
    by (rule writer_run) (auto simp: writer_basic dest: writer_present)
  then show ?case unfolding op_serialize_func_def by (simp only: writer_Some split: if_split) simp
next
  case (6 has_op n_out outs)
  have "writer (run_writes (serialize_fwrite (u32_bytes (word_of_nat 0) @ u32_bytes (word_of_nat n_out) @ u32_bytes 0) True #
      present_tensors 0 None @ present_tensors n_out outs))"
    by (rule writer_run) (auto simp: writer_basic dest: writer_present)
  then show ?case
    unfolding op_for_tensor_func_def op_serialize_func_def by (simp only: writer_Some split: if_split) simp
next
  case (8 n_in ins n_out outs input_only)
  show ?case
    unfolding graph_io_tensors_def by (rule writer_run) (auto simp: writer_basic dest: writer_present)
next
  case (16 k)
  show ?case unfolding spcl_fill_nullptr_def by (rule writer_run) (simp add: writer_basic)
qed (auto simp: writer_basic writer_uint32_x3 writer_tagged prescan_ops_func_def before_runlists_def
    after_non_runlist_def after_runlist_def serialize_op_def shape_serialize_def spcl_add_u32_def
    spcl_add_sized_vec_def spcl_add_in_tensor_def spcl_add_out_tensor_def serialize_internal_def
    tensor_serialize_def split: option.split)

definition serializer_start :: "bool \<Rightarrow> byte list \<Rightarrow> serializer" where
  "serializer_start counting buf = \<lparr>sz_buf = buf, sz_bufp = 0, sz_bytes_filled = 0, sz_prescan = False,
     sz_measure_only = counting, sz_f_188 = 0, sz_f_340 = 0, sz_f_348 = 0, sz_f_350 = 0\<rparr>"

section \<open>Contents of the buffer\<close>

definition written :: "serializer \<Rightarrow> byte list" where
  "written s = take (sz_bufp s) (sz_buf s)"

text \<open>A serializer that has only written records, up to an aligned position.\<close>

definition plain :: "serializer \<Rightarrow> bool" where
  "plain s \<longleftrightarrow> \<not> measuring s \<and> sz_bytes_filled s = 0 \<and> sz_bufp s \<le> length (sz_buf s) \<and> sz_bufp s mod 4 = 0 \<and>
     sz_f_188 s \<noteq> 2"

definition enc_record :: "u32 \<times> byte list \<Rightarrow> byte list" where
  "enc_record = (\<lambda>(tag, data). let wc = u32_bytes (word_of_nat (length data div 4))
     in u32_bytes (encode_bin_tag tag) @ wc @ wc @ data)"

lemma store_written:
  assumes "sz_bufp s + length bs \<le> length (sz_buf s)"
  shows "\<exists>s'. store_bytes bs s = Some s' \<and> written s' = written s @ bs \<and> sz_bufp s' = sz_bufp s + length bs \<and>
    length (sz_buf s') = length (sz_buf s) \<and> sz_bytes_filled s' = sz_bytes_filled s \<and> sz_f_188 s' = sz_f_188 s \<and>
    measuring s' = measuring s"
  using assms by (simp add: store_bytes_def written_def measuring_def)

lemma fwrite_written:
  assumes "\<not> measuring s" "sz_bufp s + length bs \<le> length (sz_buf s)" "\<not> al \<or> current_position s mod 4 = 0"
  shows "\<exists>s'. serialize_fwrite bs al s = Some s' \<and> written s' = written s @ bs \<and> sz_bufp s' = sz_bufp s + length bs \<and>
    length (sz_buf s') = length (sz_buf s) \<and> sz_bytes_filled s' = sz_bytes_filled s \<and> sz_f_188 s' = sz_f_188 s \<and>
    measuring s' = measuring s"
proof -
  have "store_bytes [] s = Some s" using assms(2) by (simp add: store_bytes_def)
  then have "serialize_fwrite bs al s = store_bytes bs s"
    using assms(1,3) by (auto simp: serialize_fwrite_def measuring_def pad_before_def)
  with store_written [OF assms(2)] show ?thesis by simp
qed

lemma uint32_written:
  assumes "\<not> measuring s" "sz_bufp s + 12 \<le> length (sz_buf s)"
  shows "\<exists>s'. serialize_uint32 a b c s = Some s' \<and> written s' = written s @ u32_bytes a @ u32_bytes b @ u32_bytes c \<and>
    sz_bufp s' = sz_bufp s + 12 \<and> length (sz_buf s') = length (sz_buf s) \<and> sz_bytes_filled s' = sz_bytes_filled s \<and>
    sz_f_188 s' = sz_f_188 s \<and> measuring s' = measuring s"
proof -
  obtain s1 where s1: "serialize_fwrite (u32_bytes a) False s = Some s1" "written s1 = written s @ u32_bytes a"
    "sz_bufp s1 = sz_bufp s + 4" "length (sz_buf s1) = length (sz_buf s)" "sz_bytes_filled s1 = sz_bytes_filled s"
    "sz_f_188 s1 = sz_f_188 s" "measuring s1 = measuring s"
    using fwrite_written [of s "u32_bytes a" False] assms by auto
  obtain s2 where s2: "serialize_fwrite (u32_bytes b) False s1 = Some s2" "written s2 = written s1 @ u32_bytes b"
    "sz_bufp s2 = sz_bufp s1 + 4" "length (sz_buf s2) = length (sz_buf s1)" "sz_bytes_filled s2 = sz_bytes_filled s1"
    "sz_f_188 s2 = sz_f_188 s1" "measuring s2 = measuring s1"
    using fwrite_written [of s1 "u32_bytes b" False] assms s1 by auto
  obtain s3 where s3: "serialize_fwrite (u32_bytes c) False s2 = Some s3" "written s3 = written s2 @ u32_bytes c"
    "sz_bufp s3 = sz_bufp s2 + 4" "length (sz_buf s3) = length (sz_buf s2)" "sz_bytes_filled s3 = sz_bytes_filled s2"
    "sz_f_188 s3 = sz_f_188 s2" "measuring s3 = measuring s2"
    using fwrite_written [of s2 "u32_bytes c" False] assms s1 s2 by auto
  show ?thesis by (rule exI [of _ s3]) (simp add: serialize_uint32_def s1 s2 s3)
qed

lemma tagged_written:
  assumes s: "plain s" and len: "length data mod 4 = 0" and room: "sz_bufp s + 12 + length data \<le> length (sz_buf s)"
  shows "\<exists>s'. write_tagged_record tag data s = Some s' \<and> written s' = written s @ enc_record (tag, data) \<and> plain s' \<and>
    sz_bufp s' = sz_bufp s + 12 + length data \<and> length (sz_buf s') = length (sz_buf s)"
proof -
  have wc: "(length data + 3) div 4 = length data div 4" using len by presburger
  let ?wc = "word_of_nat (length data div 4) :: u32"
  obtain s1 where s1: "serialize_uint32 (encode_bin_tag tag) ?wc ?wc s = Some s1"
    "written s1 = written s @ u32_bytes (encode_bin_tag tag) @ u32_bytes ?wc @ u32_bytes ?wc"
    "sz_bufp s1 = sz_bufp s + 12" "length (sz_buf s1) = length (sz_buf s)" "sz_bytes_filled s1 = sz_bytes_filled s"
    "sz_f_188 s1 = sz_f_188 s" "measuring s1 = measuring s"
    using uint32_written [of s "encode_bin_tag tag" ?wc ?wc] s room by (auto simp: plain_def)
  obtain s2 where s2: "(if data \<noteq> [] then serialize_fwrite data True s1 else Some s1) = Some s2" "written s2 = written s1 @ data"
    "sz_bufp s2 = sz_bufp s1 + length data" "length (sz_buf s2) = length (sz_buf s1)" "sz_bytes_filled s2 = sz_bytes_filled s1"
    "sz_f_188 s2 = sz_f_188 s1" "measuring s2 = measuring s1"
    using fwrite_written [of s1 data True] s room s1 by (cases "data = []") (auto simp: plain_def current_position_def mod_add_eq)
  define s3 where "s3 = (if sz_f_188 s = 0 then s2\<lparr>sz_f_188 := 1\<rparr> else s2)"
  have "write_tagged_record tag data s = Some s3"
    using s s1(1) s2(1) by (auto simp: write_tagged_record_def Let_def wc plain_def set_f_188_def s3_def)
  moreover have "plain s3"
    using s len room s1 s2 by (auto simp: plain_def s3_def measuring_def)
  moreover have "written s3 = written s @ enc_record (tag, data)" "sz_bufp s3 = sz_bufp s + 12 + length data"
    "length (sz_buf s3) = length (sz_buf s)"
    using s1 s2 by (simp_all add: s3_def enc_record_def written_def Let_def)
  ultimately show ?thesis by blast
qed

section \<open>The reader\<close>

definition dz_ok :: "deserz \<Rightarrow> bool" where
  "dz_ok d \<longleftrightarrow> dz_bufp d \<le> dz_limit d \<and> dz_limit d \<le> length (dz_data d)"

definition keeps_aligned :: "deserz \<Rightarrow> nat \<Rightarrow> bool" where
  "keeps_aligned d l \<longleftrightarrow> (dz_limit d mod 4 = 0 \<and> length (dz_data d) mod 4 = 0 \<longrightarrow> l mod 4 = 0)"

lemma fill_buffer_cases:
  assumes "dz_ok d"
  shows "(dz_limit d = length (dz_data d) \<and> fill_buffer d = Inl Underflow) \<or>
    (\<exists>l. dz_limit d < l \<and> l \<le> length (dz_data d) \<and> fill_buffer d = Inr (d\<lparr>dz_limit := l\<rparr>) \<and> keeps_aligned d l)"
proof -
  let ?l = "if 0x10000 < length (dz_data d) - dz_limit d then dz_limit d + 0x8000 else length (dz_data d)"
  show ?thesis
  proof (cases "length (dz_data d) \<le> dz_limit d")
    case True
    then show ?thesis using assms by (simp add: fill_buffer_def dz_ok_def)
  next
    case False
    then have "fill_buffer d = Inr (d\<lparr>dz_limit := ?l\<rparr>)" "dz_limit d < ?l" "?l \<le> length (dz_data d)"
      "keeps_aligned d ?l"
      by (auto simp: fill_buffer_def keeps_aligned_def mod_add_eq [symmetric])
    then show ?thesis by blast
  qed
qed

lemma byte_slice_append: "byte_slice p a xs @ byte_slice (p + a) b xs = byte_slice p (a + b) xs"
  by (simp add: byte_slice_def take_add add.commute)

text \<open>What is read: \<open>k\<close> bytes are copied, between the requested and the padded number.\<close>

definition read_result :: "bool \<Rightarrow> nat \<Rightarrow> nat \<Rightarrow> byte list \<Rightarrow> deserz \<Rightarrow> deser_error + byte list \<times> deserz \<Rightarrow> bool" where
  "read_result keep todo sz out d r \<longleftrightarrow>
     (if dz_bufp d + todo \<le> length (dz_data d)
      then \<exists>k l. r = Inr (out @ byte_slice (dz_bufp d) k (dz_data d), d\<lparr>dz_bufp := dz_bufp d + todo, dz_limit := l\<rparr>) \<and>
             (if keep \<and> 0 < sz then min sz todo \<le> k \<and> k \<le> todo else k = 0) \<and> dz_bufp d + todo \<le> l \<and> l \<le> length (dz_data d) \<and>
             keeps_aligned d l
      else r = Inl Underflow)"

lemma read_resultI:
  assumes "dz_bufp d + todo \<le> length (dz_data d)"
    and "r = Inr (out @ byte_slice (dz_bufp d) k (dz_data d), d\<lparr>dz_bufp := dz_bufp d + todo, dz_limit := l\<rparr>)"
    and "if keep \<and> 0 < sz then min sz todo \<le> k \<and> k \<le> todo else k = 0"
    and "dz_bufp d + todo \<le> l" "l \<le> length (dz_data d)" "keeps_aligned d l"
  shows "read_result keep todo sz out d r"
  unfolding read_result_def if_P [OF assms(1)]
  by (rule exI [of _ k], rule exI [of _ l]) (use assms in simp)

lemma read_resultE:
  assumes "read_result keep todo sz out d r" "dz_bufp d + todo \<le> length (dz_data d)"
  obtains k l where "r = Inr (out @ byte_slice (dz_bufp d) k (dz_data d), d\<lparr>dz_bufp := dz_bufp d + todo, dz_limit := l\<rparr>)"
    "if keep \<and> 0 < sz then min sz todo \<le> k \<and> k \<le> todo else k = 0"
    "dz_bufp d + todo \<le> l" "l \<le> length (dz_data d)" "keeps_aligned d l"
  using assms unfolding read_result_def by auto

lemma read_result_limit:
  assumes "read_result keep todo sz out (d\<lparr>dz_limit := l\<rparr>) r" "keeps_aligned d l"
  shows "read_result keep todo sz out d r"
proof (cases "dz_bufp d + todo \<le> length (dz_data d)")
  case True
  have ka: "keeps_aligned (d\<lparr>dz_limit := l\<rparr>) l' \<Longrightarrow> keeps_aligned d l'" for l'
    using assms(2) by (auto simp: keeps_aligned_def)
  from True assms(1) obtain k l' where "r = Inr (out @ byte_slice (dz_bufp d) k (dz_data d), d\<lparr>dz_bufp := dz_bufp d + todo, dz_limit := l'\<rparr>)"
    "if keep \<and> 0 < sz then min sz todo \<le> k \<and> k \<le> todo else k = 0" "dz_bufp d + todo \<le> l'" "l' \<le> length (dz_data d)"
    "keeps_aligned (d\<lparr>dz_limit := l\<rparr>) l'"
    by (auto simp: read_result_def)
  with True ka show ?thesis by (blast intro: read_resultI)
next
  case False
  then show ?thesis using assms(1) by (simp add: read_result_def)
qed

lemma fread_loop_result: "dz_ok d \<Longrightarrow> read_result keep todo sz out d (fread_loop keep todo sz out d)"
proof (induction keep todo sz out d rule: fread_loop.induct)
  case (1 keep todo sz out d)
  show ?case
  proof (cases "todo = 0")
    case True
    then have e: "fread_loop keep todo sz out d = Inr (out @ byte_slice (dz_bufp d) 0 (dz_data d),
        d\<lparr>dz_bufp := dz_bufp d + todo, dz_limit := dz_limit d\<rparr>)" by (subst fread_loop.simps) (simp add: byte_slice_def)
    have fits: "dz_bufp d + todo \<le> length (dz_data d)" using True 1(4) by (simp add: dz_ok_def)
    show ?thesis
      by (rule read_resultI [OF fits e]) (use True 1(4) in \<open>simp_all add: dz_ok_def keeps_aligned_def\<close>)
  next
    case todo: False
    define c where "c = min todo (dz_limit d - dz_bufp d)"
    have av: "sub64 (dz_limit d) (dz_bufp d) = dz_limit d - dz_bufp d" using 1(4) by (simp add: sub64_def dz_ok_def)
    show ?thesis
    proof (cases "c = 0")
      case True
      then have b: "dz_limit d = dz_bufp d" using todo 1(4) by (auto simp: c_def dz_ok_def)
      from fill_buffer_cases [OF 1(4)] show ?thesis
      proof (elim disjE exE conjE)
        assume "dz_limit d = length (dz_data d)" "fill_buffer d = Inl Underflow"
        then show ?thesis using todo b by (simp add: fread_loop.simps [of keep todo] sub64_def read_result_def Let_def)
      next
        fix l assume l: "dz_limit d < l" "l \<le> length (dz_data d)" "fill_buffer d = Inr (d\<lparr>dz_limit := l\<rparr>)"
          "keeps_aligned d l"
        have "dz_ok (d\<lparr>dz_limit := l\<rparr>)" using l b by (simp add: dz_ok_def)
        from 1(1) [OF todo refl refl _ l(3) this] have "read_result keep todo sz out (d\<lparr>dz_limit := l\<rparr>)
            (fread_loop keep todo sz out (d\<lparr>dz_limit := l\<rparr>))" using b av by simp
        moreover have "fread_loop keep todo sz out d = fread_loop keep todo sz out (d\<lparr>dz_limit := l\<rparr>)"
          using todo b l(3) by (subst fread_loop.simps) (simp add: sub64_def Let_def)
        ultimately show ?thesis using read_result_limit [OF _ l(4)] by simp
      qed
    next
      case pos: False
      have c: "0 < c" "c \<le> todo" "dz_bufp d + c \<le> dz_limit d" "dz_limit d \<le> length (dz_data d)"
        using pos 1(4) by (auto simp: c_def dz_ok_def)
      let ?d = "d\<lparr>dz_bufp := dz_bufp d + c\<rparr>"
      have ok: "dz_ok ?d" using c by (simp add: dz_ok_def)
      have cc: "min todo (sub64 (dz_limit d) (dz_bufp d)) = c" by (simp add: av c_def)
      show ?thesis
      proof (cases "keep \<and> 0 < sz")
        case True
        let ?out = "out @ byte_slice (dz_bufp d) c (dz_data d)"
        have r: "read_result keep (todo - c) (sub64 sz c) ?out ?d (fread_loop keep (todo - c) (sub64 sz c) ?out ?d)"
          using 1(2) [OF todo refl refl _ _ refl True] pos c ok unfolding cc by simp
        have e: "fread_loop keep todo sz out d = fread_loop keep (todo - c) (sub64 sz c) ?out ?d"
          using todo True c by (subst fread_loop.simps) (simp add: cc Let_def)
        show ?thesis
        proof (cases "dz_bufp d + todo \<le> length (dz_data d)")
          case fits: True
          then obtain k l where k: "fread_loop keep todo sz out d = Inr (?out @ byte_slice (dz_bufp d + c) k (dz_data d),
              d\<lparr>dz_bufp := dz_bufp d + todo, dz_limit := l\<rparr>)" "min (sub64 sz c) (todo - c) \<le> k" "k \<le> todo - c"
            "dz_bufp d + todo \<le> l" "l \<le> length (dz_data d)" "keeps_aligned d l"
            using r c True unfolding e read_result_def by (auto simp: keeps_aligned_def split: if_splits)
          have "min sz todo \<le> c + k" using k(2) by (cases "c \<le> sz") (auto simp: sub64_def min_def split: if_splits)
          then show ?thesis
            using k True c by (intro read_resultI [OF fits, where k = "c + k" and l = l]) (simp_all add: byte_slice_append)
        next
          case False
          then show ?thesis using r c unfolding e by (auto simp: read_result_def)
        qed
      next
        case False
        have r: "read_result keep (todo - c) sz out ?d (fread_loop keep (todo - c) sz out ?d)"
          using 1(3) [OF todo refl refl _ _ refl False] pos c ok unfolding cc by simp
        have e: "fread_loop keep todo sz out d = fread_loop keep (todo - c) sz out ?d"
          using todo False c by (subst fread_loop.simps) (auto simp: cc Let_def)
        show ?thesis
        proof (cases "dz_bufp d + todo \<le> length (dz_data d)")
          case fits: True
          have f: "dz_bufp ?d + (todo - c) \<le> length (dz_data ?d)" using fits c by simp
          obtain k l where k: "fread_loop keep todo sz out d = Inr (out @ byte_slice (dz_bufp ?d) k (dz_data ?d),
              ?d\<lparr>dz_bufp := dz_bufp ?d + (todo - c), dz_limit := l\<rparr>)"
            "if keep \<and> 0 < sz then min sz (todo - c) \<le> k \<and> k \<le> todo - c else k = 0"
            "dz_bufp ?d + (todo - c) \<le> l" "l \<le> length (dz_data ?d)" "keeps_aligned ?d l"
            using r f unfolding e by (rule read_resultE)
          then have "k = 0" using False by auto
          with k c False show ?thesis
            by (intro read_resultI [OF fits, where k = 0 and l = l]) (auto simp: byte_slice_def keeps_aligned_def)
        next
          case False
          then show ?thesis using r c unfolding e by (auto simp: read_result_def)
        qed
      qed
    qed
  qed
qed

text \<open>States at word boundaries; the window moves in steps of \<open>0x8000\<close>, so its limit stays aligned.\<close>

definition dz_aligned :: "deserz \<Rightarrow> bool" where
  "dz_aligned d \<longleftrightarrow> dz_ok d \<and> dz_bufp d mod 4 = 0 \<and> length (dz_data d) mod 4 = 0 \<and> dz_limit d mod 4 = 0"

definition dz_rest :: "deserz \<Rightarrow> byte list" where
  "dz_rest d = drop (dz_bufp d) (dz_data d)"

lemma fread_exact:
  assumes "dz_aligned d" "dz_rest d = bs @ rest" "length bs mod 4 = 0"
  shows "\<exists>d'. deserialize_fread True (length bs) al d = Inr (bs, d') \<and> dz_aligned d' \<and> dz_rest d' = rest"
proof -
  let ?n = "length bs"
  have ok: "dz_ok d" and p: "pad_after al (dz_bufp d + ?n) = 0"
    using assms(1,3) by (auto simp: dz_aligned_def pad_after_def mod_add_eq [symmetric])
  have "length (dz_data d) - dz_bufp d = ?n + length rest"
    using arg_cong [OF assms(2), of length] by (simp add: dz_rest_def)
  then have fits: "dz_bufp d + ?n \<le> length (dz_data d)" using ok unfolding dz_ok_def by linarith
  have r: "read_result True ?n ?n [] d (fread_loop True ?n ?n [] d)" by (rule fread_loop_result [OF ok])
  obtain l where l: "deserialize_fread True ?n al d = Inr (byte_slice (dz_bufp d) ?n (dz_data d),
      d\<lparr>dz_bufp := dz_bufp d + ?n, dz_limit := l\<rparr>)" "dz_bufp d + ?n \<le> l" "l \<le> length (dz_data d)" "keeps_aligned d l"
    using r fits
  proof (rule read_resultE)
    fix k l
    assume a: "fread_loop True ?n ?n [] d = Inr ([] @ byte_slice (dz_bufp d) k (dz_data d), d\<lparr>dz_bufp := dz_bufp d + ?n, dz_limit := l\<rparr>)"
      "if True \<and> 0 < ?n then min ?n ?n \<le> k \<and> k \<le> ?n else k = 0"
      "dz_bufp d + ?n \<le> l" "l \<le> length (dz_data d)" "keeps_aligned d l"
    then have "k = ?n" by (simp split: if_splits)
    with a p that [of l] show thesis by (simp add: deserialize_fread_def)
  qed
  have "byte_slice (dz_bufp d) ?n (dz_data d) = bs" using assms(2) by (simp add: byte_slice_def dz_rest_def)
  moreover have "drop (dz_bufp d + ?n) (dz_data d) = rest"
    using arg_cong [OF assms(2), of "drop ?n"] by (simp add: dz_rest_def add.commute)
  ultimately show ?thesis
    using l assms(1,3) by (auto simp: dz_aligned_def dz_ok_def dz_rest_def keeps_aligned_def mod_add_eq [symmetric])
qed

lemma next_u32_read:
  assumes al: "dz_aligned d" and d: "dz_rest d = u32_bytes w @ rest"
  shows "\<exists>d'. next_u32 d = Inr (w, d') \<and> dz_aligned d' \<and> dz_rest d' = rest"
proof -
  have ok: "dz_ok d" using al by (simp add: dz_aligned_def)
  have "length (dz_data d) - dz_bufp d = 4 + length rest"
    using arg_cong [OF d, of length] by (simp add: dz_rest_def)
  then have len: "dz_bufp d + 4 \<le> length (dz_data d)" using ok unfolding dz_ok_def by linarith
  have sl: "bytes_u32 (byte_slice (dz_bufp d) 4 (dz_data d)) = w"
    using d by (simp add: byte_slice_def dz_rest_def bytes_u32_bytes)
  have rest: "drop (dz_bufp d + 4) (dz_data d) = rest"
    using arg_cong [OF d, of "drop 4"] by (simp add: dz_rest_def add.commute)
  obtain l where l: "(if dz_limit d \<le> dz_bufp d then fill_buffer d else Inr d) = Inr (d\<lparr>dz_limit := l\<rparr>)" "dz_bufp d < l"
    "l \<le> length (dz_data d)" "l mod 4 = 0"
  proof (cases "dz_limit d \<le> dz_bufp d")
    case True
    then have "dz_limit d \<noteq> length (dz_data d)" using len by simp
    then obtain l where "dz_limit d < l" "l \<le> length (dz_data d)" "fill_buffer d = Inr (d\<lparr>dz_limit := l\<rparr>)" "keeps_aligned d l"
      using fill_buffer_cases [OF ok] by blast
    then show ?thesis using that [of l] True al ok by (simp add: keeps_aligned_def dz_aligned_def dz_ok_def)
  next
    case False
    then show ?thesis using that [of "dz_limit d"] al by (simp add: dz_aligned_def dz_ok_def)
  qed
  have "dz_bufp d mod 4 = 0" using al by (simp add: dz_aligned_def)
  with l(2,4) have "dz_bufp d + 4 \<le> l" by presburger
  then show ?thesis
    using l len sl rest al by (auto simp: next_u32_def dz_aligned_def dz_ok_def dz_rest_def mod_add_eq [symmetric])
qed

text \<open>The reading of one record: three words, then the payload that the second word announces.\<close>

definition read_record :: "deserz \<Rightarrow> deser_error + (u32 \<times> byte list) \<times> deserz" where
  "read_record d =
     (case deserialize_uint32_x3 d of
        Inl e \<Rightarrow> Inl e
      | Inr (ws, d') \<Rightarrow>
          (case deserialize_fread True (unat (ws ! 1) * 4) True d' of
             Inl e \<Rightarrow> Inl e
           | Inr (bs, d'') \<Rightarrow> Inr ((decode_bin_tag (ws ! 0), bs), d'')))"

fun read_records :: "nat \<Rightarrow> deserz \<Rightarrow> deser_error + (u32 \<times> byte list) list \<times> deserz" where
  "read_records 0 d = Inr ([], d)"
| "read_records (Suc n) d =
     (case read_record d of
        Inl e \<Rightarrow> Inl e
      | Inr (r, d') \<Rightarrow> (case read_records n d' of Inl e \<Rightarrow> Inl e | Inr (rs, d'') \<Rightarrow> Inr (r # rs, d'')))"

definition record_fits :: "u32 \<times> byte list \<Rightarrow> bool" where
  "record_fits r \<longleftrightarrow> length (snd r) mod 4 = 0 \<and> length (snd r) div 4 < 2 ^ 32"

lemma read_record_enc:
  assumes "dz_aligned d" "dz_rest d = enc_record r @ rest" "record_fits r"
  shows "\<exists>d'. read_record d = Inr ((fst r AND 0xFFFF, snd r), d') \<and> dz_aligned d' \<and> dz_rest d' = rest"
proof -
  obtain tag data where r: "r = (tag, data)" by fastforce
  let ?wc = "word_of_nat (length data div 4) :: u32"
  have un: "unat ?wc * 4 = length data"
    using assms(3) by (auto simp: record_fits_def r unat_of_nat take_bit_nat_eq_self)
  have rest: "dz_rest d = u32_bytes (encode_bin_tag tag) @ u32_bytes ?wc @ u32_bytes ?wc @ data @ rest"
    using assms(2) by (simp add: enc_record_def r Let_def)
  obtain d1 where d1: "next_u32 d = Inr (encode_bin_tag tag, d1)" "dz_aligned d1" "dz_rest d1 = u32_bytes ?wc @ u32_bytes ?wc @ data @ rest"
    using next_u32_read [OF assms(1) rest] by blast
  obtain d2 where d2: "next_u32 d1 = Inr (?wc, d2)" "dz_aligned d2" "dz_rest d2 = u32_bytes ?wc @ data @ rest"
    using next_u32_read [OF d1(2,3)] by blast
  obtain d3 where d3: "next_u32 d2 = Inr (?wc, d3)" "dz_aligned d3" "dz_rest d3 = data @ rest"
    using next_u32_read [OF d2(2,3)] by blast
  obtain d4 where d4: "deserialize_fread True (length data) True d3 = Inr (data, d4)" "dz_aligned d4" "dz_rest d4 = rest"
    using fread_exact [OF d3(2,3)] assms(3) by (auto simp: record_fits_def r)
  have "deserialize_uint32_x3 d = Inr ([encode_bin_tag tag, ?wc, ?wc], d3)"
    by (simp add: deserialize_uint32_x3_def numeral_3_eq_3 d1 d2 d3)
  then show ?thesis using d4 by (simp add: read_record_def un r decode_encode)
qed

lemma read_records_enc:
  "dz_aligned d \<Longrightarrow> dz_rest d = concat (map enc_record rs) @ rest \<Longrightarrow> \<forall>r \<in> set rs. record_fits r \<Longrightarrow>
   \<exists>d'. read_records (length rs) d = Inr (map (\<lambda>r. (fst r AND 0xFFFF, snd r)) rs, d') \<and> dz_rest d' = rest"
proof (induction rs arbitrary: d)
  case (Cons r rs)
  obtain d1 where d1: "read_record d = Inr ((fst r AND 0xFFFF, snd r), d1)" "dz_aligned d1"
    "dz_rest d1 = concat (map enc_record rs) @ rest"
    using read_record_enc [of d r "concat (map enc_record rs) @ rest"] Cons.prems by auto
  with Cons.IH [of d1] Cons.prems(3) show ?case by auto
qed simp

lemma length_enc_record [simp]: "length (enc_record r) = 12 + length (snd r)"
  by (simp add: enc_record_def Let_def split: prod.split)

lemma tagged_all_written:
  assumes "plain s" "\<forall>r \<in> set rs. record_fits r" "sz_bufp s + sum_list (map (length \<circ> enc_record) rs) \<le> length (sz_buf s)"
  shows "\<exists>s'. run_writes (map (\<lambda>r. write_tagged_record (fst r) (snd r)) rs) s = Some s' \<and>
    written s' = written s @ concat (map enc_record rs)"
  using assms
proof (induction rs arbitrary: s)
  case (Cons r rs)
  obtain s1 where s1: "write_tagged_record (fst r) (snd r) s = Some s1" "written s1 = written s @ enc_record r" "plain s1"
    "sz_bufp s1 = sz_bufp s + 12 + length (snd r)" "length (sz_buf s1) = length (sz_buf s)"
    using tagged_written [of s "snd r" "fst r"] Cons.prems by (auto simp: record_fits_def)
  with Cons.IH [of s1] Cons.prems show ?case by auto
qed simp

lemma enc_records_aligned: "\<forall>r \<in> set rs. record_fits r \<Longrightarrow> length (concat (map enc_record rs)) mod 4 = 0"
  by (induction rs) (auto simp: record_fits_def mod_add_eq [symmetric] simp del: mod_0_imp_dvd)

section \<open>Properties\<close>



text \<open>
  C39: \<open>deserialize_fread\<close> is total and exact about its outcome. From a state whose cursor is inside the
  window, it reports an underflow iff the requested bytes with their padding reach behind the data;
  otherwise the first \<open>n\<close> bytes delivered are the next \<open>n\<close> bytes of the data, whatever the window was,
  and the cursor stands behind the padding. Up to three bytes more than \<open>n\<close> may be delivered.
\<close>

theorem fread_correct:
  assumes "dz_ok d"
  shows "if dz_bufp d + (n + pad_after al (dz_bufp d + n)) \<le> length (dz_data d)
    then \<exists>bs l. deserialize_fread True n al d =
             Inr (bs, d\<lparr>dz_bufp := dz_bufp d + (n + pad_after al (dz_bufp d + n)), dz_limit := l\<rparr>) \<and>
           take n bs = take n (drop (dz_bufp d) (dz_data d)) \<and> n \<le> length bs \<and> length bs \<le> n + 3
    else deserialize_fread True n al d = Inl Underflow"
proof -
  let ?t = "n + pad_after al (dz_bufp d + n)"
  have r: "read_result True ?t n [] d (deserialize_fread True n al d)"
    unfolding deserialize_fread_def by (rule fread_loop_result [OF assms])
  have pad: "pad_after al (dz_bufp d + n) \<le> 3" by (auto simp: pad_after_def)
  show ?thesis
  proof (cases "dz_bufp d + ?t \<le> length (dz_data d)")
    case True
    from r True obtain k l where k: "deserialize_fread True n al d = Inr ([] @ byte_slice (dz_bufp d) k (dz_data d),
        d\<lparr>dz_bufp := dz_bufp d + ?t, dz_limit := l\<rparr>)" "if True \<and> 0 < n then min n ?t \<le> k \<and> k \<le> ?t else k = 0"
      by (rule read_resultE) blast
    have "n \<le> k" "k \<le> ?t" using k(2) by (auto split: if_splits)
    then show ?thesis using True k(1) pad by (auto simp: byte_slice_def min_def)
  next
    case False
    then show ?thesis using r by (simp add: read_result_def)
  qed
qed

theorem fread_correct_witness:
  "\<exists>bs d'. deserialize_fread True 2 True (deserz_init [1, 2, 3, 4]) = Inr (bs, d') \<and> take 2 bs = [1, 2]"
  using fread_correct [of "deserz_init [1, 2, 3, 4]" 2 True]
  by (auto simp: deserz_init_def dz_ok_def pad_after_def)

text \<open>The destination of two bytes receives four, also the padding.\<close>

lemma fread_overrun:
  "\<exists>d'. deserialize_fread True 2 True (deserz_init [1, 2, 3, 4]) = Inr ([1, 2, 3, 4], d')"
  by (simp add: deserialize_fread_def deserz_init_def pad_after_def fread_loop.simps fill_buffer_def sub64_def
      byte_slice_def Let_def)



text \<open>
  With a payload of one byte, the writer puts the next header directly behind it, while the announced
  word count and the reader's padding place it at the next word boundary.
\<close>

lemma unaligned_payload:
  "\<exists>s. run_writes [write_tagged_record 1 [7], write_tagged_record 2 []] (serializer_start False (replicate 28 0)) = Some s \<and>
     length (written s) = 25 \<and> take 4 (drop 13 (written s)) = u32_bytes (encode_bin_tag 2)"
  by (simp add: write_tagged_record_def serializer_start_def serialize_uint32_def serialize_fwrite_def store_bytes_def
        pad_before_def current_position_def set_f_188_def Let_def written_def u32_bytes_def)

end
