(* ===== verification/DpGroups.thy ===== *)
theory DpGroups
  imports GraphIr
begin

text \<open>
  The grouping of operators into units that are planned together
  (\<open>compiler/src/vtcm/dp_group_graph.cpp\<close>): groups along the operator order, merging of small groups,
  splitting of groups over the scratchpad or the DDR budget, and migration of single large
  outputs into a predecessor.

  \<open>op_ids\<close> are lists; groups are referred to by their index. A group that is merged into itself would
  be extended while it is iterated over; this is the result \<open>None\<close>. The requirement of a part of a
  group is a rounded floating point product, the parameter \<open>share\<close> (\<open>share x k n\<close> for \<open>k\<close> of \<open>n\<close>
  operators); what is needed of it is that a share is not more than the whole. The growth of the
  group list during the splitting loops is part of the model.
\<close>

section \<open>Data\<close>

record dp_group =
  dg_op_ids :: "op_id list"
  dg_vtcm :: bytes
  dg_ddr :: bytes
  dg_output_size :: bytes
  dg_isolated_s_dim :: nat
  dg_s_dim_offset :: nat
  dg_preds :: "nat list"
  dg_succs :: "nat list"
  dg_is_merged :: bool
  dg_is_broken :: bool
  dg_layer_id :: int
  dg_layer_name :: string
  dg_is_input :: bool
  dg_is_popular :: bool
  dg_parent_max_spill :: bytes

definition empty_group :: dp_group where
  "empty_group = \<lparr>dg_op_ids = [], dg_vtcm = 0, dg_ddr = 0, dg_output_size = 0, dg_isolated_s_dim = 0,
     dg_s_dim_offset = 0, dg_preds = [], dg_succs = [],
     dg_is_merged = False, dg_is_broken = False, dg_layer_id = - 1, dg_layer_name = [], dg_is_input = False,
     dg_is_popular = False, dg_parent_max_spill = 0\<rparr>"

datatype branch_linear_order = LargestBranchFirst | DfLevelIsinputName | DfIoDistanceSizeName

record dp_group_graph =
  gg_groups :: "dp_group list"
  gg_order :: branch_linear_order
  gg_locked :: bool

section \<open>Grouping\<close>

definition op_name :: "op_def \<Rightarrow> string" where
  "op_name od = (case opd_name od of Some nm \<Rightarrow> nm | None \<Rightarrow> [])"

definition groupable :: "op_def \<Rightarrow> bool" where
  "groupable od \<longleftrightarrow> is_enabled od \<and> \<not> is_dead od \<and> \<not> is_const od \<and> op_name od \<noteq> ''Output''"

definition group_op :: "op_def \<Rightarrow> dp_group list \<Rightarrow> dp_group list" where
  "group_op od gs =
     (if \<not> groupable od then gs
      else if gs = [] \<or> op_name od = ''Input'' \<or>
              list_ex (\<lambda>c. src_id c \<notin> set (dg_op_ids (last gs))) (opd_inputs od)
      then gs @ [empty_group\<lparr>dg_op_ids := [opd_op_id od], dg_is_input := (op_name od = ''Input''),
                   dg_layer_id := int (length gs), dg_layer_name := op_name od\<rparr>]
      else butlast gs @ [(last gs)\<lparr>dg_op_ids := dg_op_ids (last gs) @ [opd_op_id od]\<rparr>])"

definition op_id_based_grouping :: "op_def list \<Rightarrow> dp_group list" where
  "op_id_based_grouping sorted_ops = fold group_op sorted_ops []"

definition op_bytes :: "opdef_map \<Rightarrow> op_id \<Rightarrow> bytes" where
  "op_bytes g i = (case get_op_at g i of None \<Rightarrow> 0 | Some od \<Rightarrow> out_bytes (opd_output_def od))"

definition compute_group_requirements :: "opdef_map \<Rightarrow> dp_group \<Rightarrow> dp_group" where
  "compute_group_requirements g gr =
     gr\<lparr>dg_vtcm := sum_list (map (op_bytes g) (dg_op_ids gr)),
        dg_ddr := sum_list (map (\<lambda>i. op_bytes g i div 5) (dg_op_ids gr)),
        dg_output_size := sum_list (map (op_bytes g) (dg_op_ids gr))\<rparr>"

definition op2group :: "dp_group list \<Rightarrow> op_id \<Rightarrow> nat option" where
  "op2group gs = map_of (rev (concat (map (\<lambda>gi. map (\<lambda>oid. (oid, gi)) (dg_op_ids (gs ! gi))) [0..<length gs])))"

definition adj_conn :: "(op_id \<Rightarrow> nat option) \<Rightarrow> nat \<Rightarrow> input_conn \<Rightarrow> dp_group list \<Rightarrow> dp_group list" where
  "adj_conn m gi c gs =
     (case m (src_id c) of
        None \<Rightarrow> gs
      | Some p \<Rightarrow>
          if p = gi then gs
          else let gs1 = gs[gi := (gs ! gi)\<lparr>dg_preds := push_new p (dg_preds (gs ! gi))\<rparr>]
               in gs1[p := (gs1 ! p)\<lparr>dg_succs := push_new gi (dg_succs (gs1 ! p))\<rparr>])"

definition adj_op :: "opdef_map \<Rightarrow> (op_id \<Rightarrow> nat option) \<Rightarrow> nat \<Rightarrow> op_id \<Rightarrow> dp_group list \<Rightarrow> dp_group list" where
  "adj_op g m gi oid gs =
     (case get_op_at g oid of None \<Rightarrow> gs | Some od \<Rightarrow> fold (adj_conn m gi) (opd_inputs od) gs)"

definition adj_group :: "opdef_map \<Rightarrow> (op_id \<Rightarrow> nat option) \<Rightarrow> nat \<Rightarrow> dp_group list \<Rightarrow> dp_group list" where
  "adj_group g m gi gs =
     fold (adj_op g m gi) (dg_op_ids (gs ! gi)) (gs[gi := (gs ! gi)\<lparr>dg_preds := [], dg_succs := []\<rparr>])"

definition build_group_adjacency :: "opdef_map \<Rightarrow> dp_group list \<Rightarrow> dp_group list" where
  "build_group_adjacency g gs = fold (adj_group g (op2group gs)) [0..<length gs] gs"

definition build_groups :: "opdef_map \<Rightarrow> op_def list \<Rightarrow> dp_group list" where
  "build_groups g sorted_ops =
     build_group_adjacency g
       (map (\<lambda>gr. compute_group_requirements g (if dg_is_input gr then gr\<lparr>dg_layer_name := []\<rparr> else gr))
         (op_id_based_grouping sorted_ops))"

definition can_merge_into_group :: "opdef_map \<Rightarrow> op_id \<Rightarrow> dp_group \<Rightarrow> bool" where
  "can_merge_into_group g i gr =
     (case get_op_at g i of None \<Rightarrow> False | Some od \<Rightarrow> list_all (\<lambda>c. c \<in> set (dg_op_ids gr)) (opd_consumers od))"

section \<open>Merging\<close>

definition merge_into :: "nat \<Rightarrow> nat \<Rightarrow> (dp_group \<Rightarrow> dp_group \<Rightarrow> dp_group) \<Rightarrow> dp_group list \<Rightarrow> dp_group list option" where
  "merge_into i p upd gs =
     (if p = i then None
      else Some (let gs1 = gs[p := upd (gs ! i) ((gs ! p)\<lparr>dg_op_ids := dg_op_ids (gs ! p) @ dg_op_ids (gs ! i)\<rparr>)]
                 in gs1[i := (gs1 ! i)\<lparr>dg_op_ids := []\<rparr>]))"

definition small_group :: "dp_group \<Rightarrow> bool" where
  "small_group gr \<longleftrightarrow> dg_op_ids gr \<noteq> [] \<and> dg_vtcm gr < 32"

definition merge_target :: "dp_group list \<Rightarrow> nat \<Rightarrow> nat option" where
  "merge_target gs i =
     (if small_group (gs ! i)
      then find (\<lambda>p. p < length gs \<and> dg_op_ids (gs ! p) \<noteq> []) (dg_preds (gs ! i)) else None)"

definition absorb_small :: "dp_group \<Rightarrow> dp_group \<Rightarrow> dp_group" where
  "absorb_small src dst = dst\<lparr>dg_vtcm := dg_vtcm dst + dg_vtcm src, dg_ddr := dg_ddr dst + dg_ddr src,
     dg_output_size := dg_output_size dst + dg_output_size src, dg_is_merged := True\<rparr>"

fun merge_pass :: "nat list \<Rightarrow> bool \<Rightarrow> dp_group list \<Rightarrow> (bool \<times> dp_group list) option" where
  "merge_pass [] changed gs = Some (changed, gs)"
| "merge_pass (i # is) changed gs =
     (case merge_target gs i of
        None \<Rightarrow> merge_pass is changed gs
      | Some p \<Rightarrow> Option.bind (merge_into i p absorb_small gs) (merge_pass is True))"

definition filled :: "dp_group list \<Rightarrow> nat" where
  "filled gs = length (filter (\<lambda>gr. dg_op_ids gr \<noteq> []) gs)"

lemma filled_card: "filled gs = card {k. k < length gs \<and> dg_op_ids (gs ! k) \<noteq> []}"
  unfolding filled_def by (rule length_filter_conv_card)

lemma merge_targetD:
  assumes "merge_target gs i = Some p"
  shows "small_group (gs ! i)" "p \<in> set (dg_preds (gs ! i))" "p < length gs" "dg_op_ids (gs ! p) \<noteq> []"
  using assms by (auto simp: merge_target_def find_Some_iff split: if_splits)

lemma merge_intoD:
  assumes "merge_into i p upd gs = Some gs'"
  shows "p \<noteq> i"
    "gs' = (gs[p := upd (gs ! i) ((gs ! p)\<lparr>dg_op_ids := dg_op_ids (gs ! p) @ dg_op_ids (gs ! i)\<rparr>)])
             [i := (gs ! i)\<lparr>dg_op_ids := []\<rparr>]"
  using assms by (auto simp: merge_into_def Let_def split: if_splits)

lemma absorb_small_ops [simp]: "dg_op_ids (absorb_small a b) = dg_op_ids b" "dg_preds (absorb_small a b) = dg_preds b"
  by (simp_all add: absorb_small_def)

lemma merge_filled:
  assumes "merge_target gs i = Some p" "merge_into i p absorb_small gs = Some gs'" "i < length gs"
  shows "filled gs' < filled gs" "length gs' = length gs"
proof -
  note t = merge_targetD [OF assms(1)] and m = merge_intoD [OF assms(2)]
  have ne: "p \<noteq> i" by (rule m(1))
  have len: "length gs' = length gs" by (simp add: m(2))
  have nth: "dg_op_ids (gs' ! k) \<noteq> [] \<longleftrightarrow> dg_op_ids (gs ! k) \<noteq> [] \<and> k \<noteq> i" if "k < length gs" for k
    using that ne t(3,4) assms(3) by (cases "p = k") (simp_all add: m(2) nth_list_update)
  let ?K = "{k. k < length gs \<and> dg_op_ids (gs ! k) \<noteq> []}"
  have "{k. k < length gs' \<and> dg_op_ids (gs' ! k) \<noteq> []} = ?K - {i}"
    unfolding len using nth by blast
  moreover have "finite ?K" "i \<in> ?K" using t(1) assms(3) by (simp_all add: small_group_def)
  ultimately show "filled gs' < filled gs"
    by (simp only: filled_card card_Diff1_less)
  show "length gs' = length gs" using m by simp
qed

lemma merge_pass_filled:
  "merge_pass is changed gs = Some (changed', gs') \<Longrightarrow> set is \<subseteq> {..<length gs} \<Longrightarrow>
     length gs' = length gs \<and> filled gs' \<le> filled gs \<and> (changed' \<longrightarrow> changed \<or> filled gs' < filled gs)"
proof (induction "is" changed gs rule: merge_pass.induct)
  case (2 i "is" changed gs)
  show ?case
  proof (cases "merge_target gs i")
    case None
    with 2 show ?thesis by simp
  next
    case (Some p)
    with 2(3) obtain gs1 where g: "merge_into i p absorb_small gs = Some gs1"
        "merge_pass is True gs1 = Some (changed', gs')"
      by (auto split: bind_splits)
    have i: "i < length gs" using 2(4) by simp
    note f = merge_filled [OF Some g(1) i]
    have "length gs' = length gs1 \<and> filled gs' \<le> filled gs1"
      using 2(2) [OF Some g] f(2) 2(4) by auto
    with f show ?thesis by auto
  qed
qed simp

function merge_loop :: "dp_group list \<Rightarrow> dp_group list option" where
  "merge_loop gs =
     (case merge_pass [0..<length gs] False gs of
        None \<Rightarrow> None
      | Some (changed, gs') \<Rightarrow> if changed then merge_loop gs' else Some gs')"
  by pat_completeness auto
termination
  by (relation "measure filled") (auto dest: merge_pass_filled)

declare merge_loop.simps [simp del]

definition merge_lower_32_groups :: "dp_group list \<Rightarrow> dp_group list option" where
  "merge_lower_32_groups gs =
     (if length gs \<le> 1 then Some gs
      else map_option (filter (\<lambda>gr. dg_op_ids gr \<noteq> [])) (merge_loop gs))"

section \<open>Splitting\<close>

type_synonym shares = "bytes \<Rightarrow> nat \<Rightarrow> nat \<Rightarrow> bytes"

definition halves :: "shares \<Rightarrow> dp_group \<Rightarrow> dp_group \<times> dp_group" where
  "halves share gr =
     (let n = length (dg_op_ids gr); mid = n div 2;
          part = (\<lambda>x. share x mid n);
          common = empty_group\<lparr>dg_is_broken := True, dg_layer_id := dg_layer_id gr\<rparr>
      in (common\<lparr>dg_op_ids := take mid (dg_op_ids gr), dg_vtcm := part (dg_vtcm gr), dg_ddr := part (dg_ddr gr),
                 dg_output_size := part (dg_output_size gr)\<rparr>,
          common\<lparr>dg_op_ids := drop mid (dg_op_ids gr), dg_vtcm := dg_vtcm gr - part (dg_vtcm gr),
                 dg_ddr := dg_ddr gr - part (dg_ddr gr),
                 dg_output_size := dg_output_size gr - part (dg_output_size gr)\<rparr>))"

lemma halves_ops:
  assumes "halves share gr = (g1, g2)"
  shows "dg_op_ids g1 @ dg_op_ids g2 = dg_op_ids gr"
    "2 \<le> length (dg_op_ids gr) \<Longrightarrow> dg_op_ids g1 \<noteq> [] \<and> dg_op_ids g2 \<noteq> [] \<and> length (dg_op_ids g2) < length (dg_op_ids gr)"
    "dg_preds g1 = []" "dg_preds g2 = []"
  using assms by (auto simp: halves_def Let_def empty_group_def)

text \<open>
  The recursive split. The first half keeps the index of the group, which is in \<open>visited\<close> by then, so
  only the second half can be split further.
\<close>

function break_single_group ::
  "shares \<Rightarrow> bytes \<Rightarrow> nat \<Rightarrow> nat set \<Rightarrow> dp_group list \<Rightarrow> bool \<times> nat set \<times> dp_group list" where
  "break_single_group share budget gidx visited gs =
     (if gidx \<in> visited then (False, visited, gs)
      else if length gs \<le> gidx \<or> dg_op_ids (gs ! gidx) = [] \<or> dg_vtcm (gs ! gidx) \<le> budget \<or>
              length (dg_op_ids (gs ! gidx)) < 2
      then (False, insert gidx visited, gs)
      else let (g1, g2) = halves share (gs ! gidx);
               (b1, vis1, gs1) =
                 (if budget < dg_vtcm g1
                  then break_single_group share budget gidx (insert gidx visited) (gs[gidx := g1] @ [g2])
                  else (False, insert gidx visited, gs[gidx := g1] @ [g2]));
               (b2, vis2, gs2) =
                 (if budget < dg_vtcm g2
                  then break_single_group share budget (length gs1 - 1) vis1 gs1
                  else (False, vis1, gs1))
           in (True, vis2, gs2))"
  by pat_completeness auto

termination
proof (relation "measure (\<lambda>(share, budget, gidx, visited, gs). if gidx \<in> visited then 0 else Suc (length (dg_op_ids (gs ! gidx))))", goal_cases)
  case (3 share budget gidx visited gs x g1 g2 y b1 z vis1 gs1)
  have "(b1, vis1, gs1) = (False, insert gidx visited, gs[gidx := g1] @ [g2])"
    using 3 by (cases "budget < dg_vtcm g1") (simp_all add: break_single_group.psimps)
  moreover have "length (dg_op_ids g2) < length (dg_op_ids (gs ! gidx))"
    using halves_ops(2) [of share "gs ! gidx" g1 g2] 3(2,3,4) by simp
  ultimately show ?case using 3(1,7) by (simp add: nth_append)
qed auto

declare break_single_group.simps [simp del]

text \<open>What a split does, seen from its recursion over second halves.\<close>

lemma break_single_group_step:
  assumes "gidx \<notin> visited"
  shows "break_single_group share budget gidx visited gs =
    (if length gs \<le> gidx \<or> dg_vtcm (gs ! gidx) \<le> budget \<or> length (dg_op_ids (gs ! gidx)) < 2
     then (False, insert gidx visited, gs)
     else let (g1, g2) = halves share (gs ! gidx);
              (b2, vis2, gs2) =
                (if budget < dg_vtcm g2
                 then break_single_group share budget (length gs) (insert gidx visited) (gs[gidx := g1] @ [g2])
                 else (False, insert gidx visited, gs[gidx := g1] @ [g2]))
          in (True, vis2, gs2))"
proof -
  have v: "break_single_group share budget gidx (insert gidx visited) hs = (False, insert gidx visited, hs)" for hs
    by (subst break_single_group.simps) simp
  show ?thesis
    by (subst break_single_group.simps) (use assms in \<open>auto simp: v Let_def split: prod.splits\<close>)
qed

section \<open>Loops over a growing list\<close>

definition fair :: "shares \<Rightarrow> bool" where
  "fair share \<longleftrightarrow> (\<forall>x k n. share x k n \<le> x)"

text \<open>\<open>hs\<close> are the parts that \<open>gr\<close> was split into.\<close>

definition parts :: "shares \<Rightarrow> dp_group \<Rightarrow> dp_group list \<Rightarrow> bool" where
  "parts share gr hs \<longleftrightarrow> concat (map dg_op_ids hs) = dg_op_ids gr \<and> list_all (\<lambda>h. dg_op_ids h \<noteq> []) hs \<and>
     list_all (\<lambda>h. dg_preds h = []) hs \<and> (fair share \<longrightarrow> sum_list (map dg_vtcm hs) = dg_vtcm gr)"

lemma parts_halves:
  assumes "halves share gr = (g1, g2)" "2 \<le> length (dg_op_ids gr)"
  shows "parts share gr [g1, g2]" "parts share g2 [g2]"
  using halves_ops [OF assms(1)] assms
  by (auto simp: parts_def halves_def Let_def fair_def empty_group_def)

lemma parts_trans:
  assumes "parts share gr [g1, g2]" "parts share g2 hs"
  shows "parts share gr (g1 # hs)"
  using assms by (auto simp: parts_def)

lemma break_single_group_parts:
  assumes "break_single_group share budget gidx visited gs = (b, visited', gs')"
    and "gidx < length gs" "gidx \<notin> visited" "visited \<subseteq> {..<length gs}"
  shows "\<not> b \<and> gs' = gs \<or> b \<and> 2 \<le> length (dg_op_ids (gs ! gidx)) \<and>
    (\<exists>g new. gs' = gs[gidx := g] @ new \<and> parts share (gs ! gidx) (g # new))"
  using assms
proof (induction "length (dg_op_ids (gs ! gidx))" arbitrary: gidx visited gs b visited' gs' rule: less_induct)
  case less
  obtain g1 g2 where h: "halves share (gs ! gidx) = (g1, g2)" by fastforce
  show ?case
  proof (cases "dg_vtcm (gs ! gidx) \<le> budget \<or> length (dg_op_ids (gs ! gidx)) < 2")
    case True
    with less.prems show ?thesis by (simp add: break_single_group_step)
  next
    case False
    then have two: "2 \<le> length (dg_op_ids (gs ! gidx))" by simp
    note p = parts_halves [OF h two]
    let ?gs1 = "gs[gidx := g1] @ [g2]"
    obtain b2 vis2 where r: "(if budget < dg_vtcm g2
        then break_single_group share budget (length gs) (insert gidx visited) ?gs1
        else (False, insert gidx visited, ?gs1)) = (b2, vis2, gs')" and b: "b"
      using less.prems False h by (auto simp: break_single_group_step split: prod.splits)
    have "\<exists>hs. gs' = gs[gidx := g1] @ hs \<and> parts share g2 hs"
    proof (cases "budget < dg_vtcm g2")
      case False
      with r p(2) show ?thesis by auto
    next
      case True
      have nth: "?gs1 ! length gs = g2" by (simp add: nth_append)
      have "\<not> b2 \<and> gs' = ?gs1 \<or> b2 \<and> 2 \<le> length (dg_op_ids (?gs1 ! length gs)) \<and>
          (\<exists>g new. gs' = ?gs1[length gs := g] @ new \<and> parts share (?gs1 ! length gs) (g # new))"
        using r True less.prems halves_ops(2) [OF h two]
        by (intro less.hyps [where visited = "insert gidx visited"]) (auto simp: nth)
      then show ?thesis using p(2) by (auto simp: nth list_update_append)
    qed
    then obtain hs where "gs' = gs[gidx := g1] @ hs" "parts share g2 hs" by auto
    with b two parts_trans [OF p(1)] show ?thesis by auto
  qed
qed

definition weight :: "dp_group \<Rightarrow> nat" where
  "weight gr = (if dg_op_ids gr = [] then 1 else 2 * length (dg_op_ids gr) - 1)"

lemma weight_pos: "0 < weight gr"
  by (cases "dg_op_ids gr") (auto simp: weight_def)

lemma weight_parts:
  assumes "list_all (\<lambda>h. dg_op_ids h \<noteq> []) hs"
  shows "sum_list (map weight hs) \<le> 2 * length (concat (map dg_op_ids hs))"
  using assms by (induction hs) (auto simp: weight_def)

lemma weight_rest:
  assumes "i < length gs" "parts share (gs ! i) (g # new)"
  shows "sum_list (map weight (drop (Suc i) (gs[i := g] @ new))) < sum_list (map weight (drop i gs))"
proof -
  have ne: "list_all (\<lambda>h. dg_op_ids h \<noteq> []) new" "dg_op_ids g \<noteq> []"
    and ops: "dg_op_ids g @ concat (map dg_op_ids new) = dg_op_ids (gs ! i)"
    using assms(2) by (auto simp: parts_def)
  have len: "length (dg_op_ids g) + length (concat (map dg_op_ids new)) = length (dg_op_ids (gs ! i))"
    by (simp only: ops [symmetric] length_append)
  have "sum_list (map weight new) < weight (gs ! i)"
  proof -
    have "0 < length (dg_op_ids g)" using ne(2) by simp
    with len have *: "length (concat (map dg_op_ids new)) < length (dg_op_ids (gs ! i))" by linarith
    then have "dg_op_ids (gs ! i) \<noteq> []" by auto
    with *
      weight_parts [OF ne(1)] show ?thesis by (simp add: weight_def)
  qed
  then show ?thesis
    using assms(1) by (simp add: Cons_nth_drop_Suc [symmetric])
qed

lemma weight_next: "i < length gs \<Longrightarrow> sum_list (map weight (drop (Suc i) gs)) < sum_list (map weight (drop i gs))"
  using weight_pos [of "gs ! i"] by (simp add: Cons_nth_drop_Suc [symmetric])

function break_loop :: "shares \<Rightarrow> bytes \<Rightarrow> nat \<Rightarrow> bool \<Rightarrow> dp_group list \<Rightarrow> bool \<times> dp_group list" where
  "break_loop share budget i any gs =
     (if length gs \<le> i then (any, gs)
      else if dg_vtcm (gs ! i) \<le> budget then break_loop share budget (Suc i) any gs
      else let (b, visited, gs') = break_single_group share budget i {} gs
           in break_loop share budget (Suc i) (any \<or> b) gs')"
  by pat_completeness auto
termination
proof (relation "measure (\<lambda>(share, budget, i, any, gs). sum_list (map weight (drop i gs)))", goal_cases)
  case (3 share budget i any gs x b y visited gs')
  then have "break_single_group share budget i {} gs = (b, visited, gs')" "i < length gs" by auto
  from break_single_group_parts [OF this]
  consider "gs' = gs" | g new where "gs' = gs[i := g] @ new" "parts share (gs ! i) (g # new)" by auto
  then show ?case
    using weight_rest [of i gs share] weight_next [of i gs] \<open>i < length gs\<close> by cases auto
qed (auto intro: weight_next)

declare break_loop.simps [simp del]

definition tcm_break_up :: "shares \<Rightarrow> bytes \<Rightarrow> dp_group_graph \<Rightarrow> bool \<times> dp_group_graph" where
  "tcm_break_up share budget gg =
     (if sum_list (map dg_vtcm (gg_groups gg)) \<le> budget then (True, gg)
      else let (any, gs) = break_loop share budget 0 False (gg_groups gg)
           in (any, gg\<lparr>gg_groups := gs, gg_locked := (if any \<and> gg_locked gg then False else gg_locked gg)\<rparr>))"

definition group_breakup :: "shares \<Rightarrow> bytes \<Rightarrow> dp_group_graph \<Rightarrow> bool \<times> dp_group_graph" where
  "group_breakup share budget gg =
     (let (any, gs) = break_loop share budget 0 False (gg_groups gg) in (any, gg\<lparr>gg_groups := gs\<rparr>))"

definition ddr_halves :: "shares \<Rightarrow> dp_group \<Rightarrow> dp_group \<times> dp_group" where
  "ddr_halves share gr =
     (let n = length (dg_op_ids gr); mid = n div 2; part = (\<lambda>x. share x mid n)
      in (empty_group\<lparr>dg_op_ids := take mid (dg_op_ids gr), dg_ddr := part (dg_ddr gr), dg_vtcm := part (dg_vtcm gr)\<rparr>,
          empty_group\<lparr>dg_op_ids := drop mid (dg_op_ids gr), dg_ddr := dg_ddr gr - part (dg_ddr gr),
            dg_vtcm := dg_vtcm gr - part (dg_vtcm gr)\<rparr>))"

lemma parts_ddr_halves:
  assumes "ddr_halves share gr = (g1, g2)" "2 \<le> length (dg_op_ids gr)"
  shows "parts share gr [g1, g2]"
  using assms by (auto simp: parts_def ddr_halves_def Let_def fair_def empty_group_def)

function ddr_loop :: "shares \<Rightarrow> bytes \<Rightarrow> nat \<Rightarrow> bool \<Rightarrow> dp_group list \<Rightarrow> bool \<times> dp_group list" where
  "ddr_loop share budget i any gs =
     (if length gs \<le> i then (any, gs)
      else if dg_ddr (gs ! i) \<le> budget \<or> length (dg_op_ids (gs ! i)) < 2 then ddr_loop share budget (Suc i) any gs
      else let (g1, g2) = ddr_halves share (gs ! i) in ddr_loop share budget (Suc i) True (gs[i := g1] @ [g2]))"
  by pat_completeness auto
termination
proof (relation "measure (\<lambda>(share, budget, i, any, gs). sum_list (map weight (drop i gs)))", goal_cases)
  case (3 share budget i any gs x g1 g2)
  then show ?case using weight_rest [OF _ parts_ddr_halves [of share "gs ! i" g1 g2]] by simp
qed (auto intro: weight_next)

declare ddr_loop.simps [simp del]

definition ddr_break_up :: "shares \<Rightarrow> bytes \<Rightarrow> dp_group_graph \<Rightarrow> bool \<times> dp_group_graph" where
  "ddr_break_up share budget gg =
     (let (any, gs) = ddr_loop share budget 0 False (gg_groups gg)
      in (any, gg\<lparr>gg_groups := gs, gg_locked := (if any \<and> gg_locked gg then False else gg_locked gg)\<rparr>))"

section \<open>Migration and the whole pass\<close>

definition mark_popular :: "bytes \<Rightarrow> dp_group \<Rightarrow> dp_group" where
  "mark_popular budget gr =
     (let pop = (budget div 4 < dg_output_size gr \<and> length (dg_op_ids gr) = 1)
      in gr\<lparr>dg_is_popular := pop, dg_parent_max_spill := (if pop then dg_output_size gr else dg_parent_max_spill gr)\<rparr>)"

definition absorb_popular :: "dp_group \<Rightarrow> dp_group \<Rightarrow> dp_group" where
  "absorb_popular src dst = dst\<lparr>dg_output_size := dg_output_size dst + dg_output_size src,
     dg_vtcm := dg_vtcm dst + dg_vtcm src\<rparr>"

fun popular_loop :: "nat list \<Rightarrow> nat \<Rightarrow> dp_group list \<Rightarrow> (nat \<times> dp_group list) option" where
  "popular_loop [] moved gs = Some (moved, gs)"
| "popular_loop (i # is) moved gs =
     (if \<not> dg_is_popular (gs ! i) then popular_loop is moved gs
      else case find (\<lambda>p. p < length gs) (dg_preds (gs ! i)) of
             None \<Rightarrow> popular_loop is moved gs
           | Some p \<Rightarrow> Option.bind (merge_into i p absorb_popular gs) (popular_loop is (Suc moved)))"

definition popular_groups_migration :: "bytes \<Rightarrow> dp_group list \<Rightarrow> dp_group list option" where
  "popular_groups_migration budget gs =
     map_option (\<lambda>(moved, gs'). if 0 < moved then filter (\<lambda>gr. dg_op_ids gr \<noteq> []) gs' else gs')
       (popular_loop [0..<length gs] 0 (map (mark_popular budget) gs))"

definition build_group_graph :: "shares \<Rightarrow> opdef_map \<Rightarrow> op_def list \<Rightarrow> bytes \<Rightarrow> bytes \<Rightarrow> dp_group_graph option" where
  "build_group_graph share g sorted_ops vtcm_budget ddr_budget =
     (case merge_lower_32_groups (build_groups g sorted_ops) of
        None \<Rightarrow> None
      | Some gs \<Rightarrow>
          let gg = \<lparr>gg_groups = gs, gg_order = LargestBranchFirst, gg_locked = True\<rparr>;
              gg1 = snd (tcm_break_up share vtcm_budget gg);
              gg2 = snd (group_breakup share vtcm_budget gg1)
          in map_option (\<lambda>gs3. snd (ddr_break_up share ddr_budget (gg2\<lparr>gg_groups := gs3\<rparr>)))
               (popular_groups_migration vtcm_budget (gg_groups gg2)))"

section \<open>What the passes keep\<close>

definition all_ops :: "dp_group list \<Rightarrow> op_id list" where
  "all_ops gs = concat (map dg_op_ids gs)"

definition live_vtcm :: "dp_group list \<Rightarrow> bytes" where
  "live_vtcm gs = sum_list (map dg_vtcm (filter (\<lambda>gr. dg_op_ids gr \<noteq> []) gs))"

definition no_self :: "dp_group list \<Rightarrow> bool" where
  "no_self gs \<longleftrightarrow> (\<forall>i < length gs. i \<notin> set (dg_preds (gs ! i)))"

definition no_empty :: "dp_group list \<Rightarrow> bool" where
  "no_empty gs \<longleftrightarrow> list_all (\<lambda>gr. dg_op_ids gr \<noteq> []) gs"

lemma all_ops_simps [simp]:
  "all_ops [] = []" "all_ops (g # gs) = dg_op_ids g @ all_ops gs" "all_ops (gs @ hs) = all_ops gs @ all_ops hs"
  by (simp_all add: all_ops_def)

lemma all_ops_filter [simp]: "all_ops (filter (\<lambda>gr. dg_op_ids gr \<noteq> []) gs) = all_ops gs"
  by (induction gs) auto

lemma live_vtcm_simps [simp]:
  "live_vtcm [] = 0" "live_vtcm (g # gs) = (if dg_op_ids g = [] then 0 else dg_vtcm g) + live_vtcm gs"
  "live_vtcm (gs @ hs) = live_vtcm gs + live_vtcm hs"
  "live_vtcm (filter (\<lambda>gr. dg_op_ids gr \<noteq> []) gs) = live_vtcm gs"
  by (simp_all add: live_vtcm_def)

lemma no_empty_filter: "no_empty gs \<Longrightarrow> filter (\<lambda>gr. dg_op_ids gr \<noteq> []) gs = gs"
  by (induction gs) (auto simp: no_empty_def)

text \<open>A list with one group singled out.\<close>

lemma all_ops_update: "i < length gs \<Longrightarrow> all_ops (gs[i := g]) = all_ops (take i gs) @ dg_op_ids g @ all_ops (drop (Suc i) gs)"
  by (simp add: upd_conv_take_nth_drop)

lemma all_ops_split: "i < length gs \<Longrightarrow> all_ops gs = all_ops (take i gs) @ dg_op_ids (gs ! i) @ all_ops (drop (Suc i) gs)"
  using all_ops_update [of i gs "gs ! i"] by simp

lemma live_vtcm_split:
  "i < length gs \<Longrightarrow> live_vtcm gs = live_vtcm (take i gs) + live_vtcm [gs ! i] + live_vtcm (drop (Suc i) gs)"
  "i < length gs \<Longrightarrow> live_vtcm (gs[i := g]) = live_vtcm (take i gs) + live_vtcm [g] + live_vtcm (drop (Suc i) gs)"
proof -
  show u: "i < length gs \<Longrightarrow> live_vtcm (gs[i := g]) = live_vtcm (take i gs) + live_vtcm [g] + live_vtcm (drop (Suc i) gs)" for g
    by (simp add: upd_conv_take_nth_drop)
  show "i < length gs \<Longrightarrow> live_vtcm gs = live_vtcm (take i gs) + live_vtcm [gs ! i] + live_vtcm (drop (Suc i) gs)"
    using u [of "gs ! i"] by simp
qed

subsection \<open>Grouping and adjacency\<close>

lemma group_op_ops:
  assumes "no_empty gs"
  shows "all_ops (group_op od gs) = all_ops gs @ (if groupable od then [opd_op_id od] else [])"
    "no_empty (group_op od gs)"
proof -
  have "gs \<noteq> [] \<Longrightarrow> all_ops gs = all_ops (butlast gs) @ dg_op_ids (last gs)"
    using all_ops_simps(3) [of "butlast gs" "[last gs]"] by simp
  then show "all_ops (group_op od gs) = all_ops gs @ (if groupable od then [opd_op_id od] else [])"
    by (auto simp: group_op_def)
  show "no_empty (group_op od gs)"
    using assms by (auto simp: group_op_def no_empty_def list_all_iff dest: in_set_butlastD)
qed

lemma grouping_ops:
  "all_ops (op_id_based_grouping sorted_ops) = map opd_op_id (filter groupable sorted_ops) \<and>
   no_empty (op_id_based_grouping sorted_ops)"
proof -
  have "all_ops (fold group_op os gs) = all_ops gs @ map opd_op_id (filter groupable os) \<and> no_empty (fold group_op os gs)"
    if "no_empty gs" for os gs
    using that by (induction os arbitrary: gs) (auto simp: group_op_ops)
  from this [of "[]"] show ?thesis by (simp add: op_id_based_grouping_def no_empty_def)
qed

definition core :: "dp_group \<Rightarrow> dp_group" where
  "core gr = gr\<lparr>dg_preds := [], dg_succs := []\<rparr>"

lemma core_fields: "dg_op_ids (core gr) = dg_op_ids gr" "dg_vtcm (core gr) = dg_vtcm gr"
  by (simp_all add: core_def)

lemma map_core:
  assumes "map core hs = map core gs"
  shows "length hs = length gs" "all_ops hs = all_ops gs" "map dg_op_ids hs = map dg_op_ids gs"
    "live_vtcm hs = live_vtcm gs" "map dg_vtcm hs = map dg_vtcm gs" "no_empty hs = no_empty gs"
proof -
  show l: "length hs = length gs" using assms by (metis length_map)
  have "map dg_op_ids (map core hs) = map dg_op_ids (map core gs)" using assms by simp
  then show o: "map dg_op_ids hs = map dg_op_ids gs" by (simp add: core_fields comp_def)
  then show "all_ops hs = all_ops gs" by (simp add: all_ops_def)
  have "map dg_vtcm (map core hs) = map dg_vtcm (map core gs)" using assms by simp
  then show v: "map dg_vtcm hs = map dg_vtcm gs" by (simp add: core_fields comp_def)
  show "live_vtcm hs = live_vtcm gs" using l o v by (induction hs gs rule: list_induct2) auto
  show "no_empty hs = no_empty gs" using l o by (induction hs gs rule: list_induct2) (auto simp: no_empty_def)
qed

definition adj_inv :: "dp_group list \<Rightarrow> dp_group list \<Rightarrow> bool" where
  "adj_inv gs0 gs \<longleftrightarrow> map core gs = map core gs0 \<and> no_self gs"

lemma core_update: "core h = core (gs ! i) \<Longrightarrow> map core (gs[i := h]) = map core gs"
proof (rule nth_equalityI)
  fix k assume "core h = core (gs ! i)" "k < length (map core (gs[i := h]))"
  then show "map core (gs[i := h]) ! k = map core gs ! k" by (cases "k = i") simp_all
qed simp

lemma no_self_update: "no_self gs \<Longrightarrow> (i < length gs \<Longrightarrow> i \<notin> set (dg_preds h)) \<Longrightarrow> no_self (gs[i := h])"
  unfolding no_self_def by (intro allI impI, case_tac "ia = i"; simp)

lemma no_selfD: "no_self gs \<Longrightarrow> i < length gs \<Longrightarrow> i \<notin> set (dg_preds (gs ! i))"
  by (simp add: no_self_def)

lemma adj_conn_inv: "adj_inv gs0 gs \<Longrightarrow> adj_inv gs0 (adj_conn m gi c gs)"
proof -
  assume inv: "adj_inv gs0 gs"
  show ?thesis
  proof (cases "m (src_id c)")
    case None
    with inv show ?thesis by (simp add: adj_conn_def)
  next
    case (Some p)
    show ?thesis
    proof (cases "p = gi")
      case True
      with Some inv show ?thesis by (simp add: adj_conn_def)
    next
      case False
      let ?gs1 = "gs[gi := (gs ! gi)\<lparr>dg_preds := push_new p (dg_preds (gs ! gi))\<rparr>]"
      let ?gs2 = "?gs1[p := (?gs1 ! p)\<lparr>dg_succs := push_new gi (dg_succs (?gs1 ! p))\<rparr>]"
      have "map core ?gs2 = map core ?gs1" by (rule core_update) (simp add: core_def)
      also have "\<dots> = map core gs" by (rule core_update) (simp add: core_def)
      finally have "map core ?gs2 = map core gs" .
      moreover have "no_self ?gs2"
      proof (rule no_self_update)
        show "no_self ?gs1"
          using inv False no_selfD [of gs gi] by (intro no_self_update) (auto simp: adj_inv_def push_new_def)
        show "p \<notin> set (dg_preds ((?gs1 ! p)\<lparr>dg_succs := push_new gi (dg_succs (?gs1 ! p))\<rparr>))" if "p < length ?gs1"
          using that inv False no_selfD [of gs p] by (simp add: adj_inv_def)
      qed
      ultimately show ?thesis using Some False inv by (simp add: adj_conn_def adj_inv_def Let_def)
    qed
  qed
qed

lemma fold_inv: "(\<And>x s. I s \<Longrightarrow> I (f x s)) \<Longrightarrow> I s \<Longrightarrow> I (fold f xs s)"
  by (induction xs arbitrary: s) auto

lemma adj_op_inv: "adj_inv gs0 gs \<Longrightarrow> adj_inv gs0 (adj_op g m gi oid gs)"
  by (auto simp: adj_op_def split: option.split intro!: fold_inv [where I = "adj_inv gs0"] adj_conn_inv)

lemma adj_group_inv: "adj_inv gs0 gs \<Longrightarrow> adj_inv gs0 (adj_group g m gi gs)"
  unfolding adj_group_def
  by (rule fold_inv [where I = "adj_inv gs0"], rule adj_op_inv, assumption)
    (auto simp: adj_inv_def core_update core_def intro: no_self_update)

lemma build_group_adjacency_inv: "no_self gs \<Longrightarrow> adj_inv gs (build_group_adjacency g gs)"
  unfolding build_group_adjacency_def
  by (rule fold_inv [where I = "adj_inv gs"], rule adj_group_inv, assumption) (simp add: adj_inv_def)

lemma grouping_preds: "\<forall>gr \<in> set (op_id_based_grouping sorted_ops). dg_preds gr = []"
proof -
  have "\<forall>gr \<in> set (fold group_op os gs). dg_preds gr = []" if "\<forall>gr \<in> set gs. dg_preds gr = []" for os gs
    using that
    by (rule fold_inv [where I = "\<lambda>gs. \<forall>gr \<in> set gs. dg_preds gr = []", rotated])
      (auto simp: group_op_def empty_group_def dest: in_set_butlastD)
  from this [of "[]"] show ?thesis by (simp add: op_id_based_grouping_def)
qed

lemma build_groups_shape:
  assumes gs_def: "gs = build_groups g sorted_ops"
  shows "all_ops gs = map opd_op_id (filter groupable sorted_ops)" "no_empty gs" "no_self gs"
    "\<forall>gr \<in> set gs. dg_vtcm gr = sum_list (map (op_bytes g) (dg_op_ids gr))"
proof -
  let ?hs = "map (\<lambda>gr. compute_group_requirements g (if dg_is_input gr then gr\<lparr>dg_layer_name := []\<rparr> else gr))
      (op_id_based_grouping sorted_ops)"
  have ops: "map dg_op_ids ?hs = map dg_op_ids (op_id_based_grouping sorted_ops)"
    by (simp add: compute_group_requirements_def)
  have "no_self ?hs"
    using grouping_preds [of sorted_ops] by (auto simp: no_self_def compute_group_requirements_def)
  from build_group_adjacency_inv [OF this, of g]
  have inv: "map core gs = map core ?hs" "no_self gs" by (simp_all add: adj_inv_def gs_def build_groups_def)
  note m = map_core [OF inv(1)]
  show "all_ops gs = map opd_op_id (filter groupable sorted_ops)"
    using m(2) grouping_ops [of sorted_ops] by (simp only: all_ops_def ops)
  have "no_empty ?hs"
    using grouping_ops [of sorted_ops] by (simp add: no_empty_def list_all_iff compute_group_requirements_def)
  then show "no_empty gs" by (simp only: m(6))
  show "no_self gs" by (rule inv(2))
  have "\<forall>k < length gs. dg_vtcm (gs ! k) = sum_list (map (op_bytes g) (dg_op_ids (gs ! k)))"
  proof (intro allI impI)
    fix k assume k: "k < length gs"
    have "map dg_vtcm gs ! k = map dg_vtcm ?hs ! k" "map dg_op_ids gs ! k = map dg_op_ids ?hs ! k"
      by (simp_all only: m(3,5))
    then have "dg_vtcm (gs ! k) = dg_vtcm (?hs ! k)" "dg_op_ids (gs ! k) = dg_op_ids (?hs ! k)"
      using k m(1) by (simp_all only: nth_map length_map)
    then show "dg_vtcm (gs ! k) = sum_list (map (op_bytes g) (dg_op_ids (gs ! k)))"
      using k m(1) by (simp add: compute_group_requirements_def)
  qed
  then show "\<forall>gr \<in> set gs. dg_vtcm gr = sum_list (map (op_bytes g) (dg_op_ids gr))"
    by (auto simp: in_set_conv_nth)
qed


subsection \<open>Merging\<close>

lemma mset_all_ops_update2:
  assumes "i < length gs" "p < length gs" "p \<noteq> i" "dg_op_ids h = dg_op_ids (gs ! p) @ dg_op_ids (gs ! i)"
    "dg_op_ids e = []"
  shows "mset (all_ops ((gs[p := h])[i := e])) = mset (all_ops gs)"
proof -
  have 1: "mset (all_ops (gs[p := h])) = mset (all_ops gs) + mset (dg_op_ids (gs ! i))"
    using all_ops_split [OF assms(2)] all_ops_update [OF assms(2)] assms(4) by simp
  have "mset (all_ops (gs[p := h])) = mset (all_ops ((gs[p := h])[i := e])) + mset (dg_op_ids (gs ! i))"
    using all_ops_split [of i "gs[p := h]"] all_ops_update [of i "gs[p := h]" e] assms by simp
  with 1 show ?thesis by simp
qed

lemma merge_into_ops:
  assumes "merge_into i p upd gs = Some gs'" "i < length gs" "p < length gs"
    and "\<And>a b. dg_op_ids (upd a b) = dg_op_ids b" "\<And>a b. dg_preds (upd a b) = dg_preds b"
  shows "mset (all_ops gs') = mset (all_ops gs)" "map dg_preds gs' = map dg_preds gs" "length gs' = length gs"
proof -
  note m = merge_intoD [OF assms(1)]
  show "mset (all_ops gs') = mset (all_ops gs)"
    using m(1) assms by (simp only: m(2)) (rule mset_all_ops_update2, simp_all)
  show l: "length gs' = length gs" by (simp add: m(2))
  show "map dg_preds gs' = map dg_preds gs"
  proof (rule nth_equalityI)
    fix k assume "k < length (map dg_preds gs')"
    then show "map dg_preds gs' ! k = map dg_preds gs ! k"
      using assms(2,3,5) m by (cases "k = i"; cases "k = p") simp_all
  qed (simp add: l)
qed

lemma merge_into_vtcm:
  assumes "merge_into i p upd gs = Some gs'" "i < length gs" "p < length gs"
    and "\<And>a b. dg_op_ids (upd a b) = dg_op_ids b" "\<And>a b. dg_vtcm (upd a b) = dg_vtcm b + dg_vtcm a"
  shows "live_vtcm gs \<le> live_vtcm gs'"
    "dg_op_ids (gs ! i) \<noteq> [] \<Longrightarrow> dg_op_ids (gs ! p) \<noteq> [] \<Longrightarrow> live_vtcm gs' = live_vtcm gs"
proof -
  note m = merge_intoD [OF assms(1)]
  let ?h = "upd (gs ! i) ((gs ! p)\<lparr>dg_op_ids := dg_op_ids (gs ! p) @ dg_op_ids (gs ! i)\<rparr>)"
  have 1: "live_vtcm (gs[p := ?h]) + live_vtcm [gs ! p] = live_vtcm gs + live_vtcm [?h]"
    using live_vtcm_split(1) [OF assms(3)] live_vtcm_split(2) [OF assms(3), of ?h] by simp
  have 2: "live_vtcm (gs[p := ?h]) = live_vtcm gs' + live_vtcm [gs ! i]"
    using live_vtcm_split(1) [of i "gs[p := ?h]"] live_vtcm_split(2) [of i "gs[p := ?h]" "(gs ! i)\<lparr>dg_op_ids := []\<rparr>"]
      assms(2) m by simp
  have eq: "live_vtcm gs' + live_vtcm [gs ! i] + live_vtcm [gs ! p] = live_vtcm gs + live_vtcm [?h]" using 1 2 by linarith
  have h: "live_vtcm [?h] = (if dg_op_ids (gs ! p) = [] \<and> dg_op_ids (gs ! i) = [] then 0 else dg_vtcm (gs ! p) + dg_vtcm (gs ! i))"
    by (simp add: assms(4,5))
  show "live_vtcm gs \<le> live_vtcm gs'" using eq unfolding h by (auto split: if_splits)
  show "dg_op_ids (gs ! i) \<noteq> [] \<Longrightarrow> dg_op_ids (gs ! p) \<noteq> [] \<Longrightarrow> live_vtcm gs' = live_vtcm gs" using eq unfolding h by simp
qed

lemma no_self_preds: "map dg_preds gs' = map dg_preds gs \<Longrightarrow> no_self gs' = no_self gs"
  unfolding no_self_def by (metis length_map nth_map)

definition merge_post :: "dp_group list \<Rightarrow> dp_group list \<Rightarrow> bool" where
  "merge_post gs gs' \<longleftrightarrow> mset (all_ops gs') = mset (all_ops gs) \<and> live_vtcm gs' = live_vtcm gs \<and>
     map dg_preds gs' = map dg_preds gs"

lemma merge_post_trans: "merge_post a b \<Longrightarrow> merge_post b c \<Longrightarrow> merge_post a c"
  by (simp add: merge_post_def)

lemma merge_step_post:
  assumes "merge_target gs i = Some p" "i < length gs" "no_self gs"
  shows "\<exists>gs'. merge_into i p absorb_small gs = Some gs' \<and> merge_post gs gs'"
proof -
  note t = merge_targetD [OF assms(1)]
  have "p \<noteq> i" using t(2) no_selfD [OF assms(3,2)] by auto
  then obtain gs' where g: "merge_into i p absorb_small gs = Some gs'" by (auto simp: merge_into_def)
  have s: "dg_op_ids (gs ! i) \<noteq> []" using t(1) by (simp add: small_group_def)
  have "merge_post gs gs'"
    using merge_into_ops [OF g assms(2) t(3)] merge_into_vtcm(2) [OF g assms(2) t(3) _ _ s t(4)]
    by (simp add: merge_post_def absorb_small_def)
  with g show ?thesis by blast
qed

lemma merge_pass_post:
  "set is \<subseteq> {..<length gs} \<Longrightarrow> no_self gs \<Longrightarrow>
     \<exists>changed' gs'. merge_pass is changed gs = Some (changed', gs') \<and> merge_post gs gs' \<and>
       (\<not> changed' \<longrightarrow> \<not> changed \<and> gs' = gs \<and> (\<forall>i \<in> set is. merge_target gs i = None))"
proof (induction "is" arbitrary: changed gs)
  case Nil
  then show ?case by (simp add: merge_post_def)
next
  case (Cons i "is")
  show ?case
  proof (cases "merge_target gs i")
    case None
    with Cons.IH [of gs changed] Cons.prems show ?thesis by auto
  next
    case (Some p)
    with merge_step_post [of gs i p] Cons.prems
    obtain gs1 where g: "merge_into i p absorb_small gs = Some gs1" "merge_post gs gs1" by auto
    then have "length gs1 = length gs" "no_self gs1"
      using Cons.prems(2) no_self_preds [of gs1 gs] map_eq_imp_length_eq [of dg_preds gs1 dg_preds gs]
      by (simp_all add: merge_post_def)
    with Cons.IH [of gs1 True] Cons.prems(1)
    obtain changed' gs' where r: "merge_pass is True gs1 = Some (changed', gs')" "merge_post gs1 gs'" "changed'" by auto
    with Some g(1) merge_post_trans [OF g(2) r(2)] show ?thesis by auto
  qed
qed

lemma merge_loop_post:
  "no_self gs \<Longrightarrow> \<exists>gs'. merge_loop gs = Some gs' \<and> merge_post gs gs' \<and> (\<forall>i < length gs'. merge_target gs' i = None)"
proof (induction gs rule: merge_loop.induct)
  case (1 gs)
  have "set [0..<length gs] \<subseteq> {..<length gs}" by auto
  from merge_pass_post [OF this 1(2), of False]
  obtain changed gs' where p: "merge_pass [0..<length gs] False gs = Some (changed, gs')" "merge_post gs gs'"
    "\<not> changed \<longrightarrow> gs' = gs \<and> (\<forall>i < length gs. merge_target gs i = None)" by auto
  show ?case
  proof (cases changed)
    case False
    then have "merge_loop gs = Some gs" using p(1,3) by (subst merge_loop.simps) simp
    with False p show ?thesis by simp
  next
    case True
    have "no_self gs'" using p(2) 1(2) no_self_preds [of gs' gs] by (simp add: merge_post_def)
    with 1(1) [OF p(1) refl True]
    obtain hs where l: "merge_loop gs' = Some hs" "merge_post gs' hs" "\<forall>i < length hs. merge_target hs i = None" by auto
    have "merge_loop gs = Some hs" using p(1) True l(1) by (subst merge_loop.simps) simp
    with l(3) merge_post_trans [OF p(2) l(2)] show ?thesis by blast
  qed
qed

lemma merge_lower_32_groups_post:
  assumes "no_self gs" "no_empty gs"
  shows "\<exists>hs. merge_lower_32_groups gs = Some hs \<and> mset (all_ops hs) = mset (all_ops gs) \<and>
    live_vtcm hs = live_vtcm gs \<and> no_empty hs \<and> ((\<forall>gr \<in> set gs. 32 \<le> dg_vtcm gr) \<longrightarrow> hs = gs)"
proof (cases "length gs \<le> 1")
  case True
  with assms show ?thesis by (simp add: merge_lower_32_groups_def)
next
  case False
  obtain hs where m: "merge_loop gs = Some hs" "merge_post gs hs" using merge_loop_post [OF assms(1)] by auto
  have "hs = gs" if "\<forall>gr \<in> set gs. 32 \<le> dg_vtcm gr"
  proof -
    have "\<not> small_group (gs ! i)" if "i < length gs" for i
      using \<open>\<forall>gr \<in> set gs. 32 \<le> dg_vtcm gr\<close> nth_mem [OF that] by (fastforce simp: small_group_def)
    then have t: "\<forall>i \<in> set [0..<length gs]. merge_target gs i = None" by (simp add: merge_target_def)
    have "merge_pass is False gs = Some (False, gs)" if "\<forall>i \<in> set is. merge_target gs i = None" for "is"
      using that by (induction "is") auto
    from this [OF t] m(1) show ?thesis by (subst (asm) merge_loop.simps) simp
  qed
  moreover have "no_empty (filter (\<lambda>gr. dg_op_ids gr \<noteq> []) hs)" by (simp add: no_empty_def list_all_iff)
  ultimately show ?thesis
    using m False no_empty_filter [OF assms(2)] by (auto simp: merge_lower_32_groups_def merge_post_def)
qed

subsection \<open>Splitting\<close>

definition split_post :: "shares \<Rightarrow> dp_group list \<Rightarrow> dp_group list \<Rightarrow> bool" where
  "split_post share gs gs' \<longleftrightarrow> mset (all_ops gs') = mset (all_ops gs) \<and> (no_self gs \<longrightarrow> no_self gs') \<and>
     (no_empty gs \<longrightarrow> no_empty gs') \<and> (fair share \<longrightarrow> live_vtcm gs' = live_vtcm gs)"

lemma split_post_refl [simp]: "split_post share gs gs"
  by (simp add: split_post_def)

lemma split_post_trans: "split_post share a b \<Longrightarrow> split_post share b c \<Longrightarrow> split_post share a c"
  by (simp add: split_post_def)

lemma live_vtcm_parts:
  assumes "list_all (\<lambda>h. dg_op_ids h \<noteq> []) hs"
  shows "live_vtcm hs = sum_list (map dg_vtcm hs)"
  using assms by (induction hs) auto

lemma split_post_parts:
  assumes "i < length gs" "parts share (gs ! i) (g # new)"
  shows "split_post share gs (gs[i := g] @ new)"
proof -
  have p: "dg_op_ids g @ all_ops new = dg_op_ids (gs ! i)" "dg_op_ids g \<noteq> []" "dg_preds g = []"
    "list_all (\<lambda>h. dg_op_ids h \<noteq> []) new" "\<forall>h \<in> set new. dg_preds h = []"
    "fair share \<Longrightarrow> dg_vtcm g + sum_list (map dg_vtcm new) = dg_vtcm (gs ! i)"
    using assms(2) by (auto simp: parts_def all_ops_def list_all_iff)
  have ne: "dg_op_ids (gs ! i) \<noteq> []" using p(1,2) by auto
  have "mset (all_ops (gs[i := g] @ new)) = mset (all_ops gs)"
    using all_ops_update [OF assms(1)] all_ops_split [OF assms(1)] p(1) [symmetric] by simp
  moreover have "no_self (gs[i := g] @ new)" if "no_self gs"
  proof -
    have "no_self (gs[i := g])" using that p(3) by (intro no_self_update) auto
    then show ?thesis using p(5) by (auto simp: no_self_def nth_append)
  qed
  moreover have "no_empty (gs[i := g] @ new)" if "no_empty gs"
    using that p(2,4) set_update_subset_insert [of gs i g] by (auto simp: no_empty_def list_all_iff)
  moreover have "live_vtcm (gs[i := g] @ new) = live_vtcm gs" if "fair share"
    using live_vtcm_split(1) [OF assms(1)] live_vtcm_split(2) [OF assms(1), of g] p(2) ne p(6) [OF that]
    by (simp add: live_vtcm_parts [OF p(4)])
  ultimately show ?thesis by (simp add: split_post_def)
qed

lemma break_loop_post: "break_loop share budget i any gs = (b, gs') \<Longrightarrow> split_post share gs gs'"
proof (induction share budget i any gs rule: break_loop.induct)
  case (1 share budget i any gs)
  show ?case
  proof (cases "length gs \<le> i")
    case True
    with 1(3) show ?thesis by (subst (asm) break_loop.simps) simp
  next
    case len: False
    show ?thesis
    proof (cases "dg_vtcm (gs ! i) \<le> budget")
      case True
      with 1 len show ?thesis by (subst (asm) (3) break_loop.simps) simp
    next
      case False
      obtain c vis gs1 where s: "break_single_group share budget i {} gs = (c, vis, gs1)" by (metis prod_cases3)
      have "split_post share gs gs1"
        using break_single_group_parts [OF s] len split_post_parts [of i gs share] by auto
      moreover have "split_post share gs1 gs'"
        using 1(2) [OF len False s [symmetric] refl] 1(3) len False s by (subst (asm) (2) break_loop.simps) simp
      ultimately show ?thesis by (rule split_post_trans)
    qed
  qed
qed

lemma ddr_loop_post: "ddr_loop share budget i any gs = (b, gs') \<Longrightarrow> split_post share gs gs'"
proof (induction share budget i any gs rule: ddr_loop.induct)
  case (1 share budget i any gs)
  show ?case
  proof (cases "length gs \<le> i")
    case True
    with 1(3) show ?thesis by (subst (asm) ddr_loop.simps) simp
  next
    case len: False
    show ?thesis
    proof (cases "dg_ddr (gs ! i) \<le> budget \<or> length (dg_op_ids (gs ! i)) < 2")
      case True
      with 1 len show ?thesis by (subst (asm) (3) ddr_loop.simps) auto
    next
      case False
      obtain g1 g2 where s: "ddr_halves share (gs ! i) = (g1, g2)" by fastforce
      have "split_post share gs (gs[i := g1] @ [g2])"
        using parts_ddr_halves [OF s] len False split_post_parts [of i gs share g1 "[g2]"] by simp
      moreover have "split_post share (gs[i := g1] @ [g2]) gs'"
        using 1(2) [OF len False s [symmetric] refl] 1(3) len False s by (subst (asm) (2) ddr_loop.simps) simp
      ultimately show ?thesis by (rule split_post_trans)
    qed
  qed
qed

subsection \<open>Migration\<close>

lemma absorb_popular_fields:
  "dg_op_ids (absorb_popular a b) = dg_op_ids b" "dg_preds (absorb_popular a b) = dg_preds b"
  "dg_vtcm (absorb_popular a b) = dg_vtcm b + dg_vtcm a"
  by (simp_all add: absorb_popular_def)

lemma popular_loop_post:
  "popular_loop is moved gs = Some (moved', gs') \<Longrightarrow> set is \<subseteq> {..<length gs} \<Longrightarrow>
     mset (all_ops gs') = mset (all_ops gs) \<and> live_vtcm gs \<le> live_vtcm gs' \<and> (moved' = 0 \<longrightarrow> gs' = gs)"
proof (induction "is" moved gs rule: popular_loop.induct)
  case (2 i "is" moved gs)
  show ?case
  proof (cases "dg_is_popular (gs ! i) \<and> find (\<lambda>p. p < length gs) (dg_preds (gs ! i)) \<noteq> None")
    case False
    with 2 show ?thesis by (cases "dg_is_popular (gs ! i)") auto
  next
    case True
    then obtain p where p: "find (\<lambda>p. p < length gs) (dg_preds (gs ! i)) = Some p" "dg_is_popular (gs ! i)" by auto
    then have pl: "p < length gs" by (auto simp: find_Some_iff)
    from p 2(4) obtain gs1 where g: "merge_into i p absorb_popular gs = Some gs1"
        "popular_loop is (Suc moved) gs1 = Some (moved', gs')"
      by (auto split: bind_splits)
    have i: "i < length gs" using 2(5) by simp
    note o = merge_into_ops [OF g(1) i pl absorb_popular_fields(1,2)]
      and v = merge_into_vtcm(1) [OF g(1) i pl absorb_popular_fields(1,3)]
    have mv: "moved' \<noteq> 0" using g(2)
    proof (induction "is" "Suc moved" gs1 arbitrary: moved rule: popular_loop.induct)
      case (2 i "is" gs)
      then show ?case by (auto split: if_splits option.splits bind_splits)
    qed simp
    have "mset (all_ops gs') = mset (all_ops gs1) \<and> live_vtcm gs1 \<le> live_vtcm gs'"
      using 2(3) [OF _ p(1) g] p(2) 2(5) o(3) by auto
    with o v mv show ?thesis by simp
  qed
qed simp

lemma popular_loop_returns:
  "no_self gs \<Longrightarrow> set is \<subseteq> {..<length gs} \<Longrightarrow> popular_loop is moved gs \<noteq> None"
proof (induction "is" moved gs rule: popular_loop.induct)
  case (2 i "is" moved gs)
  show ?case
  proof (cases "dg_is_popular (gs ! i) \<and> find (\<lambda>p. p < length gs) (dg_preds (gs ! i)) \<noteq> None")
    case False
    with 2 show ?thesis by (cases "dg_is_popular (gs ! i)") auto
  next
    case True
    then obtain p where p: "find (\<lambda>p. p < length gs) (dg_preds (gs ! i)) = Some p" "dg_is_popular (gs ! i)" by auto
    then have pl: "p < length gs" "p \<in> set (dg_preds (gs ! i))" by (auto simp: find_Some_iff)
    have i: "i < length gs" using 2(5) by simp
    have "p \<noteq> i" using pl(2) no_selfD [OF 2(4) i] by auto
    then obtain gs1 where g: "merge_into i p absorb_popular gs = Some gs1" by (simp add: merge_into_def Let_def)
    note o = merge_into_ops [OF g i pl(1) absorb_popular_fields(1,2)]
    have "popular_loop is (Suc moved) gs1 \<noteq> None"
      using 2(3) [OF _ p(1) g] p(2) no_self_preds [OF o(2)] 2(4,5) o(3) by auto
    with p g show ?thesis by simp
  qed
qed simp

lemma mark_popular_fields:
  "dg_op_ids (mark_popular budget gr) = dg_op_ids gr" "dg_preds (mark_popular budget gr) = dg_preds gr"
  "dg_vtcm (mark_popular budget gr) = dg_vtcm gr"
  by (simp_all add: mark_popular_def Let_def)

lemma map_mark_popular:
  "all_ops (map (mark_popular budget) gs) = all_ops gs" "live_vtcm (map (mark_popular budget) gs) = live_vtcm gs"
  "no_self (map (mark_popular budget) gs) = no_self gs" "no_empty (map (mark_popular budget) gs) = no_empty gs"
proof -
  show "all_ops (map (mark_popular budget) gs) = all_ops gs" "live_vtcm (map (mark_popular budget) gs) = live_vtcm gs"
    "no_empty (map (mark_popular budget) gs) = no_empty gs"
    by (induction gs) (auto simp: mark_popular_fields no_empty_def)
  show "no_self (map (mark_popular budget) gs) = no_self gs"
    by (rule no_self_preds) (simp add: comp_def mark_popular_fields)
qed

lemma popular_groups_migration_post:
  assumes "popular_groups_migration budget gs = Some gs'"
  shows "mset (all_ops gs') = mset (all_ops gs)" "live_vtcm gs \<le> live_vtcm gs'" "no_empty gs \<Longrightarrow> no_empty gs'"
proof -
  from assms obtain moved hs where l: "popular_loop [0..<length gs] 0 (map (mark_popular budget) gs) = Some (moved, hs)"
    and r: "gs' = (if 0 < moved then filter (\<lambda>gr. dg_op_ids gr \<noteq> []) hs else hs)"
    by (auto simp: popular_groups_migration_def)
  have p: "mset (all_ops hs) = mset (all_ops gs)" "live_vtcm gs \<le> live_vtcm hs" "moved = 0 \<longrightarrow> hs = map (mark_popular budget) gs"
    using popular_loop_post [OF l] by (auto simp: map_mark_popular lessThan_atLeast0)
  then show "mset (all_ops gs') = mset (all_ops gs)" "live_vtcm gs \<le> live_vtcm gs'"
    by (simp_all add: r map_mark_popular)
  show "no_empty gs'" if "no_empty gs"
    using p(3) that map_mark_popular(4) [of budget gs] by (cases "0 < moved") (auto simp: r no_empty_def list_all_iff)
qed

section \<open>Properties\<close>

lemma live_vtcm_bytes:
  "no_empty gs \<Longrightarrow> \<forall>gr \<in> set gs. dg_vtcm gr = sum_list (map (op_bytes g) (dg_op_ids gr)) \<Longrightarrow>
     live_vtcm gs = sum_list (map (op_bytes g) (all_ops gs))"
  by (induction gs) (auto simp: no_empty_def)

lemma break_stages_post:
  "split_post share (gg_groups gg) (gg_groups (snd (tcm_break_up share budget gg)))"
  "split_post share (gg_groups gg) (gg_groups (snd (group_breakup share budget gg)))"
  "split_post share (gg_groups gg) (gg_groups (snd (ddr_break_up share budget gg)))"
  by (auto simp: tcm_break_up_def group_breakup_def ddr_break_up_def Let_def
      intro: break_loop_post ddr_loop_post split: prod.split)

lemma build_groups_large:
  assumes "\<forall>od \<in> set sorted_ops. groupable od \<longrightarrow> 32 \<le> op_bytes g (opd_op_id od)" "gr \<in> set (build_groups g sorted_ops)"
  shows "32 \<le> dg_vtcm gr"
proof -
  note b = build_groups_shape [OF refl, of g sorted_ops]
  obtain i where i: "i \<in> set (dg_op_ids gr)"
    using b(2) assms(2) by (cases "dg_op_ids gr") (auto simp: no_empty_def list_all_iff)
  then have "i \<in> set (all_ops (build_groups g sorted_ops))" using assms(2) by (auto simp: all_ops_def)
  then have "32 \<le> op_bytes g i" using assms(1) b(1) by auto
  also have "\<dots> \<le> dg_vtcm gr" using b(4) assms(2) i by (auto intro: member_le_sum_list)
  finally show ?thesis .
qed

lemma popular_groups_migration_returns:
  assumes "no_self gs"
  shows "popular_groups_migration budget gs \<noteq> None"
  using assms popular_loop_returns [of "map (mark_popular budget) gs" "[0..<length gs]" 0]
  by (auto simp: popular_groups_migration_def map_mark_popular lessThan_atLeast0)

text \<open>
  C24: grouping loses no operator. Whatever the budgets, the groups that \<open>DPGroupGraph::build\<close> leaves hold
  every groupable operator exactly as often as the order does, none of them is empty, and their
  requirements together are not less than the bytes of all outputs. The migration of popular groups
  can only fail when some output is smaller than 32 bytes, so that an earlier merge has moved the group
  indices.
\<close>

theorem build_group_graph_keeps_ops:
  assumes "fair share"
  shows "case build_group_graph share g sorted_ops vtcm_budget ddr_budget of
      None \<Rightarrow> \<exists>od \<in> set sorted_ops. groupable od \<and> op_bytes g (opd_op_id od) < 32
    | Some gg \<Rightarrow> mset (all_ops (gg_groups gg)) = mset (map opd_op_id (filter groupable sorted_ops)) \<and>
        no_empty (gg_groups gg) \<and>
        sum_list (map (op_bytes g) (map opd_op_id (filter groupable sorted_ops))) \<le> sum_list (map dg_vtcm (gg_groups gg))"
proof -
  let ?gs = "build_groups g sorted_ops"
  note b = build_groups_shape [OF refl, of g sorted_ops]
  obtain hs where h: "merge_lower_32_groups ?gs = Some hs" "mset (all_ops hs) = mset (all_ops ?gs)"
    "live_vtcm hs = live_vtcm ?gs" "no_empty hs" "(\<forall>gr \<in> set ?gs. 32 \<le> dg_vtcm gr) \<longrightarrow> hs = ?gs"
    using merge_lower_32_groups_post [OF b(3,2)] by auto
  define gg2 where "gg2 = snd (group_breakup share vtcm_budget (snd (tcm_break_up share vtcm_budget
      \<lparr>gg_groups = hs, gg_order = LargestBranchFirst, gg_locked = True\<rparr>)))"
  have s: "split_post share hs (gg_groups gg2)"
    unfolding gg2_def by (rule split_post_trans [OF _ break_stages_post(2)]) (rule break_stages_post(1) [of _ "\<lparr>gg_groups = hs, gg_order = LargestBranchFirst, gg_locked = True\<rparr>", simplified])
  have build: "build_group_graph share g sorted_ops vtcm_budget ddr_budget =
      map_option (\<lambda>gs3. snd (ddr_break_up share ddr_budget (gg2\<lparr>gg_groups := gs3\<rparr>)))
        (popular_groups_migration vtcm_budget (gg_groups gg2))"
    by (simp add: build_group_graph_def h(1) gg2_def Let_def)
  show ?thesis
  proof (cases "popular_groups_migration vtcm_budget (gg_groups gg2)")
    case None
    have "\<exists>od \<in> set sorted_ops. groupable od \<and> op_bytes g (opd_op_id od) < 32"
    proof (rule ccontr)
      assume "\<not> ?thesis"
      then have "\<forall>gr \<in> set ?gs. 32 \<le> dg_vtcm gr" using build_groups_large [of sorted_ops g] by fastforce
      then have "no_self (gg_groups gg2)" using h(5) s b(3) by (simp add: split_post_def)
      with None show False by (simp add: popular_groups_migration_returns)
    qed
    with None build show ?thesis by simp
  next
    case (Some gs3)
    let ?gg = "snd (ddr_break_up share ddr_budget (gg2\<lparr>gg_groups := gs3\<rparr>))"
    note p = popular_groups_migration_post [OF Some]
    have d: "split_post share gs3 (gg_groups ?gg)"
      using break_stages_post(3) [of share "gg2\<lparr>gg_groups := gs3\<rparr>" ddr_budget] by simp
    have ops: "mset (all_ops (gg_groups ?gg)) = mset (map opd_op_id (filter groupable sorted_ops))"
      using d p(1) s h(2) b(1) by (simp add: split_post_def)
    have ne: "no_empty (gg_groups ?gg)" using d p(3) s h(4) by (simp add: split_post_def)
    have "live_vtcm ?gs \<le> live_vtcm (gg_groups ?gg)"
      using d p(2) s h(3) assms by (simp add: split_post_def)
    then have "sum_list (map (op_bytes g) (all_ops ?gs)) \<le> sum_list (map dg_vtcm (gg_groups ?gg))"
      using live_vtcm_bytes [OF b(2,4)] live_vtcm_parts [of "gg_groups ?gg"] ne by (simp add: no_empty_def)
    with ops ne Some build b(1) show ?thesis by simp
  qed
qed

definition group_demo_op :: "op_id \<Rightarrow> nat \<Rightarrow> op_id list \<Rightarrow> op_def" where
  "group_demo_op i n srcs = \<lparr>opd_flags = 1, opd_op_id = i, opd_name = None,
     opd_output_def = \<lparr>out_rank = 1, out_dims = [n], out_element_size = 1\<rparr>, opd_flags2 = 0,
     opd_inputs = map (\<lambda>j. \<lparr>src_id = j, out_idx = 0, src_out_def = \<lparr>out_rank = 0, out_dims = [], out_element_size = 0\<rparr>\<rparr>) srcs,
     opd_consumers = []\<rparr>"

definition group_demo :: "nat \<Rightarrow> op_def list" where
  "group_demo n = [group_demo_op 2 100 [], group_demo_op 3 n [2, 9], group_demo_op 4 100 [3, 9]]"

definition group_demo_map :: "nat \<Rightarrow> opdef_map" where
  "group_demo_map n = map_of (map (\<lambda>od. (opd_op_id od, od)) (group_demo n))"

definition capped_share :: shares where
  "capped_share x k n = min x (x * k div n)"

lemma capped_share_fair: "fair capped_share"
  by (simp add: fair_def capped_share_def)

lemmas group_demo_defs = group_demo_def group_demo_map_def group_demo_op_def

lemma group_demo_op_fields:
  "opd_op_id (group_demo_op i n srcs) = i" "op_name (group_demo_op i n srcs) = []"
  "opd_inputs (group_demo_op i n srcs) = map (\<lambda>j. \<lparr>src_id = j, out_idx = 0,
     src_out_def = \<lparr>out_rank = 0, out_dims = [], out_element_size = 0\<rparr>\<rparr>) srcs"
  by (simp_all add: group_demo_op_def op_name_def)

lemma group_demo_groupable1: "groupable (group_demo_op i n srcs)"
  by (simp add: group_demo_defs groupable_def is_enabled_def is_dead_def is_const_def op_name_def)

lemma group_demo_groupable: "filter groupable (group_demo n) = group_demo n"
  by (simp add: group_demo_def group_demo_groupable1)

theorem build_group_graph_keeps_ops_witness:
  "fair capped_share \<and>
   (\<exists>gg. build_group_graph capped_share (group_demo_map 40) (group_demo 40) 150 10 = Some gg \<and>
      mset (all_ops (gg_groups gg)) = mset [2, 3, 4] \<and> 240 \<le> sum_list (map dg_vtcm (gg_groups gg)))"
proof -
  have b: "op_bytes (group_demo_map 40) 2 = 100" "op_bytes (group_demo_map 40) 3 = 40" "op_bytes (group_demo_map 40) 4 = 100"
    by (simp_all add: group_demo_defs op_bytes_def get_op_at_def out_bytes_def)
  have ids: "map opd_op_id (group_demo 40) = [2, 3, 4]" by (simp add: group_demo_defs)
  have "\<not> (\<exists>od \<in> set (group_demo 40). op_bytes (group_demo_map 40) (opd_op_id od) < 32)"
  proof -
    have "opd_op_id ` set (group_demo 40) = {2, 3, 4}" by (simp add: group_demo_defs)
    then have "opd_op_id od \<in> {2, 3, 4}" if "od \<in> set (group_demo 40)" for od using that by blast
    then show ?thesis using b by fastforce
  qed
  with build_group_graph_keeps_ops [OF capped_share_fair,
      where g = "group_demo_map 40" and sorted_ops = "group_demo 40" and vtcm_budget = 150 and ddr_budget = 10]
  show ?thesis
    by (auto simp: group_demo_groupable ids b capped_share_fair split: option.splits)
qed

text \<open>
  the indices of predecessors are not adjusted when merged groups are removed. When the second of
  three operators has an output below 32 bytes and is merged into the first, the third group becomes
  its own predecessor, and its migration appends its list of operators to itself while iterating over it.
\<close>

lemma popular_self_merge:
  "build_group_graph capped_share (group_demo_map 4) (group_demo 4) 300 1000 = None"
proof -
  let ?g = "\<lambda>i k n ps ss. empty_group\<lparr>dg_op_ids := [i], dg_layer_id := k, dg_vtcm := n, dg_ddr := n div 5,
      dg_output_size := n, dg_preds := ps, dg_succs := ss\<rparr>"
  have gs: "op_id_based_grouping (group_demo 4) =
      map (\<lambda>(i, k). empty_group\<lparr>dg_op_ids := [i], dg_layer_id := k\<rparr>) [(2, 0), (3, 1), (4, 2)]"
    by (simp add: op_id_based_grouping_def group_op_def group_demo_groupable1 group_demo_def group_demo_op_fields
        empty_group_def)
  have b: "op_bytes (group_demo_map 4) 2 = 100" "op_bytes (group_demo_map 4) 3 = 4" "op_bytes (group_demo_map 4) 4 = 100"
    by (simp_all add: group_demo_defs op_bytes_def get_op_at_def out_bytes_def)
  have m: "get_op_at (group_demo_map 4) 2 = Some (group_demo_op 2 100 [])"
    "get_op_at (group_demo_map 4) 3 = Some (group_demo_op 3 4 [2, 9])"
    "get_op_at (group_demo_map 4) 4 = Some (group_demo_op 4 100 [3, 9])"
    by (simp_all add: get_op_at_def group_demo_map_def group_demo_def group_demo_op_fields)
  have "build_groups (group_demo_map 4) (group_demo 4) = [?g 2 0 100 [] [1], ?g 3 1 4 [0] [2], ?g 4 2 100 [1] []]"
    unfolding build_groups_def gs
    by (simp add: compute_group_requirements_def b build_group_adjacency_def op2group_def adj_group_def adj_op_def
         adj_conn_def m upt_rec group_demo_op_fields empty_group_def push_new_def)
  moreover have "merge_lower_32_groups [?g 2 0 100 [] [1], ?g 3 1 4 [0] [2], ?g 4 2 100 [1] []] =
      Some [(?g 2 0 100 [] [1])\<lparr>dg_op_ids := [2, 3], dg_vtcm := 104, dg_output_size := 104, dg_is_merged := True\<rparr>,
            ?g 4 2 100 [1] []]" (is "_ = Some ?hs")
    by (simp add: merge_lower_32_groups_def merge_loop.simps merge_target_def merge_into_def absorb_small_def small_group_def
        upt_rec empty_group_def)
  moreover have "break_loop capped_share 300 0 False ?hs = (False, ?hs)"
    by (simp add: break_loop.simps empty_group_def)
  ultimately show ?thesis
    by (simp add: build_group_graph_def tcm_break_up_def group_breakup_def popular_groups_migration_def upt_rec
        mark_popular_def merge_into_def empty_group_def)
qed

text \<open>
  The first half of a split is never split further by the same call, because its index has been
  visited. Eight operators of one byte against a budget of one byte end with a group of two of them, although
  both stages of splitting ran.
\<close>

definition break_demo :: dp_group where
  "break_demo = empty_group\<lparr>dg_op_ids := [1, 2, 3, 4, 5, 6, 7, 8], dg_vtcm := 8\<rparr>"

lemma break_leaves_large_group:
  "map dg_vtcm (gg_groups (snd (group_breakup capped_share 1 (snd (tcm_break_up capped_share 1
     \<lparr>gg_groups = [break_demo], gg_order = LargestBranchFirst, gg_locked = True\<rparr>))))) =
   [2, 1, 1, 1, 1, 1, 1]"
  by code_simp

text \<open>
  The merging of small groups ends, and when it has ended no small group has a predecessor left
  that still holds operators.
\<close>

lemma merge_small_groups_done:
  "\<exists>hs. merge_loop (build_groups g sorted_ops) = Some hs \<and>
     mset (all_ops hs) = mset (map opd_op_id (filter groupable sorted_ops)) \<and>
     (\<forall>i p. i < length hs \<and> small_group (hs ! i) \<and> p \<in> set (dg_preds (hs ! i)) \<and> p < length hs \<longrightarrow> dg_op_ids (hs ! p) = [])"
proof -
  note b = build_groups_shape [OF refl, of g sorted_ops]
  obtain hs where h: "merge_loop (build_groups g sorted_ops) = Some hs" "merge_post (build_groups g sorted_ops) hs"
    "\<forall>i < length hs. merge_target hs i = None"
    using merge_loop_post [OF b(3)] by auto
  have "dg_op_ids (hs ! p) = []"
    if "i < length hs" "small_group (hs ! i)" "p \<in> set (dg_preds (hs ! i))" "p < length hs" for i p
    using h(3) that by (auto simp: merge_target_def find_None_iff)
  with h b(1) show ?thesis by (auto simp: merge_post_def)
qed

end
