(* ===== verification/SuperTile.thy ===== *)
theory SuperTile
  imports DpGroups Complex_Main
begin

text \<open>
  Supertiles: runs of operators of a group whose intermediate results stay in the scratchpad
  (\<open>compiler/src/vtcm/supertile.cpp\<close> and the end of \<open>compiler/src/ir/graph_prepare.cpp\<close>). A dynamic program
  over the operators of a group chooses the cuts, at most 16 supertiles per group; \<open>apply\<close> and
  \<open>make_one_supertile\<close> turn groups into supertiles and halve those that do not fit.

  The program is generic in the type of costs, of which it uses addition and comparison only; \<open>None\<close> is
  the infinite cost. The cost of the code, a difference of doubles, is the exact rational. The table is a
  list of rows, one per operator, each with one cell per number of supertiles.
\<close>

section \<open>Costs\<close>

definition compute_vtcm_need :: "opdef_map \<Rightarrow> op_id list \<Rightarrow> bytes" where
  "compute_vtcm_need g ids = sum_list (map (op_bytes g) ids)"

definition merge_cost :: "nat \<Rightarrow> opdef_map \<Rightarrow> op_id list \<Rightarrow> rat" where
  "merge_cost ddr_bw g ids =
     (if length ids < 2 then 0
      else let intermediate = sum_list (map (op_bytes g) (butlast ids));
               ddr_saved = (if 0 < ddr_bw then of_nat intermediate / of_nat ddr_bw else of_nat intermediate);
               merged_vtcm = sum_list (map (op_bytes g) ids);
               max_individual = foldl max 0 (map (op_bytes g) ids)
           in of_nat (merged_vtcm - max_individual) - ddr_saved)"

definition tcm_can_merge :: "bytes \<Rightarrow> opdef_map \<Rightarrow> op_id list \<Rightarrow> bool" where
  "tcm_can_merge vtcm_size g ids \<longleftrightarrow> sum_list (map (op_bytes g) ids) \<le> vtcm_size"

definition cost_seg :: "bytes \<Rightarrow> opdef_map \<Rightarrow> op_id list \<Rightarrow> nat \<Rightarrow> nat \<Rightarrow> rat option" where
  "cost_seg vtcm_size g ops a b =
     (let seg = take (b + 1 - a) (drop a ops)
      in if tcm_can_merge vtcm_size g seg then Some (merge_cost 48000000000 g seg) else None)"

section \<open>The dynamic program\<close>

type_synonym 'c cell = "'c option \<times> nat option"

definition cost_less :: "'c::linorder option \<Rightarrow> 'c option \<Rightarrow> bool" where
  "cost_less a b = (case a of None \<Rightarrow> False | Some x \<Rightarrow> (case b of None \<Rightarrow> True | Some y \<Rightarrow> x < y))"

definition try_cut ::
  "(nat \<Rightarrow> nat \<Rightarrow> 'c::{linorder, plus} option) \<Rightarrow> (nat \<Rightarrow> 'c option) \<Rightarrow> nat \<Rightarrow> 'c cell \<Rightarrow> nat \<Rightarrow> 'c cell" where
  "try_cut cost prev i best j =
     (case prev j of
        None \<Rightarrow> best
      | Some a \<Rightarrow>
          (case cost (j + 1) i of
             None \<Rightarrow> best
           | Some c \<Rightarrow> if cost_less (Some (a + c)) (fst best) then (Some (a + c), Some j) else best))"

definition dp_cell :: "(nat \<Rightarrow> nat \<Rightarrow> 'c::{linorder, plus} option) \<Rightarrow> (nat \<Rightarrow> 'c option) \<Rightarrow> nat \<Rightarrow> 'c cell" where
  "dp_cell cost prev i = foldl (try_cut cost prev i) (None, None) (rev [0..<i])"

definition dp_row :: "(nat \<Rightarrow> nat \<Rightarrow> 'c::{linorder, plus} option) \<Rightarrow> nat \<Rightarrow> 'c cell list list \<Rightarrow> nat \<Rightarrow> 'c cell list" where
  "dp_row cost kmax rows i =
     (None, None) # (cost 0 i, None) #
       map (\<lambda>k. dp_cell cost (\<lambda>j. fst (rows ! j ! (k - 1))) i) [2..<kmax + 1]"

definition dp_table :: "(nat \<Rightarrow> nat \<Rightarrow> 'c::{linorder, plus} option) \<Rightarrow> nat \<Rightarrow> nat \<Rightarrow> 'c cell list list" where
  "dp_table cost kmax n = foldl (\<lambda>rows i. rows @ [dp_row cost kmax rows i]) [] [0..<n]"

definition best_k :: "'c::linorder cell list \<Rightarrow> nat \<Rightarrow> nat" where
  "best_k row kmax =
     foldl (\<lambda>b k. if cost_less (fst (row ! k)) (fst (row ! b)) then k else b) 1 [2..<kmax + 1]"

fun backtrack :: "'c cell list list \<Rightarrow> nat \<Rightarrow> nat \<Rightarrow> (nat \<times> nat) list" where
  "backtrack rows 0 i = []"
| "backtrack rows (Suc k) i =
     (case snd (rows ! i ! Suc k) of
        None \<Rightarrow> [(0, i)]
      | Some j \<Rightarrow> backtrack rows k j @ [(j + 1, i)])"

definition MAX_K :: nat where "MAX_K = 16"

definition choose_cuts :: "(nat \<Rightarrow> nat \<Rightarrow> 'c::{linorder, plus} option) \<Rightarrow> nat \<Rightarrow> (nat \<times> nat) list" where
  "choose_cuts cost n =
     (let kmax = min n MAX_K; rows = dp_table cost kmax n
      in backtrack rows (best_k (rows ! (n - 1)) kmax) (n - 1))"

record supertile_group =
  sg_op_ids :: "op_id list"
  sg_vtcm :: bytes
  sg_ddr_saved :: bytes
  sg_split_point :: int

definition solve_group :: "bytes \<Rightarrow> opdef_map \<Rightarrow> dp_group \<Rightarrow> supertile_group list" where
  "solve_group vtcm_size g gr =
     (let ops = dg_op_ids gr; n = length ops
      in if n = 0 then []
         else map (\<lambda>(s, e). let ids = take (e + 1 - s) (drop s ops)
                            in \<lparr>sg_op_ids = ids, sg_vtcm = compute_vtcm_need g ids, sg_ddr_saved = 0, sg_split_point = - 1\<rparr>)
                (choose_cuts (cost_seg vtcm_size g ops) n))"

definition solve_supertiles :: "bytes \<Rightarrow> opdef_map \<Rightarrow> dp_group list \<Rightarrow> supertile_group list" where
  "solve_supertiles vtcm_size g gs =
     concat (map (\<lambda>gr. if dg_op_ids gr = [] then []
                       else if length (dg_op_ids gr) < 2 then [\<lparr>sg_op_ids = dg_op_ids gr, sg_vtcm = dg_vtcm gr, sg_ddr_saved = 0, sg_split_point = - 1\<rparr>]
                       else solve_group vtcm_size g gr) gs)"

section \<open>Creating supertiles\<close>

definition can_safely_merge :: "opdef_map \<Rightarrow> op_id list \<Rightarrow> bool" where
  "can_safely_merge g ids =
     list_all (\<lambda>i. case get_op_at g i of
         None \<Rightarrow> True
       | Some od \<Rightarrow> list_all (\<lambda>c. c \<in> set ids \<or>
           (case get_op_at g c of None \<Rightarrow> False | Some cod \<Rightarrow> opd_name cod = Some ''Output'')) (opd_consumers od)) ids"

record super_tile =
  st_op_ids :: "op_id list"
  st_vtcm :: bytes
  st_ddr_saved :: bytes
  st_vtcm_base :: bytes
  st_ddr_base :: bytes
  st_roundtrips :: nat

definition half_groups :: "opdef_map \<Rightarrow> op_id list \<Rightarrow> supertile_group list" where
  "half_groups g ids =
     (let mid = length ids div 2
      in map (\<lambda>part. \<lparr>sg_op_ids = part, sg_vtcm = compute_vtcm_need g part, sg_ddr_saved = 0, sg_split_point = - 1\<rparr>) [take mid ids, drop mid ids])"

definition sg_weight :: "supertile_group \<Rightarrow> nat" where
  "sg_weight sg = (if sg_op_ids sg = [] then 1 else 2 * length (sg_op_ids sg) - 1)"

lemma half_groups_weight:
  assumes "2 \<le> length (sg_op_ids sg)"
  shows "sum_list (map sg_weight (half_groups g (sg_op_ids sg))) < sg_weight sg"
proof -
  let ?n = "length (sg_op_ids sg)"
  have "1 \<le> ?n div 2" "?n div 2 + (?n - ?n div 2) = ?n" "1 \<le> ?n - ?n div 2" using assms by auto
  moreover have "sg_op_ids sg \<noteq> []" "take (?n div 2) (sg_op_ids sg) \<noteq> []" "drop (?n div 2) (sg_op_ids sg) \<noteq> []"
    using assms by auto
  ultimately show ?thesis by (simp add: half_groups_def Let_def sg_weight_def)
qed

lemma sg_weight_pos: "0 < sg_weight sg"
  by (cases "sg_op_ids sg") (auto simp: sg_weight_def)

text \<open>
  The nested call of \<open>apply\<close> clears the list of supertiles and leaves those of the two halves in it.
\<close>

function apply_supertiles :: "bytes \<Rightarrow> opdef_map \<Rightarrow> super_tile list \<Rightarrow> supertile_group list \<Rightarrow> super_tile list" where
  "apply_supertiles vtcm_size g tiles [] = tiles"
| "apply_supertiles vtcm_size g tiles (sg # sgs) =
     (if sg_vtcm sg \<le> vtcm_size \<and> can_safely_merge g (sg_op_ids sg)
      then apply_supertiles vtcm_size g
             (tiles @ [\<lparr>st_op_ids = sg_op_ids sg, st_vtcm = sg_vtcm sg, st_ddr_saved = sg_ddr_saved sg, st_vtcm_base = 0, st_ddr_base = 0,
                st_roundtrips = 1\<rparr>]) sgs
      else if 2 \<le> length (sg_op_ids sg)
      then apply_supertiles vtcm_size g (apply_supertiles vtcm_size g [] (half_groups g (sg_op_ids sg))) sgs
      else apply_supertiles vtcm_size g tiles sgs)"
  by pat_completeness auto
termination
  by (relation "measure (\<lambda>(v, g, tiles, sgs). sum_list (map sg_weight sgs))")
    (auto simp: sg_weight_pos intro: trans_less_add1 half_groups_weight)

definition create_supertiles :: "bytes \<Rightarrow> opdef_map \<Rightarrow> dp_group list \<Rightarrow> super_tile list" where
  "create_supertiles vtcm_size g gs = apply_supertiles vtcm_size g [] (solve_supertiles vtcm_size g gs)"

definition split_point :: "op_id list \<Rightarrow> int list \<Rightarrow> nat" where
  "split_point ids hist =
     (let h = (if hist = [] then - 1 else hd hist)
      in if h < 1 \<or> int (length ids) \<le> h then length ids div 2 else nat h)"

lemma split_point_bounds:
  assumes "2 \<le> length ids"
  shows "0 < split_point ids hist" "split_point ids hist < length ids"
proof -
  define h where "h = (if hist = [] then - 1 else hd hist)"
  have "0 < split_point ids hist \<and> split_point ids hist < length ids"
    using assms by (cases "h < 1 \<or> int (length ids) \<le> h") (auto simp: split_point_def Let_def h_def [symmetric])
  then show "0 < split_point ids hist" "split_point ids hist < length ids" by simp_all
qed

text \<open>
  \<open>make_one_supertile\<close>, with the supertiles it appends. Taking the rest of an empty history is undefined
  in the code and \<open>None\<close> here.
\<close>

function make_one_supertile :: "bytes \<Rightarrow> opdef_map \<Rightarrow> op_id list \<Rightarrow> int list \<Rightarrow> super_tile list option" where
  "make_one_supertile vtcm_size g ids hist =
     (if ids = [] then Some []
      else let total = sum_list (map (op_bytes g) ids)
           in if vtcm_size < total \<and> 2 \<le> length ids
              then let cut = split_point ids hist
                   in if hist = [] then None
                      else (case make_one_supertile vtcm_size g (take cut ids) (tl hist) of
                              None \<Rightarrow> None
                            | Some l \<Rightarrow> map_option (\<lambda>r. l @ r) (make_one_supertile vtcm_size g (drop cut ids) (tl hist)))
              else Some [\<lparr>st_op_ids = ids, st_vtcm = total, st_ddr_saved = 0, st_vtcm_base = 0, st_ddr_base = 0,
                          st_roundtrips = 1\<rparr>])"
  by pat_completeness auto
termination
  by (relation "measure (\<lambda>(v, g, ids, hist). length ids)") (auto simp: split_point_bounds)

declare make_one_supertile.simps [simp del]

section \<open>The table and its recursion\<close>

fun dpf :: "(nat \<Rightarrow> nat \<Rightarrow> 'c::{linorder, plus} option) \<Rightarrow> nat \<Rightarrow> nat \<Rightarrow> 'c cell" where
  "dpf cost 0 i = (None, None)"
| "dpf cost (Suc 0) i = (cost 0 i, None)"
| "dpf cost (Suc (Suc k)) i = dp_cell cost (\<lambda>j. fst (dpf cost (Suc k) j)) i"

lemma dp_cell_cong:
  assumes "\<And>j. j < i \<Longrightarrow> p j = q j"
  shows "dp_cell cost p i = dp_cell cost q i"
  unfolding dp_cell_def by (rule foldl_cong) (use assms in \<open>auto simp: try_cut_def\<close>)

lemma dp_table_Suc: "dp_table cost kmax (Suc n) = dp_table cost kmax n @ [dp_row cost kmax (dp_table cost kmax n) n]"
  by (simp add: dp_table_def)

lemma length_dp_table [simp]: "length (dp_table cost kmax n) = n"
  by (induction n) (simp_all add: dp_table_Suc, simp add: dp_table_def)

lemma dp_table_nth: "i < n \<Longrightarrow> k \<le> kmax \<Longrightarrow> 0 < kmax \<Longrightarrow> dp_table cost kmax n ! i ! k = dpf cost k i"
proof (induction n arbitrary: i k)
  case (Suc n)
  show ?case
  proof (cases "i = n")
    case False
    with Suc show ?thesis by (simp add: dp_table_Suc nth_append)
  next
    case True
    let ?rows = "dp_table cost kmax n"
    have row: "dp_table cost kmax (Suc n) ! i = dp_row cost kmax ?rows n" using True by (simp add: dp_table_Suc nth_append)
    consider "k = 0" | "k = 1" | m where "k = Suc (Suc m)" by (metis One_nat_def not0_implies_Suc)
    then show ?thesis
    proof cases
      case (3 m)
      have "dp_row cost kmax ?rows n ! k = dp_cell cost (\<lambda>j. fst (?rows ! j ! Suc m)) n"
        using 3 Suc.prems by (simp add: dp_row_def del: upt_Suc)
      also have "\<dots> = dp_cell cost (\<lambda>j. fst (dpf cost (Suc m) j)) n"
        by (rule dp_cell_cong) (use Suc.IH Suc.prems 3 in auto)
      finally show ?thesis using row 3 True by simp
    qed (use row True in \<open>simp_all add: dp_row_def\<close>)
  qed
qed simp

lemma cost_less_trans: "cost_less a b \<Longrightarrow> cost_less b c \<Longrightarrow> cost_less a c"
  by (auto simp: cost_less_def split: option.splits)

lemma cost_less_linear:
  "\<not> cost_less a b \<longleftrightarrow> (a = None \<or> (\<exists>x y. a = Some x \<and> b = Some y \<and> y \<le> x))"
  by (cases a; cases b) (auto simp: cost_less_def)

lemma try_cut_fold:
  fixes cost :: "nat \<Rightarrow> nat \<Rightarrow> 'c::{linorder, plus} option"
  assumes "foldl (try_cut cost prev i) start js = (v, b)"
  shows "(v, b) = start \<or> (\<exists>j \<in> set js. \<exists>a c. b = Some j \<and> prev j = Some a \<and> cost (j + 1) i = Some c \<and> v = Some (a + c))"
    "j \<in> set js \<Longrightarrow> prev j = Some a \<Longrightarrow> cost (j + 1) i = Some c \<Longrightarrow> \<exists>x. v = Some x \<and> x \<le> a + c"
proof -
  have "((v, b) = start \<or> (\<exists>j \<in> set js. \<exists>a c. b = Some j \<and> prev j = Some a \<and> cost (j + 1) i = Some c \<and> v = Some (a + c))) \<and>
     (\<forall>j \<in> set js. \<forall>a c. prev j = Some a \<longrightarrow> cost (j + 1) i = Some c \<longrightarrow> (\<exists>x. v = Some x \<and> x \<le> a + c))"
    using assms
  proof (induction js arbitrary: v b rule: rev_induct)
    case Nil
    then show ?case by simp
  next
    case (snoc j js)
    obtain v1 b1 where f: "foldl (try_cut cost prev i) start js = (v1, b1)" by fastforce
    note IH = snoc.IH [OF f]
    have s: "try_cut cost prev i (v1, b1) j = (v, b)" using snoc.prems f by simp
    consider "prev j = None \<or> cost (j + 1) i = None" | a c where "prev j = Some a" "cost (j + 1) i = Some c"
      by (cases "prev j"; cases "cost (j + 1) i") auto
    then show ?case
    proof cases
      case 1
      then have "(v, b) = (v1, b1)" using s by (auto simp: try_cut_def split: option.splits)
      with IH 1 show ?thesis by auto
    next
      case (2 a c)
      show ?thesis
      proof (cases "cost_less (Some (a + c)) v1")
        case True
        then have vb: "v = Some (a + c)" "b = Some j" using s 2 by (simp_all add: try_cut_def)
        have le: "\<exists>x. v = Some x \<and> x \<le> y" if "v1 = Some z" "z \<le> y" for y z
          using True that vb by (auto simp: cost_less_def)
        have "\<exists>x. v = Some x \<and> x \<le> a' + c'" if "j' \<in> set js" "prev j' = Some a'" "cost (j' + 1) i = Some c'" for j' a' c'
          using IH that le by blast
        with vb 2 show ?thesis by auto
      next
        case False
        then have vb: "v = v1" "b = b1" using s 2 by (simp_all add: try_cut_def)
        have "\<exists>x. v = Some x \<and> x \<le> a + c" using False vb by (auto simp: cost_less_linear)
        with IH vb 2 show ?thesis by auto
      qed
    qed
  qed
  then show "(v, b) = start \<or> (\<exists>j \<in> set js. \<exists>a c. b = Some j \<and> prev j = Some a \<and> cost (j + 1) i = Some c \<and> v = Some (a + c))"
    "j \<in> set js \<Longrightarrow> prev j = Some a \<Longrightarrow> cost (j + 1) i = Some c \<Longrightarrow> \<exists>x. v = Some x \<and> x \<le> a + c"
    by auto
qed

lemma dp_cell_Some:
  fixes cost :: "nat \<Rightarrow> nat \<Rightarrow> 'c::{linorder, plus} option"
  assumes "fst (dp_cell cost prev i) = Some x"
  shows "\<exists>j < i. \<exists>a c. snd (dp_cell cost prev i) = Some j \<and> prev j = Some a \<and> cost (j + 1) i = Some c \<and> x = a + c"
proof -
  obtain b where "dp_cell cost prev i = (Some x, b)" using assms by (metis prod.collapse)
  then show ?thesis using try_cut_fold(1) [of cost prev i "(None, None)" "rev [0..<i]" "Some x" b] by (auto simp: dp_cell_def)
qed

lemma dp_cell_le:
  fixes cost :: "nat \<Rightarrow> nat \<Rightarrow> 'c::{linorder, plus} option"
  assumes "j < i" "prev j = Some a" "cost (j + 1) i = Some c"
  shows "\<exists>x. fst (dp_cell cost prev i) = Some x \<and> x \<le> a + c"
  using try_cut_fold(2) [of cost prev i "(None, None)" "rev [0..<i]" "fst (dp_cell cost prev i)" "snd (dp_cell cost prev i)" j a c] assms
  by (simp add: dp_cell_def)

section \<open>Optimality\<close>

text \<open>\<open>cuts_cover i segs\<close>: the segments are consecutive from \<open>0\<close> to \<open>i\<close>.\<close>

inductive cuts_cover :: "nat \<Rightarrow> (nat \<times> nat) list \<Rightarrow> bool" where
  one: "cuts_cover i [(0, i)]"
| more: "cuts_cover j segs \<Longrightarrow> j < i \<Longrightarrow> cuts_cover i (segs @ [(j + 1, i)])"

definition add_cost :: "'c::plus option \<Rightarrow> 'c option \<Rightarrow> 'c option" where
  "add_cost a b = (case a of None \<Rightarrow> None | Some x \<Rightarrow> map_option ((+) x) b)"

fun total_cost :: "(nat \<Rightarrow> nat \<Rightarrow> 'c::plus option) \<Rightarrow> (nat \<times> nat) list \<Rightarrow> 'c option" where
  "total_cost cost [] = None"
| "total_cost cost ((a, b) # segs) = foldl (\<lambda>acc (a, b). add_cost acc (cost a b)) (cost a b) segs"

lemma total_cost_snoc: "segs \<noteq> [] \<Longrightarrow> total_cost cost (segs @ [(a, b)]) = add_cost (total_cost cost segs) (cost a b)"
  by (cases segs) auto

lemma covers_nonempty: "cuts_cover i segs \<Longrightarrow> segs \<noteq> []"
  by (induction rule: cuts_cover.induct) auto

lemma covers_length: "cuts_cover i segs \<Longrightarrow> length segs \<le> i + 1"
  by (induction rule: cuts_cover.induct) auto

lemma backtrack_covers:
  fixes cost :: "nat \<Rightarrow> nat \<Rightarrow> 'c::{linorder, plus} option"
  assumes "0 < kmax"
  shows "i < n \<Longrightarrow> k < kmax \<Longrightarrow> fst (dpf cost (Suc k) i) = Some x \<Longrightarrow>
    (let segs = backtrack (dp_table cost kmax n) (Suc k) i
     in cuts_cover i segs \<and> length segs = Suc k \<and> total_cost cost segs = Some x)"
proof (induction k arbitrary: i x)
  case 0
  then show ?case using assms by (simp add: dp_table_nth cuts_cover.one)
next
  case (Suc k)
  let ?T = "dp_table cost kmax n"
  from dp_cell_Some [of cost "\<lambda>j. fst (dpf cost (Suc k) j)" i x] Suc.prems
  obtain j a c where j: "j < i" "snd (dpf cost (Suc (Suc k)) i) = Some j" "fst (dpf cost (Suc k) j) = Some a"
    "cost (j + 1) i = Some c" "x = a + c" by auto
  define segs where "segs = backtrack ?T (Suc k) j"
  have b: "backtrack ?T (Suc (Suc k)) i = segs @ [(j + 1, i)]"
    unfolding segs_def using j Suc.prems by (simp only: backtrack.simps(2) [of _ "Suc k"]) (simp add: dp_table_nth)
  have IH: "cuts_cover j segs" "length segs = Suc k" "total_cost cost segs = Some a"
    using Suc.IH [OF _ _ j(3)] j(1) Suc.prems(1,2) by (auto simp only: Let_def segs_def)
  show ?case
    unfolding b Let_def
    using cuts_cover.more [OF IH(1) j(1)] IH j(4,5) total_cost_snoc [OF covers_nonempty [OF IH(1)], of cost "j + 1" i]
    by (simp add: add_cost_def)
qed

lemma dpf_least:
  fixes cost :: "nat \<Rightarrow> nat \<Rightarrow> 'c::linordered_ab_semigroup_add option"
  shows "cuts_cover i segs \<Longrightarrow> total_cost cost segs = Some c' \<Longrightarrow> \<exists>c. fst (dpf cost (length segs) i) = Some c \<and> c \<le> c'"
proof (induction arbitrary: c' rule: cuts_cover.induct)
  case (more j segs i)
  note ne = covers_nonempty [OF more.hyps(1)]
  obtain a c where t: "total_cost cost segs = Some a" "cost (j + 1) i = Some c" "c' = a + c"
    using more.prems by (auto simp: total_cost_snoc [OF ne] add_cost_def split: option.splits)
  obtain a' where a': "fst (dpf cost (length segs) j) = Some a'" "a' \<le> a" using more.IH [OF t(1)] by auto
  obtain k where k: "length segs = Suc k" using ne by (cases segs) auto
  have "\<exists>x. fst (dpf cost (Suc (length segs)) i) = Some x \<and> x \<le> a' + c"
    using dp_cell_le [of j i "\<lambda>j. fst (dpf cost (Suc k) j)" a' cost c] more.hyps(2) a'(1) t(2) by (simp add: k)
  moreover have "a' + c \<le> c'" using a'(2) t(3) by (simp add: add_right_mono)
  ultimately show ?case by (auto intro: order_trans)
qed simp

lemma best_k_le:
  fixes row :: "'c::linorder cell list"
  assumes "0 < kmax"
  shows "best_k row kmax \<in> {1..kmax}" "k \<in> {1..kmax} \<Longrightarrow> \<not> cost_less (fst (row ! k)) (fst (row ! best_k row kmax))"
proof -
  have "best_k row m \<in> {1..m} \<and> (\<forall>k \<in> {1..m}. \<not> cost_less (fst (row ! k)) (fst (row ! best_k row m)))" if "0 < m" for m
    using that
  proof (induction m rule: nat_induct_non_zero)
    case 1
    then show ?case by (auto simp: best_k_def cost_less_def split: option.splits)
  next
    case (Suc m)
    let ?b = "best_k row m"
    have s: "best_k row (Suc m) = (if cost_less (fst (row ! Suc m)) (fst (row ! ?b)) then Suc m else ?b)"
      using Suc.hyps by (simp add: best_k_def)
    have "\<not> cost_less (fst (row ! k)) (fst (row ! best_k row (Suc m)))" if "k \<in> {1..Suc m}" for k
    proof (cases "k = Suc m")
      case True
      then show ?thesis by (auto simp: s cost_less_def split: option.splits)
    next
      case False
      then have "\<not> cost_less (fst (row ! k)) (fst (row ! ?b))" using Suc.IH that by auto
      then show ?thesis using cost_less_trans by (auto simp: s)
    qed
    with Suc.IH s show ?case by auto
  qed
  with assms show "best_k row kmax \<in> {1..kmax}" "k \<in> {1..kmax} \<Longrightarrow> \<not> cost_less (fst (row ! k)) (fst (row ! best_k row kmax))"
    by blast+
qed

lemma choose_cuts_optimal:
  fixes cost :: "nat \<Rightarrow> nat \<Rightarrow> 'c::linordered_ab_semigroup_add option"
  assumes "0 < n"
  shows "cuts_cover (n - 1) (choose_cuts cost n)" "length (choose_cuts cost n) \<le> MAX_K"
    "cuts_cover (n - 1) segs \<Longrightarrow> length segs \<le> MAX_K \<Longrightarrow> total_cost cost segs = Some c' \<Longrightarrow>
       \<exists>c. total_cost cost (choose_cuts cost n) = Some c \<and> c \<le> c'"
proof -
  define kmax where "kmax = min n MAX_K"
  define b where "b = best_k (dp_table cost kmax n ! (n - 1)) kmax"
  have k: "0 < kmax" "kmax \<le> MAX_K" using assms by (auto simp: kmax_def MAX_K_def)
  have b1: "b \<in> {1..kmax}" unfolding b_def by (rule best_k_le(1) [OF k(1)])
  then obtain m where m: "b = Suc m" "m < kmax" by (cases b) auto
  have row: "dp_table cost kmax n ! (n - 1) ! j = dpf cost j (n - 1)" if "j \<le> kmax" for j
    using that k(1) assms by (simp add: dp_table_nth)
  have cuts: "choose_cuts cost n = backtrack (dp_table cost kmax n) (Suc m) (n - 1)"
    by (simp only: choose_cuts_def Let_def kmax_def [symmetric] b_def [symmetric] m(1))
  have best: "\<not> cost_less (fst (dpf cost j (n - 1))) (fst (dpf cost (Suc m) (n - 1)))" if "j \<in> {1..kmax}" for j
  proof -
    have "j \<le> kmax" "Suc m \<le> kmax" using that m(2) by simp_all
    then show ?thesis
      using best_k_le(2) [OF k(1) that, of "dp_table cost kmax n ! (n - 1)"]
      by (simp only: b_def [symmetric] m(1) row not_False_eq_True)
  qed
  have found: "cuts_cover (n - 1) (choose_cuts cost n) \<and> length (choose_cuts cost n) = Suc m \<and> total_cost cost (choose_cuts cost n) = Some x"
    if "fst (dpf cost (Suc m) (n - 1)) = Some x" for x
    using backtrack_covers [OF k(1) _ m(2) that, of n] assms by (simp add: cuts Let_def del: backtrack.simps)
  have none: "choose_cuts cost n = [(0, n - 1)]" if "fst (dpf cost (Suc m) (n - 1)) = None"
  proof -
    have "snd (dpf cost (Suc m) (n - 1)) = None"
    proof (cases m)
      case (Suc m')
      obtain v q where "dp_cell cost (\<lambda>j. fst (dpf cost (Suc m') j)) (n - 1) = (v, q)" by fastforce
      with that Suc try_cut_fold(1) [of cost "\<lambda>j. fst (dpf cost (Suc m') j)" "n - 1" "(None, None)" "rev [0..<n - 1]" v q]
      show ?thesis by (auto simp: dp_cell_def)
    qed simp
    then show ?thesis using row [of "Suc m"] m(2) by (simp add: cuts)
  qed
  show "cuts_cover (n - 1) (choose_cuts cost n)" "length (choose_cuts cost n) \<le> MAX_K"
    using found none m(2) k(2) cuts_cover.one by (cases "fst (dpf cost (Suc m) (n - 1))"; simp add: MAX_K_def)+
  show "\<exists>c. total_cost cost (choose_cuts cost n) = Some c \<and> c \<le> c'"
    if segs: "cuts_cover (n - 1) segs" "length segs \<le> MAX_K" "total_cost cost segs = Some c'"
  proof -
    obtain c where c: "fst (dpf cost (length segs) (n - 1)) = Some c" "c \<le> c'" using dpf_least [OF segs(1,3)] by auto
    have "length segs \<in> {1..kmax}"
      using covers_nonempty [OF segs(1)] covers_length [OF segs(1)] segs(2) assms by (cases segs) (auto simp: kmax_def)
    from best [OF this] c obtain x where "fst (dpf cost (Suc m) (n - 1)) = Some x" "x \<le> c"
      by (auto simp: cost_less_linear)
    with found c(2) show ?thesis by (auto intro: order_trans)
  qed
qed

section \<open>Runs of operators\<close>

definition run :: "'a list \<Rightarrow> nat \<times> nat \<Rightarrow> 'a list" where
  "run xs = (\<lambda>(s, e). take (e + 1 - s) (drop s xs))"

lemma covers_runs:
  "cuts_cover i segs \<Longrightarrow> i < length xs \<Longrightarrow> concat (map (run xs) segs) = take (i + 1) xs \<and> (\<forall>c \<in> set (map (run xs) segs). c \<noteq> [])"
proof (induction rule: cuts_cover.induct)
  case (more j segs i)
  have "take (j + 1) xs @ take (i - j) (drop (j + 1) xs) = take (j + 1 + (i - j)) xs" by (simp only: take_add)
  with more show ?case by (auto simp: run_def)
qed (auto simp: run_def)

fun segs_of :: "nat \<Rightarrow> 'a list list \<Rightarrow> (nat \<times> nat) list" where
  "segs_of k [] = []"
| "segs_of k (c # cs) = (k, k + length c - 1) # segs_of (k + length c) cs"

lemma segs_of_snoc:
  "segs_of k (cs @ [c]) = segs_of k cs @ [(k + length (concat cs), k + length (concat cs) + length c - 1)]"
  by (induction cs arbitrary: k) (auto simp: add.assoc)

lemma segs_of_covers:
  "css \<noteq> [] \<Longrightarrow> \<forall>c \<in> set css. c \<noteq> [] \<Longrightarrow>
     cuts_cover (length (concat css) - 1) (segs_of 0 css) \<and> map (run (concat css @ rest)) (segs_of 0 css) = css"
proof (induction css arbitrary: rest rule: rev_nonempty_induct)
  case (single c)
  then show ?case by (auto simp: run_def cuts_cover.one)
next
  case (snoc c css)
  let ?n = "length (concat css)"
  have IH: "cuts_cover (?n - 1) (segs_of 0 css)" "map (run (concat css @ c @ rest)) (segs_of 0 css) = css"
    using snoc.IH [of "c @ rest"] snoc.prems by auto
  have n: "0 < ?n" using snoc.hyps snoc.prems by (cases css) auto
  have c: "0 < length c" using snoc.prems by simp
  have "cuts_cover (?n + length c - 1) (segs_of 0 css @ [(?n - 1 + 1, ?n + length c - 1)])"
    by (rule cuts_cover.more [OF IH(1)]) (use n c in arith)
  moreover have "run (concat css @ c @ rest) (?n, ?n + length c - 1) = c" using c by (simp add: run_def)
  ultimately show ?case using n IH(2) by (simp add: segs_of_snoc)
qed

lemma length_segs_of [simp]: "length (segs_of k css) = length css"
  by (induction css arbitrary: k) auto

lemma total_cost_runs:
  "segs \<noteq> [] \<Longrightarrow> total_cost (cost_seg v g ops) segs =
     (if \<forall>c \<in> set (map (run ops) segs). tcm_can_merge v g c
      then Some (sum_list (map (merge_cost 48000000000 g) (map (run ops) segs))) else None)"
proof (induction segs rule: rev_nonempty_induct)
  case (snoc x segs)
  then show ?case by (cases x) (auto simp: total_cost_snoc add_cost_def cost_seg_def run_def Let_def)
qed (auto simp: cost_seg_def run_def Let_def)

section \<open>Properties\<close>

lemma solve_group_runs:
  assumes "dg_op_ids gr \<noteq> []"
  shows "map sg_op_ids (solve_group v g gr) =
      map (run (dg_op_ids gr)) (choose_cuts (cost_seg v g (dg_op_ids gr)) (length (dg_op_ids gr)))"
    "\<forall>sg \<in> set (solve_group v g gr). sg_vtcm sg = compute_vtcm_need g (sg_op_ids sg)"
  using assms by (auto simp: solve_group_def Let_def run_def split: prod.splits)

lemma sum_list_bytes_can_merge: "tcm_can_merge v g c \<longleftrightarrow> compute_vtcm_need g c \<le> v"
  by (simp add: tcm_can_merge_def compute_vtcm_need_def)

lemma solve_group_best:
  assumes "dg_op_ids gr \<noteq> []" "concat css = dg_op_ids gr" "\<forall>c \<in> set css. c \<noteq> [] \<and> tcm_can_merge v g c"
    and "length css \<le> MAX_K"
  shows "(\<forall>sg \<in> set (solve_group v g gr). sg_vtcm sg \<le> v) \<and>
    sum_list (map (merge_cost 48000000000 g) (map sg_op_ids (solve_group v g gr))) \<le> sum_list (map (merge_cost 48000000000 g) css)"
proof -
  let ?ops = "dg_op_ids gr"
  let ?cost = "cost_seg v g ?ops"
  let ?cuts = "choose_cuts ?cost (length ?ops)"
  have n: "0 < length ?ops" using assms(1) by simp
  note o = choose_cuts_optimal [OF n, where cost = ?cost] and r = solve_group_runs [OF assms(1), of v g]
  have "css \<noteq> []" using assms(1,2) by auto
  then have s: "cuts_cover (length ?ops - 1) (segs_of 0 css)" "map (run ?ops) (segs_of 0 css) = css"
    using segs_of_covers [of css "[]"] assms(2,3) by auto
  have "total_cost ?cost (segs_of 0 css) = Some (sum_list (map (merge_cost 48000000000 g) css))"
    unfolding total_cost_runs [OF covers_nonempty [OF s(1)]] s(2) using assms(3) by simp
  from o(3) [OF s(1) _ this] assms(4)
  obtain c where c: "total_cost ?cost ?cuts = Some c" "c \<le> sum_list (map (merge_cost 48000000000 g) css)" by auto
  from c(1) have "\<forall>x \<in> set (map (run ?ops) ?cuts). tcm_can_merge v g x"
    "c = sum_list (map (merge_cost 48000000000 g) (map (run ?ops) ?cuts))"
    unfolding total_cost_runs [OF covers_nonempty [OF o(1)]] by (auto split: if_splits)
  then have "\<forall>x \<in> set (map sg_op_ids (solve_group v g gr)). tcm_can_merge v g x"
    "c = sum_list (map (merge_cost 48000000000 g) (map sg_op_ids (solve_group v g gr)))"
    by (simp_all only: r(1))
  with c(2) r(2) show ?thesis by (simp add: sum_list_bytes_can_merge)
qed

lemma solve_group_cover:
  assumes "dg_op_ids gr \<noteq> []"
  shows "concat (map sg_op_ids (solve_group v g gr)) = dg_op_ids gr \<and>
    (\<forall>c \<in> set (map sg_op_ids (solve_group v g gr)). c \<noteq> []) \<and> length (solve_group v g gr) \<le> MAX_K"
proof -
  let ?ops = "dg_op_ids gr"
  have n: "0 < length ?ops" using assms by simp
  note o = choose_cuts_optimal [OF n, where cost = "cost_seg v g ?ops"] and r = solve_group_runs [OF assms, of v g]
  have "length (solve_group v g gr) \<le> MAX_K" using o(2) arg_cong [OF r(1), of length] by simp
  then show ?thesis using covers_runs [OF o(1), of ?ops] n by (simp add: r(1) del: map_map)
qed


definition tile_demo :: dp_group where
  "tile_demo = empty_group\<lparr>dg_op_ids := [2, 3, 4]\<rparr>"


text \<open>
  The two sides of the cost have different units: the penalty is a number of bytes, the gain a number of
  bytes divided by the bandwidth. For tensors below 48 GB every merge costs something.
\<close>

lemma foldl_max_bounds: "a \<le> foldl max a xs" "x \<in> set xs \<Longrightarrow> x \<le> foldl max a xs" for a :: "'a::linorder"
proof (induction xs arbitrary: a)
  case (Cons y xs)
  { case 1 show ?case using Cons.IH(1) [of "max a y"] by simp }
  { case 2 then show ?case using Cons.IH(1) [of "max a y"] Cons.IH(2) [of "max a y"] by auto }
qed auto

lemma foldl_max_in: "foldl max a xs = a \<or> foldl max a xs \<in> set xs" for a :: "'a::linorder"
  by (induction xs arbitrary: a) (auto simp: max_def)

lemma merge_cost_pos:
  assumes "2 \<le> length ids" "\<forall>i \<in> set ids. 1 \<le> op_bytes g i \<and> op_bytes g i < 47999999999"
  shows "0 < merge_cost 48000000000 g ids"
proof -
  let ?f = "op_bytes g"
  define M where "M = foldl max 0 (map ?f ids)"
  define S where "S = sum_list (map ?f ids)"
  define I where "I = sum_list (map ?f (butlast ids))"
  obtain a b cs where ids: "ids = a # b # cs" using assms(1) by (cases ids; cases "tl ids") auto
  have M: "M \<in> set (map ?f ids)"
    using foldl_max_in [of 0 "map ?f ids"] foldl_max_bounds(2) [of "?f a" "map ?f ids" 0] assms(2) ids
    unfolding M_def by fastforce
  have S: "M + 1 \<le> S"
  proof -
    from M obtain i where i: "i < length ids" "M = ?f (ids ! i)" by (auto simp: in_set_conv_nth)
    have "S = sum_list (map ?f (take i ids)) + (?f (ids ! i) + sum_list (map ?f (drop (Suc i) ids)))"
      unfolding S_def by (subst id_take_nth_drop [OF i(1)]) simp
    moreover have "1 \<le> sum_list (map ?f (take i ids)) + sum_list (map ?f (drop (Suc i) ids))"
    proof (cases i)
      case 0
      then show ?thesis using assms(2) ids by (simp add: add_increasing2)
    next
      case (Suc k)
      then show ?thesis using assms(2) ids by (simp add: add_increasing2)
    qed
    ultimately show ?thesis using i(2) by linarith
  qed
  have I: "I \<le> S" unfolding I_def S_def by (simp add: ids)
      (metis add_le_cancel_left append_butlast_last_id butlast.simps(2) le_add1 list.distinct(1) map_append sum_list.append sum_list.Cons list.map(2))
  have "M < 47999999999" using M assms(2) by auto
  then have "I < 48000000000 * (S - M)"
    using I S by linarith
  then have "(of_nat I :: rat) < 48000000000 * of_nat (S - M)"
    by (metis of_nat_less_iff of_nat_mult of_nat_numeral)
  then show ?thesis
    using assms(1) unfolding merge_cost_def I_def [symmetric] S_def [symmetric] M_def [symmetric] Let_def
    by (simp add: field_simps)
qed

text \<open>
  for a group of at most 16 operators whose tensors fit the scratchpad, are not empty and smaller
  than 48 GB, the solver merges nothing: every supertile is a single operator.
\<close>

lemma solve_group_singletons:
  assumes "dg_op_ids gr \<noteq> []" "length (dg_op_ids gr) \<le> 16"
    and "\<forall>i \<in> set (dg_op_ids gr). 1 \<le> op_bytes g i \<and> op_bytes g i \<le> v \<and> op_bytes g i < 47999999999"
  shows "map sg_op_ids (solve_group v g gr) = map (\<lambda>i. [i]) (dg_op_ids gr)"
proof -
  let ?ops = "dg_op_ids gr" and ?cost = "merge_cost 48000000000 g"
  let ?runs = "map sg_op_ids (solve_group v g gr)"
  have c: "concat ?runs = ?ops" "\<forall>c \<in> set ?runs. c \<noteq> []" using solve_group_cover [OF assms(1), of v g] by auto
  have sub: "i \<in> set ?ops" if "x \<in> set ?runs" "i \<in> set x" for x i using that c(1) by (metis UN_I set_concat)
  have pos: "0 < ?cost x" if "x \<in> set ?runs" "2 \<le> length x" for x
    using merge_cost_pos [OF that(2)] sub [OF that(1)] assms(3) by auto
  have nonneg: "0 \<le> ?cost x" if "x \<in> set ?runs" for x
    using pos [OF that] by (cases "2 \<le> length x") (auto simp: merge_cost_def)
  have "concat (map (\<lambda>i. [i]) ?ops) = ?ops" "length (map (\<lambda>i. [i]) ?ops) \<le> MAX_K"
    "\<forall>x \<in> set (map (\<lambda>i. [i]) ?ops). x \<noteq> [] \<and> tcm_can_merge v g x"
    using assms(2,3) by (auto simp: tcm_can_merge_def MAX_K_def)
  from solve_group_best [OF assms(1) this(1,3,2)]
  have "sum_list (map ?cost ?runs) \<le> sum_list (map ?cost (map (\<lambda>i. [i]) ?ops))" by blast
  also have "\<dots> = 0" by (simp add: merge_cost_def comp_def)
  finally have zero: "sum_list (map ?cost ?runs) \<le> 0" .
  have single: "length x = 1" if "x \<in> set ?runs" for x
  proof (rule ccontr)
    assume "length x \<noteq> 1"
    then have "2 \<le> length x" using c(2) that by (cases x) (auto simp: Suc_le_eq)
    then have "0 < ?cost x" by (rule pos [OF that])
    also have "\<dots> \<le> sum_list (map ?cost ?runs)" using that nonneg by (intro member_le_sum_list) auto
    finally show False using zero by simp
  qed
  have "map (\<lambda>i. [i]) (concat xs) = xs" if "\<forall>x \<in> set xs. length x = 1" for xs :: "op_id list list"
    using that by (induction xs) (auto simp: length_Suc_conv)
  from this [of ?runs] c(1) single show ?thesis by simp
qed

lemma solve_group_singletons_witness:
  "map sg_op_ids (solve_group 150 (group_demo_map 40) tile_demo) = [[2], [3], [4]]"
proof -
  have ops: "dg_op_ids tile_demo = [2, 3, 4]" by (simp add: tile_demo_def)
  have b: "op_bytes (group_demo_map 40) 2 = 100" "op_bytes (group_demo_map 40) 3 = 40" "op_bytes (group_demo_map 40) 4 = 100"
    by (simp_all add: group_demo_defs op_bytes_def get_op_at_def out_bytes_def)
  have "map sg_op_ids (solve_group 150 (group_demo_map 40) tile_demo) = map (\<lambda>i. [i]) (dg_op_ids tile_demo)"
    by (rule solve_group_singletons) (simp_all add: ops b)
  then show ?thesis by (simp add: ops)
qed

text \<open>
  What \<open>apply\<close> creates: every supertile fits and has no consumer outside except outputs. But it drops
  operators: a single one that does not qualify, and everything created before a group that is halved.
\<close>

definition tile_ok :: "bytes \<Rightarrow> opdef_map \<Rightarrow> super_tile \<Rightarrow> bool" where
  "tile_ok v g t \<longleftrightarrow> st_vtcm t \<le> v \<and> can_safely_merge g (st_op_ids t) \<and> st_roundtrips t = 1"

lemma apply_supertiles_fit:
  "list_all (tile_ok v g) tiles \<Longrightarrow> list_all (tile_ok v g) (apply_supertiles v g tiles sgs)"
  by (induction v g tiles sgs rule: apply_supertiles.induct) (auto simp: tile_ok_def)

lemma apply_supertiles_all:
  "\<forall>sg \<in> set sgs. sg_vtcm sg \<le> v \<and> can_safely_merge g (sg_op_ids sg) \<Longrightarrow>
     map st_op_ids (apply_supertiles v g tiles sgs) = map st_op_ids tiles @ map sg_op_ids sgs"
  by (induction v g tiles sgs rule: apply_supertiles.induct) auto

lemma apply_supertiles_drops:
  "map st_op_ids (apply_supertiles 10 Map.empty []
     [\<lparr>sg_op_ids = [2], sg_vtcm = 5, sg_ddr_saved = 0, sg_split_point = - 1\<rparr>, \<lparr>sg_op_ids = [3, 4], sg_vtcm = 20, sg_ddr_saved = 0, sg_split_point = - 1\<rparr>]) = [[3], [4]]"
  by (simp add: half_groups_def can_safely_merge_def compute_vtcm_need_def op_bytes_def get_op_at_def)

definition tiling_of :: "bytes \<Rightarrow> opdef_map \<Rightarrow> op_id list \<Rightarrow> super_tile list \<Rightarrow> bool" where
  "tiling_of v g ids tiles \<longleftrightarrow> concat (map st_op_ids tiles) = ids \<and>
     (\<forall>t \<in> set tiles. st_vtcm t = compute_vtcm_need g (st_op_ids t) \<and> (st_vtcm t \<le> v \<or> length (st_op_ids t) = 1))"

lemma tiling_of_append: "tiling_of v g xs l \<Longrightarrow> tiling_of v g ys r \<Longrightarrow> tiling_of v g (xs @ ys) (l @ r)"
  by (auto simp: tiling_of_def)

lemma make_one_supertile_whole:
  assumes "ids = [] \<or> compute_vtcm_need g ids \<le> v \<or> length ids < 2"
  shows "\<exists>tiles. make_one_supertile v g ids hist = Some tiles \<and> tiling_of v g ids tiles"
proof (cases "ids = []")
  case True
  then show ?thesis by (subst make_one_supertile.simps) (simp add: tiling_of_def)
next
  case False
  let ?total = "sum_list (map (op_bytes g) ids)"
  have "?total \<le> v \<or> length ids = 1" "\<not> (v < ?total \<and> 2 \<le> length ids)"
    using assms False by (auto simp: compute_vtcm_need_def less_2_cases_iff)
  then show ?thesis
    by (subst make_one_supertile.simps) (auto simp: False tiling_of_def compute_vtcm_need_def)
qed

text \<open>
  C26: \<open>make_one_supertile\<close>, given a history at least as long as the recursion can be deep, covers
  the operators in order by supertiles that fit the scratchpad or are a single operator, whatever the
  cuts in the history are.
\<close>

theorem make_one_supertile_covers:
  assumes "length ids \<le> length hist + 1"
  shows "\<exists>tiles. make_one_supertile v g ids hist = Some tiles \<and> tiling_of v g ids tiles"
  using assms
proof (induction v g ids hist rule: make_one_supertile.induct)
  case (1 v g ids hist)
  let ?total = "sum_list (map (op_bytes g) ids)"
  show ?case
  proof (cases "ids \<noteq> [] \<and> v < ?total \<and> 2 \<le> length ids")
    case False
    then have "ids = [] \<or> compute_vtcm_need g ids \<le> v \<or> length ids < 2" by (auto simp: compute_vtcm_need_def)
    then show ?thesis by (rule make_one_supertile_whole)
  next
    case True
    let ?cut = "split_point ids hist"
    have h: "hist \<noteq> []" using 1(3) True by auto
    then have tl: "length hist = length (tl hist) + 1" by (cases hist) simp_all
    have c: "\<not> ids = []" "v < ?total \<and> 2 \<le> length ids" using True by auto
    have len: "length (take ?cut ids) \<le> length (tl hist) + 1" "length (drop ?cut ids) \<le> length (tl hist) + 1"
      using split_point_bounds [OF c(2) [THEN conjunct2], of hist] 1(3) tl by (simp_all only: length_take length_drop)
    obtain l where l: "make_one_supertile v g (take ?cut ids) (tl hist) = Some l" "tiling_of v g (take ?cut ids) l"
      using 1(1) [OF c(1) refl c(2) refl h len(1)] by blast
    obtain r where r: "make_one_supertile v g (drop ?cut ids) (tl hist) = Some r" "tiling_of v g (drop ?cut ids) r"
      using 1(2) [OF c(1) refl c(2) refl h l(1) len(2)] by blast
    have "make_one_supertile v g ids hist = Some (l @ r)"
      using c h l(1) r(1) by (subst make_one_supertile.simps) (simp only: Let_def if_True if_False option.case option.map simp_thms)
    with tiling_of_append [OF l(2) r(2)] show ?thesis by (simp only: append_take_drop_id) blast
  qed
qed

theorem make_one_supertile_covers_witness:
  "\<exists>tiles. make_one_supertile 150 (group_demo_map 40) [2, 3, 4] [2, - 1] = Some tiles \<and>
     concat (map st_op_ids tiles) = [2, 3, 4]"
proof -
  have "length [2, 3, 4 :: nat] \<le> length [2, - 1 :: int] + 1" by simp
  from make_one_supertile_covers [OF this, of 150 "group_demo_map 40"] show ?thesis by (auto simp: tiling_of_def)
qed

text \<open>With an empty history a group that has to be cut is not handled.\<close>

lemma make_one_supertile_no_history:
  assumes "v < sum_list (map (op_bytes g) ids)" "2 \<le> length ids"
  shows "make_one_supertile v g ids [] = None"
  using assms by (subst make_one_supertile.simps) (auto simp: Let_def)

end
