(* ===== verification/Multicast.thy ===== *)
theory Multicast
  imports Prelude
begin

text \<open>
  The multicast optimizer (\<open>compiler/src/mcast/mcast_optimizer.cpp\<close>). Sends of one processor that share a
  multicast channel are merged greedily into supercasts, as far as the receiver sets and the buffer
  capacity allow; the solver accepts the greedy solution, and the merged sends replace the originals.

  Tags, processors and channels are natural numbers. The coefficients of the objective, doubles with
  integral values, are integers. The field \<open>max_mcsend_tag\<close> of the solver input is not initialised before it
  is read; its first value is the parameter \<open>tag0\<close>. The dump of the model to a file is left out.
\<close>

section \<open>Data\<close>

record mc_send =
  ms_tag :: nat
  ms_sender :: nat
  ms_num_mcids :: nat
  ms_payload :: bytes
  ms_mcids :: "nat list"
  ms_receivers :: "nat list"

record super_cast =
  sc_tags :: "nat list"
  sc_mcids :: "nat list"
  sc_sender :: nat
  sc_payload :: bytes

record mcast_lp_input =
  li_mcsends :: "mc_send list"
  li_supercasts :: "super_cast list"
  li_max_mcsend_tag :: nat
  li_graph_multicast_count :: nat
  li_max_buffer :: bytes

record mcast_optimizer =
  mo_run_crossover :: bool
  mo_dump_mps :: bool
  mo_max_buffer :: bytes
  mo_last_supercasts :: nat
  mo_last_original :: nat
  mo_last_result :: nat
  mo_num_variables :: nat
  mo_num_constraints :: nat
  mo_objective :: "int list"

definition mcast_init :: mcast_optimizer where
  "mcast_init = \<lparr>mo_run_crossover = False, mo_dump_mps = False, mo_max_buffer = 0, mo_last_supercasts = 0,
     mo_last_original = 0, mo_last_result = 0, mo_num_variables = 0, mo_num_constraints = 0, mo_objective = []\<rparr>"

definition set_max_mcast_buffer_size :: "bytes \<Rightarrow> mcast_optimizer \<Rightarrow> mcast_optimizer" where
  "set_max_mcast_buffer_size sz st = st\<lparr>mo_max_buffer := sz\<rparr>"

section \<open>Merging\<close>

definition receivers_conflict :: "nat list \<Rightarrow> nat list \<Rightarrow> bool" where
  "receivers_conflict ra rb =
     (let common = length (filter (\<lambda>r. r \<in> set ra) rb)
      in if common = 0 then False
         else if common = length rb then False
         else if common = length (remdups ra) then False
         else True)"

definition can_merge :: "bytes \<Rightarrow> mc_send \<Rightarrow> mc_send \<Rightarrow> bytes \<Rightarrow> bool" where
  "can_merge max_buffer a b merged_payload =
     (if ms_sender a \<noteq> ms_sender b then False
      else if 0 < max_buffer \<and> max_buffer < merged_payload then False
      else if receivers_conflict (ms_receivers a) (ms_receivers b) then False
      else True)"

definition mcids_overlap :: "nat list \<Rightarrow> nat list \<Rightarrow> bool" where
  "mcids_overlap xs ys = list_ex (\<lambda>y. list_ex (\<lambda>x. x = y) xs) ys"

definition start_cast :: "mc_send \<Rightarrow> super_cast" where
  "start_cast s = \<lparr>sc_tags = [ms_tag s], sc_mcids = ms_mcids s, sc_sender = ms_sender s, sc_payload = ms_payload s\<rparr>"

definition absorb_send ::
  "bytes \<Rightarrow> mc_send list \<Rightarrow> nat \<Rightarrow> nat \<Rightarrow> bool list \<times> super_cast \<Rightarrow> bool list \<times> super_cast" where
  "absorb_send max_buffer sends i j = (\<lambda>(merged, sc).
     if merged ! j then (merged, sc)
     else if \<not> mcids_overlap (sc_mcids sc) (ms_mcids (sends ! j)) then (merged, sc)
     else let new_payload = sc_payload sc + ms_payload (sends ! j)
          in if \<not> can_merge max_buffer (sends ! i) (sends ! j) new_payload then (merged, sc)
             else (merged[j := True],
                   sc\<lparr>sc_tags := sc_tags sc @ [ms_tag (sends ! j)], sc_payload := new_payload,
                      sc_mcids := fold push_new (ms_mcids (sends ! j)) (sc_mcids sc)\<rparr>))"

definition grow_cast :: "bytes \<Rightarrow> mc_send list \<Rightarrow> nat \<Rightarrow> bool list \<Rightarrow> bool list \<times> super_cast" where
  "grow_cast max_buffer sends i merged =
     fold (absorb_send max_buffer sends i) [Suc i..<length sends] (merged, start_cast (sends ! i))"

definition cast_from ::
  "bytes \<Rightarrow> mc_send list \<Rightarrow> nat \<Rightarrow> bool list \<times> super_cast list \<Rightarrow> bool list \<times> super_cast list" where
  "cast_from max_buffer sends i = (\<lambda>(merged, scs).
     if merged ! i then (merged, scs)
     else let (merged', sc) = grow_cast max_buffer sends i merged
          in (merged', if 1 < length (sc_tags sc) then scs @ [sc] else scs))"

definition supercasts_of :: "bytes \<Rightarrow> mc_send list \<Rightarrow> super_cast list" where
  "supercasts_of max_buffer sends =
     snd (fold (cast_from max_buffer sends) [0..<length sends] (replicate (length sends) False, []))"

definition resize_to :: "nat \<Rightarrow> 'a \<Rightarrow> 'a list \<Rightarrow> 'a list" where
  "resize_to n x xs = take n xs @ replicate (n - length xs) x"

definition build_lp_input ::
  "nat \<Rightarrow> mc_send list \<Rightarrow> nat \<Rightarrow> mcast_optimizer \<Rightarrow> mcast_lp_input \<times> mcast_optimizer" where
  "build_lp_input tag0 sends graph_multicast_count st =
     (let scs = supercasts_of (mo_max_buffer st) sends;
          num_vars = length sends * 2 + graph_multicast_count;
          coeffs = resize_to num_vars 1 (mo_objective st)
      in (\<lparr>li_mcsends = sends, li_supercasts = scs, li_max_mcsend_tag = fold (\<lambda>s t. max t (ms_tag s)) sends tag0,
           li_graph_multicast_count = graph_multicast_count, li_max_buffer = mo_max_buffer st\<rparr>,
          st\<lparr>mo_num_variables := num_vars, mo_num_constraints := length sends,
             mo_objective := fold (\<lambda>k cs. cs[k := - int (length (sc_tags (scs ! k)))]) [0..<length scs] coeffs\<rparr>))"

definition solve_ilp :: "mcast_lp_input \<Rightarrow> bool" where
  "solve_ilp input = True"

section \<open>Applying the result\<close>

definition take_tag ::
  "mc_send list \<Rightarrow> nat \<Rightarrow> bool list \<times> nat list \<Rightarrow> bool list \<times> nat list" where
  "take_tag original tag = (\<lambda>(merged, recv).
     case find (\<lambda>i. ms_tag (original ! i) = tag \<and> \<not> merged ! i) [0..<length original] of
       None \<Rightarrow> (merged, recv)
     | Some i \<Rightarrow> (merged[i := True], fold push_new (ms_receivers (original ! i)) recv))"

definition apply_cast ::
  "mc_send list \<Rightarrow> super_cast \<Rightarrow> bool list \<times> mc_send list \<Rightarrow> bool list \<times> mc_send list" where
  "apply_cast original sc = (\<lambda>(merged, result).
     let (merged', recv) = fold (take_tag original) (sc_tags sc) (merged, [])
     in (merged', result @ [\<lparr>ms_tag = sc_tags sc ! 0, ms_sender = sc_sender sc, ms_num_mcids = length (sc_mcids sc),
                             ms_payload = sc_payload sc, ms_mcids = sc_mcids sc, ms_receivers = recv\<rparr>]))"

text \<open>A supercast without tags is an access out of bounds; \<open>None\<close> stands for it.\<close>

definition apply_results :: "mc_send list \<Rightarrow> super_cast list \<Rightarrow> mc_send list option" where
  "apply_results original scs =
     (if list_ex (\<lambda>sc. sc_tags sc = []) scs then None
      else let (merged, result) = fold (apply_cast original) scs (replicate (length original) False, [])
           in Some (result @ map ((!) original) (filter (\<lambda>i. \<not> merged ! i) [0..<length original])))"

definition optimize ::
  "nat \<Rightarrow> mc_send list \<Rightarrow> nat \<Rightarrow> mcast_optimizer \<Rightarrow> (mc_send list \<times> mcast_optimizer) option" where
  "optimize tag0 sends graph_multicast_count st =
     (let (input, st1) = build_lp_input tag0 sends graph_multicast_count (st\<lparr>mo_last_original := length sends\<rparr>);
          st2 = st1\<lparr>mo_last_supercasts := length (li_supercasts input)\<rparr>
      in map_option (\<lambda>result. (result, st2\<lparr>mo_last_result := length result\<rparr>))
           (if solve_ilp input then apply_results sends (li_supercasts input) else Some sends))"

section \<open>Merging as a partition\<close>

text \<open>
  What the optimizer does, in terms of lists of indices: \<open>mergeable\<close> is the set of lists that the greedy
  loop can merge, \<open>cast_of\<close> and \<open>merged_send\<close> the supercast and the send that come out of one.
\<close>

definition mcids_of :: "mc_send list \<Rightarrow> nat list \<Rightarrow> nat list" where
  "mcids_of sends is = fold push_new (concat (map (\<lambda>k. ms_mcids (sends ! k)) (tl is))) (ms_mcids (sends ! hd is))"

definition receivers_of :: "mc_send list \<Rightarrow> nat list \<Rightarrow> nat list" where
  "receivers_of sends is = fold push_new (concat (map (\<lambda>k. ms_receivers (sends ! k)) is)) []"

definition payload_of :: "mc_send list \<Rightarrow> nat list \<Rightarrow> bytes" where
  "payload_of sends is = sum_list (map (\<lambda>k. ms_payload (sends ! k)) is)"

definition cast_of :: "mc_send list \<Rightarrow> nat list \<Rightarrow> super_cast" where
  "cast_of sends is = \<lparr>sc_tags = map (\<lambda>k. ms_tag (sends ! k)) is, sc_mcids = mcids_of sends is,
     sc_sender = ms_sender (sends ! hd is), sc_payload = payload_of sends is\<rparr>"

definition merged_send :: "mc_send list \<Rightarrow> nat list \<Rightarrow> mc_send" where
  "merged_send sends is =
     (if length is = 1 then sends ! hd is
      else \<lparr>ms_tag = ms_tag (sends ! hd is), ms_sender = ms_sender (sends ! hd is),
             ms_num_mcids = length (mcids_of sends is), ms_payload = payload_of sends is,
             ms_mcids = mcids_of sends is, ms_receivers = receivers_of sends is\<rparr>)"

inductive mergeable :: "bytes \<Rightarrow> mc_send list \<Rightarrow> nat list \<Rightarrow> bool" for max_buffer sends where
  one: "i < length sends \<Longrightarrow> mergeable max_buffer sends [i]"
| more: "mergeable max_buffer sends is \<Longrightarrow> j < length sends \<Longrightarrow> j \<notin> set is \<Longrightarrow>
     set (ms_mcids (sends ! j)) \<inter> set (mcids_of sends is) \<noteq> {} \<Longrightarrow>
     can_merge max_buffer (sends ! hd is) (sends ! j) (payload_of sends is + ms_payload (sends ! j)) \<Longrightarrow>
     mergeable max_buffer sends (is @ [j])"

lemma set_mcids_of:
  "is \<noteq> [] \<Longrightarrow> set (mcids_of sends is) = (\<Union>k \<in> set is. set (ms_mcids (sends ! k)))"
  by (cases "is") (auto simp: mcids_of_def)

lemma set_receivers_of: "set (receivers_of sends is) = (\<Union>k \<in> set is. set (ms_receivers (sends ! k)))"
  by (auto simp: receivers_of_def)

lemma cast_of_snoc:
  assumes "is \<noteq> []"
  shows "cast_of sends (is @ [j]) =
    (cast_of sends is)\<lparr>sc_tags := sc_tags (cast_of sends is) @ [ms_tag (sends ! j)],
       sc_payload := sc_payload (cast_of sends is) + ms_payload (sends ! j),
       sc_mcids := fold push_new (ms_mcids (sends ! j)) (sc_mcids (cast_of sends is))\<rparr>"
  using assms by (simp add: cast_of_def mcids_of_def payload_of_def)

lemma mergeable_shape:
  assumes "mergeable mb sends is"
  shows "is \<noteq> []" "distinct is" "set is \<subseteq> {..<length sends}"
  using assms by (induction rule: mergeable.induct) auto

lemma can_mergeD:
  assumes "can_merge mb a b p"
  shows "ms_sender a = ms_sender b" "0 < mb \<Longrightarrow> p \<le> mb" "\<not> receivers_conflict (ms_receivers a) (ms_receivers b)"
  using assms by (auto simp: can_merge_def split: if_splits)

lemma mergeable_sender:
  assumes "mergeable mb sends is"
  shows "\<forall>k \<in> set is. ms_sender (sends ! k) = ms_sender (sends ! hd is)"
  using assms
proof (induction rule: mergeable.induct)
  case (more "is" j)
  then show ?case using mergeable_shape(1) [OF more(1)] can_mergeD(1) [OF more(5)] by auto
qed simp

lemma mergeable_payload:
  assumes "mergeable mb sends is" "0 < mb" "\<forall>s \<in> set sends. ms_payload s \<le> mb"
  shows "payload_of sends is \<le> mb"
  using assms(1)
proof (cases rule: mergeable.cases)
  case (one i)
  then show ?thesis using assms(3) by (simp add: payload_of_def)
next
  case (more js j)
  then show ?thesis using can_mergeD(2) [OF more(6) assms(2)] by (simp add: payload_of_def)
qed

lemma mcids_overlap_iff: "mcids_overlap xs ys \<longleftrightarrow> set ys \<inter> set xs \<noteq> {}"
  by (auto simp: mcids_overlap_def list_ex_iff)

subsection \<open>The greedy loop\<close>

text \<open>State of the inner loop before index \<open>j\<close>: the supercast of the list \<open>is\<close> that began with \<open>i\<close>.\<close>

definition casting ::
  "bytes \<Rightarrow> mc_send list \<Rightarrow> bool list \<Rightarrow> nat \<Rightarrow> nat \<Rightarrow> bool list \<times> super_cast \<Rightarrow> nat list \<Rightarrow> bool" where
  "casting mb sends merged0 i j st is \<longleftrightarrow>
     mergeable mb sends is \<and> hd is = i \<and> set (tl is) \<subseteq> {i<..<j} \<and> snd st = cast_of sends is \<and>
     length (fst st) = length merged0 \<and> (\<forall>k \<in> set (tl is). \<not> merged0 ! k) \<and>
     (\<forall>k < length merged0. fst st ! k \<longleftrightarrow> merged0 ! k \<or> k \<in> set (tl is))"

lemma absorb_send_casting:
  assumes inv: "casting mb sends merged0 i j st is" and "i < j" "j < length sends" "length merged0 = length sends"
  shows "\<exists>is'. casting mb sends merged0 i (Suc j) (absorb_send mb sends i j st) is'"
proof -
  obtain merged sc where st: "st = (merged, sc)" by fastforce
  let ?np = "payload_of sends is + ms_payload (sends ! j)"
  have keep: "casting mb sends merged0 i (Suc j) st is" using inv by (auto simp: casting_def)
  have sc: "sc = cast_of sends is" "mergeable mb sends is" "hd is = i" "length merged = length merged0"
    using inv st by (auto simp: casting_def)
  note ne = mergeable_shape(1) [OF sc(2)]
  have set_is: "set is \<subseteq> insert i (set (tl is))" using sc(3) by (cases "is") auto
  show ?thesis
  proof (cases "merged ! j \<or> \<not> mcids_overlap (sc_mcids sc) (ms_mcids (sends ! j)) \<or> \<not> can_merge mb (sends ! i) (sends ! j) ?np")
    case True
    then have "absorb_send mb sends i j st = st"
      by (auto simp: absorb_send_def st sc(1) cast_of_def Let_def)
    with keep show ?thesis by auto
  next
    case False
    have m: "mergeable mb sends (is @ [j])"
    proof (rule mergeable.more [OF sc(2) assms(3)])
      show "j \<notin> set is" using inv set_is assms(2) by (auto simp: casting_def)
    qed (use False sc in \<open>auto simp: mcids_overlap_iff cast_of_def\<close>)
    have step: "absorb_send mb sends i j st = (merged[j := True], cast_of sends (is @ [j]))"
      using False unfolding cast_of_snoc [OF ne] by (simp add: absorb_send_def st sc(1) cast_of_def Let_def)
    have "\<not> merged0 ! j" using inv False assms(3,4) by (auto simp: casting_def st)
    then have "casting mb sends merged0 i (Suc j) (absorb_send mb sends i j st) (is @ [j])"
      using inv assms(2-4) ne unfolding step by (auto simp: casting_def st m nth_list_update)
    then show ?thesis by blast
  qed
qed

lemma grow_cast_casting:
  assumes "i < length sends" "length merged0 = length sends" "m \<le> length sends" "i < m"
  shows "\<exists>is. casting mb sends merged0 i m (fold (absorb_send mb sends i) [Suc i..<m] (merged0, start_cast (sends ! i))) is"
  using assms(3,4)
proof (induction m)
  case (Suc m)
  show ?case
  proof (cases "i < m")
    case True
    with Suc obtain "is" where
      "casting mb sends merged0 i m (fold (absorb_send mb sends i) [Suc i..<m] (merged0, start_cast (sends ! i))) is" by auto
    from absorb_send_casting [OF this True _ assms(2)] Suc.prems True show ?thesis by simp
  next
    case False
    with Suc.prems have "m = i" by simp
    moreover have "casting mb sends merged0 i (Suc i) (merged0, start_cast (sends ! i)) [i]"
      using assms(1) by (simp add: casting_def mergeable.one cast_of_def start_cast_def mcids_of_def payload_of_def)
    ultimately show ?thesis by auto
  qed
qed simp

text \<open>State of the outer loop before index \<open>i\<close>, with the lists merged so far.\<close>

definition cast_inv :: "bytes \<Rightarrow> mc_send list \<Rightarrow> nat \<Rightarrow> bool list \<Rightarrow> nat list list \<Rightarrow> bool" where
  "cast_inv mb sends i merged gs \<longleftrightarrow>
     length merged = length sends \<and> distinct (concat gs) \<and>
     (\<forall>is \<in> set gs. mergeable mb sends is \<and> 2 \<le> length is \<and> hd is < i) \<and>
     (\<forall>k < length sends. merged ! k \<longleftrightarrow> k \<in> (\<Union>is \<in> set gs. set (tl is)))"

lemma set_hd_tl: "is \<noteq> [] \<Longrightarrow> set is = insert (hd is) (set (tl is))"
  by (cases "is") auto

lemma cast_from_inv:
  assumes inv: "cast_inv mb sends i merged gs" and i: "i < length sends"
  shows "\<exists>merged' gs'. cast_from mb sends i (merged, map (cast_of sends) gs) = (merged', map (cast_of sends) gs') \<and>
    cast_inv mb sends (Suc i) merged' gs'"
proof (cases "merged ! i")
  case True
  have "cast_inv mb sends (Suc i) merged gs" using inv by (auto simp: cast_inv_def less_Suc_eq)
  with True show ?thesis by (auto simp: cast_from_def)
next
  case False
  have len: "length merged = length sends" using inv by (simp add: cast_inv_def)
  obtain merged' sc where g: "grow_cast mb sends i merged = (merged', sc)" by fastforce
  obtain "is" where c: "casting mb sends merged i (length sends) (merged', sc) is"
    using grow_cast_casting [OF i len order_refl i, of mb] g by (auto simp: grow_cast_def)
  then have is': "mergeable mb sends is" "hd is = i" "sc = cast_of sends is" "set (tl is) \<subseteq> {i<..}"
    "length merged' = length merged" "\<forall>k \<in> set (tl is). \<not> merged ! k"
    "\<forall>k < length sends. merged' ! k \<longleftrightarrow> merged ! k \<or> k \<in> set (tl is)"
    by (auto simp: casting_def len)
  note sh = mergeable_shape [OF is'(1)]
  have sub: "set (tl is) \<subseteq> {..<length sends}" using sh set_hd_tl by blast
  show ?thesis
  proof (cases "2 \<le> length is")
    case small: False
    have tl: "tl is = []" using small by (cases "is" rule: remdups_adj.cases) auto
    have "cast_inv mb sends (Suc i) merged' gs"
      using inv is'(5,7) by (auto simp: cast_inv_def less_Suc_eq tl)
    moreover have "\<not> 1 < length (sc_tags sc)" using small by (simp add: is'(3) cast_of_def)
    ultimately show ?thesis using False g by (auto simp: cast_from_def)
  next
    case True
    have fresh: "k \<notin> set (concat gs)" if "k \<in> set is" for k
    proof
      assume "k \<in> set (concat gs)"
      then obtain js where js: "js \<in> set gs" "k \<in> set js" by auto
      have j: "mergeable mb sends js" "hd js < i" using inv js(1) by (auto simp: cast_inv_def)
      have ge: "i \<le> k" "k < length sends" "\<not> merged ! k"
        using that is'(2,4,6) False sh set_hd_tl [OF sh(1)] by auto
      then have "k \<in> set (tl js)" using js(2) j set_hd_tl mergeable_shape(1) [OF j(1)] by fastforce
      with js(1) ge inv show False by (auto simp: cast_inv_def)
    qed
    then have "distinct (concat (gs @ [is]))" using inv sh(2) by (auto simp: cast_inv_def)
    moreover have "\<forall>js \<in> set (gs @ [is]). mergeable mb sends js \<and> 2 \<le> length js \<and> hd js < Suc i"
      using inv is'(1,2) True by (auto simp: cast_inv_def less_Suc_eq)
    ultimately have "cast_inv mb sends (Suc i) merged' (gs @ [is])"
      using inv is'(5,7) by (auto simp: cast_inv_def)
    moreover have "1 < length (sc_tags sc)" using True by (simp add: is'(3) cast_of_def)
    ultimately show ?thesis using False g is'(3) by (auto simp: cast_from_def intro!: exI [of _ "gs @ [is]"])
  qed
qed

lemma supercasts_of_groups:
  obtains gs where "supercasts_of mb sends = map (cast_of sends) gs" "distinct (concat gs)"
    "\<forall>is \<in> set gs. mergeable mb sends is \<and> 2 \<le> length is"
proof -
  have "\<exists>merged gs. fold (cast_from mb sends) [0..<m] (replicate (length sends) False, []) = (merged, map (cast_of sends) gs) \<and>
      cast_inv mb sends m merged gs" if "m \<le> length sends" for m
    using that
  proof (induction m)
    case 0
    show ?case by (auto simp: cast_inv_def intro!: exI [of _ "[]"])
  next
    case (Suc m)
    then obtain merged gs where m: "fold (cast_from mb sends) [0..<m] (replicate (length sends) False, []) = (merged, map (cast_of sends) gs)"
      "cast_inv mb sends m merged gs" by auto
    with cast_from_inv [OF m(2)] Suc.prems show ?case by simp
  qed
  from this [OF order_refl] obtain merged gs where
    "fold (cast_from mb sends) [0..<length sends] (replicate (length sends) False, []) = (merged, map (cast_of sends) gs)"
    "cast_inv mb sends (length sends) merged gs" by blast
  then show ?thesis by (intro that [of gs]) (auto simp: supercasts_of_def cast_inv_def)
qed

subsection \<open>Applying the supercasts\<close>

lemma take_tag_index:
  assumes "distinct (map ms_tag sends)" "k < length sends" "\<not> merged ! k"
  shows "take_tag sends (ms_tag (sends ! k)) (merged, recv) =
    (merged[k := True], fold push_new (ms_receivers (sends ! k)) recv)"
proof -
  have eq: "ms_tag (sends ! i) = ms_tag (sends ! k) \<longleftrightarrow> i = k" if "i < length sends" for i
    using assms(1,2) that by (auto simp: distinct_conv_nth)
  have "find (\<lambda>i. ms_tag (sends ! i) = ms_tag (sends ! k) \<and> \<not> merged ! i) [0..<length sends] = Some k"
    unfolding find_Some_iff using assms(2,3) eq by (auto intro!: exI [of _ k])
  then show ?thesis by (simp add: take_tag_def)
qed

definition mark :: "nat list \<Rightarrow> bool list \<Rightarrow> bool list" where
  "mark is merged = fold (\<lambda>k m. m[k := True]) is merged"

lemma length_mark [simp]: "length (mark is merged) = length merged"
  by (induction "is" arbitrary: merged) (auto simp: mark_def)

lemma mark_append [simp]: "mark (xs @ ys) merged = mark ys (mark xs merged)"
  by (simp add: mark_def)

lemma mark_nth: "k < length merged \<Longrightarrow> mark is merged ! k \<longleftrightarrow> merged ! k \<or> k \<in> set is"
proof (induction "is" arbitrary: merged)
  case (Cons i "is")
  have "mark (i # is) merged ! k = mark is (merged[i := True]) ! k" by (simp add: mark_def)
  also have "\<dots> \<longleftrightarrow> merged[i := True] ! k \<or> k \<in> set is" using Cons by simp
  finally show ?case using Cons.prems by (cases "i = k") auto
qed (simp add: mark_def)

lemma take_tags:
  assumes "distinct (map ms_tag sends)"
  shows "set is \<subseteq> {..<length sends} \<Longrightarrow> distinct is \<Longrightarrow> \<forall>k \<in> set is. \<not> merged ! k \<Longrightarrow> length merged = length sends \<Longrightarrow>
    fold (take_tag sends) (map (\<lambda>k. ms_tag (sends ! k)) is) (merged, recv) =
      (mark is merged, fold push_new (concat (map (\<lambda>k. ms_receivers (sends ! k)) is)) recv)"
proof (induction "is" arbitrary: merged recv)
  case (Cons k "is")
  have "\<forall>l \<in> set is. \<not> merged[k := True] ! l" using Cons.prems by (auto simp: nth_list_update)
  with Cons show ?case by (auto simp: take_tag_index [OF assms] mark_def)
qed (simp add: mark_def)

lemma apply_cast_of:
  assumes "distinct (map ms_tag sends)" "mergeable mb sends is" "2 \<le> length is" "\<forall>k \<in> set is. \<not> merged ! k"
    "length merged = length sends"
  shows "apply_cast sends (cast_of sends is) (merged, result) = (mark is merged, result @ [merged_send sends is])"
  using take_tags [OF assms(1) mergeable_shape(3,2) [OF assms(2)] assms(4,5), of "[]"] assms(3) mergeable_shape(1) [OF assms(2)]
  by (simp add: apply_cast_def cast_of_def merged_send_def receivers_of_def hd_conv_nth)

lemma apply_casts:
  assumes tags: "distinct (map ms_tag sends)"
  shows "\<forall>is \<in> set gs. mergeable mb sends is \<and> 2 \<le> length is \<Longrightarrow> distinct (concat gs) \<Longrightarrow>
    \<forall>k \<in> set (concat gs). \<not> merged ! k \<Longrightarrow> length merged = length sends \<Longrightarrow>
    fold (apply_cast sends) (map (cast_of sends) gs) (merged, result) =
      (mark (concat gs) merged, result @ map (merged_send sends) gs)"
proof (induction gs arbitrary: merged result)
  case (Cons "is" gs)
  have step: "apply_cast sends (cast_of sends is) (merged, result) = (mark is merged, result @ [merged_send sends is])"
    using Cons.prems by (intro apply_cast_of [OF tags, of mb]) auto
  have "\<forall>k \<in> set (concat gs). \<not> mark is merged ! k"
  proof
    fix k assume k: "k \<in> set (concat gs)"
    then have "k < length sends" using Cons.prems(1) mergeable_shape(3) by fastforce
    then show "\<not> mark is merged ! k" using Cons.prems k by (auto simp: mark_nth)
  qed
  then have "fold (apply_cast sends) (map (cast_of sends) gs) (mark is merged, result @ [merged_send sends is]) =
      (mark (concat gs) (mark is merged), (result @ [merged_send sends is]) @ map (merged_send sends) gs)"
    using Cons.prems by (intro Cons.IH) auto
  with step show ?case by (simp add: mark_append)
qed (simp add: mark_def)

section \<open>The optimizer\<close>

definition merge_plan :: "bytes \<Rightarrow> mc_send list \<Rightarrow> nat list list \<Rightarrow> bool" where
  "merge_plan mb sends groups \<longleftrightarrow>
     distinct (concat groups) \<and> set (concat groups) = {..<length sends} \<and> (\<forall>is \<in> set groups. mergeable mb sends is)"

lemma merged_send_single [simp]: "merged_send sends [k] = sends ! k"
  by (simp add: merged_send_def)

lemma concat_singles: "concat (map (\<lambda>k. [k]) ks) = ks"
  by (induction ks) auto

lemma apply_results_plan:
  assumes tags: "distinct (map ms_tag sends)"
  shows "\<exists>groups. apply_results sends (supercasts_of mb sends) = Some (map (merged_send sends) groups) \<and>
    merge_plan mb sends groups"
proof -
  obtain gs where gs: "supercasts_of mb sends = map (cast_of sends) gs" "distinct (concat gs)"
      "\<forall>is \<in> set gs. mergeable mb sends is \<and> 2 \<le> length is"
    by (rule supercasts_of_groups)
  let ?n = "length sends"
  let ?rest = "filter (\<lambda>i. \<not> mark (concat gs) (replicate ?n False) ! i) [0..<?n]"
  let ?groups = "gs @ map (\<lambda>k. [k]) ?rest"
  have sub: "set (concat gs) \<subseteq> {..<?n}" using gs(3) mergeable_shape(3) by fastforce
  then have "\<forall>k \<in> set (concat gs). \<not> replicate ?n False ! k" by auto
  from apply_casts [OF tags gs(3,2) this, of "[]"]
  have run: "fold (apply_cast sends) (map (cast_of sends) gs) (replicate ?n False, []) =
      (mark (concat gs) (replicate ?n False), map (merged_send sends) gs)" by simp
  have "\<not> list_ex (\<lambda>sc. sc_tags sc = []) (map (cast_of sends) gs)"
    using gs(3) by (auto simp: list_ex_iff cast_of_def)
  then have "apply_results sends (supercasts_of mb sends) = Some (map (merged_send sends) ?groups)"
    by (simp add: apply_results_def gs(1) run)
  moreover have "set ?rest = {..<?n} - set (concat gs)" by (auto simp: mark_nth)
  then have "merge_plan mb sends ?groups"
    using gs(2,3) sub unfolding merge_plan_def concat_append concat_singles
    by (auto intro: mergeable.one)
  ultimately show ?thesis by blast
qed

lemma merged_send_fields:
  assumes "is \<noteq> []"
  shows "ms_sender (merged_send sends is) = ms_sender (sends ! hd is)"
    "ms_payload (merged_send sends is) = payload_of sends is"
    "set (ms_mcids (merged_send sends is)) = (\<Union>k \<in> set is. set (ms_mcids (sends ! k)))"
    "set (ms_receivers (merged_send sends is)) = (\<Union>k \<in> set is. set (ms_receivers (sends ! k)))"
proof -
  consider k where "is = [k]" | "length is \<noteq> 1" by (cases "is" rule: remdups_adj.cases) auto
  then show "ms_payload (merged_send sends is) = payload_of sends is"
    "set (ms_mcids (merged_send sends is)) = (\<Union>k \<in> set is. set (ms_mcids (sends ! k)))"
    "set (ms_receivers (merged_send sends is)) = (\<Union>k \<in> set is. set (ms_receivers (sends ! k)))"
    by (cases; simp add: payload_of_def merged_send_def set_mcids_of [OF assms] set_receivers_of)+
qed (simp add: merged_send_def)

lemma sum_payload_concat: "sum_list (map (payload_of sends) groups) = payload_of sends (concat groups)"
  by (induction groups) (auto simp: payload_of_def)

lemma payload_of_all:
  assumes "distinct is" "set is = {..<length sends}"
  shows "payload_of sends is = sum_list (map ms_payload sends)"
proof -
  have "mset is = mset [0..<length sends]"
    using assms by (subst set_eq_iff_mset_eq_distinct [symmetric]) (simp_all add: lessThan_atLeast0)
  then have "mset (map (\<lambda>k. ms_payload (sends ! k)) is) = mset (map (\<lambda>k. ms_payload (sends ! k)) [0..<length sends])" by simp
  then have "payload_of sends is = sum_list (map (\<lambda>k. ms_payload (sends ! k)) [0..<length sends])"
    unfolding payload_of_def by (metis sum_mset_sum_list)
  also have "map (\<lambda>k. ms_payload (sends ! k)) [0..<length sends] = map ms_payload sends"
    by (rule nth_equalityI) simp_all
  finally show ?thesis .
qed

lemma length_le_concat: "\<forall>xs \<in> set xss. xs \<noteq> [] \<Longrightarrow> length xss \<le> length (concat xss)"
proof (induction xss)
  case (Cons xs xss)
  then have "0 < length xs" "length xss \<le> length (concat xss)" by auto
  then show ?case unfolding concat.simps length_append list.size by linarith
qed simp

lemma optimize_plan:
  assumes "distinct (map ms_tag sends)"
  obtains groups st' where "optimize tag0 sends mcount st = Some (map (merged_send sends) groups, st')"
    "merge_plan (mo_max_buffer st) sends groups" "mo_last_result st' = length groups" "mo_last_original st' = length sends"
proof -
  obtain groups where "apply_results sends (supercasts_of (mo_max_buffer st) sends) = Some (map (merged_send sends) groups)"
      "merge_plan (mo_max_buffer st) sends groups"
    using apply_results_plan [OF assms] by blast
  then show ?thesis by (intro that) (auto simp: optimize_def build_lp_input_def Let_def solve_ilp_def)
qed

lemma merge_planD:
  assumes "merge_plan mb sends groups" "is \<in> set groups"
  shows "mergeable mb sends is" "is \<noteq> []"
  using assms mergeable_shape(1) [of mb sends "is"] by (auto simp: merge_plan_def)

lemma plan_covers_send:
  assumes plan: "merge_plan mb sends groups" and s: "s \<in> set sends"
  shows "\<exists>r \<in> set (map (merged_send sends) groups). ms_sender r = ms_sender s \<and>
    set (ms_mcids s) \<subseteq> set (ms_mcids r) \<and> set (ms_receivers s) \<subseteq> set (ms_receivers r)"
proof -
  obtain k where k: "k < length sends" "s = sends ! k" using s by (auto simp: in_set_conv_nth)
  have "k \<in> set (concat groups)" using plan k(1) by (simp add: merge_plan_def)
  then obtain "is" where i: "is \<in> set groups" "k \<in> set is" by auto
  note m = merge_planD [OF plan i(1)]
  have "ms_sender (merged_send sends is) = ms_sender s \<and> set (ms_mcids s) \<subseteq> set (ms_mcids (merged_send sends is)) \<and>
      set (ms_receivers s) \<subseteq> set (ms_receivers (merged_send sends is))"
    using mergeable_sender [OF m(1)] i(2) by (auto simp: merged_send_fields [OF m(2)] k(2))
  with i(1) show ?thesis by auto
qed

lemma plan_adds_no_receiver:
  assumes plan: "merge_plan mb sends groups" and r: "r \<in> set (map (merged_send sends) groups)" "x \<in> set (ms_receivers r)"
  shows "\<exists>s \<in> set sends. ms_sender s = ms_sender r \<and> x \<in> set (ms_receivers s)"
proof -
  obtain "is" where i: "is \<in> set groups" "r = merged_send sends is" using r(1) by auto
  note m = merge_planD [OF plan i(1)]
  obtain k where k: "k \<in> set is" "x \<in> set (ms_receivers (sends ! k))"
    using r(2) unfolding i(2) merged_send_fields(4) [OF m(2)] by blast
  have "k < length sends" using mergeable_shape(3) [OF m(1)] k(1) by auto
  moreover have "ms_sender (sends ! k) = ms_sender r"
    using mergeable_sender [OF m(1)] k(1) unfolding i(2) merged_send_fields(1) [OF m(2)] by blast
  ultimately show ?thesis using k(2) nth_mem by blast
qed

lemma plan_payload:
  assumes plan: "merge_plan mb sends groups"
  shows "sum_list (map ms_payload (map (merged_send sends) groups)) = sum_list (map ms_payload sends)"
proof -
  have "map ms_payload (map (merged_send sends) groups) = map (payload_of sends) groups"
    using merge_planD(2) [OF plan] by (simp add: merged_send_fields)
  then show ?thesis
    using plan payload_of_all [of "concat groups" sends] by (simp only: sum_payload_concat merge_plan_def)
qed

lemma plan_capacity:
  assumes plan: "merge_plan mb sends groups" and "0 < mb" "\<forall>s \<in> set sends. ms_payload s \<le> mb"
  shows "\<forall>r \<in> set (map (merged_send sends) groups). ms_payload r \<le> mb"
  using mergeable_payload [OF merge_planD(1) [OF plan] assms(2,3)] merge_planD(2) [OF plan]
  by (auto simp: merged_send_fields(2))

lemma plan_length:
  assumes "merge_plan mb sends groups"
  shows "length groups \<le> length sends"
proof -
  have "length groups \<le> length (concat groups)" using merge_planD(2) [OF assms] by (intro length_le_concat) blast
  also have "\<dots> = length sends" using assms distinct_card [of "concat groups"] by (simp add: merge_plan_def)
  finally show ?thesis .
qed

text \<open>
  C33: merging keeps every delivery. For sends with distinct tags the optimizer returns; each original send
  is contained in a send of the result, of the same sender, with all its channels and receivers; no
  receiver is added to a sender; the bytes sent are the same in total; no result exceeds the buffer when
  no original does; and there are no more sends than before.
\<close>

theorem optimize_delivers:
  assumes "distinct (map ms_tag sends)"
  shows "\<exists>out st'. optimize tag0 sends mcount st = Some (out, st') \<and>
    (\<forall>s \<in> set sends. \<exists>r \<in> set out. ms_sender r = ms_sender s \<and>
       set (ms_mcids s) \<subseteq> set (ms_mcids r) \<and> set (ms_receivers s) \<subseteq> set (ms_receivers r)) \<and>
    (\<forall>r \<in> set out. \<forall>x \<in> set (ms_receivers r). \<exists>s \<in> set sends. ms_sender s = ms_sender r \<and> x \<in> set (ms_receivers s)) \<and>
    sum_list (map ms_payload out) = sum_list (map ms_payload sends) \<and>
    (0 < mo_max_buffer st \<and> (\<forall>s \<in> set sends. ms_payload s \<le> mo_max_buffer st) \<longrightarrow>
       (\<forall>r \<in> set out. ms_payload r \<le> mo_max_buffer st)) \<and>
    mo_last_result st' = length out \<and> length out \<le> length sends"
proof -
  obtain groups st' where o: "optimize tag0 sends mcount st = Some (map (merged_send sends) groups, st')"
    and plan: "merge_plan (mo_max_buffer st) sends groups" and n: "mo_last_result st' = length groups"
    by (rule optimize_plan [OF assms])
  show ?thesis
  proof (intro exI conjI ballI impI)
    show "optimize tag0 sends mcount st = Some (map (merged_send sends) groups, st')" by (rule o)
  qed (use n plan_covers_send [OF plan] plan_adds_no_receiver [OF plan] plan_payload [OF plan] plan_length [OF plan]
      plan_capacity [OF plan] in \<open>simp; fail | blast\<close>)+
qed

definition mcast_demo :: "nat \<Rightarrow> nat list \<Rightarrow> nat list \<Rightarrow> mc_send" where
  "mcast_demo tag mcids recv = \<lparr>ms_tag = tag, ms_sender = 0, ms_num_mcids = 1, ms_payload = 10, ms_mcids = mcids, ms_receivers = recv\<rparr>"

theorem optimize_delivers_witness:
  "\<exists>out st'. optimize 0 [mcast_demo 1 [7] [1, 2, 3], mcast_demo 2 [7, 8] [1, 2], mcast_demo 3 [9] [4]] 0 mcast_init = Some (out, st') \<and>
     sum_list (map ms_payload out) = 30"
proof -
  have "distinct (map ms_tag [mcast_demo 1 [7] [1, 2, 3], mcast_demo 2 [7, 8] [1, 2], mcast_demo 3 [9] [4]])"
    by (simp add: mcast_demo_def)
  from optimize_delivers [OF this, of 0 0 mcast_init] show ?thesis by (auto simp: mcast_demo_def)
qed

text \<open>
  The receivers of a candidate are compared with those of the first send only, and not with the sends
  merged already. Here the second and the third send share one of their two receivers each, which the
  check is meant to exclude, and all three become one send.
\<close>

lemma merged_receivers_conflict:
  "receivers_conflict [1, 2] [2, 3]"
  "map_option (map ms_receivers \<circ> fst)
     (optimize 0 [mcast_demo 1 [7] [1, 2, 3], mcast_demo 2 [7] [1, 2], mcast_demo 3 [7] [2, 3]] 0 mcast_init) = Some [[1, 2, 3]]"
  by code_simp+

text \<open>The check counts repeated receivers: \<open>[1, 1, 3]\<close> passes as a superset of \<open>{1, 2}\<close>.\<close>

lemma receivers_conflict_duplicates: "\<not> receivers_conflict [1, 2] [1, 1, 3]"
  by code_simp

text \<open>
  Supercasts refer to their sends by tag. When a tag occurs twice, the wrong send can be taken: here the
  first and the third have tag \<open>5\<close>, the second and the third are merged, and the result loses the
  channel of the first send and keeps the third one twice.
\<close>

lemma duplicate_tags_lose_send:
  "map_option (map ms_mcids \<circ> fst)
     (optimize 0 [mcast_demo 5 [9] [1], mcast_demo 1 [7] [2], mcast_demo 5 [7] [2]] 0 mcast_init) = Some [[7], [7]]"
  by code_simp

text \<open>Coefficients of an earlier call stay: the second call here has no supercast.\<close>

lemma stale_objective:
  "map_option (mo_objective \<circ> snd) (Option.bind (optimize 0 [mcast_demo 1 [7] [1], mcast_demo 2 [7] [1]] 0 mcast_init)
     (\<lambda>(out, st). optimize 0 [mcast_demo 1 [7] [1], mcast_demo 2 [8] [1]] 0 st)) = Some [- 2, 1, 1, 1]"
  by code_simp

end
