(* ===== verification/TileRules.thy ===== *)
theory TileRules
  imports Prelude
begin

text \<open>
  The tiling rules (\<open>compiler/src/tiling/tiling_rule.cpp\<close>, \<open>compiler/src/tiling/conv_tiling.cpp\<close>): how the
  output of a convolution or a matrix product is cut into tiles that fit the scratchpad, with the slice of
  the input that each tile of a convolution reads.

  Sizes of type \<open>uint32_t\<close> are natural numbers; the additions that can wrap are written out. A loop whose
  counter wraps need not end, so the counters of the loops are a partial function and \<open>None\<close> stands for
  a loop that does not end. The signed 64-bit bounds of the input slice are integers.
\<close>

section \<open>Loops\<close>

definition add32 :: "nat \<Rightarrow> nat \<Rightarrow> nat" where
  "add32 a b = (a + b) mod 2 ^ 32"

text \<open>The values of the counter of \<open>for (x = ...; x < lim; x += step)\<close>.\<close>

partial_function (option) counter :: "nat \<Rightarrow> nat \<Rightarrow> nat \<Rightarrow> nat list option" where
  "counter step lim x =
     (if x < lim then Option.bind (counter step lim (add32 x step)) (\<lambda>xs. Some (x # xs)) else Some [])"

section \<open>Convolution\<close>

record conv_geometry =
  cg_in_h :: nat
  cg_in_w :: nat
  cg_cin :: nat
  cg_out_h :: nat
  cg_out_w :: nat
  cg_cout :: nat
  cg_kh :: nat
  cg_kw :: nat
  cg_sh :: nat
  cg_sw :: nat
  cg_ph :: nat
  cg_pw :: nat

record conv_tile_desc =
  ct_out_y0 :: nat
  ct_out_x0 :: nat
  ct_out_h :: nat
  ct_out_w :: nat
  ct_in_y0 :: nat
  ct_in_x0 :: nat
  ct_in_h :: nat
  ct_in_w :: nat
  ct_kh :: nat
  ct_kw :: nat
  ct_sh :: nat
  ct_sw :: nat
  ct_ph_begin :: nat
  ct_pw_begin :: nat
  ct_ci :: nat
  ct_co :: nat
  ct_co0 :: nat
  ct_co_n :: nat
  ct_block_ref :: nat

text \<open>The slice of the input along one axis: first index and length, after clamping.\<close>

definition halo :: "nat \<Rightarrow> nat \<Rightarrow> nat \<Rightarrow> nat \<Rightarrow> nat \<Rightarrow> nat \<Rightarrow> nat \<times> nat" where
  "halo stride pad ksize in_size p0 n =
     (let r0 = int p0 * int stride - int pad;
          r1 = r0 + int (n - 1) * int stride + int ksize;
          r0' = max r0 0;
          r1' = min r1 (int in_size)
      in (nat r0' mod 2 ^ 32, nat (max (r1' - r0') 0) mod 2 ^ 32))"

definition conv_tile :: "conv_geometry \<Rightarrow> nat \<Rightarrow> nat \<Rightarrow> nat \<Rightarrow> nat \<Rightarrow> nat \<Rightarrow> nat \<Rightarrow> conv_tile_desc" where
  "conv_tile g th tw co_s co0 y0 x0 =
     (let co_n = min co_s (cg_cout g - co0);
          oh = min th (cg_out_h g - y0);
          ow = min tw (cg_out_w g - x0);
          (iy, ih) = halo (cg_sh g) (cg_ph g) (cg_kh g) (cg_in_h g) y0 oh;
          (ix, iw) = halo (cg_sw g) (cg_pw g) (cg_kw g) (cg_in_w g) x0 ow
      in \<lparr>ct_out_y0 = y0, ct_out_x0 = x0, ct_out_h = oh, ct_out_w = ow,
          ct_in_y0 = iy, ct_in_x0 = ix, ct_in_h = ih, ct_in_w = iw,
          ct_kh = cg_kh g, ct_kw = cg_kw g, ct_sh = cg_sh g, ct_sw = cg_sw g,
          ct_ph_begin = cg_ph g, ct_pw_begin = cg_pw g, ct_ci = cg_cin g, ct_co = cg_cout g,
          ct_co0 = co0, ct_co_n = co_n, ct_block_ref = 0\<rparr>)"

definition nonzero_or :: "nat \<Rightarrow> nat \<Rightarrow> nat" where
  "nonzero_or d x = (if 0 < x then x else d)"

definition with_strides :: "conv_geometry \<Rightarrow> conv_geometry" where
  "with_strides g = g\<lparr>cg_sh := nonzero_or 1 (cg_sh g), cg_sw := nonzero_or 1 (cg_sw g)\<rparr>"

definition co_step :: "nat \<Rightarrow> nat \<Rightarrow> nat" where
  "co_step co_per_tile cout = (if 0 < co_per_tile \<and> co_per_tile < cout then co_per_tile else cout)"

definition compute_conv_tiles :: "conv_geometry \<Rightarrow> nat \<Rightarrow> nat \<Rightarrow> nat \<Rightarrow> conv_tile_desc list option" where
  "compute_conv_tiles g0 tile_h tile_w co_per_tile =
     (if cg_out_h g0 = 0 \<or> cg_out_w g0 = 0 then Some []
      else let th = nonzero_or (cg_out_h g0) tile_h;
               tw = nonzero_or (cg_out_w g0) tile_w;
               g = with_strides g0;
               co_s = co_step co_per_tile (cg_cout g)
           in Option.bind (counter co_s (cg_cout g) 0) (\<lambda>cs.
                if cs = [] then Some []
                else Option.bind (counter th (cg_out_h g) 0) (\<lambda>ys.
                       Option.bind (counter tw (cg_out_w g) 0) (\<lambda>xs.
                         Some (concat (map (\<lambda>co0. concat (map (\<lambda>y0. map (conv_tile g th tw co_s co0 y0) xs) ys)) cs))))))"

section \<open>Rules\<close>

record tile_budget =
  tb_vtcm_tile_size :: bytes
  tb_align :: nat

record op_shape =
  os_M :: nat
  os_N :: nat
  os_K :: nat
  os_weight_bits :: nat
  os_conv :: conv_geometry

record output_tile =
  ot_m0 :: nat
  ot_m1 :: nat
  ot_n0 :: nat
  ot_n1 :: nat
  ot_c0 :: nat
  ot_c1 :: nat
  ot_working_set :: bytes

record tiling_plan =
  tp_op :: string
  tp_tiled :: bool
  tp_tiles :: "output_tile list"
  tp_max_working_set :: bytes
  tp_fits_budget :: bool

definition empty_plan :: "string \<Rightarrow> tiling_plan" where
  "empty_plan nm = \<lparr>tp_op = nm, tp_tiled = False, tp_tiles = [], tp_max_working_set = 0, tp_fits_budget = False\<rparr>"

definition finish_plan :: "string \<Rightarrow> tile_budget \<Rightarrow> output_tile list \<Rightarrow> tiling_plan" where
  "finish_plan nm b tiles =
     (let maxws = foldl (\<lambda>m t. max m (ot_working_set t)) 0 tiles
      in \<lparr>tp_op = nm, tp_tiled = (1 < length tiles), tp_tiles = tiles, tp_max_working_set = maxws,
          tp_fits_budget = (tb_vtcm_tile_size b = 0 \<or> maxws \<le> tb_vtcm_tile_size b)\<rparr>)"

definition matmul_ws :: "nat \<Rightarrow> nat \<Rightarrow> nat \<Rightarrow> nat \<Rightarrow> bytes" where
  "matmul_ws Mt Nt K wbits =
     (Mt * K * 2 mod 2 ^ 64 + (Nt * K * wbits mod 2 ^ 64) div 8 + Mt * Nt * 2 mod 2 ^ 64) mod 2 ^ 64"

definition down :: "nat \<Rightarrow> nat \<Rightarrow> nat" where
  "down align v = (if align < v then v - align else align)"

text \<open>\<open>while (v > align && over(v)) v = down(v)\<close>\<close>

function shrink :: "nat \<Rightarrow> (nat \<Rightarrow> bool) \<Rightarrow> nat \<Rightarrow> nat" where
  "shrink align over v = (if 0 < align \<and> align < v \<and> over v then shrink align over (down align v) else v)"
  by pat_completeness auto
termination
  by (relation "measure (\<lambda>(align, over, v). v)") (auto simp: down_def)

declare shrink.simps [simp del]

definition matmul_tile_sizes :: "op_shape \<Rightarrow> tile_budget \<Rightarrow> nat \<times> nat" where
  "matmul_tile_sizes s b =
     (let align = (if 0 < tb_align b then tb_align b else 32);
          ws = (\<lambda>mt nt. matmul_ws mt nt (os_K s) (os_weight_bits s))
      in if 0 < tb_vtcm_tile_size b
         then let nt = shrink align (\<lambda>nt. tb_vtcm_tile_size b < ws (os_M s) nt) (os_N s);
                  mt = shrink align (\<lambda>mt. tb_vtcm_tile_size b < ws mt nt) (os_M s)
              in (mt, nt)
         else (os_M s, os_N s))"

definition matmul_tile :: "op_shape \<Rightarrow> nat \<Rightarrow> nat \<Rightarrow> nat \<Rightarrow> nat \<Rightarrow> output_tile" where
  "matmul_tile s mt nt m0 n0 =
     (let m1 = min (os_M s) (add32 m0 mt); n1 = min (os_N s) (add32 n0 nt)
      in \<lparr>ot_m0 = m0, ot_m1 = m1, ot_n0 = n0, ot_n1 = n1, ot_c0 = 0, ot_c1 = 0,
          ot_working_set = matmul_ws (m1 - m0) (n1 - n0) (os_K s) (os_weight_bits s)\<rparr>)"

definition matmul_tile_shape :: "op_shape \<Rightarrow> tile_budget \<Rightarrow> tiling_plan option" where
  "matmul_tile_shape s b =
     (if os_M s = 0 \<or> os_N s = 0 \<or> os_K s = 0 then Some (empty_plan ''matmul'')
      else let (mt, nt) = matmul_tile_sizes s b
           in Option.bind (counter mt (os_M s) 0) (\<lambda>ms.
                Option.bind (counter nt (os_N s) 0) (\<lambda>ns.
                  Some (finish_plan ''matmul'' b (concat (map (\<lambda>m0. map (matmul_tile s mt nt m0) ns) ms))))))"

definition conv_tile_height :: "conv_geometry \<Rightarrow> tile_budget \<Rightarrow> nat" where
  "conv_tile_height g b =
     (let per_pix = cg_kh g * cg_kw g * cg_cin g * 2 mod 2 ^ 64;
          max_pix = tb_vtcm_tile_size b div 8 div per_pix;
          th = max 1 (max_pix div cg_out_w g) mod 2 ^ 32
      in if 0 < tb_vtcm_tile_size b \<and> 0 < per_pix \<and> 0 < max_pix \<and> max_pix < cg_out_h g * cg_out_w g \<and> th < cg_out_h g
         then th else cg_out_h g)"

definition conv_output_tile :: "conv_tile_desc \<Rightarrow> output_tile" where
  "conv_output_tile t =
     (let inb = ct_in_h t * ct_in_w t * ct_ci t * 2 mod 2 ^ 64;
          wb = ct_kh t * ct_kw t * ct_ci t * ct_co_n t * 2 mod 2 ^ 64;
          outb = ct_out_h t * ct_out_w t * ct_co_n t * 2 mod 2 ^ 64
      in \<lparr>ot_m0 = ct_out_y0 t, ot_m1 = add32 (ct_out_y0 t) (ct_out_h t),
          ot_n0 = ct_out_x0 t, ot_n1 = add32 (ct_out_x0 t) (ct_out_w t),
          ot_c0 = ct_co0 t, ot_c1 = add32 (ct_co0 t) (ct_co_n t),
          ot_working_set = (inb + wb + outb) mod 2 ^ 64\<rparr>)"

definition conv_tile_shape :: "op_shape \<Rightarrow> tile_budget \<Rightarrow> tiling_plan option" where
  "conv_tile_shape s b =
     (let g = os_conv s
      in if cg_out_h g = 0 \<or> cg_out_w g = 0 \<or> cg_cout g = 0 then Some (empty_plan ''conv2d'')
         else map_option (\<lambda>ct. finish_plan ''conv2d'' b (map conv_output_tile ct))
                (compute_conv_tiles g (conv_tile_height g b) (cg_out_w g) 0))"

definition identity_tile_plan :: "op_shape \<Rightarrow> tiling_plan" where
  "identity_tile_plan s = empty_plan ''identity''"

section \<open>Registry\<close>

type_synonym shape_fn = "op_shape \<Rightarrow> tile_budget \<Rightarrow> tiling_plan option"

record tiling_registry =
  tr_rules :: "(string \<times> shape_fn) list"
  tr_order :: "string list"

definition register_rule :: "string \<Rightarrow> shape_fn \<Rightarrow> tiling_registry \<Rightarrow> tiling_registry" where
  "register_rule nm fn r =
     r\<lparr>tr_rules := AList.update nm fn (tr_rules r),
        tr_order := (if map_of (tr_rules r) nm = None then tr_order r @ [nm] else tr_order r)\<rparr>"

definition has_rule :: "tiling_registry \<Rightarrow> string \<Rightarrow> bool" where
  "has_rule r nm \<longleftrightarrow> map_of (tr_rules r) nm \<noteq> None"

definition plan_rule :: "tiling_registry \<Rightarrow> string \<Rightarrow> op_shape \<Rightarrow> tile_budget \<Rightarrow> tiling_plan option" where
  "plan_rule r nm s b =
     (case map_of (tr_rules r) nm of None \<Rightarrow> Some (identity_tile_plan s) | Some fn \<Rightarrow> fn s b)"

definition register_builtin_tiling_rules :: "tiling_registry \<Rightarrow> tiling_registry" where
  "register_builtin_tiling_rules r =
     register_rule ''conv2d'' conv_tile_shape (register_rule ''matmul'' matmul_tile_shape r)"

section \<open>Counters and grids\<close>

text \<open>\<open>inside n p0 p\<close>: index \<open>p\<close> lies in the piece of length \<open>n\<close> that begins at \<open>p0\<close>.\<close>

definition inside :: "nat \<Rightarrow> nat \<Rightarrow> nat \<Rightarrow> bool" where
  "inside n p0 p \<longleftrightarrow> p0 \<le> p \<and> p < p0 + n"

lemma counter_run:
  assumes "0 < step" "lim + step \<le> 2 ^ 32"
  shows "\<exists>xs. counter step lim x = Some xs \<and> (\<forall>s \<in> set xs. x \<le> s \<and> s < lim) \<and>
    (\<forall>p. length (filter (\<lambda>s. inside (min step (lim - s)) s p) xs) = (if x \<le> p \<and> p < lim then 1 else 0))"
proof (induction "lim - x" arbitrary: x rule: less_induct)
  case less
  show ?case
  proof (cases "x < lim")
    case False
    then show ?thesis by (subst counter.simps) auto
  next
    case True
    have "add32 x step = x + step" using True assms by (simp add: add32_def)
    moreover obtain xs where xs: "counter step lim (x + step) = Some xs" "\<forall>s \<in> set xs. x + step \<le> s \<and> s < lim"
      "\<forall>p. length (filter (\<lambda>s. inside (min step (lim - s)) s p) xs) = (if x + step \<le> p \<and> p < lim then 1 else 0)"
    proof -
      have "lim - (x + step) < lim - x" using True assms(1) by simp
      from less [OF this] that show thesis by blast
    qed
    ultimately have "counter step lim x = Some (x # xs)" using True by (subst counter.simps) simp
    moreover have "length (filter (\<lambda>s. inside (min step (lim - s)) s p) (x # xs)) = (if x \<le> p \<and> p < lim then 1 else 0)" for p
    proof -
      have "inside (min step (lim - x)) x p \<longleftrightarrow> x \<le> p \<and> p < x + step \<and> p < lim"
        using True by (auto simp: inside_def)
      moreover have "length (filter (\<lambda>s. inside (min step (lim - s)) s p) (x # xs)) =
          (if inside (min step (lim - x)) x p then 1 else 0) + length (filter (\<lambda>s. inside (min step (lim - s)) s p) xs)"
        by (simp del: length_0_conv)
      ultimately show ?thesis by (simp only: xs(3) [rule_format]) auto
    qed
    ultimately show ?thesis using xs(2) True by auto
  qed
qed

lemma counter_cover:
  assumes "0 < step" "lim + step \<le> 2 ^ 32"
  obtains xs where "counter step lim 0 = Some xs" "\<forall>s \<in> set xs. s < lim"
    "\<And>p. length (filter (\<lambda>s. inside (min step (lim - s)) s p) xs) = (if p < lim then 1 else 0)"
  using counter_run [OF assms, of 0] by auto

lemma count_row:
  assumes "\<And>x. x \<in> set xs \<Longrightarrow> P (f x) \<longleftrightarrow> B \<and> C x"
  shows "length (filter P (map f xs)) = (if B then length (filter C xs) else 0)"
proof -
  have "filter (P \<circ> f) xs = (if B then filter C xs else [])"
    using assms by (cases B) (auto simp: filter_empty_conv intro: filter_cong)
  then show ?thesis by (simp add: filter_map)
qed

lemma count_grid:
  assumes "\<And>x y. y \<in> set ys \<Longrightarrow> x \<in> set xs \<Longrightarrow> P (f y x) \<longleftrightarrow> B y \<and> C x"
  shows "length (filter P (concat (map (\<lambda>y. map (f y) xs) ys))) = length (filter B ys) * length (filter C xs)"
  using assms
proof (induction ys)
  case (Cons y ys)
  have "length (filter P (map (f y) xs)) = (if B y then length (filter C xs) else 0)"
    using Cons.prems by (intro count_row) simp
  with Cons show ?case by simp
qed simp

lemma count_cube:
  assumes "\<And>c y x. c \<in> set cs \<Longrightarrow> y \<in> set ys \<Longrightarrow> x \<in> set xs \<Longrightarrow> P (f c y x) \<longleftrightarrow> A c \<and> B y \<and> C x"
  shows "length (filter P (concat (map (\<lambda>c. concat (map (\<lambda>y. map (f c y) xs) ys)) cs))) =
    length (filter A cs) * (length (filter B ys) * length (filter C xs))"
  using assms
proof (induction cs)
  case (Cons c cs)
  have "length (filter P (concat (map (\<lambda>y. map (f c y) xs) ys))) =
      length (filter (\<lambda>y. A c \<and> B y) ys) * length (filter C xs)"
    using Cons.prems by (intro count_grid) simp
  with Cons show ?case by simp
qed simp

section \<open>The input slice\<close>

lemma halo_sound:
  assumes h: "halo stride pad ksize in_size p0 n = (i0, len)" and "in_size < 2 ^ 32" "inside n p0 p" "d < ksize"
    and r: "pad \<le> p * stride + d" "p * stride + d - pad < in_size"
  shows "inside len i0 (p * stride + d - pad)"
proof -
  define r0 where "r0 = int p0 * int stride - int pad"
  define r1 where "r1 = r0 + int (n - 1) * int stride + int ksize"
  let ?r = "int (p * stride + d - pad)"
  have "p0 * stride \<le> p * stride" using assms(3) by (simp add: inside_def)
  then have "int p0 * int stride \<le> int p * int stride" by (simp flip: of_nat_mult)
  then have lo: "r0 \<le> ?r" using r by (simp add: r0_def of_nat_diff)
  have "p * stride \<le> (p0 + (n - 1)) * stride" using assms(3) by (intro mult_right_mono) (auto simp: inside_def)
  then have "int p * int stride \<le> (int p0 + int (n - 1)) * int stride" by (simp flip: of_nat_mult of_nat_add)
  then have hi: "?r < r1" using r assms(4) by (simp add: r1_def r0_def of_nat_diff distrib_right)
  have "0 \<le> ?r" "?r < int in_size" using r(2) by (simp_all only: of_nat_0_le_iff of_nat_less_iff)
  with lo hi have bounds: "max r0 0 \<le> ?r" "?r < min r1 (int in_size)" by (simp_all only: max.bounded_iff min_less_iff_conj)
  then have "nat (max r0 0) < 2 ^ 32" "nat (max (min r1 (int in_size) - max r0 0) 0) < 2 ^ 32" using assms(2) by auto
  then have "i0 = nat (max r0 0)" "len = nat (max (min r1 (int in_size) - max r0 0) 0)"
    using h unfolding halo_def Let_def r0_def [symmetric] r1_def [symmetric] by (simp_all only: prod.inject mod_less)
  moreover have "0 \<le> max r0 0" "max r0 0 \<le> min r1 (int in_size)" using bounds by simp_all
  ultimately have "int i0 = max r0 0" "int len = min r1 (int in_size) - max r0 0" by simp_all
  with bounds have "int i0 \<le> ?r" "?r < int (i0 + len)" by simp_all
  then show ?thesis unfolding inside_def by (simp only: of_nat_le_iff of_nat_less_iff)
qed

lemma halo_within:
  assumes h: "halo stride pad ksize in_size p0 n = (i0, len)" and "in_size < 2 ^ 32" "0 < len"
  shows "i0 + len \<le> in_size"
proof -
  define a where "a = max (int p0 * int stride - int pad) 0"
  define b where "b = min (int p0 * int stride - int pad + int (n - 1) * int stride + int ksize) (int in_size)"
  have e: "i0 = nat a mod 2 ^ 32" "len = nat (max (b - a) 0) mod 2 ^ 32"
    using h by (simp_all add: halo_def Let_def a_def b_def)
  have "a < b" using e(2) assms(3) by (cases "a < b") auto
  moreover have "0 \<le> a" "b \<le> int in_size" by (simp_all add: a_def b_def)
  ultimately have "nat a < 2 ^ 32" "nat (max (b - a) 0) < 2 ^ 32" "nat a + nat (max (b - a) 0) \<le> in_size"
    using assms(2) by auto
  then show ?thesis by (simp add: e)
qed

section \<open>Convolution tiles\<close>

definition tile_has :: "nat \<Rightarrow> nat \<Rightarrow> nat \<Rightarrow> conv_tile_desc \<Rightarrow> bool" where
  "tile_has y x c t \<longleftrightarrow>
     inside (ct_co_n t) (ct_co0 t) c \<and> inside (ct_out_h t) (ct_out_y0 t) y \<and> inside (ct_out_w t) (ct_out_x0 t) x"

text \<open>
  \<open>slice_ok\<close>: the slice of the input holds every element that some output element of the tile reads, and
  lies within the input.
\<close>

definition slice_ok :: "nat \<Rightarrow> nat \<Rightarrow> nat \<Rightarrow> nat \<Rightarrow> nat \<Rightarrow> nat \<Rightarrow> nat \<Rightarrow> nat \<Rightarrow> bool" where
  "slice_ok stride pad ksize in_size p0 n i0 len \<longleftrightarrow>
     (\<forall>p d. inside n p0 p \<and> d < ksize \<and> pad \<le> p * stride + d \<and> p * stride + d - pad < in_size \<longrightarrow>
        inside len i0 (p * stride + d - pad)) \<and>
     (0 < len \<longrightarrow> i0 + len \<le> in_size)"

lemma halo_slice:
  "in_size < 2 ^ 32 \<Longrightarrow> halo stride pad ksize in_size p0 n = (i0, len) \<Longrightarrow> slice_ok stride pad ksize in_size p0 n i0 len"
  unfolding slice_ok_def using halo_sound halo_within by blast

lemma with_strides_fields [simp]:
  "cg_in_h (with_strides g) = cg_in_h g" "cg_in_w (with_strides g) = cg_in_w g" "cg_out_h (with_strides g) = cg_out_h g"
  "cg_out_w (with_strides g) = cg_out_w g" "cg_cout (with_strides g) = cg_cout g" "cg_kh (with_strides g) = cg_kh g"
  "cg_kw (with_strides g) = cg_kw g" "cg_ph (with_strides g) = cg_ph g" "cg_pw (with_strides g) = cg_pw g"
  by (simp_all add: with_strides_def)

lemma conv_tile_fields:
  "ct_out_y0 (conv_tile g th tw co_s c y x) = y" "ct_out_x0 (conv_tile g th tw co_s c y x) = x"
  "ct_co0 (conv_tile g th tw co_s c y x) = c" "ct_out_h (conv_tile g th tw co_s c y x) = min th (cg_out_h g - y)"
  "ct_out_w (conv_tile g th tw co_s c y x) = min tw (cg_out_w g - x)" "ct_co_n (conv_tile g th tw co_s c y x) = min co_s (cg_cout g - c)"
  "ct_sh (conv_tile g th tw co_s c y x) = cg_sh g" "ct_sw (conv_tile g th tw co_s c y x) = cg_sw g"
  by (simp_all add: conv_tile_def Let_def split: prod.splits)

lemma conv_tile_slices:
  assumes "cg_in_h g < 2 ^ 32" "cg_in_w g < 2 ^ 32" and t: "t = conv_tile g th tw co_s c y x"
  shows "slice_ok (ct_sh t) (cg_ph g) (cg_kh g) (cg_in_h g) (ct_out_y0 t) (ct_out_h t) (ct_in_y0 t) (ct_in_h t)"
    "slice_ok (ct_sw t) (cg_pw g) (cg_kw g) (cg_in_w g) (ct_out_x0 t) (ct_out_w t) (ct_in_x0 t) (ct_in_w t)"
proof -
  have "halo (cg_sh g) (cg_ph g) (cg_kh g) (cg_in_h g) y (min th (cg_out_h g - y)) = (ct_in_y0 t, ct_in_h t)"
    "halo (cg_sw g) (cg_pw g) (cg_kw g) (cg_in_w g) x (min tw (cg_out_w g - x)) = (ct_in_x0 t, ct_in_w t)"
    by (simp_all add: t conv_tile_def Let_def split: prod.splits)
  from halo_slice [OF assms(1) this(1)] halo_slice [OF assms(2) this(2)]
  show "slice_ok (ct_sh t) (cg_ph g) (cg_kh g) (cg_in_h g) (ct_out_y0 t) (ct_out_h t) (ct_in_y0 t) (ct_in_h t)"
    "slice_ok (ct_sw t) (cg_pw g) (cg_kw g) (cg_in_w g) (ct_out_x0 t) (ct_out_w t) (ct_in_x0 t) (ct_in_w t)"
    by (simp_all add: t conv_tile_fields)
qed

definition no_wrap :: "nat \<Rightarrow> nat \<Rightarrow> bool" where
  "no_wrap step lim \<longleftrightarrow> 0 < step \<and> lim + step \<le> 2 ^ 32"

lemma compute_conv_tiles_run:
  assumes "0 < cg_out_h g" "0 < cg_out_w g" "0 < cg_cout g"
    and "no_wrap (nonzero_or (cg_out_h g) tile_h) (cg_out_h g)" "no_wrap (nonzero_or (cg_out_w g) tile_w) (cg_out_w g)"
    and "no_wrap (co_step co_per_tile (cg_cout g)) (cg_cout g)"
  obtains tiles where "compute_conv_tiles g tile_h tile_w co_per_tile = Some tiles"
    "\<And>y x c. length (filter (tile_has y x c) tiles) = (if y < cg_out_h g \<and> x < cg_out_w g \<and> c < cg_cout g then 1 else 0)"
    "\<And>t. t \<in> set tiles \<Longrightarrow> \<exists>c y x. y < cg_out_h g \<and> x < cg_out_w g \<and> c < cg_cout g \<and>
       t = conv_tile (with_strides g)
             (nonzero_or (cg_out_h g) tile_h) (nonzero_or (cg_out_w g) tile_w) (co_step co_per_tile (cg_cout g)) c y x"
proof -
  define th tw co_s where "th = nonzero_or (cg_out_h g) tile_h" and "tw = nonzero_or (cg_out_w g) tile_w"
    and "co_s = co_step co_per_tile (cg_cout g)"
  obtain ys where ys: "counter th (cg_out_h g) 0 = Some ys" "\<forall>s \<in> set ys. s < cg_out_h g"
    "\<And>p. length (filter (\<lambda>s. inside (min th (cg_out_h g - s)) s p) ys) = (if p < cg_out_h g then 1 else 0)"
    using counter_cover [of th "cg_out_h g"] assms(4) by (auto simp: no_wrap_def th_def)
  obtain xs where xs: "counter tw (cg_out_w g) 0 = Some xs" "\<forall>s \<in> set xs. s < cg_out_w g"
    "\<And>p. length (filter (\<lambda>s. inside (min tw (cg_out_w g - s)) s p) xs) = (if p < cg_out_w g then 1 else 0)"
    using counter_cover [of tw "cg_out_w g"] assms(5) by (auto simp: no_wrap_def tw_def)
  obtain cs where cs: "counter co_s (cg_cout g) 0 = Some cs" "\<forall>s \<in> set cs. s < cg_cout g"
    "\<And>p. length (filter (\<lambda>s. inside (min co_s (cg_cout g - s)) s p) cs) = (if p < cg_cout g then 1 else 0)"
    using counter_cover [of co_s "cg_cout g"] assms(6) by (auto simp: no_wrap_def co_s_def)
  have "cs \<noteq> []" using cs(3) [of 0] assms(3) by auto
  let ?tiles = "concat (map (\<lambda>c. concat (map (\<lambda>y. map (conv_tile (with_strides g) th tw co_s c y) xs) ys)) cs)"
  have "compute_conv_tiles g tile_h tile_w co_per_tile = Some ?tiles"
    using assms(1,2) \<open>cs \<noteq> []\<close>
    by (simp add: compute_conv_tiles_def Let_def ys(1) xs(1) cs(1) flip: th_def tw_def co_s_def)
  moreover have "length (filter (tile_has y x c) ?tiles) = (if y < cg_out_h g \<and> x < cg_out_w g \<and> c < cg_cout g then 1 else 0)" for y x c
  proof -
    have "length (filter (tile_has y x c) ?tiles) =
        length (filter (\<lambda>s. inside (min co_s (cg_cout g - s)) s c) cs) *
          (length (filter (\<lambda>s. inside (min th (cg_out_h g - s)) s y) ys) * length (filter (\<lambda>s. inside (min tw (cg_out_w g - s)) s x) xs))"
      by (rule count_cube) (simp add: tile_has_def conv_tile_fields)
    then show ?thesis by (simp only: cs(3) ys(3) xs(3)) simp
  qed
  moreover have "\<exists>c y x. y < cg_out_h g \<and> x < cg_out_w g \<and> c < cg_cout g \<and> t = conv_tile (with_strides g) th tw co_s c y x"
    if "t \<in> set ?tiles" for t
    using that cs(2) ys(2) xs(2) by (simp add: image_iff) blast
  ultimately show ?thesis unfolding th_def tw_def co_s_def by (rule that)
qed

text \<open>
  C31: the tiles of a convolution partition its output. When no loop counter wraps around, the computation
  ends, every element of the output, with its channel, lies in exactly one tile, and no tile reaches
  outside; the input slice of each tile holds all input elements that its output elements read, and lies
  within the input.
\<close>

theorem compute_conv_tiles_partition:
  assumes "0 < cg_out_h g" "0 < cg_out_w g" "0 < cg_cout g" "cg_in_h g < 2 ^ 32" "cg_in_w g < 2 ^ 32"
    and "no_wrap (nonzero_or (cg_out_h g) tile_h) (cg_out_h g)" "no_wrap (nonzero_or (cg_out_w g) tile_w) (cg_out_w g)"
    and "no_wrap (co_step co_per_tile (cg_cout g)) (cg_cout g)"
  shows "\<exists>tiles. compute_conv_tiles g tile_h tile_w co_per_tile = Some tiles \<and>
    (\<forall>y x c. length (filter (tile_has y x c) tiles) = (if y < cg_out_h g \<and> x < cg_out_w g \<and> c < cg_cout g then 1 else 0)) \<and>
    (\<forall>t \<in> set tiles.
       slice_ok (ct_sh t) (cg_ph g) (cg_kh g) (cg_in_h g) (ct_out_y0 t) (ct_out_h t) (ct_in_y0 t) (ct_in_h t) \<and>
       slice_ok (ct_sw t) (cg_pw g) (cg_kw g) (cg_in_w g) (ct_out_x0 t) (ct_out_w t) (ct_in_x0 t) (ct_in_w t))"
proof (rule compute_conv_tiles_run [OF assms(1-3,6-8)])
  fix tiles
  assume tiles: "compute_conv_tiles g tile_h tile_w co_per_tile = Some tiles"
    "\<And>y x c. length (filter (tile_has y x c) tiles) = (if y < cg_out_h g \<and> x < cg_out_w g \<and> c < cg_cout g then 1 else 0)"
    "\<And>t. t \<in> set tiles \<Longrightarrow> \<exists>c y x. y < cg_out_h g \<and> x < cg_out_w g \<and> c < cg_cout g \<and>
       t = conv_tile (with_strides g) (nonzero_or (cg_out_h g) tile_h) (nonzero_or (cg_out_w g) tile_w) (co_step co_per_tile (cg_cout g)) c y x"
  have "slice_ok (ct_sh t) (cg_ph g) (cg_kh g) (cg_in_h g) (ct_out_y0 t) (ct_out_h t) (ct_in_y0 t) (ct_in_h t) \<and>
      slice_ok (ct_sw t) (cg_pw g) (cg_kw g) (cg_in_w g) (ct_out_x0 t) (ct_out_w t) (ct_in_x0 t) (ct_in_w t)" if "t \<in> set tiles" for t
    using tiles(3) [OF that] conv_tile_slices [of "with_strides g", OF _ _ refl] assms(4,5) by auto
  with tiles(1,2) show ?thesis by blast
qed

text \<open>A convolution of 5 x 4 outputs and 3 channels in tiles of 2 x 4, with stride 2 and padding.\<close>

definition conv_demo :: conv_geometry where
  "conv_demo = \<lparr>cg_in_h = 10, cg_in_w = 8, cg_cin = 2, cg_out_h = 5, cg_out_w = 4, cg_cout = 3, cg_kh = 3, cg_kw = 3,
     cg_sh = 2, cg_sw = 2, cg_ph = 1, cg_pw = 1\<rparr>"

theorem compute_conv_tiles_partition_witness:
  "\<exists>tiles. compute_conv_tiles conv_demo 2 0 2 = Some tiles \<and> length (filter (tile_has 4 3 2) tiles) = 1"
proof -
  have "0 < cg_out_h conv_demo" "0 < cg_out_w conv_demo" "0 < cg_cout conv_demo" "cg_in_h conv_demo < 2 ^ 32"
    "cg_in_w conv_demo < 2 ^ 32" "no_wrap (nonzero_or (cg_out_h conv_demo) 2) (cg_out_h conv_demo)"
    "no_wrap (nonzero_or (cg_out_w conv_demo) 0) (cg_out_w conv_demo)" "no_wrap (co_step 2 (cg_cout conv_demo)) (cg_cout conv_demo)"
    by (simp_all add: conv_demo_def no_wrap_def nonzero_or_def co_step_def)
  from compute_conv_tiles_partition [OF this] obtain tiles where t: "compute_conv_tiles conv_demo 2 0 2 = Some tiles"
    "\<forall>y x c. length (filter (tile_has y x c) tiles) =
       (if y < cg_out_h conv_demo \<and> x < cg_out_w conv_demo \<and> c < cg_cout conv_demo then 1 else 0)" by blast
  from t(2) [rule_format, of 4 3 2] have "length (filter (tile_has 4 3 2) tiles) = 1" by (simp add: conv_demo_def)
  with t(1) show ?thesis by blast
qed

text \<open>Without the bound the counter can skip the limit and run forever: \<open>2 ^ 31\<close> wraps to \<open>0\<close>.\<close>

lemma counter_wraps: "add32 (add32 0 (2 ^ 31)) (2 ^ 31) = 0"
  by (simp add: add32_def)

section \<open>Matrix product tiles\<close>

lemma shrink_spec:
  assumes "0 < align" "0 < v"
  shows "0 < shrink align over v \<and> shrink align over v \<le> v \<and> (shrink align over v \<le> align \<or> \<not> over (shrink align over v)) \<and>
    (\<not> over v \<longrightarrow> shrink align over v = v) \<and> shrink align over v mod align = v mod align"
  using assms
proof (induction v rule: less_induct)
  case (less v)
  show ?case
  proof (cases "align < v \<and> over v")
    case True
    then have "shrink align over v = shrink align over (v - align)"
      using less.prems by (subst shrink.simps) (simp add: down_def)
    moreover have "(v - align) mod align = v mod align" using True by (simp add: le_mod_geq)
    ultimately show ?thesis using less.IH [of "v - align"] True less.prems by auto
  next
    case False
    then have "shrink align over v = v" by (subst shrink.simps) auto
    with False less.prems show ?thesis by auto
  qed
qed

lemma matmul_ws_exact:
  assumes "M * K * 2 + N * K * w + M * N * 2 < 2 ^ 64" "m \<le> M" "n \<le> N"
  shows "matmul_ws m n K w = m * K * 2 + n * K * w div 8 + m * n * 2"
proof -
  have le: "m * K * 2 \<le> M * K * 2" "n * K * w \<le> N * K * w" "m * n * 2 \<le> M * N * 2"
    using assms(2,3) by (simp_all add: mult_le_mono)
  have "n * K * w div 8 \<le> n * K * w" by (rule div_le_dividend)
  with le assms(1) have "m * K * 2 < 2 ^ 64" "n * K * w < 2 ^ 64" "m * n * 2 < 2 ^ 64"
    "m * K * 2 + n * K * w div 8 + m * n * 2 < 2 ^ 64" by linarith+
  then show ?thesis unfolding matmul_ws_def by (simp only: mod_less)
qed

lemma matmul_ws_mono:
  assumes "M * K * 2 + N * K * w + M * N * 2 < 2 ^ 64" "m \<le> m'" "n \<le> n'" "m' \<le> M" "n' \<le> N"
  shows "matmul_ws m n K w \<le> matmul_ws m' n' K w"
proof -
  have "m * K * 2 \<le> m' * K * 2" "n * K * w div 8 \<le> n' * K * w div 8" "m * n * 2 \<le> m' * n' * 2"
    using assms(2,3) by (simp_all add: mult_le_mono div_le_mono)
  then show ?thesis
    using matmul_ws_exact [OF assms(1,4,5)] matmul_ws_exact [OF assms(1), of m n] assms(2-5) by linarith
qed

lemma foldl_max_le: "foldl (\<lambda>m t. max m (f t)) a ts \<le> b \<longleftrightarrow> a \<le> b \<and> (\<forall>t \<in> set ts. f t \<le> (b :: nat))"
  by (induction ts arbitrary: a) auto

definition mat_has :: "nat \<Rightarrow> nat \<Rightarrow> output_tile \<Rightarrow> bool" where
  "mat_has m n t \<longleftrightarrow> ot_m0 t \<le> m \<and> m < ot_m1 t \<and> ot_n0 t \<le> n \<and> n < ot_n1 t"

definition eff_align :: "tile_budget \<Rightarrow> nat" where
  "eff_align b = (if 0 < tb_align b then tb_align b else 32)"

lemma matmul_tile_sizes_spec:
  assumes "0 < os_M s" "0 < os_N s" and sz: "matmul_tile_sizes s b = (mt, nt)"
  shows "0 < mt \<and> mt \<le> os_M s" "0 < nt \<and> nt \<le> os_N s"
    "tb_vtcm_tile_size b = 0 \<or> matmul_ws mt nt (os_K s) (os_weight_bits s) \<le> tb_vtcm_tile_size b \<or> mt \<le> eff_align b \<and> nt \<le> eff_align b"
    "mt mod eff_align b = os_M s mod eff_align b" "nt mod eff_align b = os_N s mod eff_align b"
proof -
  define B where "B = tb_vtcm_tile_size b"
  define ws where "ws = (\<lambda>m n. matmul_ws m n (os_K s) (os_weight_bits s))"
  have al: "0 < eff_align b" by (simp add: eff_align_def)
  have "(0 < mt \<and> mt \<le> os_M s) \<and> (0 < nt \<and> nt \<le> os_N s) \<and> (B = 0 \<or> ws mt nt \<le> B \<or> mt \<le> eff_align b \<and> nt \<le> eff_align b) \<and>
      mt mod eff_align b = os_M s mod eff_align b \<and> nt mod eff_align b = os_N s mod eff_align b"
  proof (cases "B = 0")
    case True
    then show ?thesis using sz assms(1,2) by (auto simp: matmul_tile_sizes_def B_def)
  next
    case False
    then have e: "nt = shrink (eff_align b) (\<lambda>nt. B < ws (os_M s) nt) (os_N s)" "mt = shrink (eff_align b) (\<lambda>mt. B < ws mt nt) (os_M s)"
      using sz by (auto simp: matmul_tile_sizes_def eff_align_def B_def ws_def Let_def)
    note N = shrink_spec [OF al assms(2), of "\<lambda>nt. B < ws (os_M s) nt", folded e(1)]
    note M = shrink_spec [OF al assms(1), of "\<lambda>mt. B < ws mt nt", folded e(2)]
    have "ws mt nt \<le> B \<or> mt \<le> eff_align b \<and> nt \<le> eff_align b"
    proof (cases "B < ws (os_M s) nt")
      case True
      with N M show ?thesis by auto
    next
      case False
      then have "mt = os_M s" using M by blast
      with False show ?thesis by simp
    qed
    with N M show ?thesis by blast
  qed
  then show "0 < mt \<and> mt \<le> os_M s" "0 < nt \<and> nt \<le> os_N s"
    "tb_vtcm_tile_size b = 0 \<or> matmul_ws mt nt (os_K s) (os_weight_bits s) \<le> tb_vtcm_tile_size b \<or> mt \<le> eff_align b \<and> nt \<le> eff_align b"
    "mt mod eff_align b = os_M s mod eff_align b" "nt mod eff_align b = os_N s mod eff_align b"
    by (simp_all add: B_def ws_def)
qed

lemma matmul_tile_fields:
  assumes "m0 < os_M s" "n0 < os_N s" "no_wrap mt (os_M s)" "no_wrap nt (os_N s)"
  shows "ot_m0 (matmul_tile s mt nt m0 n0) = m0" "ot_m1 (matmul_tile s mt nt m0 n0) = m0 + min mt (os_M s - m0)"
    "ot_n0 (matmul_tile s mt nt m0 n0) = n0" "ot_n1 (matmul_tile s mt nt m0 n0) = n0 + min nt (os_N s - n0)"
    "ot_working_set (matmul_tile s mt nt m0 n0) =
       matmul_ws (min mt (os_M s - m0)) (min nt (os_N s - n0)) (os_K s) (os_weight_bits s)"
proof -
  have "min (os_M s) (add32 m0 mt) = m0 + min mt (os_M s - m0)" "min (os_N s) (add32 n0 nt) = n0 + min nt (os_N s - n0)"
    using assms by (auto simp: add32_def no_wrap_def min_def)
  then show "ot_m0 (matmul_tile s mt nt m0 n0) = m0" "ot_m1 (matmul_tile s mt nt m0 n0) = m0 + min mt (os_M s - m0)"
    "ot_n0 (matmul_tile s mt nt m0 n0) = n0" "ot_n1 (matmul_tile s mt nt m0 n0) = n0 + min nt (os_N s - n0)"
    "ot_working_set (matmul_tile s mt nt m0 n0) =
       matmul_ws (min mt (os_M s - m0)) (min nt (os_N s - n0)) (os_K s) (os_weight_bits s)"
    by (simp_all add: matmul_tile_def Let_def)
qed

lemma matmul_tile_shape_run:
  assumes "0 < os_M s" "0 < os_N s" "0 < os_K s" and sz: "matmul_tile_sizes s b = (mt, nt)"
    and nw: "no_wrap mt (os_M s)" "no_wrap nt (os_N s)"
  obtains tiles where "matmul_tile_shape s b = Some (finish_plan ''matmul'' b tiles)"
    "\<And>m n. length (filter (mat_has m n) tiles) = (if m < os_M s \<and> n < os_N s then 1 else 0)"
    "\<And>t. t \<in> set tiles \<Longrightarrow> \<exists>m0 n0. m0 < os_M s \<and> n0 < os_N s \<and> t = matmul_tile s mt nt m0 n0"
proof -
  obtain ms where ms: "counter mt (os_M s) 0 = Some ms" "\<forall>p \<in> set ms. p < os_M s"
    "\<And>p. length (filter (\<lambda>q. inside (min mt (os_M s - q)) q p) ms) = (if p < os_M s then 1 else 0)"
    using counter_cover [of mt "os_M s"] nw(1) by (auto simp: no_wrap_def)
  obtain ns where ns: "counter nt (os_N s) 0 = Some ns" "\<forall>p \<in> set ns. p < os_N s"
    "\<And>p. length (filter (\<lambda>q. inside (min nt (os_N s - q)) q p) ns) = (if p < os_N s then 1 else 0)"
    using counter_cover [of nt "os_N s"] nw(2) by (auto simp: no_wrap_def)
  let ?tiles = "concat (map (\<lambda>m0. map (matmul_tile s mt nt m0) ns) ms)"
  have "matmul_tile_shape s b = Some (finish_plan ''matmul'' b ?tiles)"
    using assms(1-3) by (simp add: matmul_tile_shape_def sz ms(1) ns(1))
  moreover have "length (filter (mat_has m n) ?tiles) = (if m < os_M s \<and> n < os_N s then 1 else 0)" for m n
  proof -
    have "length (filter (mat_has m n) ?tiles) =
        length (filter (\<lambda>q. inside (min mt (os_M s - q)) q m) ms) * length (filter (\<lambda>q. inside (min nt (os_N s - q)) q n) ns)"
      using ms(2) ns(2) nw by (intro count_grid) (auto simp: mat_has_def matmul_tile_fields inside_def)
    then show ?thesis by (simp only: ms(3) ns(3)) simp
  qed
  moreover have "\<exists>m0 n0. m0 < os_M s \<and> n0 < os_N s \<and> t = matmul_tile s mt nt m0 n0" if "t \<in> set ?tiles" for t
    using that ms(2) ns(2) by (simp add: image_iff) blast
  ultimately show ?thesis by (rule that)
qed

text \<open>
  C32: the tiles of a matrix product partition the result, and the budget is met whenever the alignment
  allows. For sizes up to \<open>2 ^ 31\<close> and a working set below \<open>2 ^ 64\<close> the planning ends; every element of the
  result lies in exactly one tile and no tile reaches outside; \<open>fits_budget\<close> holds exactly when every tile
  is within the budget; and if it does not hold, no tile is longer or wider than the alignment.
\<close>

theorem matmul_tile_shape_partition:
  assumes "0 < os_M s" "os_M s \<le> 2 ^ 31" "0 < os_N s" "os_N s \<le> 2 ^ 31" "0 < os_K s"
    and nov: "os_M s * os_K s * 2 + os_N s * os_K s * os_weight_bits s + os_M s * os_N s * 2 < 2 ^ 64"
  shows "\<exists>p. matmul_tile_shape s b = Some p \<and>
    (\<forall>m n. length (filter (mat_has m n) (tp_tiles p)) = (if m < os_M s \<and> n < os_N s then 1 else 0)) \<and>
    (tp_fits_budget p \<longleftrightarrow> tb_vtcm_tile_size b = 0 \<or> (\<forall>t \<in> set (tp_tiles p). ot_working_set t \<le> tb_vtcm_tile_size b)) \<and>
    (\<not> tp_fits_budget p \<longrightarrow> (\<forall>t \<in> set (tp_tiles p). ot_m1 t - ot_m0 t \<le> eff_align b \<and> ot_n1 t - ot_n0 t \<le> eff_align b))"
proof -
  obtain mt nt where sz: "matmul_tile_sizes s b = (mt, nt)" by fastforce
  note ss = matmul_tile_sizes_spec [OF assms(1,3) sz]
  have nw: "no_wrap mt (os_M s)" "no_wrap nt (os_N s)" using ss(1,2) assms(2,4) by (auto simp: no_wrap_def)
  show ?thesis
  proof (rule matmul_tile_shape_run [OF assms(1,3,5) sz nw])
    fix tiles
    let ?p = "finish_plan ''matmul'' b tiles"
    assume t: "matmul_tile_shape s b = Some ?p"
      "\<And>m n. length (filter (mat_has m n) tiles) = (if m < os_M s \<and> n < os_N s then 1 else 0)"
      "\<And>t. t \<in> set tiles \<Longrightarrow> \<exists>m0 n0. m0 < os_M s \<and> n0 < os_N s \<and> t = matmul_tile s mt nt m0 n0"
    have p: "tp_tiles ?p = tiles"
      "tp_fits_budget ?p \<longleftrightarrow> tb_vtcm_tile_size b = 0 \<or> (\<forall>t \<in> set tiles. ot_working_set t \<le> tb_vtcm_tile_size b)"
      by (simp_all add: finish_plan_def Let_def foldl_max_le)
    have le: "ot_working_set t \<le> matmul_ws mt nt (os_K s) (os_weight_bits s)" if "t \<in> set tiles" for t
      using t(3) [OF that] matmul_ws_mono [OF nov _ _ conjunct2 [OF ss(1)] conjunct2 [OF ss(2)]]
      by (auto simp: matmul_tile_fields nw)
    have "mt \<le> eff_align b \<and> nt \<le> eff_align b" if "\<not> tp_fits_budget ?p"
      using that ss(3) le unfolding p(2) by (meson order_trans)
    then have "\<forall>t \<in> set tiles. ot_m1 t - ot_m0 t \<le> eff_align b \<and> ot_n1 t - ot_n0 t \<le> eff_align b" if "\<not> tp_fits_budget ?p"
      using that t(3) by (fastforce simp: matmul_tile_fields nw)
    with t(1,2) p show ?thesis by (intro exI [of _ ?p]) simp
  qed
qed

definition mat_demo :: op_shape where
  "mat_demo = \<lparr>os_M = 40, os_N = 100, os_K = 10, os_weight_bits = 16, os_conv = conv_demo\<rparr>"

theorem matmul_tile_shape_partition_witness:
  "\<exists>p. matmul_tile_shape mat_demo \<lparr>tb_vtcm_tile_size = 1500, tb_align = 32\<rparr> = Some p \<and>
     length (filter (mat_has 39 99) (tp_tiles p)) = 1"
proof -
  have m: "0 < os_M mat_demo" "os_M mat_demo \<le> 2 ^ 31" "0 < os_N mat_demo" "os_N mat_demo \<le> 2 ^ 31" "0 < os_K mat_demo"
    "os_M mat_demo * os_K mat_demo * 2 + os_N mat_demo * os_K mat_demo * os_weight_bits mat_demo + os_M mat_demo * os_N mat_demo * 2 < 2 ^ 64"
    by (simp_all add: mat_demo_def)
  from matmul_tile_shape_partition [OF m, of "\<lparr>tb_vtcm_tile_size = 1500, tb_align = 32\<rparr>"]
  obtain p where p: "matmul_tile_shape mat_demo \<lparr>tb_vtcm_tile_size = 1500, tb_align = 32\<rparr> = Some p"
    "\<forall>m n. length (filter (mat_has m n) (tp_tiles p)) = (if m < os_M mat_demo \<and> n < os_N mat_demo then 1 else 0)" by blast
  from p(2) [rule_format, of 39 99] have "length (filter (mat_has 39 99) (tp_tiles p)) = 1" by (simp add: mat_demo_def)
  with p(1) show ?thesis by blast
qed

text \<open>
  Tile sizes keep the remainder of the full size modulo the alignment (\<open>matmul_tile_sizes_spec\<close>), so they are
  aligned only if the full size is. Here the width shrinks from 100 to 4 and the height from 40 to 8.
\<close>

lemma matmul_tiles_unaligned:
  "matmul_tile_sizes mat_demo \<lparr>tb_vtcm_tile_size = 300, tb_align = 32\<rparr> = (8, 4)"
proof -
  have "shrink 32 (\<lambda>nt. 300 < matmul_ws 40 nt 10 16) 100 = 4" "shrink 32 (\<lambda>mt. 300 < matmul_ws mt 4 10 16) 40 = 8"
    by ((subst shrink.simps, simp add: matmul_ws_def down_def)+)
  then show ?thesis by (simp add: matmul_tile_sizes_def mat_demo_def)
qed

section \<open>The plan of a convolution\<close>

lemma conv_tile_height_le: "conv_tile_height g b \<le> cg_out_h g"
  unfolding conv_tile_height_def Let_def by (simp only: split: if_split) linarith

text \<open>The tiles of the plan are those of \<open>compute_conv_tiles\<close>, as intervals of rows, columns and channels.\<close>

lemma conv_tile_shape_partition:
  assumes "0 < cg_out_h g" "cg_out_h g \<le> 2 ^ 31" "0 < cg_out_w g" "cg_out_w g \<le> 2 ^ 31" "0 < cg_cout g" "cg_cout g \<le> 2 ^ 31"
    and s: "os_conv s = g"
  obtains p where "conv_tile_shape s b = Some p"
    "\<And>y x c. length (filter (\<lambda>t. mat_has y x t \<and> ot_c0 t \<le> c \<and> c < ot_c1 t) (tp_tiles p)) =
       (if y < cg_out_h g \<and> x < cg_out_w g \<and> c < cg_cout g then 1 else 0)"
proof -
  let ?th = "conv_tile_height g b"
  have th: "no_wrap (nonzero_or (cg_out_h g) ?th) (cg_out_h g)"
    using assms(1,2) conv_tile_height_le [of g b] by (auto simp: no_wrap_def nonzero_or_def)
  have nw: "no_wrap (nonzero_or (cg_out_w g) (cg_out_w g)) (cg_out_w g)" "no_wrap (co_step 0 (cg_cout g)) (cg_cout g)"
    using assms(3-6) by (simp_all add: no_wrap_def nonzero_or_def co_step_def)
  show ?thesis
  proof (rule compute_conv_tiles_run [OF assms(1,3,5) th nw])
    fix tiles
    assume t: "compute_conv_tiles g ?th (cg_out_w g) 0 = Some tiles"
      "\<And>y x c. length (filter (tile_has y x c) tiles) = (if y < cg_out_h g \<and> x < cg_out_w g \<and> c < cg_cout g then 1 else 0)"
      "\<And>t. t \<in> set tiles \<Longrightarrow> \<exists>c y x. y < cg_out_h g \<and> x < cg_out_w g \<and> c < cg_cout g \<and>
         t = conv_tile (with_strides g) (nonzero_or (cg_out_h g) ?th) (nonzero_or (cg_out_w g) (cg_out_w g)) (co_step 0 (cg_cout g)) c y x"
    have eq: "mat_has y x (conv_output_tile t) \<and> ot_c0 (conv_output_tile t) \<le> c \<and> c < ot_c1 (conv_output_tile t) \<longleftrightarrow> tile_has y x c t"
      if "t \<in> set tiles" for t y x c
    proof -
      have "ct_out_y0 t + ct_out_h t < 2 ^ 32" "ct_out_x0 t + ct_out_w t < 2 ^ 32" "ct_co0 t + ct_co_n t < 2 ^ 32"
        using t(3) [OF that] assms(2,4,6) by (auto simp: conv_tile_fields min_def)
      then show ?thesis by (auto simp: mat_has_def tile_has_def inside_def conv_output_tile_def Let_def add32_def)
    qed
    have c: "length (filter (\<lambda>t. mat_has y x t \<and> ot_c0 t \<le> c \<and> c < ot_c1 t) (map conv_output_tile tiles)) =
        (if y < cg_out_h g \<and> x < cg_out_w g \<and> c < cg_cout g then 1 else 0)" for y x c
      using eq by (subst count_row [where B = True and C = "tile_has y x c"]) (auto simp: t(2))
    have plan: "conv_tile_shape s b = Some (finish_plan ''conv2d'' b (map conv_output_tile tiles))"
      using assms(1,3,5) s t(1) by (simp add: conv_tile_shape_def Let_def)
    have "tp_tiles (finish_plan ''conv2d'' b (map conv_output_tile tiles)) = map conv_output_tile tiles"
      by (simp add: finish_plan_def Let_def)
    then show ?thesis using c by (intro that [OF plan]) (simp only:)
  qed
qed

text \<open>
  When the budget does not even hold the estimate for one pixel, the height is left at the whole image, so
  the plan with the least space is the one that is not tiled.
\<close>

lemma conv_small_budget_untiled:
  "conv_tile_height conv_demo \<lparr>tb_vtcm_tile_size = 600, tb_align = 32\<rparr> = 1"
  "conv_tile_height conv_demo \<lparr>tb_vtcm_tile_size = 200, tb_align = 32\<rparr> = 5"
  by (simp_all add: conv_tile_height_def conv_demo_def Let_def)

section \<open>The registry\<close>

lemma plan_register: "plan_rule (register_rule nm fn r) nm' = (if nm' = nm then fn else plan_rule r nm')"
  by (intro ext) (simp add: plan_rule_def register_rule_def)

lemma plan_builtin:
  "plan_rule (register_builtin_tiling_rules r) ''matmul'' = matmul_tile_shape"
  "plan_rule (register_builtin_tiling_rules r) ''conv2d'' = conv_tile_shape"
  "nm \<notin> {''matmul'', ''conv2d''} \<Longrightarrow> plan_rule (register_builtin_tiling_rules r) nm = plan_rule r nm"
  by (simp_all add: register_builtin_tiling_rules_def plan_register)

lemma plan_unregistered: "\<not> has_rule r nm \<Longrightarrow> plan_rule r nm s b = Some (identity_tile_plan s)"
  by (simp add: plan_rule_def has_rule_def)

text \<open>The list of names has each registered name once, in the order of the first registration.\<close>

definition registry_ok :: "tiling_registry \<Rightarrow> bool" where
  "registry_ok r \<longleftrightarrow> distinct (tr_order r) \<and> set (tr_order r) = dom (map_of (tr_rules r))"

lemma register_rule_ok: "registry_ok r \<Longrightarrow> registry_ok (register_rule nm fn r)"
  by (auto simp: registry_ok_def register_rule_def split: if_splits)

end
