(* ===== verification/Sfcd.thy ===== *)
theory Sfcd
  imports Prelude
begin

text \<open>
  Spill/fill control data (\<open>compiler/src/vtcm/spillfill_g4.cpp\<close>): the word format in which copies between
  the scratchpad and memory pools, waits and progress marks reach the device. The writer builds it
  from the records of an area, the dump reads it back; a third group of functions sizes the pools.

  Words are \<open>u32\<close>. The writer fails with an error value where the code throws. The reader walks a
  pointer without a bound; running past the buffer is \<open>None\<close>. What the dump prints is a list of lines
  with their arguments, and \<open>render\<close> is the formatting of a line; the text of the buffer's address is an argument.
\<close>

unbundle bit_operations_syntax

section \<open>Data\<close>

record slc_copy =
  cp_tcm_offset :: u32
  cp_copy_len :: u32
  cp_cache_hints :: u32

record wait_entry =
  we_mb_idx :: u32
  we_val :: u32

record slc_record =
  sr_rec_type :: u32
  sr_ddr_pool :: u32
  sr_sf_offset :: u32
  sr_total_copy :: u32
  sr_copies :: "slc_copy list"
  sr_pairs :: "wait_entry list"
  sr_mb_idx :: u32
  sr_value_to_set :: u32

record slc_area =
  sa_area_id :: u64
  sa_runlist_idx :: u32
  sa_nsp_id :: u32
  sa_is_fill :: bool
  sa_is_multi_nsp :: bool
  sa_dma_checkpoint :: u32
  sa_records :: "slc_record list"

definition REC_SPILLFILL :: u32 where "REC_SPILLFILL = 0"
definition REC_WAITFOR :: u32 where "REC_WAITFOR = 1"
definition REC_SETPROGRESS :: u32 where "REC_SETPROGRESS = 2"

definition round_up_64 :: "u32 \<Rightarrow> u32" where
  "round_up_64 n = (n + 0x3f) AND NOT 0x3f"

definition round_up_64k :: "u32 \<Rightarrow> u32" where
  "round_up_64k n = (n + 0xffff) AND 0xffff0000"

section \<open>The writer\<close>

text \<open>The reasons of the check before writing, each with the value its message prints.\<close>

datatype check_error =
    PoolTooBig | TooManyCopies | CopyUnaligned u32 | WaitMbRange | SetMbRange | BadRecType u32

datatype sfcd_error =
    AlreadyOpen | NoOpenRecord | OffsetUnaligned | NibbleRange | TooManyBlocks | EndMismatch | PoolRange
  | ProgressRange | FinishOpen | MgroupCheck nat check_error

record sfcd_writer =
  sw_words :: "u32 list"
  sw_records :: u32
  sw_open_rec :: "nat option"
  sw_open_blocks :: u32

definition sfcd_writer_init :: sfcd_writer where
  "sfcd_writer_init = \<lparr>sw_words = [0, 0, 0], sw_records = 0, sw_open_rec = None, sw_open_blocks = 0\<rparr>"

definition begin_block_record :: "u32 \<Rightarrow> sfcd_writer \<Rightarrow> sfcd_error + nat \<times> sfcd_writer" where
  "begin_block_record blob_off w =
     (if sw_open_rec w \<noteq> None then Inl AlreadyOpen
      else let r = length (sw_words w)
           in Inr (r, w\<lparr>sw_open_rec := Some r, sw_open_blocks := 0, sw_words := sw_words w @ [0, blob_off]\<rparr>))"

definition push_block_entry :: "u32 \<Rightarrow> u32 \<Rightarrow> u32 \<Rightarrow> sfcd_writer \<Rightarrow> sfcd_error + sfcd_writer" where
  "push_block_entry tcm_offset type_nibble len w =
     (if sw_open_rec w = None then Inl NoOpenRecord
      else if tcm_offset AND 0xf \<noteq> 0 then Inl OffsetUnaligned
      else if 0xf < type_nibble then Inl NibbleRange
      else if sw_open_blocks w = 0xffff then Inl TooManyBlocks
      else Inr (w\<lparr>sw_words := sw_words w @ [tcm_offset OR type_nibble, len], sw_open_blocks := sw_open_blocks w + 1\<rparr>))"

definition end_block_record :: "nat \<Rightarrow> u32 \<Rightarrow> sfcd_writer \<Rightarrow> sfcd_error + sfcd_writer" where
  "end_block_record r pool w =
     (if Some r \<noteq> sw_open_rec w then Inl EndMismatch
      else if 0x7fff < pool then Inl PoolRange
      else Inr (w\<lparr>sw_words := (sw_words w)[r := push_bit 16 pool OR sw_open_blocks w], sw_open_rec := None,
                   sw_open_blocks := 0, sw_records := sw_records w + 1\<rparr>))"

definition push_terminator :: "u32 \<Rightarrow> sfcd_writer \<Rightarrow> sfcd_error + sfcd_writer" where
  "push_terminator blob_off w =
     (if sw_open_rec w \<noteq> None then Inl AlreadyOpen
      else Inr (w\<lparr>sw_words := sw_words w @ [0, blob_off], sw_records := sw_records w + 1\<rparr>))"

definition narrow_ok :: "wait_entry \<Rightarrow> bool" where
  "narrow_ok p \<longleftrightarrow> \<not> (0xff < we_val p \<or> 0xffffff < we_mb_idx p)"

definition narrow_header :: "nat \<Rightarrow> u32" where
  "narrow_header cnt = 0x80000000 OR word_of_nat cnt"

definition narrow_words :: "wait_entry \<Rightarrow> u32 list" where
  "narrow_words p = [push_bit 24 (we_val p) OR we_mb_idx p]"

definition wide_header :: "nat \<Rightarrow> u32" where
  "wide_header cnt = 0x80000000 OR 0x10000 OR push_bit 1 (word_of_nat cnt)"

definition wide_words :: "wait_entry \<Rightarrow> u32 list" where
  "wide_words p = [we_mb_idx p, we_val p]"

text \<open>The loop over chunks: a header and the entries of each chunk, and one record per chunk.\<close>

function write_chunks ::
  "nat \<Rightarrow> (nat \<Rightarrow> u32) \<Rightarrow> (wait_entry \<Rightarrow> u32 list) \<Rightarrow> wait_entry list \<Rightarrow> sfcd_writer \<Rightarrow> sfcd_writer" where
  "write_chunks chunk header enc ps w =
     (if ps = [] \<or> chunk = 0 then w
      else let now = take chunk ps
           in write_chunks chunk header enc (drop chunk ps)
                (w\<lparr>sw_words := sw_words w @ header (length now) # concat (map enc now), sw_records := sw_records w + 1\<rparr>))"
  by pat_completeness auto
termination
  by (relation "measure (\<lambda>(chunk, header, enc, ps, w). length ps)") auto

declare write_chunks.simps [simp del]

definition write_waits :: "wait_entry list \<Rightarrow> sfcd_writer \<Rightarrow> sfcd_writer" where
  "write_waits ps w =
     (if list_all narrow_ok ps then write_chunks 0xffff narrow_header narrow_words ps w
      else write_chunks 0x7fff wide_header wide_words ps w)"

definition write_set_progress :: "u32 \<Rightarrow> u32 \<Rightarrow> sfcd_writer \<Rightarrow> sfcd_error + sfcd_writer" where
  "write_set_progress mb_idx val w =
     (if 0xffffff < mb_idx then Inl ProgressRange
      else Inr (w\<lparr>sw_words := sw_words w @ [0x81000000 OR mb_idx, val], sw_records := sw_records w + 1\<rparr>))"

definition finish_header :: "u32 \<Rightarrow> sfcd_writer \<Rightarrow> sfcd_error + sfcd_writer" where
  "finish_header checkpoint_index w =
     (if sw_open_rec w \<noteq> None then Inl FinishOpen
      else Inr (w\<lparr>sw_words := (sw_words w)[0 := word_of_nat (4 * length (sw_words w) - 4), 1 := checkpoint_index,
                                           2 := sw_records w AND 0xffffff]\<rparr>))"

text \<open>Adjacent copies with the same hints become one; the comparison is made in 64 bits.\<close>

fun merge_copies :: "slc_copy list \<Rightarrow> slc_copy list \<Rightarrow> slc_copy list" where
  "merge_copies out [] = out"
| "merge_copies out (c # cs) =
     (if out \<noteq> [] \<and> cp_cache_hints (last out) = cp_cache_hints c \<and>
         unat (cp_tcm_offset (last out)) + unat (cp_copy_len (last out)) = unat (cp_tcm_offset c)
      then merge_copies (butlast out @ [(last out)\<lparr>cp_copy_len := cp_copy_len (last out) + cp_copy_len c\<rparr>]) cs
      else merge_copies (out @ [c]) cs)"

definition sfcd_finalize_copies :: "slc_copy list \<Rightarrow> slc_copy list" where
  "sfcd_finalize_copies cs = merge_copies [] cs"

definition record_check :: "slc_record \<Rightarrow> check_error option" where
  "record_check r =
     (if sr_rec_type r = REC_SPILLFILL
      then if 0x7fff < sr_ddr_pool r then Some PoolTooBig
           else if 0xffff < length (sr_copies r) then Some TooManyCopies
           else map_option (\<lambda>c. CopyUnaligned (cp_tcm_offset c))
                  (find (\<lambda>c. cp_tcm_offset c AND 0xf \<noteq> 0) (sr_copies r))
      else if sr_rec_type r = REC_WAITFOR
      then if list_ex (\<lambda>p. 0xffffff < we_mb_idx p) (sr_pairs r) then Some WaitMbRange else None
      else if sr_rec_type r = REC_SETPROGRESS
      then if 0xffffff < sr_mb_idx r then Some SetMbRange else None
      else Some (BadRecType (sr_rec_type r)))"

fun mgroup_check_from :: "nat \<Rightarrow> slc_record list \<Rightarrow> (nat \<times> check_error) option" where
  "mgroup_check_from i [] = None"
| "mgroup_check_from i (r # rs) =
     (case record_check r of Some e \<Rightarrow> Some (i, e) | None \<Rightarrow> mgroup_check_from (Suc i) rs)"

definition fill_mgroup_check :: "slc_area \<Rightarrow> (nat \<times> check_error) option" where
  "fill_mgroup_check area = mgroup_check_from 0 (sa_records area)"

fun push_copies :: "slc_copy list \<Rightarrow> sfcd_writer \<Rightarrow> sfcd_error + sfcd_writer" where
  "push_copies [] w = Inr w"
| "push_copies (c # cs) w =
     (case push_block_entry (cp_tcm_offset c) 0 (cp_copy_len c) w of
        Inl e \<Rightarrow> Inl e
      | Inr w' \<Rightarrow> push_copies cs w')"

definition write_record :: "slc_record \<Rightarrow> sfcd_writer \<Rightarrow> sfcd_error + sfcd_writer" where
  "write_record r w =
     (if sr_rec_type r = REC_SPILLFILL
      then (case begin_block_record (sr_sf_offset r) w of
              Inl e \<Rightarrow> Inl e
            | Inr (i, w1) \<Rightarrow>
                (case push_copies (sfcd_finalize_copies (sr_copies r)) w1 of
                   Inl e \<Rightarrow> Inl e
                 | Inr w2 \<Rightarrow> end_block_record i (sr_ddr_pool r) w2))
      else if sr_rec_type r = REC_WAITFOR then Inr (write_waits (sr_pairs r) w)
      else if sr_rec_type r = REC_SETPROGRESS then write_set_progress (sr_mb_idx r) (sr_value_to_set r) w
      else Inr w)"

fun write_records :: "slc_record list \<Rightarrow> sfcd_writer \<Rightarrow> sfcd_error + sfcd_writer" where
  "write_records [] w = Inr w"
| "write_records (r # rs) w = (case write_record r w of Inl e \<Rightarrow> Inl e | Inr w' \<Rightarrow> write_records rs w')"

definition construct_sfcd :: "slc_area \<Rightarrow> sfcd_error + u32 list" where
  "construct_sfcd area =
     (case fill_mgroup_check area of
        Some (i, e) \<Rightarrow> Inl (MgroupCheck i e)
      | None \<Rightarrow>
          (case write_records (sa_records area) sfcd_writer_init of
             Inl e \<Rightarrow> Inl e
           | Inr w \<Rightarrow> (case finish_header (sa_dma_checkpoint area) w of Inl e \<Rightarrow> Inl e | Inr w' \<Rightarrow> Inr (sw_words w'))))"

section \<open>The dump\<close>

datatype sfcd_line =
    HeaderLine u32
  | CheckpointLine u32
  | ZeroRecordsLine
  | BlockRecordLine u32 u32 u32
  | BlockTuple u32 u32 u32 u32 u32
  | BlockLine u32 u32 u32
  | SetTuple u32 u32
  | SetLine u32 u32
  | WaitTuple u32 u32
  | WaitLine u32 u32
  | BadHeaderLog u32
  | BadHeaderFile u32
  | TotalLine u32
  | BadLengthLine u64

text \<open>What the walk fills in; \<open>wk_errors\<close> holds the bad headers, whose message is \<open>err_2095\<close>.\<close>

record sfcd_walk =
  wk_total_bytes :: u32
  wk_checkpoint_index :: u32
  wk_record_count :: u32
  wk_zero_records :: bool
  wk_cursor_bytes :: nat
  wk_bad_length :: bool
  wk_bad_length_words :: u64
  wk_blocks_total :: u32
  wk_errors :: "u32 list"

definition empty_walk :: sfcd_walk where
  "empty_walk = \<lparr>wk_total_bytes = 0, wk_checkpoint_index = 0, wk_record_count = 0, wk_zero_records = False,
     wk_cursor_bytes = 0, wk_bad_length = False, wk_bad_length_words = 0, wk_blocks_total = 0, wk_errors = []\<rparr>"

definition block_lines :: "bool \<Rightarrow> u32 \<Rightarrow> u32 \<Rightarrow> u32 \<Rightarrow> u32 \<Rightarrow> sfcd_line list" where
  "block_lines verbose pool mp_cur w len =
     (let tcm_off = w AND NOT 0xf; ty = w AND 0xf
      in (if verbose then [BlockTuple pool mp_cur tcm_off len ty] else []) @ [BlockLine mp_cur tcm_off len])"

fun read_blocks ::
  "bool \<Rightarrow> u32 \<Rightarrow> nat \<Rightarrow> u32 \<Rightarrow> u32 \<Rightarrow> u32 list \<Rightarrow> (sfcd_line list \<times> u32 \<times> u32 list) option" where
  "read_blocks verbose pool 0 mp_cur tot rest = Some ([], tot, rest)"
| "read_blocks verbose pool (Suc n) mp_cur tot (w # len # rest) =
     map_option (\<lambda>(ls, t, r). (block_lines verbose pool mp_cur w len @ ls, t, r))
       (read_blocks verbose pool n (mp_cur + round_up_64 len) (tot + len) rest)"
| "read_blocks verbose pool (Suc n) mp_cur tot rest = None"

definition wait_lines :: "bool \<Rightarrow> u32 \<Rightarrow> u32 \<Rightarrow> sfcd_line list" where
  "wait_lines verbose mb_idx val = (if verbose then [WaitTuple mb_idx val] else []) @ [WaitLine mb_idx val]"

fun read_pairs :: "bool \<Rightarrow> nat \<Rightarrow> u32 list \<Rightarrow> (sfcd_line list \<times> u32 list) option" where
  "read_pairs verbose 0 rest = Some ([], rest)"
| "read_pairs verbose (Suc n) (mb_idx # val # rest) =
     map_option (\<lambda>(ls, r). (wait_lines verbose mb_idx val @ ls, r)) (read_pairs verbose n rest)"
| "read_pairs verbose (Suc n) rest = None"

fun read_singles :: "bool \<Rightarrow> nat \<Rightarrow> u32 list \<Rightarrow> (sfcd_line list \<times> u32 list) option" where
  "read_singles verbose 0 rest = Some ([], rest)"
| "read_singles verbose (Suc n) (w # rest) =
     map_option (\<lambda>(ls, r). (wait_lines verbose (w AND 0xffffff) (drop_bit 24 w) @ ls, r)) (read_singles verbose n rest)"
| "read_singles verbose (Suc n) [] = None"

datatype dump_result = BadHeader u32 | Record "sfcd_line list" u32 "u32 list"

definition dump_record :: "bool \<Rightarrow> u32 \<Rightarrow> u32 list \<Rightarrow> dump_result option" where
  "dump_record verbose tot ws =
     (case ws of
        [] \<Rightarrow> None
      | w0 # rest \<Rightarrow>
          if \<not> bit w0 31
          then (case rest of
                  [] \<Rightarrow> None
                | blob_off # rest' \<Rightarrow>
                    let pool = drop_bit 16 w0; nblocks = w0 AND 0xffff
                    in map_option (\<lambda>(ls, t, r). Record (BlockRecordLine nblocks pool blob_off # ls) t r)
                         (read_blocks verbose pool (unat nblocks) blob_off tot rest'))
          else if drop_bit 24 w0 = 0x81
          then (case rest of
                  [] \<Rightarrow> None
                | val # rest' \<Rightarrow>
                    let mb_idx = w0 AND 0xffffff
                    in Some (Record ((if verbose then [SetTuple mb_idx val] else []) @ [SetLine mb_idx val]) tot rest'))
          else if drop_bit 24 w0 = 0x80
          then map_option (\<lambda>(ls, r). Record ls tot r)
                 (if w0 AND 0x10000 \<noteq> 0 then read_pairs verbose (unat (drop_bit 1 (w0 AND 0xffff))) rest
                  else read_singles verbose (unat (w0 AND 0xffff)) rest)
          else Some (BadHeader w0))"

fun dump_records :: "bool \<Rightarrow> nat \<Rightarrow> u32 \<Rightarrow> u32 list \<Rightarrow> (sfcd_line list \<times> u32 \<times> u32 list \<times> u32 option) option" where
  "dump_records verbose 0 tot ws = Some ([], tot, ws, None)"
| "dump_records verbose (Suc n) tot ws =
     (case dump_record verbose tot ws of
        None \<Rightarrow> None
      | Some (BadHeader w0) \<Rightarrow> Some ([], tot, ws, Some w0)
      | Some (Record ls tot' ws') \<Rightarrow>
          map_option (\<lambda>(ls', t, r, b). (ls @ ls', t, r, b)) (dump_records verbose n tot' ws'))"

definition dump_sfcd :: "bool \<Rightarrow> u32 list \<Rightarrow> (sfcd_line list \<times> sfcd_walk) option" where
  "dump_sfcd verbose ws =
     (case ws of
        total_bytes # ckpt_idx # w2 # rest \<Rightarrow>
          let rec_count = w2 AND 0xffffff;
              walk = empty_walk\<lparr>wk_total_bytes := total_bytes, wk_checkpoint_index := ckpt_idx, wk_record_count := rec_count\<rparr>;
              head = HeaderLine total_bytes # (if ckpt_idx \<noteq> 0 then [CheckpointLine ckpt_idx] else [])
          in if rec_count = 0 then Some (head @ [ZeroRecordsLine], walk\<lparr>wk_zero_records := True\<rparr>)
             else map_option (\<lambda>(ls, blocks_total, rest', bad).
                    let cursor = 4 * (length ws - length rest')
                    in case bad of
                         Some w0 \<Rightarrow> (head @ ls @ [BadHeaderLog w0, BadHeaderFile w0],
                                     walk\<lparr>wk_errors := [w0], wk_cursor_bytes := cursor\<rparr>)
                       | None \<Rightarrow>
                           let walk' = walk\<lparr>wk_cursor_bytes := cursor, wk_blocks_total := blocks_total\<rparr>;
                               words = drop_bit 2 (word_of_nat cursor - (word_of_nat (unat total_bytes + 4)) :: u64)
                           in if cursor \<noteq> unat total_bytes + 4
                              then (head @ ls @ [TotalLine blocks_total, BadLengthLine words],
                                    walk'\<lparr>wk_bad_length := True, wk_bad_length_words := words\<rparr>)
                              else (head @ ls @ [TotalLine blocks_total], walk'))
                  (dump_records verbose (unat rec_count) 0 rest)
      | _ \<Rightarrow> None)"

section \<open>The text of the dump\<close>

definition digit_char :: "bool \<Rightarrow> nat \<Rightarrow> char" where
  "digit_char upper d = char_of (if d < 10 then 48 + d else if upper then 55 + d else 87 + d)"

function num_string :: "bool \<Rightarrow> nat \<Rightarrow> nat \<Rightarrow> string" where
  "num_string upper base n =
     (if base < 2 \<or> n < base then [digit_char upper n]
      else num_string upper base (n div base) @ [digit_char upper (n mod base)])"
  by pat_completeness auto
termination
  by (relation "measure (\<lambda>(upper, base, n). n)") auto

declare num_string.simps [simp del]

abbreviation dec :: "u32 \<Rightarrow> string" where "dec w \<equiv> num_string False 10 (unat w)"
abbreviation hex :: "u32 \<Rightarrow> string" where "hex w \<equiv> num_string False 16 (unat w)"
abbreviation HEX :: "u32 \<Rightarrow> string" where "HEX w \<equiv> num_string True 16 (unat w)"
abbreviation newline :: string where "newline \<equiv> [CHR 0x0A]"

definition signed_string :: "int \<Rightarrow> string" where
  "signed_string i = (if i < 0 then ''-'' @ num_string False 10 (nat (- i)) else num_string False 10 (nat i))"

definition hex8 :: "u32 \<Rightarrow> string" where
  "hex8 w = (let h = hex w in replicate (8 - length h) (CHR ''0'') @ h)"

definition line_prefix :: "bool \<Rightarrow> string" where
  "line_prefix verbose = (if verbose then ''        #'' else [])"

definition arrow :: "bool \<Rightarrow> string" where
  "arrow is_fill = (if is_fill then ''->'' else ''<-'')"

definition block_rec_fmt :: "bool \<Rightarrow> string" where
  "block_rec_fmt is_fill = (if is_fill then ''fill from'' else ''spill to'')"

definition err_2095 :: "u32 \<Rightarrow> string" where
  "err_2095 bad_hdr = ''grdep_spillfill.cc:2095::ERROR:Bad SFCD record header '' @ hex8 bad_hdr"

definition err_2095_file :: "u32 \<Rightarrow> string" where
  "err_2095_file bad_hdr = ''   !!!!  Bad SFCD record header '' @ hex8 bad_hdr"

fun render :: "string \<Rightarrow> bool \<Rightarrow> bool \<Rightarrow> sfcd_line \<Rightarrow> string" where
  "render ptr is_fill verbose (HeaderLine total_bytes) =
     line_prefix verbose @ ''---- SFCD for '' @ (if is_fill then ''fill'' else ''spill'') @ '' @ '' @ ptr @ '', '' @
     signed_string (sint total_bytes) @ '' bytes'' @ newline"
| "render ptr is_fill verbose (CheckpointLine k) =
     line_prefix verbose @ ''    checkpoint_index = '' @ signed_string (sint k) @ newline"
| "render ptr is_fill verbose ZeroRecordsLine = line_prefix verbose @ ''    ?? zero records??'' @ newline"
| "render ptr is_fill verbose (BlockRecordLine nblocks pool blob_off) =
     line_prefix verbose @ ''     '' @ dec nblocks @ '' '' @ block_rec_fmt is_fill @ '' mempool '' @ dec pool @
     '', offset 0x'' @ hex blob_off @ newline"
| "render ptr is_fill verbose (BlockTuple pool mp_cur tcm_off len ty) =
     ''        ('' @ dec pool @ '', 0x'' @ hex mp_cur @ '', 0x'' @ hex tcm_off @ '', 0x'' @ hex len @ '', 0x'' @ hex ty @
     ''),  #'' @ newline"
| "render ptr is_fill verbose (BlockLine mp_cur tcm_off len) =
     ''0x'' @ HEX mp_cur @ '' '' @ arrow is_fill @ '' tcm 0x'' @ HEX tcm_off @ ''  '' @ dec len @ '' bytes'' @ newline"
| "render ptr is_fill verbose (SetTuple mb_idx val) =
     ''        ('' @ [CHR 0x27] @ ''set_progress'' @ [CHR 0x27] @ '', '' @ dec mb_idx @ '', '' @ dec val @ ''),'' @ newline"
| "render ptr is_fill verbose (SetLine mb_idx val) =
     line_prefix verbose @ ''     set_progress: mb['' @ dec mb_idx @ ''] := '' @ signed_string (sint val) @ newline"
| "render ptr is_fill verbose (WaitTuple mb_idx val) =
     ''        ('' @ [CHR 0x27] @ ''wait_for_progress'' @ [CHR 0x27] @ '', '' @ dec mb_idx @ '', '' @ dec val @ ''),'' @ newline"
| "render ptr is_fill verbose (WaitLine mb_idx val) =
     line_prefix verbose @ '' wait for mb['' @ dec mb_idx @ ''] >= '' @ signed_string (sint val) @ newline"
| "render ptr is_fill verbose (BadHeaderLog w0) = err_2095 w0 @ newline"
| "render ptr is_fill verbose (BadHeaderFile w0) = line_prefix verbose @ err_2095_file w0 @ newline"
| "render ptr is_fill verbose (TotalLine blocks_total) =
     line_prefix verbose @ ''    ---> total 0x'' @ HEX blocks_total @ '' ('' @ dec blocks_total @ '') bytes'' @ newline"
| "render ptr is_fill verbose (BadLengthLine words) =
     line_prefix verbose @ ''    ** Bad length: '' @ signed_string (sint words) @ '' words in all'' @ newline"

definition dump_text :: "string \<Rightarrow> bool \<Rightarrow> bool \<Rightarrow> u32 list \<Rightarrow> string option" where
  "dump_text ptr is_fill verbose ws =
     map_option (\<lambda>(ls, walk). concat (map (render ptr is_fill verbose) ls)) (dump_sfcd verbose ws)"

section \<open>The tagged fields of an area\<close>

record tagged_field =
  tf_key :: string
  tf_value_tag :: int
  tf_is_string :: bool
  tf_sval :: string
  tf_uval :: u64

definition TAG_BOOL_TRUE :: u64 where "TAG_BOOL_TRUE = 0xa"
definition TAG_BOOL_FALSE :: u64 where "TAG_BOOL_FALSE = 0x9"
definition TAG_I32_DMA_CHECKPOINT :: u64 where "TAG_I32_DMA_CHECKPOINT = 0xe"

definition emit_u :: "string \<Rightarrow> u64 \<Rightarrow> int \<Rightarrow> tagged_field" where
  "emit_u key v tag = \<lparr>tf_key = key, tf_value_tag = tag, tf_is_string = False, tf_sval = [], tf_uval = v\<rparr>"

definition emit_s :: "string \<Rightarrow> string \<Rightarrow> tagged_field" where
  "emit_s key v = \<lparr>tf_key = key, tf_value_tag = 0, tf_is_string = True, tf_sval = v, tf_uval = 0\<rparr>"

definition emit_b :: "string \<Rightarrow> bool \<Rightarrow> tagged_field" where
  "emit_b key v =
     (let t = (if v then TAG_BOOL_TRUE else TAG_BOOL_FALSE)
      in \<lparr>tf_key = key, tf_value_tag = uint t, tf_is_string = False, tf_sval = [], tf_uval = t\<rparr>)"

definition record_fields :: "slc_record \<Rightarrow> tagged_field list" where
  "record_fields r =
     (if sr_rec_type r = REC_SPILLFILL
      then [emit_s ''rec_type'' ''spillfill'', emit_u ''ddr_pool'' (ucast (sr_ddr_pool r)) 0,
            emit_u ''sf_offset'' (ucast (sr_sf_offset r)) 0, emit_u ''total_copy'' (ucast (sr_total_copy r)) 0] @
           concat (map (\<lambda>c. [emit_u ''tcm_offset'' (ucast (cp_tcm_offset c)) 0, emit_u ''copy_len'' (ucast (cp_copy_len c)) 0,
                             emit_u ''cache_hints'' (ucast (cp_cache_hints c)) 0]) (sr_copies r))
      else if sr_rec_type r = REC_WAITFOR
      then emit_u ''rec_type'' (ucast REC_WAITFOR) 0 #
           concat (map (\<lambda>p. [emit_u ''mb_idx'' (ucast (we_mb_idx p)) 0, emit_u ''wait_for_val'' (ucast (we_val p)) 0]) (sr_pairs r))
      else if sr_rec_type r = REC_SETPROGRESS
      then [emit_u ''rec_type'' (ucast REC_SETPROGRESS) 0, emit_u ''mb_idx'' (ucast (sr_mb_idx r)) 0,
            emit_u ''value_to_set'' (ucast (sr_value_to_set r)) 0]
      else [])"

definition serialize_slc_area :: "slc_area \<Rightarrow> tagged_field list" where
  "serialize_slc_area area =
     [emit_s ''__area_name__'' (''SLC_spillfill_area_0x'' @ num_string False 16 (unat (sa_area_id area))),
      emit_u ''runlist_idx'' (scast (sa_runlist_idx area)) 0,
      emit_u ''memgroup_tags'' 0 0,
      emit_b ''is_fill'' (sa_is_fill area),
      emit_b ''is_multi_nsp'' (sa_is_multi_nsp area),
      emit_u ''dma_checkpoint'' (scast (sa_dma_checkpoint area)) (uint TAG_I32_DMA_CHECKPOINT),
      emit_u ''nsp_id'' (scast (sa_nsp_id area)) 0,
      emit_u ''records'' (word_of_nat (length (sa_records area))) 0] @
     concat (map record_fields (sa_records area))"

section \<open>Fields of a word\<close>

lemma small_bit:
  assumes "unat (w :: u32) < 2 ^ k" "k \<le> n"
  shows "\<not> bit w n"
proof -
  have "unat w < 2 ^ n" using assms power_increasing [of k n "2 :: nat"] by linarith
  then have "\<not> bit (unat w) n" by (simp add: bit_iff_odd)
  then show ?thesis by (simp add: bit_unsigned_iff)
qed

lemma masks:
  "(w :: u32) AND 0xffff = take_bit 16 w" "w AND 0xffffff = take_bit 24 w" "w AND 0xf = take_bit 4 w"
  by (simp_all add: take_bit_eq_mask mask_eq_exp_minus_1)

lemma unat_word_of_nat: "n < 2 ^ 32 \<Longrightarrow> unat (word_of_nat n :: u32) = n"
  by (simp add: unat_of_nat take_bit_nat_eq_self)

lemma join_low: "unat b < 2 ^ k \<Longrightarrow> take_bit k (push_bit k a OR b) = (b :: u32)"
  by (rule bit_word_eqI) (use small_bit [of b k] in \<open>auto simp: bit_simps not_less\<close>)

lemma join_high:
  assumes "unat b < 2 ^ k" "unat a < 2 ^ m" "k + m \<le> 32"
  shows "drop_bit k (push_bit k a OR b) = (a :: u32)"
proof (rule bit_word_eqI)
  fix n assume "n < LENGTH(32)"
  show "bit (drop_bit k (push_bit k a OR b)) n = bit a n"
    using assms small_bit [of b k "k + n"] small_bit [of a m n] by (cases "m \<le> n") (auto simp: bit_simps)
qed

lemma top_bit: "bit (w :: u32) 31 \<longleftrightarrow> bit (drop_bit 24 w) 7"
  by (simp add: bit_drop_bit_eq)

lemma flag_bit: "(w :: u32) AND 0x10000 \<noteq> 0 \<longleftrightarrow> bit w 16"
proof -
  have "(0x10000 :: u32) = push_bit 16 1" by (simp add: push_bit_eq_mult)
  then show ?thesis by (simp only: bit_iff_and_push_bit_not_eq_0)
qed

lemma unat_le_mask: "(w :: u32) \<le> 0xffffff \<Longrightarrow> unat w < 2 ^ 24" "w \<le> 0x7fff \<Longrightarrow> unat w < 2 ^ 15" "w \<le> 0xff \<Longrightarrow> unat w < 2 ^ 8"
  by (simp_all add: word_le_nat_alt)

lemma block_header:
  assumes "pool \<le> 0x7fff" "n \<le> 0xffff"
  defines "w \<equiv> push_bit 16 pool OR word_of_nat n :: u32"
  shows "\<not> bit w 31" "drop_bit 16 w = pool" "w AND 0xffff = word_of_nat n"
proof -
  have n: "unat (word_of_nat n :: u32) < 2 ^ 16" using assms(2) by (subst unat_word_of_nat) auto
  show "drop_bit 16 w = pool"
    unfolding w_def by (rule join_high [OF n unat_le_mask(2) [OF assms(1)]]) simp
  show "w AND 0xffff = word_of_nat n" unfolding w_def masks by (rule join_low [OF n])
  show "\<not> bit w 31"
    using small_bit [OF n, of 31] small_bit [OF unat_le_mask(2) [OF assms(1)], of 15]
    by (simp add: w_def bit_simps)
qed

lemma progress_header:
  assumes "mb \<le> (0xffffff :: u32)"
  shows "drop_bit 24 (0x81000000 OR mb) = 0x81" "(0x81000000 OR mb) AND 0xffffff = mb"
proof -
  have e: "(0x81000000 :: u32) = push_bit 24 0x81" by (simp add: push_bit_eq_mult)
  show "drop_bit 24 (0x81000000 OR mb) = 0x81"
    unfolding e by (rule join_high [OF unat_le_mask(1) [OF assms], of _ 8]) simp_all
  show "(0x81000000 OR mb) AND 0xffffff = mb"
    unfolding e masks by (rule join_low [OF unat_le_mask(1) [OF assms]])
qed

lemma wait_top: "unat (x :: u32) < 2 ^ 24 \<Longrightarrow> drop_bit 24 (0x80000000 OR x) = 0x80"
proof -
  assume x: "unat x < 2 ^ 24"
  have "(0x80000000 :: u32) = push_bit 24 0x80" by (simp add: push_bit_eq_mult)
  then show ?thesis using join_high [OF x, of "0x80" 8] by simp
qed

lemma mark_bits: "bit (0x80000000 :: u32) n \<longleftrightarrow> n = 31" "bit (0x10000 :: u32) n \<longleftrightarrow> n = 16" "bit (0x80 :: u32) n \<longleftrightarrow> n = 7"
proof -
  have "(0x80000000 :: u32) = 2 ^ 31" "(0x10000 :: u32) = 2 ^ 16" "(0x80 :: u32) = 2 ^ 7" by simp_all
  then show "bit (0x80000000 :: u32) n \<longleftrightarrow> n = 31" "bit (0x10000 :: u32) n \<longleftrightarrow> n = 16" "bit (0x80 :: u32) n \<longleftrightarrow> n = 7"
    by (auto simp only: bit_exp_iff) auto
qed

lemma wait_low: "k \<le> 31 \<Longrightarrow> take_bit k (0x80000000 OR x) = take_bit k (x :: u32)"
  by (rule bit_word_eqI) (simp only: bit_take_bit_iff bit_or_iff mark_bits, auto)

lemma narrow_header_fields:
  assumes "n \<le> 0xffff"
  shows "drop_bit 24 (narrow_header n) = 0x80" "narrow_header n AND 0x10000 = 0" "narrow_header n AND 0xffff = word_of_nat n"
proof -
  have u: "unat (word_of_nat n :: u32) = n" using assms by (intro unat_word_of_nat) simp
  show "drop_bit 24 (narrow_header n) = 0x80" unfolding narrow_header_def by (rule wait_top) (use u assms in simp)
  have "(0x80000000 :: u32) = push_bit 31 1" by (simp add: push_bit_eq_mult)
  moreover have "\<not> bit (word_of_nat n :: u32) 16" using u assms by (intro small_bit [of _ 16]) simp_all
  ultimately have "\<not> bit (narrow_header n) 16" by (simp add: narrow_header_def bit_simps)
  then show "narrow_header n AND 0x10000 = 0" using flag_bit by blast
  have "take_bit 16 (narrow_header n) = take_bit 16 (word_of_nat n)"
    unfolding narrow_header_def by (rule wait_low) simp
  also have "\<dots> = word_of_nat n"
    using u assms by (simp add: word_unat_eq_iff unsigned_take_bit_eq take_bit_nat_eq_self)
  finally show "narrow_header n AND 0xffff = word_of_nat n" by (simp only: masks)
qed

lemma narrow_entry_fields:
  assumes "narrow_ok p"
  shows "(push_bit 24 (we_val p) OR we_mb_idx p) AND 0xffffff = we_mb_idx p"
    "drop_bit 24 (push_bit 24 (we_val p) OR we_mb_idx p) = we_val p"
proof -
  have m: "unat (we_mb_idx p) < 2 ^ 24" and v: "unat (we_val p) < 2 ^ 8"
    using assms by (simp_all only: narrow_ok_def de_Morgan_disj not_less unat_le_mask)
  show "(push_bit 24 (we_val p) OR we_mb_idx p) AND 0xffffff = we_mb_idx p"
    unfolding masks by (rule join_low [OF m])
  show "drop_bit 24 (push_bit 24 (we_val p) OR we_mb_idx p) = we_val p" by (rule join_high [OF m v]) simp
qed

lemma wide_header_fields:
  assumes "n \<le> 0x7fff"
  shows "drop_bit 24 (wide_header n) = 0x80" "wide_header n AND 0x10000 \<noteq> 0"
    "unat (drop_bit 1 (wide_header n AND 0xffff)) = n"
proof -
  define c :: u32 where "c = word_of_nat n"
  have u: "unat c = n" unfolding c_def using assms by (intro unat_word_of_nat) simp
  have c: "\<not> bit c k" if "15 \<le> k" for k using u assms that by (intro small_bit [of _ 15]) simp_all
  have c': "bit c k \<Longrightarrow> k < 15" for k using c [of k] by (cases "k < 15") simp_all
  have b: "bit (wide_header n) k \<longleftrightarrow> k = 31 \<or> k = 16 \<or> (1 \<le> k \<and> bit c (k - 1))" if "k < 32" for k
    using that by (simp only: wide_header_def c_def [symmetric] bit_or_iff mark_bits bit_push_bit_iff) auto
  have b': "\<not> bit (wide_header n) k" if "\<not> k < 32" for k using that bit_imp_le_length by fastforce
  have b2: "bit c k \<Longrightarrow> bit (wide_header n) (Suc k)" for k using c' [of k] by (simp add: b)
  show "drop_bit 24 (wide_header n) = 0x80"
  proof (rule bit_word_eqI)
    fix k assume "k < LENGTH(32)"
    show "bit (drop_bit 24 (wide_header n)) k = bit (0x80 :: u32) k"
      unfolding mark_bits by (cases "24 + k < 32") (auto simp: bit_drop_bit_eq b b' c)
  qed
  show "wide_header n AND 0x10000 \<noteq> 0" unfolding flag_bit by (simp add: b)
  have "drop_bit 1 (wide_header n AND 0xffff) = c"
    unfolding masks by (rule bit_word_eqI) (auto simp: bit_drop_bit_eq bit_take_bit_iff b b2 dest: c')
  then show "unat (drop_bit 1 (wide_header n AND 0xffff)) = n" by (simp add: u)
qed

section \<open>What a record says\<close>

text \<open>The lines of a record, independent of the words that carry it: the copies after merging at a mempool
cursor that moves by their length rounded up to 64 bytes; the waits in order, whatever their form.\<close>

fun copies_lines :: "bool \<Rightarrow> u32 \<Rightarrow> u32 \<Rightarrow> slc_copy list \<Rightarrow> sfcd_line list" where
  "copies_lines verbose pool cursor [] = []"
| "copies_lines verbose pool cursor (c # cs) =
     (if verbose then [BlockTuple pool cursor (cp_tcm_offset c) (cp_copy_len c) 0] else []) @
     BlockLine cursor (cp_tcm_offset c) (cp_copy_len c) #
     copies_lines verbose pool (cursor + round_up_64 (cp_copy_len c)) cs"

definition waits_lines :: "bool \<Rightarrow> wait_entry list \<Rightarrow> sfcd_line list" where
  "waits_lines verbose ps = concat (map (\<lambda>p. wait_lines verbose (we_mb_idx p) (we_val p)) ps)"

definition record_lines :: "bool \<Rightarrow> slc_record \<Rightarrow> sfcd_line list" where
  "record_lines verbose r =
     (if sr_rec_type r = REC_SPILLFILL
      then let cs = sfcd_finalize_copies (sr_copies r)
           in BlockRecordLine (word_of_nat (length cs)) (sr_ddr_pool r) (sr_sf_offset r) #
              copies_lines verbose (sr_ddr_pool r) (sr_sf_offset r) cs
      else if sr_rec_type r = REC_WAITFOR then waits_lines verbose (sr_pairs r)
      else (if verbose then [SetTuple (sr_mb_idx r) (sr_value_to_set r)] else []) @ [SetLine (sr_mb_idx r) (sr_value_to_set r)])"

definition copies_bytes :: "slc_copy list \<Rightarrow> u32" where
  "copies_bytes cs = sum_list (map cp_copy_len cs)"

definition record_bytes :: "slc_record \<Rightarrow> u32" where
  "record_bytes r = (if sr_rec_type r = REC_SPILLFILL then copies_bytes (sr_copies r) else 0)"

definition chunk_number :: "nat \<Rightarrow> nat \<Rightarrow> nat" where
  "chunk_number n chunk = (n + chunk - 1) div chunk"

definition outer_records :: "slc_record \<Rightarrow> nat" where
  "outer_records r =
     (if sr_rec_type r = REC_WAITFOR
      then chunk_number (length (sr_pairs r)) (if list_all narrow_ok (sr_pairs r) then 0xffff else 0x7fff)
      else 1)"

lemma chunk_number_0 [simp]: "0 < chunk \<Longrightarrow> chunk_number 0 chunk = 0"
  by (simp add: chunk_number_def)

lemma chunk_number_step: "0 < chunk \<Longrightarrow> 0 < n \<Longrightarrow> chunk_number n chunk = Suc (chunk_number (n - chunk) chunk)"
proof -
  assume c: "0 < chunk" and n: "0 < n"
  have "n + chunk - 1 = (n - 1) + chunk" using n by simp
  then have "chunk_number n chunk = Suc ((n - 1) div chunk)" using c by (simp only: chunk_number_def div_add_self2)
  moreover have "(n - 1) div chunk = chunk_number (n - chunk) chunk"
    using c by (cases "n \<le> chunk") (auto simp: chunk_number_def)
  ultimately show ?thesis by simp
qed

section \<open>Merging\<close>

lemma merge_copies_bytes: "copies_bytes (merge_copies out cs) = copies_bytes out + copies_bytes cs"
proof (induction out cs rule: merge_copies.induct)
  case (2 out c cs)
  show ?case
  proof (cases "out = []")
    case False
    then have "copies_bytes out = copies_bytes (butlast out) + cp_copy_len (last out)"
      by (metis (no_types, lifting) add.right_neutral append_butlast_last_id copies_bytes_def list.simps(8,9) map_append
          sum_list.Cons sum_list.Nil sum_list_append)
    with 2 show ?thesis by (auto simp: copies_bytes_def algebra_simps)
  qed (use 2 in \<open>auto simp: copies_bytes_def algebra_simps\<close>)
qed (simp add: copies_bytes_def)

lemma merge_copies_length: "length (merge_copies out cs) \<le> length out + length cs"
proof (induction out cs rule: merge_copies.induct)
  case (2 out c cs)
  then show ?case by (cases out) (auto split: if_splits)
qed simp

lemma merge_copies_offsets:
  "list_all (\<lambda>c. P (cp_tcm_offset c)) (out @ cs) \<Longrightarrow> list_all (\<lambda>c. P (cp_tcm_offset c)) (merge_copies out cs)"
proof (induction out cs rule: merge_copies.induct)
  case (2 out c cs)
  have "P (cp_tcm_offset (last out))" "list_all (\<lambda>c. P (cp_tcm_offset c)) (butlast out)" if "out \<noteq> []"
    using 2(3) that by (auto simp: list_all_iff dest: in_set_butlastD)
  with 2 show ?case by auto
qed simp

section \<open>Reading back\<close>

text \<open>\<open>parses verbose k ws ls b\<close>: the words are \<open>k\<close> records, which print as \<open>ls\<close> and add \<open>b\<close> bytes to the total.\<close>

definition parses :: "bool \<Rightarrow> nat \<Rightarrow> u32 list \<Rightarrow> sfcd_line list \<Rightarrow> u32 \<Rightarrow> bool" where
  "parses verbose k ws ls b \<longleftrightarrow> (\<forall>tot rest. dump_records verbose k tot (ws @ rest) = Some (ls, tot + b, rest, None))"

lemma parses_nil [simp]: "parses verbose 0 [] [] 0"
  by (simp add: parses_def)

lemma parses_cons:
  assumes "\<And>tot rest. dump_record verbose tot (ws @ rest) = Some (Record ls (tot + b) rest)" "parses verbose k ws' ls' b'"
  shows "parses verbose (Suc k) (ws @ ws') (ls @ ls') (b + b')"
  using assms by (auto simp: parses_def add.assoc)

lemma dump_records_add:
  assumes "dump_records verbose k tot ws = Some (ls, tot', ws', None)"
  shows "dump_records verbose (k + m) tot ws = map_option (\<lambda>(ls', r). (ls @ ls', r)) (dump_records verbose m tot' ws')"
  using assms
proof (induction k arbitrary: tot ws ls)
  case 0
  then show ?case by (simp add: option.map_id0 [unfolded id_def] case_prod_unfold)
next
  case (Suc k)
  from Suc.prems obtain l t w ls1 where
    r: "dump_record verbose tot ws = Some (Record l t w)" "dump_records verbose k t w = Some (ls1, tot', ws', None)" "ls = l @ ls1"
    by (auto split: option.splits dump_result.splits)
  show ?case using Suc.IH [OF r(2)] r(1,3) by (simp add: option.map_comp comp_def case_prod_unfold)
qed

lemma parses_append:
  assumes "parses verbose k ws ls b" "parses verbose k' ws' ls' b'"
  shows "parses verbose (k + k') (ws @ ws') (ls @ ls') (b + b')"
proof -
  have "dump_records verbose (k + k') tot ((ws @ ws') @ rest) = Some (ls @ ls', tot + (b + b'), rest, None)" for tot rest
    using dump_records_add [of verbose k tot "ws @ ws' @ rest" ls "tot + b" "ws' @ rest" k'] assms
    by (simp add: parses_def add.assoc)
  then show ?thesis by (simp add: parses_def)
qed

lemma parses_single:
  "(\<And>tot rest. dump_record verbose tot (ws @ rest) = Some (Record ls (tot + b) rest)) \<Longrightarrow> parses verbose 1 ws ls b"
  using parses_cons [of verbose ws ls b 0 "[]" "[]" 0] by simp

subsection \<open>Waits\<close>

text \<open>Both forms of a wait record promise the same: a header for up to \<open>cap\<close> entries followed by their words
reads back as the entries.\<close>

locale wait_form =
  fixes cap :: nat and header :: "nat \<Rightarrow> u32" and enc :: "wait_entry \<Rightarrow> u32 list" and ok :: "wait_entry \<Rightarrow> bool"
  assumes cap_pos: "0 < cap"
    and read_form: "\<lbrakk>length ps \<le> cap; list_all ok ps\<rbrakk> \<Longrightarrow>
          dump_record verbose tot (header (length ps) # concat (map enc ps) @ rest) = Some (Record (waits_lines verbose ps) tot rest)"
begin

lemma chunks_parse:
  assumes "list_all ok ps"
  shows "\<exists>body. write_chunks cap header enc ps w =
             w\<lparr>sw_words := sw_words w @ body, sw_records := sw_records w + word_of_nat (chunk_number (length ps) cap)\<rparr> \<and>
           parses verbose (chunk_number (length ps) cap) body (waits_lines verbose ps) 0"
  using assms
proof (induction "length ps" arbitrary: ps w rule: less_induct)
  case less
  show ?case
  proof (cases "ps = []")
    case True
    then show ?thesis
      using cap_pos by (intro exI [of _ "[]"]) (simp add: write_chunks.simps chunk_number_def waits_lines_def)
  next
    case False
    define now where "now = take cap ps"
    define rec where "rec = header (length now) # concat (map enc now)"
    have ok: "list_all ok now" "list_all ok (drop cap ps)"
      using less.prems by (auto simp: now_def list_all_iff dest: in_set_takeD in_set_dropD)
    have "length (drop cap ps) < length ps" using False cap_pos by simp
    from less.hyps [OF this ok(2), of "w\<lparr>sw_words := sw_words w @ rec, sw_records := sw_records w + 1\<rparr>"] obtain body where
      body: "write_chunks cap header enc (drop cap ps) (w\<lparr>sw_words := sw_words w @ rec, sw_records := sw_records w + 1\<rparr>) =
        w\<lparr>sw_words := sw_words w @ rec @ body,
          sw_records := sw_records w + 1 + word_of_nat (chunk_number (length (drop cap ps)) cap)\<rparr>"
        "parses verbose (chunk_number (length (drop cap ps)) cap) body (waits_lines verbose (drop cap ps)) 0"
      by auto
    have num: "chunk_number (length ps) cap = Suc (chunk_number (length (drop cap ps)) cap)"
      using False cap_pos by (simp add: chunk_number_step)
    have "parses verbose 1 rec (waits_lines verbose now) 0"
      using read_form [OF _ ok(1)] by (intro parses_single) (simp add: rec_def now_def)
    from parses_append [OF this body(2)]
    have "parses verbose (chunk_number (length ps) cap) (rec @ body) (waits_lines verbose ps) 0"
      by (simp add: num waits_lines_def now_def flip: concat_append map_append)
    moreover have "write_chunks cap header enc ps w =
       w\<lparr>sw_words := sw_words w @ rec @ body, sw_records := sw_records w + word_of_nat (chunk_number (length ps) cap)\<rparr>"
      using False cap_pos body(1) by (subst write_chunks.simps) (simp add: num rec_def now_def Let_def add.assoc)
    ultimately show ?thesis by blast
  qed
qed

end

lemma read_singles_narrow:
  "list_all narrow_ok ps \<Longrightarrow>
     read_singles verbose (length ps) (concat (map narrow_words ps) @ rest) = Some (waits_lines verbose ps, rest)"
  by (induction ps) (auto simp: narrow_words_def narrow_entry_fields waits_lines_def simp del: drop_bit_or)

lemma read_pairs_wide:
  "read_pairs verbose (length ps) (concat (map wide_words ps) @ rest) = Some (waits_lines verbose ps, rest)"
  by (induction ps) (auto simp: wide_words_def waits_lines_def)

interpretation narrow: wait_form "0xffff" narrow_header narrow_words narrow_ok
proof unfold_locales
  fix ps verbose tot rest
  assume ps: "length ps \<le> 0xffff" "list_all narrow_ok ps"
  note f = narrow_header_fields [OF ps(1)]
  have "unat (word_of_nat (length ps) :: u32) = length ps" using ps(1) by (intro unat_word_of_nat) simp
  then show "dump_record verbose tot (narrow_header (length ps) # concat (map narrow_words ps) @ rest) =
      Some (Record (waits_lines verbose ps) tot rest)"
    using read_singles_narrow [OF ps(2), of verbose rest] by (simp add: dump_record_def top_bit f)
qed simp

interpretation wide: wait_form "0x7fff" wide_header wide_words "\<lambda>_. True"
proof unfold_locales
  fix ps :: "wait_entry list" and verbose tot rest
  assume ps: "length ps \<le> 0x7fff"
  note f = wide_header_fields [OF ps]
  have t: "bit (wide_header (length ps)) 31" by (simp add: top_bit f)
  show "dump_record verbose tot (wide_header (length ps) # concat (map wide_words ps) @ rest) =
      Some (Record (waits_lines verbose ps) tot rest)"
    using t read_pairs_wide [of verbose ps rest] by (simp add: dump_record_def f del: drop_bit_and One_nat_def)
qed simp

lemma write_waits_parse:
  "\<exists>body. write_waits ps w = w\<lparr>sw_words := sw_words w @ body,
             sw_records := sw_records w + word_of_nat (chunk_number (length ps) (if list_all narrow_ok ps then 0xffff else 0x7fff))\<rparr> \<and>
           parses verbose (chunk_number (length ps) (if list_all narrow_ok ps then 0xffff else 0x7fff)) body (waits_lines verbose ps) 0"
  using narrow.chunks_parse [of ps w verbose] wide.chunks_parse [of ps w verbose]
  by (cases "list_all narrow_ok ps") (simp_all add: write_waits_def list.pred_True)

subsection \<open>Copies and progress\<close>

lemma aligned_fields:
  assumes "(x :: u32) AND 0xf = 0"
  shows "(x OR 0) AND NOT 0xf = x" "(x OR 0) AND 0xf = 0"
proof -
  have "x = (x AND 0xf) OR (x AND NOT 0xf)" by (rule bit_word_eqI) (auto simp: bit_simps)
  with assms show "(x OR 0) AND NOT 0xf = x" by simp
qed (use assms in simp)

definition aligned :: "slc_copy \<Rightarrow> bool" where
  "aligned c \<longleftrightarrow> cp_tcm_offset c AND 0xf = 0"

definition copy_words :: "slc_copy \<Rightarrow> u32 list" where
  "copy_words c = [cp_tcm_offset c OR 0, cp_copy_len c]"

lemma read_blocks_copies:
  "list_all aligned cs \<Longrightarrow>
     read_blocks verbose pool (length cs) cursor tot (concat (map copy_words cs) @ rest) =
       Some (copies_lines verbose pool cursor cs, tot + copies_bytes cs, rest)"
proof (induction cs arbitrary: cursor tot)
  case (Cons c cs)
  then have "cp_tcm_offset c AND 0xf = 0" by (simp add: aligned_def)
  from aligned_fields [OF this] Cons show ?case
    by (simp add: copy_words_def block_lines_def copies_bytes_def add.assoc Let_def)
qed (simp add: copies_bytes_def)

lemma push_copies_ok:
  assumes "sw_open_rec w = Some r" "list_all aligned cs" "unat (sw_open_blocks w) + length cs \<le> 0xffff"
  shows "push_copies cs w = Inr (w\<lparr>sw_words := sw_words w @ concat (map copy_words cs),
                                   sw_open_blocks := sw_open_blocks w + word_of_nat (length cs)\<rparr>)"
  using assms
proof (induction cs arbitrary: w)
  case (Cons c cs)
  let ?w = "w\<lparr>sw_words := sw_words w @ copy_words c, sw_open_blocks := sw_open_blocks w + 1\<rparr>"
  have lt: "unat (sw_open_blocks w) < 0xffff" using Cons.prems(3) by simp
  then have "sw_open_blocks w \<noteq> 0xffff" by auto
  with Cons.prems have "push_block_entry (cp_tcm_offset c) 0 (cp_copy_len c) w = Inr ?w"
    by (simp add: push_block_entry_def aligned_def copy_words_def)
  moreover have "unat (sw_open_blocks w + 1) = unat (sw_open_blocks w) + 1"
    using lt by (simp add: unat_word_ariths)
  ultimately show ?case using Cons.IH [of ?w] Cons.prems by (simp add: add.assoc)
qed simp

text \<open>Between two records nothing is open, and the words after the header parse as what was written so far.\<close>

definition written :: "bool \<Rightarrow> nat \<Rightarrow> sfcd_line list \<Rightarrow> u32 \<Rightarrow> sfcd_writer \<Rightarrow> bool" where
  "written verbose k ls b w \<longleftrightarrow> sw_open_rec w = None \<and> sw_records w = word_of_nat k \<and>
     (\<exists>body. sw_words w = [0, 0, 0] @ body \<and> parses verbose k body ls b)"

lemma writtenI:
  assumes "written verbose k ls b w" "parses verbose k' body ls' b'"
    and "sw_words w' = sw_words w @ body" "sw_open_rec w' = None" "sw_records w' = sw_records w + word_of_nat k'"
  shows "written verbose (k + k') (ls @ ls') (b + b') w'"
proof -
  from assms(1) obtain body0 where "sw_words w = [0, 0, 0] @ body0" "parses verbose k body0 ls b" by (auto simp: written_def)
  with parses_append [OF this(2) assms(2)] assms(1,3-5) show ?thesis by (auto simp: written_def)
qed

definition writable :: "slc_record \<Rightarrow> bool" where
  "writable r \<longleftrightarrow> record_check r = None"

lemma writable_copies:
  assumes "writable r" "sr_rec_type r = REC_SPILLFILL"
  defines "cs \<equiv> sfcd_finalize_copies (sr_copies r)"
  shows "list_all aligned cs" "length cs \<le> 0xffff" "sr_ddr_pool r \<le> 0x7fff" "copies_bytes cs = copies_bytes (sr_copies r)"
proof -
  from assms(1,2) have w: "sr_ddr_pool r \<le> 0x7fff" "length (sr_copies r) \<le> 0xffff" "list_all aligned (sr_copies r)"
    by (auto simp: writable_def record_check_def find_None_iff aligned_def list_all_iff split: if_splits)
  then show "sr_ddr_pool r \<le> 0x7fff" by simp
  show "list_all aligned cs"
    using merge_copies_offsets [of "\<lambda>x. x AND 0xf = 0" "[]" "sr_copies r"] w(3)
    by (simp add: cs_def sfcd_finalize_copies_def aligned_def [abs_def])
  show "length cs \<le> 0xffff"
    using merge_copies_length [of "[]" "sr_copies r"] w(2) by (simp add: cs_def sfcd_finalize_copies_def)
  show "copies_bytes cs = copies_bytes (sr_copies r)"
    by (simp add: cs_def sfcd_finalize_copies_def merge_copies_bytes) (simp add: copies_bytes_def)
qed

definition block_words :: "u32 \<Rightarrow> u32 \<Rightarrow> slc_copy list \<Rightarrow> u32 list" where
  "block_words pool blob_off cs = (push_bit 16 pool OR word_of_nat (length cs)) # blob_off # concat (map copy_words cs)"

lemma block_words_parse:
  assumes "list_all aligned cs" "length cs \<le> 0xffff" "pool \<le> 0x7fff"
  shows "parses verbose 1 (block_words pool blob_off cs)
           (BlockRecordLine (word_of_nat (length cs)) pool blob_off # copies_lines verbose pool blob_off cs) (copies_bytes cs)"
proof (rule parses_single)
  fix tot rest
  have u: "unat (word_of_nat (length cs) :: u32) = length cs" using assms(2) by (intro unat_word_of_nat) simp
  note f = block_header [OF assms(3,2)]
  show "dump_record verbose tot (block_words pool blob_off cs @ rest) =
      Some (Record (BlockRecordLine (word_of_nat (length cs)) pool blob_off # copies_lines verbose pool blob_off cs) (tot + copies_bytes cs) rest)"
    by (simp add: dump_record_def block_words_def f u read_blocks_copies [OF assms(1)] Let_def del: drop_bit_or)
qed

lemma write_block_record:
  assumes "sw_open_rec w = None" "writable r" "sr_rec_type r = REC_SPILLFILL"
  defines "cs \<equiv> sfcd_finalize_copies (sr_copies r)"
  shows "write_record r w = Inr (w\<lparr>sw_words := sw_words w @ block_words (sr_ddr_pool r) (sr_sf_offset r) cs,
           sw_open_rec := None, sw_open_blocks := 0, sw_records := sw_records w + 1\<rparr>)"
proof -
  note c = writable_copies [OF assms(2,3), folded cs_def]
  let ?w = "w\<lparr>sw_open_rec := Some (length (sw_words w)), sw_open_blocks := 0, sw_words := sw_words w @ [0, sr_sf_offset r]\<rparr>"
  have "push_copies cs ?w = Inr (?w\<lparr>sw_words := sw_words ?w @ concat (map copy_words cs),
      sw_open_blocks := sw_open_blocks ?w + word_of_nat (length cs)\<rparr>)"
    by (rule push_copies_ok) (use c in simp_all)
  then show ?thesis
    using assms(1,3) c(3)
    by (simp add: write_record_def begin_block_record_def end_block_record_def cs_def [symmetric] block_words_def list_update_append not_less Let_def)
qed

lemma write_record_written:
  assumes "written verbose k ls b w" "writable r"
  shows "\<exists>w'. write_record r w = Inr w' \<and> written verbose (k + outer_records r) (ls @ record_lines verbose r) (b + record_bytes r) w'"
proof -
  have o: "sw_open_rec w = None" using assms(1) by (simp add: written_def)
  from assms(2) consider "sr_rec_type r = REC_SPILLFILL" | "sr_rec_type r = REC_WAITFOR"
    | "sr_rec_type r = REC_SETPROGRESS" "sr_mb_idx r \<le> 0xffffff"
    by (auto simp: writable_def record_check_def not_less split: if_splits)
  then show ?thesis
  proof cases
    case 1
    note c = writable_copies [OF assms(2) 1]
    have n: "sr_rec_type r \<noteq> REC_WAITFOR" using 1 by (simp add: REC_SPILLFILL_def REC_WAITFOR_def)
    show ?thesis
      unfolding write_block_record [OF o assms(2) 1]
      using writtenI [OF assms(1) block_words_parse [OF c(1-3), of verbose "sr_sf_offset r"]] 1 n c(4)
      by (simp add: outer_records_def record_lines_def record_bytes_def Let_def)
  next
    case 2
    have n: "sr_rec_type r \<noteq> REC_SPILLFILL" using 2 by (simp add: REC_SPILLFILL_def REC_WAITFOR_def)
    obtain body where
      "write_waits (sr_pairs r) w = w\<lparr>sw_words := sw_words w @ body, sw_records := sw_records w + word_of_nat (outer_records r)\<rparr>"
      "parses verbose (outer_records r) body (waits_lines verbose (sr_pairs r)) 0"
      using write_waits_parse [of "sr_pairs r" w verbose] 2 by (auto simp: outer_records_def)
    with writtenI [OF assms(1) this(2)] o 2 n show ?thesis
      by (auto simp: write_record_def record_lines_def record_bytes_def)
  next
    case 3
    note f = progress_header [OF 3(2)]
    have n: "sr_rec_type r \<noteq> REC_SPILLFILL" "sr_rec_type r \<noteq> REC_WAITFOR"
      using 3 by (simp_all add: REC_SPILLFILL_def REC_WAITFOR_def REC_SETPROGRESS_def)
    have t: "bit (0x81000000 OR sr_mb_idx r) 31" unfolding top_bit f(1) by simp
    have "parses verbose 1 [0x81000000 OR sr_mb_idx r, sr_value_to_set r] (record_lines verbose r) 0"
      using n f t by (intro parses_single) (simp add: dump_record_def record_lines_def Let_def del: drop_bit_or)
    from writtenI [OF assms(1) this] o 3 n show ?thesis
      by (auto simp: write_record_def write_set_progress_def not_less outer_records_def record_bytes_def)
  qed
qed

lemma write_records_written:
  assumes "written verbose k ls b w" "list_all writable rs"
  shows "\<exists>w'. write_records rs w = Inr w' \<and>
     written verbose (k + sum_list (map outer_records rs)) (ls @ concat (map (record_lines verbose) rs)) (b + sum_list (map record_bytes rs)) w'"
  using assms
proof (induction rs arbitrary: w k ls b)
  case (Cons r rs)
  then obtain w1 where "write_record r w = Inr w1"
    "written verbose (k + outer_records r) (ls @ record_lines verbose r) (b + record_bytes r) w1"
    using write_record_written [of verbose k ls b w r] by auto
  with Cons.IH [OF this(2)] Cons.prems(2) show ?case by (auto simp: add.assoc)
qed simp

lemma written_init: "written verbose 0 [] 0 sfcd_writer_init"
  by (simp add: written_def sfcd_writer_init_def)

lemma mgroup_check_from_None: "mgroup_check_from i rs = None \<longleftrightarrow> list_all writable rs"
  by (induction rs arbitrary: i) (auto simp: writable_def split: option.splits)

lemma mgroup_check_from_Some:
  "mgroup_check_from i rs = Some (m, e) \<Longrightarrow>
     i \<le> m \<and> m - i < length rs \<and> record_check (rs ! (m - i)) = Some e \<and>
     list_all (\<lambda>r. record_check r = None) (take (m - i) rs)"
proof (induction rs arbitrary: i)
  case (Cons r rs)
  show ?case
  proof (cases "record_check r")
    case None
    with Cons.prems Cons.IH [of "Suc i"]
    have *: "Suc i \<le> m" "m - Suc i < length rs" "record_check (rs ! (m - Suc i)) = Some e"
      "list_all (\<lambda>r. record_check r = None) (take (m - Suc i) rs)" by auto
    then have "m - i = Suc (m - Suc i)" by simp
    with * None show ?thesis by simp
  qed (use Cons.prems in auto)
qed simp

lemma construct_sfcd_written:
  assumes "list_all writable (sa_records area)"
  shows "\<exists>body. construct_sfcd area =
           Inr (word_of_nat (4 * length body + 8) # sa_dma_checkpoint area #
                (word_of_nat (sum_list (map outer_records (sa_records area))) AND 0xffffff) # body) \<and>
         parses verbose (sum_list (map outer_records (sa_records area))) body
           (concat (map (record_lines verbose) (sa_records area))) (sum_list (map record_bytes (sa_records area)))"
proof -
  obtain w body where w: "write_records (sa_records area) sfcd_writer_init = Inr w" "sw_open_rec w = None"
    "sw_records w = word_of_nat (sum_list (map outer_records (sa_records area)))" "sw_words w = [0, 0, 0] @ body"
    and p: "parses verbose (sum_list (map outer_records (sa_records area))) body
      (concat (map (record_lines verbose) (sa_records area))) (sum_list (map record_bytes (sa_records area)))"
    using write_records_written [OF written_init assms, of verbose] by (auto simp: written_def)
  have "fill_mgroup_check area = None" using assms by (simp add: fill_mgroup_check_def mgroup_check_from_None)
  with w have "construct_sfcd area = Inr (word_of_nat (4 * length body + 8) # sa_dma_checkpoint area #
      (word_of_nat (sum_list (map outer_records (sa_records area))) AND 0xffffff) # body)"
    by (simp add: construct_sfcd_def finish_header_def)
  with p show ?thesis by blast
qed

section \<open>Properties of the control data\<close>

text \<open>C21: Construction fails only in the check before writing, with its first refused record; every area that passes
is written, since no call of the writer throws: merging keeps the number of copies within a block record and their
offsets aligned, and waits are cut into records that their header can count.\<close>

theorem construct_sfcd_errors:
  "case fill_mgroup_check area of
     Some (i, e) \<Rightarrow> construct_sfcd area = Inl (MgroupCheck i e) \<and>
                    i < length (sa_records area) \<and> record_check (sa_records area ! i) = Some e \<and>
                    list_all (\<lambda>r. record_check r = None) (take i (sa_records area))
   | None \<Rightarrow> (\<exists>ws. construct_sfcd area = Inr ws)"
proof (cases "fill_mgroup_check area")
  case None
  then have "list_all writable (sa_records area)" by (simp add: fill_mgroup_check_def mgroup_check_from_None)
  from construct_sfcd_written [OF this] None show ?thesis by auto
next
  case (Some x)
  then show ?thesis
    using mgroup_check_from_Some [of 0 "sa_records area" "fst x" "snd x"]
    by (cases x) (auto simp: fill_mgroup_check_def construct_sfcd_def)
qed

lemma dump_sfcd_good:
  assumes "cnt AND 0xffffff = cnt" "cnt \<noteq> 0" "dump_records verbose (unat cnt) 0 body = Some (ls, b, [], None)"
    and "unat t = 4 * length body + 8"
  shows "dump_sfcd verbose (t # k # cnt # body) =
    Some (HeaderLine t # (if k \<noteq> 0 then [CheckpointLine k] else []) @ ls @ [TotalLine b],
          empty_walk\<lparr>wk_total_bytes := t, wk_checkpoint_index := k, wk_record_count := cnt,
            wk_cursor_bytes := 4 * length body + 12, wk_blocks_total := b\<rparr>)"
  using assms by (simp add: dump_sfcd_def Let_def)

text \<open>C20: Reading back what was written. Unless the area has no record to print, the dump of the constructed words
has a header with their length, the lines of every record in order (copies merged, at a mempool cursor that starts at
the record's offset and moves by each length rounded up to 64; waits in order across chunks, in narrow and in wide form;
progress marks), the total of the copied bytes, and neither a bad header nor a bad length.\<close>

theorem dump_construct_sfcd:
  assumes "construct_sfcd area = Inr ws"
    and "n = sum_list (map outer_records (sa_records area))" "0 < n" "n < 2 ^ 24"
    and "4 * length ws \<le> 2 ^ 32"
  shows "dump_sfcd verbose ws =
    Some (HeaderLine (word_of_nat (4 * length ws - 4)) #
          (if sa_dma_checkpoint area \<noteq> 0 then [CheckpointLine (sa_dma_checkpoint area)] else []) @
          concat (map (record_lines verbose) (sa_records area)) @
          [TotalLine (sum_list (map record_bytes (sa_records area)))],
          empty_walk\<lparr>wk_total_bytes := word_of_nat (4 * length ws - 4), wk_checkpoint_index := sa_dma_checkpoint area,
            wk_record_count := word_of_nat n, wk_cursor_bytes := 4 * length ws,
            wk_blocks_total := sum_list (map record_bytes (sa_records area))\<rparr>)"
proof -
  have "fill_mgroup_check area = None" using assms(1) by (auto simp: construct_sfcd_def split: option.splits)
  then have "list_all writable (sa_records area)" by (simp add: fill_mgroup_check_def mgroup_check_from_None)
  from construct_sfcd_written [OF this, of verbose] assms(1,2) obtain body where
    ws: "ws = word_of_nat (4 * length body + 8) # sa_dma_checkpoint area # (word_of_nat n AND 0xffffff) # body"
    and p: "parses verbose n body (concat (map (record_lines verbose) (sa_records area))) (sum_list (map record_bytes (sa_records area)))"
    by auto
  have u: "unat (word_of_nat n :: u32) = n" using assms(4) by (intro unat_word_of_nat) simp
  have m: "word_of_nat n AND 0xffffff = (word_of_nat n :: u32)"
    unfolding masks using u assms(4) by (simp add: word_unat_eq_iff unsigned_take_bit_eq take_bit_nat_eq_self)
  note m
  moreover have "word_of_nat n \<noteq> (0 :: u32)" using u assms(3) by auto
  moreover have "dump_records verbose (unat (word_of_nat n :: u32)) 0 body =
      Some (concat (map (record_lines verbose) (sa_records area)), sum_list (map record_bytes (sa_records area)), [], None)"
    unfolding u using p [unfolded parses_def, rule_format, of 0 "[]"] by simp
  moreover have "unat (word_of_nat (4 * length body + 8) :: u32) = 4 * length body + 8"
    using assms(5) by (intro unat_word_of_nat) (simp add: ws)
  ultimately have "dump_sfcd verbose (word_of_nat (4 * length body + 8) # sa_dma_checkpoint area # word_of_nat n # body) = Some (
      HeaderLine (word_of_nat (4 * length body + 8)) #
      (if sa_dma_checkpoint area \<noteq> 0 then [CheckpointLine (sa_dma_checkpoint area)] else []) @
      concat (map (record_lines verbose) (sa_records area)) @ [TotalLine (sum_list (map record_bytes (sa_records area)))],
      empty_walk\<lparr>wk_total_bytes := word_of_nat (4 * length body + 8), wk_checkpoint_index := sa_dma_checkpoint area,
        wk_record_count := word_of_nat n, wk_cursor_bytes := 4 * length body + 12,
        wk_blocks_total := sum_list (map record_bytes (sa_records area))\<rparr>)"
    by (rule dump_sfcd_good)
  moreover have "4 * length ws - 4 = 4 * length body + 8" "4 * length ws = 4 * length body + 12" by (simp_all add: ws)
  ultimately show ?thesis unfolding ws by (simp only: m)
qed

definition sample_area :: slc_area where
  "sample_area = \<lparr>sa_area_id = 7, sa_runlist_idx = 0, sa_nsp_id = 0, sa_is_fill = True, sa_is_multi_nsp = False,
     sa_dma_checkpoint = 3,
     sa_records =
       [\<lparr>sr_rec_type = 0, sr_ddr_pool = 2, sr_sf_offset = 0x100, sr_total_copy = 0x60,
         sr_copies = [\<lparr>cp_tcm_offset = 0x40, cp_copy_len = 0x20, cp_cache_hints = 0\<rparr>,
                      \<lparr>cp_tcm_offset = 0x100, cp_copy_len = 0x40, cp_cache_hints = 0\<rparr>],
         sr_pairs = [], sr_mb_idx = 0, sr_value_to_set = 0\<rparr>,
        \<lparr>sr_rec_type = 1, sr_ddr_pool = 0, sr_sf_offset = 0, sr_total_copy = 0, sr_copies = [],
         sr_pairs = [\<lparr>we_mb_idx = 5, we_val = 9\<rparr>, \<lparr>we_mb_idx = 6, we_val = 0x100\<rparr>], sr_mb_idx = 0, sr_value_to_set = 0\<rparr>,
        \<lparr>sr_rec_type = 2, sr_ddr_pool = 0, sr_sf_offset = 0, sr_total_copy = 0, sr_copies = [], sr_pairs = [],
         sr_mb_idx = 5, sr_value_to_set = 10\<rparr>]\<rparr>"

definition sample_words :: "u32 list" where
  "sample_words = [60, 3, 3, 0x20002, 0x100, 0x40, 0x20, 0x100, 0x40, 0x80010004, 5, 9, 6, 0x100, 0x81000005, 10]"

theorem dump_construct_sfcd_witness:
  "construct_sfcd sample_area = Inr sample_words \<and>
   map_option fst (dump_sfcd False sample_words) =
     Some ([HeaderLine 60, CheckpointLine 3, BlockRecordLine 2 2 0x100, BlockLine 0x100 0x40 0x20, BlockLine 0x140 0x100 0x40,
       WaitLine 5 9, WaitLine 6 0x100, SetLine 5 10, TotalLine 0x60])"
proof -
  note defs = sample_area_def sample_words_def REC_SPILLFILL_def REC_WAITFOR_def REC_SETPROGRESS_def
  have c: "construct_sfcd sample_area = Inr sample_words"
    by (simp add: defs construct_sfcd_def fill_mgroup_check_def record_check_def write_record_def sfcd_writer_init_def
        begin_block_record_def sfcd_finalize_copies_def push_block_entry_def end_block_record_def write_waits_def narrow_ok_def
        write_chunks.simps wide_header_def wide_words_def write_set_progress_def finish_header_def Let_def)
  have n: "sum_list (map outer_records (sa_records sample_area)) = 3"
    by (simp add: defs outer_records_def narrow_ok_def chunk_number_def)
  have l: "concat (map (record_lines False) (sa_records sample_area)) =
     [BlockRecordLine 2 2 0x100, BlockLine 0x100 0x40 0x20, BlockLine 0x140 0x100 0x40, WaitLine 5 9, WaitLine 6 0x100, SetLine 5 10]"
    by (simp add: defs record_lines_def sfcd_finalize_copies_def round_up_64_def waits_lines_def wait_lines_def)
  have b: "sum_list (map record_bytes (sa_records sample_area)) = 0x60" and k: "sa_dma_checkpoint sample_area = 3"
    by (simp_all add: defs record_bytes_def copies_bytes_def)
  have "length sample_words = 16" by (simp add: sample_words_def)
  with dump_construct_sfcd [OF c refl, of False] show ?thesis by (simp add: c n l b k)
qed

section \<open>Rounding and the bytes of a copy\<close>

lemma unat_clear_low: "unat ((w :: u32) AND NOT (mask k)) = unat w - unat w mod 2 ^ k"
proof -
  have d: "take_bit k w + (w AND NOT (mask k)) = w"
    by (subst disjunctive_add) (auto intro!: bit_word_eqI simp: bit_simps)
  have "take_bit k w \<le> w"
    unfolding word_le_nat_alt unsigned_take_bit_eq by (simp add: take_bit_eq_mod)
  then have "unat (w - take_bit k w) = unat w - unat (take_bit k w)" by (rule unat_sub)
  moreover have "w AND NOT (mask k) = w - take_bit k w" using d by (metis add_diff_cancel_left')
  moreover have "unat (take_bit k w) = unat w mod 2 ^ k" unfolding unsigned_take_bit_eq by (simp add: take_bit_eq_mod)
  ultimately show ?thesis by (simp only:)
qed

lemma unat_round_mask:
  assumes "k < 32" "unat (n :: u32) + (2 ^ k - 1) < 2 ^ 32"
  shows "unat ((n + mask k) AND NOT (mask k)) = round_up (2 ^ k) (unat n)"
proof -
  have "unat (mask k :: u32) = 2 ^ k - 1"
    using unat_word_of_nat [of "mask k"] power_increasing [of k 32 "2 :: nat"] assms(1)
    by (simp add: of_nat_mask_eq mask_eq_exp_minus_1 less_le_trans)
  then have "unat (n + mask k) = unat n + (2 ^ k - 1)" using assms by (simp add: unat_word_ariths)
  moreover have "(0 :: nat) < 2 ^ k" by simp
  ultimately show ?thesis by (simp only: unat_clear_low round_up_eq_sub)
qed

lemma unat_round_up_64: "unat n \<le> 2 ^ 32 - 64 \<Longrightarrow> unat (round_up_64 n) = round_up 64 (unat n)"
proof -
  assume n: "unat n \<le> 2 ^ 32 - 64"
  have m: "(0x3f :: u32) = mask 6" by (simp add: mask_eq_exp_minus_1)
  show ?thesis unfolding round_up_64_def m using unat_round_mask [of 6 n] n by simp
qed

lemma unat_round_up_64k: "unat n \<le> 0xffff0000 \<Longrightarrow> unat (round_up_64k n) = round_up 0x10000 (unat n)"
proof -
  assume n: "unat n \<le> 0xffff0000"
  have m: "(0xffff :: u32) = mask 16" "(0xffff0000 :: u32) = NOT (mask 16)" by (simp_all add: mask_eq_exp_minus_1)
  show ?thesis unfolding round_up_64k_def m using unat_round_mask [of 16 n] n by simp
qed

text \<open>The bytes a record moves: mempool address and scratchpad address of each, as the reader places them.\<close>

fun transfers :: "u32 \<Rightarrow> slc_copy list \<Rightarrow> (u32 \<times> u32) list" where
  "transfers cursor [] = []"
| "transfers cursor (c # cs) =
     map (\<lambda>i. (cursor + word_of_nat i, cp_tcm_offset c + word_of_nat i)) [0..<unat (cp_copy_len c)] @
     transfers (cursor + round_up_64 (cp_copy_len c)) cs"

definition end_cursor :: "u32 \<Rightarrow> slc_copy list \<Rightarrow> u32" where
  "end_cursor cursor cs = cursor + sum_list (map (round_up_64 \<circ> cp_copy_len) cs)"

lemma transfers_append: "transfers cursor (xs @ ys) = transfers cursor xs @ transfers (end_cursor cursor xs) ys"
  by (induction xs arbitrary: cursor) (auto simp: end_cursor_def add.assoc)

lemma round_up_64_aligned: "64 dvd unat n \<Longrightarrow> round_up_64 n = n"
proof -
  assume d: "64 dvd unat n"
  have "unat n \<le> 2 ^ 32 - 64" using unsigned_less [of n, where ?'a = nat] d by (auto elim!: dvdE)
  from unat_round_up_64 [OF this] d show ?thesis by (simp add: word_unat_eq_iff)
qed

definition block_copy :: "slc_copy \<Rightarrow> bool" where
  "block_copy c \<longleftrightarrow> 64 dvd unat (cp_copy_len c) \<and> unat (cp_tcm_offset c) + unat (cp_copy_len c) < 2 ^ 32"

lemma merge_two:
  assumes "block_copy a" "block_copy c" "unat (cp_tcm_offset a) + unat (cp_copy_len a) = unat (cp_tcm_offset c)"
  defines "m \<equiv> a\<lparr>cp_copy_len := cp_copy_len a + cp_copy_len c\<rparr>"
  shows "block_copy m" "transfers cursor [m] = transfers cursor [a, c]" "end_cursor cursor [m] = end_cursor cursor [a, c]"
proof -
  have u: "unat (cp_copy_len a + cp_copy_len c) = unat (cp_copy_len a) + unat (cp_copy_len c)"
    using assms(2,3) by (simp add: unat_word_ariths block_copy_def)
  show b: "block_copy m" using assms(1-3) u by (auto simp: block_copy_def m_def)
  have t: "cp_tcm_offset c = cp_tcm_offset a + cp_copy_len a"
    unfolding word_unat_eq_iff unat_word_ariths(1) assms(3)
    using unsigned_less [of "cp_tcm_offset c", where ?'a = nat] by simp
  have r: "round_up_64 (cp_copy_len x) = cp_copy_len x" if "block_copy x" for x
    using that by (simp add: block_copy_def round_up_64_aligned)
  show "end_cursor cursor [m] = end_cursor cursor [a, c]"
    using r [OF assms(1)] r [OF assms(2)] r [OF b] by (simp add: end_cursor_def m_def)
  show "transfers cursor [m] = transfers cursor [a, c]"
  proof -
    let ?la = "unat (cp_copy_len a)" and ?lc = "unat (cp_copy_len c)"
    have "[0..<?la + ?lc] = [0..<?la] @ map (\<lambda>i. i + ?la) [0..<?lc]"
      by (simp only: map_add_upt upt_add_eq_append [OF le0] add.commute [of ?lc ?la])
    moreover have "cursor + word_of_nat (i + ?la) = cursor + cp_copy_len a + word_of_nat i"
      "cp_tcm_offset a + word_of_nat (i + ?la) = cp_tcm_offset a + cp_copy_len a + word_of_nat i" for i
      by (simp_all only: of_nat_add of_nat_unat ucast_id ac_simps)
    ultimately show ?thesis
      unfolding transfers.simps m_def using r [OF assms(1)] by (simp only: u t comp_def map_append map_map append_Nil2) (simp add: u t)
  qed
qed

lemma merge_transfers:
  "list_all block_copy (out @ cs) \<Longrightarrow> transfers cursor (merge_copies out cs) = transfers cursor (out @ cs)"
proof (induction out cs rule: merge_copies.induct)
  case (2 out c cs)
  show ?case
  proof (cases "out \<noteq> [] \<and> cp_cache_hints (last out) = cp_cache_hints c \<and>
      unat (cp_tcm_offset (last out)) + unat (cp_copy_len (last out)) = unat (cp_tcm_offset c)")
    case True
    let ?m = "(last out)\<lparr>cp_copy_len := cp_copy_len (last out) + cp_copy_len c\<rparr>"
    have o: "out = butlast out @ [last out]" using True by simp
    then have b: "list_all block_copy (butlast out)" "block_copy (last out)" "block_copy c" "list_all block_copy cs"
      using 2(3) unfolding list_all_append by (metis append_butlast_last_id list.pred_inject(2) list_all_append)+
    note m = merge_two [OF b(2,3)]
    have "transfers cursor (merge_copies out (c # cs)) = transfers cursor (butlast out @ [?m] @ cs)"
      using 2(1) True b m(1) by simp
    also have "\<dots> = transfers cursor (butlast out @ [last out, c] @ cs)"
      unfolding transfers_append using True m(2,3) by (simp only:)
    also have "\<dots> = transfers cursor (out @ c # cs)" by (subst (3) o) simp
    finally show ?thesis .
  next
    case False
    then show ?thesis using 2(2,3) by auto
  qed
qed simp

text \<open>C22: Merging neighbouring copies moves the same bytes between the same addresses, when every length is a
multiple of 64 and no copy reaches the end of the address space: the reader then finds each byte of the merged copies
at the mempool offset where it would find it without merging.\<close>

theorem finalize_copies_transfers:
  assumes "list_all block_copy cs"
  shows "transfers cursor (sfcd_finalize_copies cs) = transfers cursor cs"
  using merge_transfers [of "[]" cs cursor] assms by (simp add: sfcd_finalize_copies_def)

definition sample_copies :: "slc_copy list" where
  "sample_copies = [\<lparr>cp_tcm_offset = 0x40, cp_copy_len = 0x40, cp_cache_hints = 1\<rparr>,
     \<lparr>cp_tcm_offset = 0x80, cp_copy_len = 0x40, cp_cache_hints = 1\<rparr>, \<lparr>cp_tcm_offset = 0xc0, cp_copy_len = 0x80, cp_cache_hints = 2\<rparr>]"

theorem finalize_copies_transfers_witness:
  "list_all block_copy sample_copies \<and> length (sfcd_finalize_copies sample_copies) = 2 \<and>
   transfers 0x1000 (sfcd_finalize_copies sample_copies) = transfers 0x1000 sample_copies"
proof -
  have "list_all block_copy sample_copies" by (simp add: sample_copies_def block_copy_def)
  moreover from finalize_copies_transfers [OF this, of "0x1000"]
  have "transfers 0x1000 (sfcd_finalize_copies sample_copies) = transfers 0x1000 sample_copies" .
  moreover have "length (sfcd_finalize_copies sample_copies) = 2" by code_simp
  ultimately show ?thesis by blast
qed

text \<open>With lengths that are not multiples of 64 merging moves bytes: the reader rounds the mempool cursor up after
each entry, and merging drops the gap between them.\<close>

lemma finalize_copies_moves:
  "\<exists>cs. list_all aligned cs \<and> transfers 0 (sfcd_finalize_copies cs) \<noteq> transfers 0 cs"
proof -
  define cs where "cs = [\<lparr>cp_tcm_offset = 0, cp_copy_len = 16, cp_cache_hints = 0\<rparr>, \<lparr>cp_tcm_offset = 16, cp_copy_len = 16, cp_cache_hints = 0\<rparr>]"
  have "list_all aligned cs \<and> transfers 0 (sfcd_finalize_copies cs) \<noteq> transfers 0 cs"
    unfolding cs_def by code_simp
  then show ?thesis by blast
qed

end
