(* ===== verification/SfPools.thy ===== *)
theory SfPools
  imports Sfcd
begin

text \<open>
  The allocation side of \<open>compiler/src/vtcm/spillfill_g4.cpp\<close>: the three slots of the spill/fill pool are filled
  from the peaks of the three domains, rounded up to 64 KB and turned into a pool of the allocator. Slots
  are lists of three \<open>u32\<close>; the pool's total, kept in \<open>uint64_t\<close>, is a sum of three values below
  \<open>2 ^ 33\<close> and a natural number here.
\<close>

unbundle bit_operations_syntax

section \<open>Pools\<close>

definition SPILLFILL_POOL_ID :: u32 where "SPILLFILL_POOL_ID = 2"
definition POOL_SHARED :: "16 word" where "POOL_SHARED = 1"
definition POOL_FAR :: "16 word" where "POOL_FAR = 0x10"

record pool_desc =
  pd_size :: u32
  pd_flags :: "16 word"

record fancy_allocator =
  fa_pools :: "pool_desc list"
  fa_spillfill_pool :: nat
  fa_slot_sizes :: "u32 list"
  fa_shared_size_290 :: u64

datatype pool_error = OversizeMemPool

definition slot_round :: "u32 \<Rightarrow> u32" where
  "slot_round n = (if n = 0 then 0 else round_up_64k n)"

definition slot_bytes :: "u32 \<Rightarrow> nat" where
  "slot_bytes n = (if n = 0 then 0 else unat (round_up_64k n) + 0x10000)"

definition set_spillfill_size :: "fancy_allocator \<Rightarrow> u32 list \<Rightarrow> pool_error + nat \<times> fancy_allocator" where
  "set_spillfill_size fa sizes =
     (let sizes' = map slot_round sizes; pool_total = sum_list (map slot_bytes sizes)
      in if 0xffffff00 < pool_total then Inl OversizeMemPool
         else let pools = fa_pools fa @ [\<lparr>pd_size = word_of_nat pool_total, pd_flags = 0\<rparr>]
              in Inr (pool_total, fa\<lparr>fa_pools := pools, fa_spillfill_pool := length pools, fa_slot_sizes := sizes'\<rparr>))"

definition set_spillfill_shared_size :: "fancy_allocator \<Rightarrow> u64 \<Rightarrow> bool \<Rightarrow> u32 \<Rightarrow> nat \<times> fancy_allocator" where
  "set_spillfill_shared_size fa sz env_far_enabled env_far_mb =
     (if sz = 0 then (0, fa)
      else let n = round_up_64k (ucast sz);
               far = env_far_enabled \<and> unat env_far_mb * 2 ^ 20 \<le> unat n;
               pd = \<lparr>pd_size = n, pd_flags = (if far then POOL_SHARED OR POOL_FAR else POOL_SHARED)\<rparr>
           in (unat n, fa\<lparr>fa_shared_size_290 := sz, fa_pools := fa_pools fa @ [pd]\<rparr>))"

definition is_shared_spillfill :: "u32 \<Rightarrow> 16 word \<Rightarrow> bool \<Rightarrow> bool" where
  "is_shared_spillfill pool flags env_shared_set \<longleftrightarrow>
     pool = SPILLFILL_POOL_ID \<and> flags AND POOL_SHARED = 0 \<and> env_shared_set"

definition can_mempool_be_far :: "pool_desc \<Rightarrow> bool \<Rightarrow> u32 \<Rightarrow> bool" where
  "can_mempool_be_far pd env_far_enabled env_far_mb \<longleftrightarrow>
     env_far_enabled \<and> unat env_far_mb * 2 ^ 20 \<le> unat (pd_size pd)"

section \<open>Slots\<close>

definition fill_slots_multi :: "u32 list \<Rightarrow> u32 list" where
  "fill_slots_multi peaks = map (\<lambda>p. if p \<noteq> 0 then round_up_64k p else 0) peaks"

definition fill_slots_single :: "u32 list \<Rightarrow> u32 list" where
  "fill_slots_single peaks =
     (if peaks ! 0 = 0 \<and> peaks ! 1 = 0 \<and> peaks ! 2 = 0 then [0, 0, 0]
      else let slot = (if (if peaks ! 1 < peaks ! 0 then peaks ! 0 else peaks ! 1) < peaks ! 2 then 2
                       else if peaks ! 0 < peaks ! 1 then 1 else 0)
           in [0, 0, 0][slot := round_up_64k (peaks ! slot)])"

definition dlbc_spill_fill_setup :: "fancy_allocator \<Rightarrow> u32 list \<Rightarrow> bool \<Rightarrow> pool_error + nat \<times> fancy_allocator" where
  "dlbc_spill_fill_setup fa peaks is_multi_nsp =
     (let slots = (if is_multi_nsp then fill_slots_multi peaks else fill_slots_single peaks)
      in if slots ! 0 = 0 \<and> slots ! 1 = 0 \<and> slots ! 2 = 0 then Inr (0, fa)
         else set_spillfill_size fa slots)"

definition fancy_fill :: "fancy_allocator \<Rightarrow> pool_desc list \<Rightarrow> nat \<Rightarrow> u32 list \<Rightarrow> u64 \<Rightarrow> fancy_allocator" where
  "fancy_fill g4 pools spillfill_pool slot_sizes shared_size_290 =
     g4\<lparr>fa_pools := pools, fa_spillfill_pool := spillfill_pool,
        fa_slot_sizes := [slot_sizes ! 0, slot_sizes ! 1, slot_sizes ! 2], fa_shared_size_290 := shared_size_290\<rparr>"

section \<open>Peaks, the stub and checkpoint operators\<close>

record peak_tcm_usage =
  pt_peak_blocks :: u32
  pt_net_blocks :: u32

fun peak_loop :: "u32 list \<Rightarrow> u64 \<Rightarrow> u64 \<Rightarrow> u64 \<times> u64" where
  "peak_loop [] running peak = (running, peak)"
| "peak_loop (a # arr) running peak =
     (let running' = running + ucast a in peak_loop arr running' (if peak < running' then running' else peak))"

definition find_peak_tcm_usage :: "u32 list \<Rightarrow> peak_tcm_usage" where
  "find_peak_tcm_usage arr =
     (let (running, peak) = peak_loop arr 0 0;
          net = (if arr \<noteq> [] \<and> ucast (last arr) \<le> running then running - ucast (last arr) else 0)
      in \<lparr>pt_peak_blocks = ucast (drop_bit 11 peak), pt_net_blocks = ucast (drop_bit 11 net)\<rparr>)"

definition insert_spill_fill :: "string \<Rightarrow> int \<times> string" where
  "insert_spill_fill lg = (-1, lg @ ''insert_spillfill.cc:17::ERROR:insert_spill_fill not supported'' @ [CHR 0x0A])"

record checkpoint_op =
  ck_vtable :: u64
  ck_mb_idx :: u32
  ck_value :: u32
  ck_opid :: u64
  ck_owned :: bool

definition make_dma_checkpoint_op :: "u64 \<Rightarrow> u64 \<Rightarrow> u32 \<Rightarrow> bool \<Rightarrow> checkpoint_op" where
  "make_dma_checkpoint_op graph opid mb_idx is_set =
     \<lparr>ck_vtable = (if is_set then 0x5ec2488 else 0x5ec2568), ck_mb_idx = mb_idx, ck_value = 0, ck_opid = opid, ck_owned = False\<rparr>"

section \<open>Sizes\<close>

lemma round_up_64k_pos: "unat n \<le> 0xffff0000 \<Longrightarrow> n \<noteq> 0 \<Longrightarrow> round_up_64k n \<noteq> 0"
  using unat_round_up_64k [of n] round_up_ge [of "unat n" "0x10000"] by (auto simp: unat_eq_zero)

lemma round_up_64k_idem: "unat n \<le> 0xffff0000 \<Longrightarrow> round_up_64k (round_up_64k n) = round_up_64k n"
proof -
  assume n: "unat n \<le> 0xffff0000"
  have d: "0x10000 dvd round_up 0x10000 (unat n)" by simp
  have "round_up 0x10000 (unat n) \<le> 0xffff0000"
  proof -
    have "round_up 0x10000 (unat n) < 0xffff0000 + 0x10000" using round_up_less [of "0x10000" "unat n"] n by simp
    moreover obtain k where "round_up 0x10000 (unat n) = 0x10000 * k" using d unfolding dvd_def by blast
    ultimately show ?thesis by simp
  qed
  with n d show ?thesis by (simp add: word_unat_eq_iff unat_round_up_64k)
qed

lemma slot_facts:
  assumes "unat p \<le> 0xffff0000"
  defines "s \<equiv> slot_round p"
  shows "slot_round s = s" "s = 0 \<longleftrightarrow> p = 0" "slot_bytes s = (if p = 0 then 0 else round_up 0x10000 (unat p) + 0x10000)"
proof -
  note p = round_up_64k_pos [OF assms(1)] round_up_64k_idem [OF assms(1)] unat_round_up_64k [OF assms(1)]
  show "slot_round s = s" "s = 0 \<longleftrightarrow> p = 0" using p by (auto simp: s_def slot_round_def)
  show "slot_bytes s = (if p = 0 then 0 else round_up 0x10000 (unat p) + 0x10000)"
    using p by (auto simp: s_def slot_round_def slot_bytes_def)
qed

text \<open>The specification: 64 KB more than each rounded peak for several domains, and than the rounded maximum for one.\<close>

definition slot_need :: "nat \<Rightarrow> nat" where
  "slot_need p = (if p = 0 then 0 else round_up 0x10000 p + 0x10000)"

definition pool_need :: "bool \<Rightarrow> u32 list \<Rightarrow> nat" where
  "pool_need is_multi_nsp peaks =
     (if is_multi_nsp then sum_list (map (slot_need \<circ> unat) peaks) else slot_need (Max (unat ` set peaks)))"

definition slots_of :: "bool \<Rightarrow> u32 list \<Rightarrow> u32 list" where
  "slots_of is_multi_nsp peaks = (if is_multi_nsp then fill_slots_multi peaks else fill_slots_single peaks)"

lemma three: "length xs = 3 \<Longrightarrow> \<exists>a b c. xs = [a, b, c]"
  by (auto simp: numeral_3_eq_3 length_Suc_conv)

lemma single_slots:
  obtains m where "unat m = Max {unat a, unat b, unat c}" "m \<in> {a, b, c}"
    "fill_slots_single [a, b, c] \<in> {[slot_round m, 0, 0], [0, slot_round m, 0], [0, 0, slot_round m]}"
proof -
  define m where "m = (if (if b < a then a else b) < c then c else if a < b then b else a)"
  have "unat m = Max {unat a, unat b, unat c}" by (auto simp: m_def word_less_nat_alt)
  moreover have "m \<in> {a, b, c}" by (simp add: m_def)
  moreover have "fill_slots_single [a, b, c] \<in> {[slot_round m, 0, 0], [0, slot_round m, 0], [0, 0, slot_round m]}"
    by (auto simp: fill_slots_single_def m_def slot_round_def round_up_64k_def)
  ultimately show ?thesis by (rule that)
qed

lemma slots_need:
  fixes is_multi_nsp :: bool
  assumes "length peaks = 3" "list_all (\<lambda>p. unat p \<le> 0xffff0000) peaks"
  defines "slots \<equiv> slots_of is_multi_nsp peaks"
  shows "sum_list (map slot_bytes slots) = pool_need is_multi_nsp peaks" "map slot_round slots = slots"
    "length slots = 3" "slots ! 0 = 0 \<and> slots ! 1 = 0 \<and> slots ! 2 = 0 \<longleftrightarrow> pool_need is_multi_nsp peaks = 0"
proof -
  from three [OF assms(1)] obtain a b c where abc: "peaks = [a, b, c]" by blast
  with assms(2) have le: "unat a \<le> 0xffff0000" "unat b \<le> 0xffff0000" "unat c \<le> 0xffff0000" by auto
  have z: "slot_need (unat x) = 0 \<longleftrightarrow> x = 0" for x by (simp add: slot_need_def unat_eq_zero)
  have n: "slot_bytes (slot_round x) = slot_need (unat x)" if "unat x \<le> 0xffff0000" for x
    using slot_facts(3) [OF that] by (simp add: slot_need_def unat_eq_zero)
  have 0: "slot_bytes 0 = 0" "slot_round 0 = 0" by (simp_all add: slot_bytes_def slot_round_def)
  have "(sum_list (map slot_bytes slots) = pool_need is_multi_nsp peaks) \<and> map slot_round slots = slots \<and>
    length slots = 3 \<and> (slots ! 0 = 0 \<and> slots ! 1 = 0 \<and> slots ! 2 = 0 \<longleftrightarrow> pool_need is_multi_nsp peaks = 0)"
  proof (cases is_multi_nsp)
    case True
    then have s: "slots = [slot_round a, slot_round b, slot_round c]"
      by (simp add: slots_def slots_of_def fill_slots_multi_def slot_round_def abc)
    show ?thesis using le True by (simp add: s abc pool_need_def n z slot_facts(1,2))
  next
    case False
    obtain m where m: "unat m = Max {unat a, unat b, unat c}" "m \<in> {a, b, c}"
      "slots \<in> {[slot_round m, 0, 0], [0, slot_round m, 0], [0, 0, slot_round m]}"
      using single_slots [of a b c] False by (auto simp: slots_def slots_of_def abc)
    have lm: "unat m \<le> 0xffff0000" using m(2) le by auto
    have "pool_need is_multi_nsp peaks = slot_need (unat m)" using False by (simp add: pool_need_def abc m(1))
    with m(3) show ?thesis by (auto simp: n [OF lm] z slot_facts(1,2) [OF lm] 0)
  qed
  then show "sum_list (map slot_bytes slots) = pool_need is_multi_nsp peaks" "map slot_round slots = slots"
    "length slots = 3" "slots ! 0 = 0 \<and> slots ! 1 = 0 \<and> slots ! 2 = 0 \<longleftrightarrow> pool_need is_multi_nsp peaks = 0" by blast+
qed

text \<open>C23: Setting up the spill/fill pool. With peaks up to 0xffff0000 bytes, the pool takes 64 KB more than each
peak rounded up to 64 KB (for several domains) or than the rounded largest peak (for one); nothing is allocated
exactly when all peaks are zero; a need above 0xffffff00 is the error and leaves no pool; otherwise one pool of that
size is appended, is the spill/fill pool, and the slots are stored as filled, without rounding twice.\<close>

theorem dlbc_setup_pool:
  assumes "length peaks = 3" "list_all (\<lambda>p. unat p \<le> 0xffff0000) peaks"
  shows "dlbc_spill_fill_setup fa peaks is_multi_nsp =
    (let need = pool_need is_multi_nsp peaks in
     if need = 0 then Inr (0, fa)
     else if 0xffffff00 < need then Inl OversizeMemPool
     else Inr (need, fa\<lparr>fa_pools := fa_pools fa @ [\<lparr>pd_size = word_of_nat need, pd_flags = 0\<rparr>],
                        fa_spillfill_pool := Suc (length (fa_pools fa)), fa_slot_sizes := slots_of is_multi_nsp peaks\<rparr>))"
  using slots_need [OF assms(1,2), of is_multi_nsp]
  by (simp add: dlbc_spill_fill_setup_def set_spillfill_size_def Let_def slots_of_def [symmetric])

theorem dlbc_setup_pool_witness:
  "dlbc_spill_fill_setup \<lparr>fa_pools = [], fa_spillfill_pool = 0, fa_slot_sizes = [0, 0, 0], fa_shared_size_290 = 0\<rparr>
     [0x12345, 0, 0x10000] True =
   Inr (0x50000, \<lparr>fa_pools = [\<lparr>pd_size = 0x50000, pd_flags = 0\<rparr>], fa_spillfill_pool = 1,
                  fa_slot_sizes = [0x20000, 0, 0x10000], fa_shared_size_290 = 0\<rparr>)"
  by (subst dlbc_setup_pool)
    (simp_all add: pool_need_def slot_need_def round_up_def slots_of_def fill_slots_multi_def round_up_64k_def)

text \<open>Above 0xffff0000 the rounding wraps to zero, and a peak of nearly 4 GB allocates nothing.\<close>

lemma dlbc_setup_huge_peak: "dlbc_spill_fill_setup fa [0xffff0001, 0, 0] is_multi_nsp = Inr (0, fa)"
  by (simp add: dlbc_spill_fill_setup_def fill_slots_multi_def fill_slots_single_def round_up_64k_def)

text \<open>A shared size of 4 GB is truncated to 32 bits: the pool has size zero.\<close>

lemma shared_size_truncated:
  "set_spillfill_shared_size fa 0x100000000 False 0 =
     (0, fa\<lparr>fa_shared_size_290 := 0x100000000, fa_pools := fa_pools fa @ [\<lparr>pd_size = 0, pd_flags = POOL_SHARED\<rparr>]\<rparr>)"
  by (simp add: set_spillfill_shared_size_def round_up_64k_def)

text \<open>The far flag of a shared pool is the predicate on its descriptor, and the shared flag is always set.\<close>

lemma shared_pool_flags:
  assumes "sz \<noteq> 0" "set_spillfill_shared_size fa sz env_far_enabled env_far_mb = (n, fa')"
  shows "\<exists>pd. fa_pools fa' = fa_pools fa @ [pd] \<and> n = unat (pd_size pd) \<and>
     (pd_flags pd AND POOL_FAR \<noteq> 0 \<longleftrightarrow> can_mempool_be_far pd env_far_enabled env_far_mb) \<and>
     \<not> is_shared_spillfill pool (pd_flags pd) env_shared_set"
  using assms
  by (auto simp: set_spillfill_shared_size_def can_mempool_be_far_def is_shared_spillfill_def Let_def POOL_FAR_def POOL_SHARED_def)

section \<open>Peaks\<close>

text \<open>The profile has unsigned entries only: the largest prefix is the whole sum.\<close>

lemma peak_loop_total:
  "unat running + sum_list (map unat arr) < 2 ^ 64 \<Longrightarrow>
     peak_loop arr running running = (running + word_of_nat (sum_list (map unat arr)), running + word_of_nat (sum_list (map unat arr)))"
proof (induction arr arbitrary: running)
  case (Cons a arr)
  have ua: "unat (ucast a :: u64) = unat a"
    using unsigned_less [of a, where ?'a = nat] by (simp add: unsigned_ucast_eq take_bit_nat_eq_self)
  then have u: "unat (running + ucast a) = unat running + unat a"
    using Cons.prems by (simp add: unat_word_ariths)
  then have "\<not> running < running + ucast a \<Longrightarrow> running + ucast a = running"
    by (simp add: word_less_nat_alt word_unat_eq_iff)
  then have "peak_loop (a # arr) running running = peak_loop arr (running + ucast a) (running + ucast a)"
    by (auto simp: Let_def)
  also have "\<dots> = (running + ucast a + word_of_nat (sum_list (map unat arr)), running + ucast a + word_of_nat (sum_list (map unat arr)))"
    using Cons.prems u by (intro Cons.IH) simp
  finally show ?case by (simp add: add.assoc)
qed simp

end
