(* ===== verification/IdTable.thy ===== *)
theory IdTable
  imports Prelude
begin

text \<open>
  The indirection table of operator ids (\<open>class OpIdTable\<close> of \<open>compiler/src/vtcm/create_supertiles_m36.cpp\<close>): one
  32-bit tag covers the 1024 ids with the same upper bits. A tag may point to another entry (a far
  jump), hold a 22-bit payload or announce that the payload is the next entry.

  Ids and indices are \<open>u64\<close> and the index computations wrap as in the code: an id below 1024 has index 0, and
  \<open>idx - 1\<close> is then above every table size. A set error flag (with the result 0) is \<open>None\<close>. The chain of
  \<open>decode_tag_triples\<close> can be cyclic; \<open>decode_chain\<close> is therefore a partial function, and not returning is \<open>None\<close>.
\<close>

unbundle bit_operations_syntax

type_synonym id_entries = "u32 list"

definition FAR_MARKER :: u32 where "FAR_MARKER = 0x78000000"
definition NEG_BIT30 :: u32 where "NEG_BIT30 = 0x40000000"
definition NEG_BIT31 :: u32 where "NEG_BIT31 = 0x80000000"
definition CHUNK_MASK :: u64 where "CHUNK_MASK = 0x3ff"

section \<open>Operations\<close>

definition is_far :: "u32 \<Rightarrow> bool" where
  "is_far tag \<longleftrightarrow> tag AND 0xf8000000 = FAR_MARKER"

definition is_negative :: "u32 \<Rightarrow> bool" where
  "is_negative tag \<longleftrightarrow> tag AND NEG_BIT30 \<noteq> 0 \<and> tag AND NEG_BIT31 \<noteq> 0"

text \<open>The number of entries as \<open>uint64_t\<close>, and the entry at a one-based index.\<close>

definition entry_count :: "id_entries \<Rightarrow> u64" where
  "entry_count es = word_of_nat (length es)"

definition entry_before :: "id_entries \<Rightarrow> u64 \<Rightarrow> u32" where
  "entry_before es idx = es ! unat (idx - 1)"

text \<open>The common first part of the operations: the entry of an id, with one far jump followed. The result is the
index of the entry, its tag and the distance of the jump.\<close>

definition locate :: "id_entries \<Rightarrow> u64 \<Rightarrow> (u64 \<times> u32 \<times> u64) option" where
  "locate es idx =
     (if entry_count es \<le> idx - 1 then None
      else let tag = entry_before es idx
           in if is_far tag
              then let delta = ucast (tag AND 0xfffff)
                   in if entry_count es \<le> idx + delta - 1 then None
                      else Some (idx + delta, entry_before es (idx + delta), delta)
              else Some (idx, tag, 0))"

definition resolve_table_index :: "id_entries \<Rightarrow> u64 \<Rightarrow> u64 option" where
  "resolve_table_index es i =
     (if i = 0 then Some 0
      else case locate es (drop_bit 10 i) of
             None \<Rightarrow> None
           | Some (idx, tag, delta) \<Rightarrow> if is_negative tag \<and> entry_count es \<le> idx then None else Some idx)"

definition resolve_full_id :: "id_entries \<Rightarrow> u64 \<Rightarrow> u64 option" where
  "resolve_full_id es i =
     (if i = 0 then Some 0
      else case locate es (drop_bit 10 i) of
             None \<Rightarrow> None
           | Some (idx, tag, delta) \<Rightarrow>
               if is_negative tag \<and> entry_count es \<le> idx then None
               else Some ((i AND CHUNK_MASK) OR push_bit 10 delta))"

definition extract_field :: "id_entries \<Rightarrow> u64 \<Rightarrow> u32 option" where
  "extract_field es i =
     (if i = 0 then Some 0
      else case locate es (drop_bit 10 i) of
             None \<Rightarrow> None
           | Some (idx, tag, delta) \<Rightarrow>
               if tag AND NEG_BIT30 = 0 then Some 0
               else if tag AND NEG_BIT31 \<noteq> 0
               then if entry_count es \<le> idx then None else Some (es ! unat idx)
               else Some (tag AND 0x3fffff))"

definition compare_ids :: "u64 \<Rightarrow> u64 \<Rightarrow> int" where
  "compare_ids a b = (if a = b then 0 else 1)"

definition grow_for :: "u64 \<Rightarrow> id_entries \<Rightarrow> id_entries" where
  "grow_for max_id es =
     (let need = unat (drop_bit 10 max_id)
      in if length es < need then es @ replicate (need - length es) 0 else es)"

definition set_plain :: "u64 \<Rightarrow> u32 \<Rightarrow> id_entries \<Rightarrow> id_entries" where
  "set_plain i tag es =
     (if drop_bit 10 i = 0 then es else (grow_for i es)[unat (drop_bit 10 i - 1) := tag])"

definition set_far :: "u64 \<Rightarrow> u64 \<Rightarrow> id_entries \<Rightarrow> id_entries" where
  "set_far i target es = set_plain i (FAR_MARKER OR ucast (target AND 0xfffff)) es"

definition set_negative :: "u64 \<Rightarrow> id_entries \<Rightarrow> id_entries" where
  "set_negative i es = set_plain i (NEG_BIT30 OR NEG_BIT31) es"

section \<open>Chains of tags\<close>

record tag_triple =
  tt_type :: u32
  tt_value :: u32
  tt_seq :: u32

definition triple_of :: "u32 \<Rightarrow> u32 \<Rightarrow> u64 \<Rightarrow> tag_triple" where
  "triple_of tag v seq = \<lparr>tt_type = drop_bit 27 tag AND 7, tt_value = v, tt_seq = ucast seq\<rparr>"

definition payload_value :: "u32 \<Rightarrow> u32" where
  "payload_value tag = (tag AND 0x7ffffff) + 1"

definition field_value :: "u32 \<Rightarrow> u32" where
  "field_value tag = (drop_bit 22 tag AND 0x1f) + 1"

text \<open>One step of the chain: the triple and the next id, or the error.\<close>

definition chain_step :: "id_entries \<Rightarrow> u64 \<Rightarrow> (tag_triple \<times> u64) option" where
  "chain_step es nxt =
     (case locate es (drop_bit 10 nxt) of
        None \<Rightarrow> None
      | Some (idx, tag, delta) \<Rightarrow>
          let seq = (nxt AND 0x3ff) OR push_bit 10 delta
          in if tag AND NEG_BIT30 = 0
             then Some (triple_of tag (if tag AND 0x80000000 \<noteq> 0 then payload_value tag else field_value tag) seq, 0)
             else if tag AND 0x80000000 = 0
             then Some (triple_of tag (field_value tag) seq, ucast (tag AND 0x3fffff))
             else if entry_count es \<le> idx then None
             else Some (triple_of tag (payload_value tag) seq, ucast (es ! unat idx)))"

text \<open>The result of the loop: the triples appended and whether it ended without an error.\<close>

partial_function (option) decode_chain :: "id_entries \<Rightarrow> u64 \<Rightarrow> tag_triple list \<Rightarrow> (tag_triple list \<times> bool) option" where
  "decode_chain es nxt out =
     (if nxt = 0 then Some (out, True)
      else case chain_step es nxt of
             None \<Rightarrow> Some (out, False)
           | Some (t, nxt') \<Rightarrow> decode_chain es nxt' (out @ [t]))"

definition decode_tag_triples :: "id_entries \<Rightarrow> u64 \<Rightarrow> tag_triple list \<Rightarrow> (tag_triple list \<times> bool) option" where
  "decode_tag_triples es i out =
     (if i = 0 then Some (out, False)
      else case locate es (drop_bit 10 i) of
             None \<Rightarrow> Some (out, False)
           | Some (idx, tag, delta) \<Rightarrow>
               if entry_count es \<le> idx then Some (out, False)
               else decode_chain es (ucast (es ! unat idx))
                      (out @ [triple_of tag (payload_value tag) ((i AND 0x3ff) OR push_bit 10 delta)]))"

section \<open>Errors\<close>

text \<open>The three lookups of an id report an error for the same ids, the ones whose entry, or the entry that a far
jump or a negative tag leads to, lies outside the table.\<close>

lemma lookup_errors_agree:
  "(resolve_full_id es i = None \<longleftrightarrow> resolve_table_index es i = None) \<and>
   (extract_field es i = None \<longleftrightarrow> resolve_table_index es i = None)"
  by (auto simp: resolve_full_id_def resolve_table_index_def extract_field_def is_negative_def split: option.splits)

section \<open>Writing and reading\<close>

lemma unat_idx_less: "unat (drop_bit 10 (i :: u64)) < 2 ^ 54"
proof -
  have "unat i < 2 ^ 64" using unsigned_less [of i, where ?'a = nat] by simp
  then show ?thesis
    unfolding unsigned_drop_bit_eq by (simp add: drop_bit_eq_div less_mult_imp_div_less take_bit_nat_eq_self)
qed

lemma unat_pred: "(k :: u64) \<noteq> 0 \<Longrightarrow> unat (k - 1) = unat k - 1"
  by (simp add: unat_minus_one)

lemma unat_entry_count: "length es < 2 ^ 64 \<Longrightarrow> unat (entry_count es) = length es"
  by (simp add: entry_count_def unat_of_nat take_bit_nat_eq_self)

lemma in_table:
  assumes "length es < 2 ^ 64"
  shows "\<not> entry_count es \<le> k - 1 \<longleftrightarrow> 0 < unat k \<and> unat k \<le> length es"
proof (cases "k = 0")
  case True
  have "entry_count es \<le> - 1" by (rule word_n1_ge)
  with True show ?thesis by simp
next
  case False
  then have "0 < unat k" by (simp add: unat_gt_0)
  with False show ?thesis
    unfolding not_le word_less_nat_alt unat_entry_count [OF assms] by (simp add: unat_pred) arith
qed

lemma set_plain_length:
  "drop_bit 10 i \<noteq> 0 \<Longrightarrow> length (set_plain i tag es) = max (length es) (unat (drop_bit 10 i))"
  by (simp add: set_plain_def grow_for_def Let_def)

lemma set_plain_entry:
  assumes "drop_bit 10 i \<noteq> 0" "0 < unat k" "unat k \<le> length (set_plain i tag es)"
  shows "entry_before (set_plain i tag es) k =
    (if k = drop_bit 10 i then tag else if unat k \<le> length es then entry_before es k else 0)"
proof -
  have k: "k \<noteq> 0" using assms(2) by auto
  let ?i = "drop_bit 10 i"
  have eq: "unat (k - 1) = unat (?i - 1) \<longleftrightarrow> k = ?i"
    by (metis diff_add_cancel word_unat_eq_iff)
  have lt: "unat (?i - 1) < length (grow_for i es)"
    using assms(1) unat_gt_0 [of ?i] by (auto simp: grow_for_def Let_def unat_pred)
  have lk: "unat (k - 1) < length (grow_for i es)"
    using assms k by (simp add: unat_pred set_plain_def) 
  show ?thesis
    using assms lt lk k eq
    by (auto simp: entry_before_def set_plain_def nth_list_update grow_for_def nth_append unat_pred Let_def)
qed



section \<open>Chains end or not\<close>

text \<open>Every link of the table leads to an entry of a smaller index.\<close>

definition links_down :: "id_entries \<Rightarrow> bool" where
  "links_down es \<longleftrightarrow>
     list_all (\<lambda>k. case chain_step es (push_bit 10 (word_of_nat k)) of
                     None \<Rightarrow> True
                   | Some (t, nxt) \<Rightarrow> drop_bit 10 nxt < (word_of_nat k :: u64)) [1..<Suc (length es)]"

lemma chain_step_low:
  "drop_bit 10 a = drop_bit 10 b \<Longrightarrow> map_option snd (chain_step es a) = map_option snd (chain_step es b)"
  by (auto simp: chain_step_def Let_def split: option.splits)

lemma locate_in_table: "length es < 2 ^ 64 \<Longrightarrow> locate es k = Some r \<Longrightarrow> 0 < unat k \<and> unat k \<le> length es"
  using in_table [of es k] by (auto simp: locate_def split: if_splits)

lemma chain_step_down:
  assumes "links_down es" "length es < 2 ^ 54" "chain_step es nxt = Some (t, nxt')"
  shows "drop_bit 10 nxt' < drop_bit 10 nxt" "unat (drop_bit 10 nxt) \<le> length es"
proof -
  define k where "k = unat (drop_bit 10 nxt)"
  from assms(3) obtain r where "locate es (drop_bit 10 nxt) = Some r" by (auto simp: chain_step_def split: option.splits)
  with assms(2) have k: "0 < k" "k \<le> length es" using locate_in_table [of es] by (auto simp: k_def)
  then show "unat (drop_bit 10 nxt) \<le> length es" by (simp add: k_def)
  have w: "word_of_nat k = drop_bit 10 nxt" by (simp add: k_def)
  have "drop_bit 10 (push_bit 10 (drop_bit 10 nxt)) = drop_bit 10 nxt"
    by (rule bit_word_eqI) (auto simp: bit_simps dest: bit_imp_le_length)
  from chain_step_low [OF this, of es] assms(3) obtain t' where
    "chain_step es (push_bit 10 (word_of_nat k)) = Some (t', nxt')" by (auto simp: w)
  moreover have "k \<in> set [1..<Suc (length es)]" using k by auto
  ultimately show "drop_bit 10 nxt' < drop_bit 10 nxt"
    using assms(1) unfolding links_down_def list_all_iff w [symmetric] by fastforce
qed

lemma decode_chain_returns:
  assumes "links_down es" "length es < 2 ^ 54"
  shows "\<exists>ts b. decode_chain es nxt out = Some (out @ ts, b) \<and> length ts \<le> unat (drop_bit 10 nxt) \<and>
           (ts \<noteq> [] \<longrightarrow> unat (drop_bit 10 nxt) \<le> length es)"
proof (induction "unat (drop_bit 10 nxt)" arbitrary: nxt out rule: less_induct)
  case less
  show ?case
  proof (cases "nxt = 0 \<or> chain_step es nxt = None")
    case True
    then show ?thesis by (auto simp: decode_chain.simps [of es nxt])
  next
    case False
    then obtain t nxt' where s: "chain_step es nxt = Some (t, nxt')" by auto
    have d: "unat (drop_bit 10 nxt') < unat (drop_bit 10 nxt)"
      using chain_step_down(1) [OF assms s] by (simp only: word_less_nat_alt)
    from less [OF this, of "out @ [t]"] obtain ts b where
      "decode_chain es nxt' (out @ [t]) = Some ((out @ [t]) @ ts, b)" "length ts \<le> unat (drop_bit 10 nxt')" by blast
    with False s d chain_step_down(2) [OF assms s] show ?thesis by (auto simp: decode_chain.simps [of es nxt] intro!: exI [of _ "t # ts"])
  qed
qed

text \<open>C30: When every link of the table leads to an entry of a smaller index, decoding an id returns, after at most one
triple for the id and one for each entry of the table.\<close>

theorem decode_tag_triples_returns:
  assumes "links_down es" "length es < 2 ^ 54"
  shows "\<exists>ts b. decode_tag_triples es i out = Some (out @ ts, b) \<and> length ts \<le> Suc (length es)"
proof (cases "i = 0 \<or> locate es (drop_bit 10 i) = None")
  case True
  then show ?thesis by (auto simp: decode_tag_triples_def)
next
  case False
  then obtain idx tag delta where l: "locate es (drop_bit 10 i) = Some (idx, tag, delta)" by (cases "locate es (drop_bit 10 i)") auto
  let ?t = "triple_of tag (payload_value tag) ((i AND 0x3ff) OR push_bit 10 delta)"
  obtain ts b where ts: "decode_chain es (ucast (es ! unat idx)) (out @ [?t]) = Some ((out @ [?t]) @ ts, b)"
    "length ts \<le> unat (drop_bit 10 (ucast (es ! unat idx) :: u64))"
    "ts \<noteq> [] \<longrightarrow> unat (drop_bit 10 (ucast (es ! unat idx) :: u64)) \<le> length es"
    using decode_chain_returns [OF assms, of "ucast (es ! unat idx)" "out @ [?t]"] by blast
  have "length ts \<le> length es" using ts(2,3) by (cases "ts = []") auto
  with False l ts(1) show ?thesis
    by (cases "entry_count es \<le> idx") (auto simp: decode_tag_triples_def intro!: exI [of _ "?t # ts"])
qed

theorem decode_tag_triples_returns_witness:
  "links_down [0, 0x40000400, 0x800] \<and>
   (\<exists>ts b. decode_tag_triples [0, 0x40000400, 0x800] 0x801 [] = Some ([] @ ts, b) \<and> length ts \<le> Suc (length [0, 0x40000400, 0x800 :: u32]))"
proof -
  have l: "links_down [0, 0x40000400, 0x800]"
    by (simp add: links_down_def chain_step_def locate_def entry_count_def entry_before_def is_far_def FAR_MARKER_def NEG_BIT30_def Let_def)
  from decode_tag_triples_returns [OF this, of "0x801" "[]"] l show ?thesis by simp
qed

text \<open>A chain that leads back to an entry is followed forever: with an entry whose payload is its own id the
decoding never returns, and appends a triple in every round.\<close>

lemma decode_chain_cycle: "decode_chain [0x40000400, 0x400] 0x400 out = None"
proof -
  have s: "\<exists>t. chain_step [0x40000400, 0x400] 0x400 = Some (t, 0x400)"
    by (simp add: chain_step_def locate_def entry_count_def entry_before_def is_far_def FAR_MARKER_def NEG_BIT30_def Let_def)
  have "\<not> (es = [0x40000400, 0x400] \<and> nxt = 0x400)" if "decode_chain es nxt out = Some r" for es nxt out r
  proof (rule decode_chain.raw_induct [where P = "\<lambda>es nxt out r. \<not> (es = [0x40000400, 0x400] \<and> nxt = 0x400)", OF _ that])
    fix f es and nxt :: u64 and out r
    assume ih: "\<And>es nxt out r. f es nxt out = Some r \<Longrightarrow> \<not> (es = [0x40000400, 0x400] \<and> nxt = 0x400)"
      and r: "(if nxt = 0 then Some (out, True)
        else case chain_step es nxt of None \<Rightarrow> Some (out, False) | Some (t, nxt') \<Rightarrow> f es nxt' (out @ [t])) = Some r"
    show "\<not> (es = [0x40000400, 0x400] \<and> nxt = 0x400)"
    proof
      assume e: "es = [0x40000400, 0x400] \<and> nxt = 0x400"
      with s obtain t where "chain_step es nxt = Some (t, 0x400)" by auto
      with r e have "f es 0x400 (out @ [t]) = Some r" by simp
      from ih [OF this] e show False by simp
    qed
  qed
  then show ?thesis by (cases "decode_chain [0x40000400, 0x400] 0x400 out") blast+
qed

lemma decode_tag_triples_cycle: "decode_tag_triples [0x40000400, 0x400] 0x400 out = None"
  using decode_chain_cycle
  by (simp add: decode_tag_triples_def locate_def entry_count_def entry_before_def is_far_def FAR_MARKER_def Let_def word_le_nat_alt)

end
