(* ===== verification/SuperChunks.thy ===== *)
theory SuperChunks
  imports IdTable
begin

text \<open>
  Supertiles of operators that share a resolved id and a tag (\<open>create_supertiles_disasm\<close> and its helpers in
  \<open>compiler/src/vtcm/create_supertiles_m36.cpp\<close>): candidates are filtered, grouped in an ordered map, groups of one are
  dropped, and the others are cut into chunks when they exceed a budget.

  Sums and products of bytes are \<open>u64\<close> and wrap. \<open>std::map\<close> is an association list in the order of its keys.
  The names of operators are optional strings (a null pointer is \<open>None\<close>).
\<close>

unbundle bit_operations_syntax

section \<open>Sizes, dependencies, divisors, sequence numbers\<close>

definition autothread_table :: "nat list" where
  "autothread_table = [1, 8, 8, 32]"

definition autothread_size :: "u32 \<Rightarrow> u32 \<Rightarrow> nat \<Rightarrow> u32" where
  "autothread_size num_threads size_field k =
     (if num_threads < 2 then size_field
      else let m = autothread_table ! min k 3;
               q = (unat size_field + unat num_threads - 1) div unat num_threads;
               ru = (m + q - 1) - (m + q - 1) mod m
           in word_of_nat (min ru (unat size_field)))"

definition insert_spill_fill_stub :: "int \<times> string" where
  "insert_spill_fill_stub = (-1, ''insert_spill_fill.cc:17::ERROR:insert_spill_fill not supported'')"

record dep_record =
  dr_flags :: u32
  dr_extra_bits_2 :: "8 word"
  dr_op :: u64

datatype dep_error = NumInternalThreads

definition dep_effective_num_slices :: "dep_record \<Rightarrow> u32 list \<Rightarrow> u32 \<Rightarrow> dep_error + u32" where
  "dep_effective_num_slices r chunk_slice_counts self_slicing_count =
     (if dr_flags r AND 0x200000 \<noteq> 0
      then let nbytes = length chunk_slice_counts * 16
           in if nbytes \<le> 0x1f then Inl NumInternalThreads
              else if dr_extra_bits_2 r AND 0x40 \<noteq> 0 then Inr (sum_list chunk_slice_counts)
              else Inr (word_of_nat (nbytes div 16))
      else if dr_flags r AND 0x400000 \<noteq> 0 then Inr self_slicing_count
      else Inr 1)"

datatype dep_reg_status = RegOk | RegEarlyExit | BadResourceFlags

text \<open>The arguments are the resource flags of the records and the store of chunk ids.\<close>

definition register_supertiled_dep ::
  "u64 list \<Rightarrow> u32 \<Rightarrow> u32 \<Rightarrow> u64 \<Rightarrow> u64 list list \<Rightarrow> dep_reg_status \<times> u64 list list" where
  "register_supertiled_dep op_records rec_op_index cnt chunk_id store =
     (if cnt \<le> 1 then (RegEarlyExit, store)
      else if rec_op_index = 0 \<or> length op_records < unat rec_op_index then (BadResourceFlags, store)
      else let q = op_records ! (unat rec_op_index - 1) AND 0xc
           in if \<not> ((q = 4 \<or> q = 8) \<and> q \<noteq> 0) then (BadResourceFlags, store)
              else let store' = store @ replicate (length op_records - length store) []
                   in (RegOk, store'[unat rec_op_index - 1 := map (\<lambda>k. chunk_id + word_of_nat k) [0..<unat cnt]]))"

function divisor_below :: "u64 \<Rightarrow> u32 \<Rightarrow> u32" where
  "divisor_below c cnt = (if 1 < cnt \<and> c mod ucast cnt \<noteq> 0 then divisor_below c (cnt - 1) else cnt)"
  by pat_completeness auto
termination
  by (relation "measure (\<lambda>(c, cnt). unat cnt)") (auto intro!: measure_unat)

declare divisor_below.simps [simp del]

definition supertile_find_divisor :: "u64 \<Rightarrow> u32 \<Rightarrow> u32 \<Rightarrow> u32" where
  "supertile_find_divisor c b cnt_start =
     divisor_below (c * ucast b) (if cnt_start \<noteq> 0 then cnt_start else 1)"

definition supertile_next_chunk_seq :: "u32 \<Rightarrow> u32" where
  "supertile_next_chunk_seq seq =
     (let n = seq + 1; n' = (if n AND 0x3ff = 0 then n + 1 else n)
      in if n' = 0x7ff then n' + 1 else n')"

section \<open>Candidates and groups\<close>

record candidate =
  ca_op_id :: u64
  ca_tag :: u32
  ca_tensor_bytes :: u64
  ca_op_name :: "string option"
  ca_resource_flags :: u32
  ca_record_valid :: bool

record st_config =
  sc_budget_default :: u64
  sc_budget_hash_hit :: u64
  sc_blacklist_names :: "string list"
  sc_hmx_count :: u64
  sc_hvx_count :: u64
  sc_hash_hit_ids :: "u64 list"

definition k_supertile_name_blacklist :: "string list" where
  "k_supertile_name_blacklist = [''q::*InputSlicePad'', ''q::*OutputSlice'', ''q::Concat'',
     ''q::ConvLayer.opt.activations_to_vtcm'', ''q::SlicePad_shape_inplace'', ''q::Slice_contig.tcm'']"

datatype st_error = ResolveError u64 | GroupingError | EntryIndexError u64

record st_stats =
  ss_groups_in :: nat
  ss_groups_kept :: nat
  ss_chunks_out :: nat
  ss_errors :: "st_error list"

record st_chunk =
  ch_chunk_id :: u64
  ch_member_ops :: "u64 list"
  ch_tensor_bytes :: u64

record st_group =
  sg_resolved_id :: u64
  sg_tag :: u32
  sg_chunks :: "st_chunk list"
  sg_budget :: u64

type_synonym group_key = "u64 \<times> u32"

definition eligible :: "st_config \<Rightarrow> candidate \<Rightarrow> bool" where
  "eligible cfg c \<longleftrightarrow>
     ca_record_valid c \<and>
     \<not> list_ex (\<lambda>bn. bn \<noteq> [] \<and> ca_op_name c = Some bn) (sc_blacklist_names cfg) \<and>
     (1 < sc_hmx_count cfg \<and> ca_resource_flags c AND 0x8 \<noteq> 0 \<or>
      1 < sc_hvx_count cfg \<and> ca_resource_flags c AND 0x110004 = 4)"

fun group_insert :: "group_key \<Rightarrow> candidate \<Rightarrow> (group_key \<times> candidate list) list \<Rightarrow> (group_key \<times> candidate list) list" where
  "group_insert k c [] = [(k, [c])]"
| "group_insert k c ((k', cs) # gs) =
     (if k = k' then (k', cs @ [c]) # gs
      else if k < k' then (k, [c]) # (k', cs) # gs
      else (k', cs) # group_insert k c gs)"

fun group_ops :: "id_entries \<Rightarrow> st_config \<Rightarrow> candidate list \<Rightarrow> (group_key \<times> candidate list) list \<Rightarrow> st_error list
    \<Rightarrow> (group_key \<times> candidate list) list \<times> st_error list" where
  "group_ops es cfg [] gs errs = (gs, errs)"
| "group_ops es cfg (c # ops) gs errs =
     (if \<not> eligible cfg c then group_ops es cfg ops gs errs
      else case resolve_full_id es (ca_op_id c) of
             None \<Rightarrow> group_ops es cfg ops gs (errs @ [ResolveError (ca_op_id c)])
           | Some rid \<Rightarrow> group_ops es cfg ops (group_insert (rid, ca_tag c) c gs) errs)"

section \<open>Chunks\<close>

definition group_bytes :: "candidate list \<Rightarrow> u64" where
  "group_bytes cs = sum_list (map ca_tensor_bytes cs)"

definition group_budget :: "st_config \<Rightarrow> u64 \<Rightarrow> u64" where
  "group_budget cfg rid =
     (if drop_bit 10 rid \<in> set (sc_hash_hit_ids cfg) then sc_budget_hash_hit cfg else sc_budget_default cfg)"

definition chunk_count :: "u64 \<Rightarrow> candidate list \<Rightarrow> nat" where
  "chunk_count budget cs =
     (if budget \<noteq> 0 \<and> budget < group_bytes cs
      then let cnt = supertile_find_divisor (group_bytes cs) (word_of_nat (length cs)) (word_of_nat (length cs))
           in if cnt < 1 then 1 else unat cnt
      else 1)"

fun build_chunks :: "u64 \<Rightarrow> nat \<Rightarrow> candidate list \<Rightarrow> nat list \<Rightarrow> u32 \<Rightarrow> st_chunk list" where
  "build_chunks entry_index per cs [] seq = []"
| "build_chunks entry_index per cs (k # ks) seq =
     (let mem = take (min (length cs) (k * per + per) - k * per) (drop (k * per) cs)
      in if mem = [] then build_chunks entry_index per cs ks seq
         else \<lparr>ch_chunk_id = push_bit 10 entry_index OR ucast seq, ch_member_ops = map ca_op_id mem,
               ch_tensor_bytes = group_bytes mem\<rparr> #
              build_chunks entry_index per cs ks (supertile_next_chunk_seq seq))"

definition build_group :: "id_entries \<Rightarrow> st_config \<Rightarrow> group_key \<times> candidate list \<Rightarrow> st_group \<times> st_error list" where
  "build_group es cfg g =
     (case g of ((rid, tag), cs) \<Rightarrow>
        let budget = group_budget cfg rid;
            cnt = chunk_count budget cs;
            ei = resolve_table_index es (ca_op_id (hd cs));
            per = (length cs + cnt - 1) div cnt
        in (\<lparr>sg_resolved_id = rid, sg_tag = tag,
             sg_chunks = build_chunks (case ei of None \<Rightarrow> 0 | Some x \<Rightarrow> x) per cs [0..<cnt] 0, sg_budget = budget\<rparr>,
            if ei = None then [EntryIndexError (ca_op_id (hd cs))] else []))"

definition create_supertiles_disasm ::
  "id_entries \<Rightarrow> candidate list \<Rightarrow> st_config \<Rightarrow> st_stats \<Rightarrow> st_group list \<times> st_stats" where
  "create_supertiles_disasm es ops cfg stats =
     (let (groups, errs) = group_ops es cfg ops [] [];
          errs' = errs @ concat (map (\<lambda>(k, cs). if cs = [] then [GroupingError] else []) groups);
          order = filter (\<lambda>(k, cs). cs \<noteq> [] \<and> length cs \<noteq> 1) groups;
          built = map (build_group es cfg) order;
          out = map fst built
      in (out, stats\<lparr>ss_groups_in := length ops, ss_groups_kept := length out,
                     ss_chunks_out := ss_chunks_out stats + sum_list (map (length \<circ> sg_chunks) out),
                     ss_errors := errs' @ concat (map snd built)\<rparr>))"

section \<open>Groups\<close>

text \<open>The specification: the key of a candidate, if it takes part, and the members of a key in their order.\<close>

definition cand_key :: "id_entries \<Rightarrow> st_config \<Rightarrow> candidate \<Rightarrow> group_key option" where
  "cand_key es cfg c =
     (if eligible cfg c then map_option (\<lambda>rid. (rid, ca_tag c)) (resolve_full_id es (ca_op_id c)) else None)"

definition key_members :: "id_entries \<Rightarrow> st_config \<Rightarrow> candidate list \<Rightarrow> group_key \<Rightarrow> candidate list" where
  "key_members es cfg ops k = filter (\<lambda>c. cand_key es cfg c = Some k) ops"

definition key_list :: "id_entries \<Rightarrow> st_config \<Rightarrow> candidate list \<Rightarrow> group_key list" where
  "key_list es cfg ops = sort (remdups (concat (map (\<lambda>c. case cand_key es cfg c of None \<Rightarrow> [] | Some k \<Rightarrow> [k]) ops)))"

definition group_of :: "(group_key \<times> candidate list) list \<Rightarrow> group_key \<Rightarrow> candidate list" where
  "group_of gs k = (case map_of gs k of None \<Rightarrow> [] | Some cs \<Rightarrow> cs)"

definition groups_wf :: "(group_key \<times> candidate list) list \<Rightarrow> bool" where
  "groups_wf gs \<longleftrightarrow> sorted_wrt (<) (map fst gs) \<and> list_all (\<lambda>(k, cs). cs \<noteq> []) gs"

lemma set_group_insert: "fst ` set (group_insert k c gs) = insert k (fst ` set gs)"
  by (induction k c gs rule: group_insert.induct) auto

lemma group_insert_wf: "groups_wf gs \<Longrightarrow> groups_wf (group_insert k c gs)"
proof (induction k c gs rule: group_insert.induct)
  case (2 k c k' cs gs)
  have "fst x \<in> insert k (fst ` set gs)" if "x \<in> set (group_insert k c gs)" for x
    using that set_group_insert [of k c gs] by blast
  then have "k' < fst x" if "x \<in> set (group_insert k c gs)" "k \<noteq> k'" "\<not> k < k'" for x
    using that 2(2) by (fastforce simp: groups_wf_def)
  moreover have "k < fst x" if "x \<in> set gs" "k < k'" for x using that 2(2) by (fastforce simp: groups_wf_def)
  ultimately show ?case using 2 by (auto simp: groups_wf_def)
qed (simp add: groups_wf_def)

lemma group_insert_lookup:
  "groups_wf gs \<Longrightarrow> map_of (group_insert k c gs) = (map_of gs)(k \<mapsto> group_of gs k @ [c])"
proof (induction k c gs rule: group_insert.induct)
  case (2 k c k' cs gs)
  show ?case
  proof (cases "k < k'")
    case True
    then have "k \<notin> fst ` set ((k', cs) # gs)" using 2(2) by (force simp: groups_wf_def)
    then have "map_of ((k', cs) # gs) k = None" by (simp add: map_of_eq_None_iff del: map_of.simps)
    then show ?thesis using True by (auto simp: group_of_def)
  next
    case False
    with 2 show ?thesis by (auto simp: group_of_def groups_wf_def fun_eq_iff)
  qed
qed (simp add: group_of_def)

lemma group_ops_spec:
  "groups_wf gs \<Longrightarrow> groups_wf (fst (group_ops es cfg ops gs errs)) \<and>
     group_of (fst (group_ops es cfg ops gs errs)) k = group_of gs k @ key_members es cfg ops k"
proof (induction es cfg ops gs errs rule: group_ops.induct)
  case (2 es cfg c ops gs errs)
  show ?case
  proof (cases "cand_key es cfg c")
    case None
    then have "\<not> eligible cfg c \<or> resolve_full_id es (ca_op_id c) = None" by (auto simp: cand_key_def split: if_splits)
    with 2 None show ?thesis by (cases "eligible cfg c") (auto simp: key_members_def)
  next
    case (Some k')
    then obtain rid where r: "eligible cfg c" "resolve_full_id es (ca_op_id c) = Some rid" "k' = (rid, ca_tag c)"
      by (auto simp: cand_key_def split: if_splits)
    have "group_of (group_insert k' c gs) k = group_of gs k @ (if k = k' then [c] else [])"
      using group_insert_lookup [OF 2(4), of k' c] by (auto simp: group_of_def)
    with 2(3) [OF _ r(2)] group_insert_wf [OF 2(4), of k' c] r Some show ?thesis by (auto simp: key_members_def)
  qed
qed (simp add: key_members_def)

lemma key_members_empty: "key_members es cfg ops k = [] \<longleftrightarrow> k \<notin> set (key_list es cfg ops)"
  by (cases k) (auto simp: key_members_def key_list_def filter_empty_conv split: option.splits)

lemma groups_eq: "fst (group_ops es cfg ops [] []) = map (\<lambda>k. (k, key_members es cfg ops k)) (key_list es cfg ops)"
proof -
  let ?gs = "fst (group_ops es cfg ops [] [])"
  have wf: "groups_wf ?gs" and m: "group_of ?gs k = key_members es cfg ops k" for k
    using group_ops_spec [of "[]" es cfg ops "[]"] by (auto simp: groups_wf_def group_of_def)
  have d: "sorted_wrt (<) (map fst ?gs)" using wf by (simp add: groups_wf_def)
  have ne: "map_of ?gs k = Some cs \<Longrightarrow> cs \<noteq> []" for k cs
    using wf by (auto simp: groups_wf_def list_all_iff dest: map_of_SomeD)
  have "k \<in> fst ` set ?gs \<longleftrightarrow> key_members es cfg ops k \<noteq> []" for k
    using m [of k] ne [of k]
    unfolding dom_map_of_conv_image_fst [symmetric] by (cases "map_of ?gs k") (auto simp: group_of_def)
  then have "set (map fst ?gs) = set (key_list es cfg ops)" by (auto simp: key_members_empty)
  moreover have "sorted_wrt (<) (key_list es cfg ops)" by (simp add: key_list_def strict_sorted_iff)
  ultimately have k: "map fst ?gs = key_list es cfg ops" using d by (intro strict_sorted_equal) auto
  have "snd g = key_members es cfg ops (fst g)" if "g \<in> set ?gs" for g
  proof -
    have "distinct (map fst ?gs)" using d by (simp add: strict_sorted_iff)
    with that have "map_of ?gs (fst g) = Some (snd g)" by (intro map_of_is_SomeI) simp_all
    with m [of "fst g"] show ?thesis by (simp add: group_of_def)
  qed
  then have "map (\<lambda>g. (fst g, key_members es cfg ops (fst g))) ?gs = ?gs" by (intro map_idI) (metis prod.collapse)
  then show ?thesis unfolding k [symmetric] by (simp add: comp_def)
qed

section \<open>Chunks of a group\<close>

lemma chunk_members_take: "take (min (length cs) (b + per) - b) (drop b cs) = take per (drop b cs)"
  by (auto simp: min_def)

lemma concat_slices: "concat (map (\<lambda>k. take per (drop (k * per) cs)) [0..<n]) = take (n * per) cs"
proof (induction n)
  case (Suc n)
  have "take (Suc n * per) cs = take (n * per + per) cs" by (simp add: add.commute)
  with Suc show ?case by (simp only: take_add) simp
qed simp

lemma build_chunks_members:
  "map ch_member_ops (build_chunks ei per cs ks seq) =
     filter (\<lambda>m. m \<noteq> []) (map (\<lambda>k. map ca_op_id (take per (drop (k * per) cs))) ks)"
  by (induction ei per cs ks seq rule: build_chunks.induct) (simp_all add: chunk_members_take Let_def)

lemma concat_filter_nonempty: "concat (filter (\<lambda>m. m \<noteq> []) xs) = concat xs"
  by (induction xs) auto

lemma divisor_below_pos: "cnt \<noteq> 0 \<Longrightarrow> divisor_below c cnt \<noteq> 0"
proof (induction c cnt rule: divisor_below.induct)
  case (1 c cnt)
  have "cnt - 1 \<noteq> 0" if "1 < cnt" using that by auto
  with 1 show ?case by (subst divisor_below.simps) auto
qed

lemma chunk_count_pos: "0 < chunk_count budget cs"
  by (simp add: chunk_count_def Let_def unat_gt_0)

lemma ceil_covers: "0 < n \<Longrightarrow> (l :: nat) \<le> n * ((l + n - 1) div n)"
  using round_up_eq_ceil [of n l] round_up_ge [of l n] by (simp add: mult.commute)

lemma build_group_covers:
  "concat (map ch_member_ops (sg_chunks (fst (build_group es cfg (k, cs))))) = map ca_op_id cs"
proof -
  define cnt where "cnt = chunk_count (group_budget cfg (fst k)) cs"
  define per where "per = (length cs + cnt - 1) div cnt"
  have "length cs \<le> cnt * per"
    unfolding per_def by (rule ceil_covers) (simp add: cnt_def chunk_count_pos)
  then have "concat (map (\<lambda>k. map ca_op_id (take per (drop (k * per) cs))) [0..<cnt]) = map ca_op_id cs"
    using arg_cong [OF concat_slices [of per cs cnt], of "map ca_op_id"] by (simp add: map_concat comp_def)
  then show ?thesis
    by (cases k) (simp add: build_group_def Let_def build_chunks_members concat_filter_nonempty cnt_def per_def)
qed

lemma build_group_key [simp]:
  "sg_resolved_id (fst (build_group es cfg (k, cs))) = fst k" "sg_tag (fst (build_group es cfg (k, cs))) = snd k"
  by (cases k; simp add: build_group_def Let_def)+

text \<open>C27: Which operators end up in which supertile. The groups are exactly the keys (resolved id and tag) that at
least two eligible candidates share, in increasing order, and the chunks of a group hold its candidates in their order,
each once, whatever the budget and the number of chunks.\<close>

theorem create_supertiles_members:
  "map (\<lambda>r. ((sg_resolved_id r, sg_tag r), concat (map ch_member_ops (sg_chunks r))))
       (fst (create_supertiles_disasm es ops cfg stats)) =
   map (\<lambda>k. (k, map ca_op_id (key_members es cfg ops k)))
       (filter (\<lambda>k. 2 \<le> length (key_members es cfg ops k)) (key_list es cfg ops))"
proof -
  have two: "cs \<noteq> [] \<and> length cs \<noteq> 1 \<longleftrightarrow> 2 \<le> length cs" for cs :: "candidate list"
    by (cases cs rule: remdups_adj.cases) auto
  show ?thesis
    by (simp add: create_supertiles_disasm_def Let_def case_prod_unfold groups_eq filter_map comp_def two
        build_group_covers del: One_nat_def)
qed

section \<open>How a group is cut\<close>

lemma find_divisor_self:
  assumes "unat c * unat b < 2 ^ 64" "b \<noteq> 0"
  shows "supertile_find_divisor c b b = b"
proof -
  have b: "unat (ucast b :: u64) = unat b"
    using unsigned_less [of b, where ?'a = nat] by (simp add: unsigned_ucast_eq take_bit_nat_eq_self)
  have "unat (c * ucast b) = unat c * unat b" using assms(1) b by (simp add: unat_word_ariths)
  then have "unat (c * ucast b mod ucast b) = 0" using b by (simp add: unat_mod)
  then have "c * ucast b mod ucast b = 0" by (simp only: unat_eq_zero)
  then show ?thesis using assms(2) by (simp add: supertile_find_divisor_def divisor_below.simps [of _ b])
qed

definition over_budget :: "u64 \<Rightarrow> candidate list \<Rightarrow> bool" where
  "over_budget budget cs \<longleftrightarrow> budget \<noteq> 0 \<and> budget < group_bytes cs"

lemma chunk_count_eq:
  assumes "cs \<noteq> []" "length cs < 2 ^ 32" "unat (group_bytes cs) * length cs < 2 ^ 64"
  shows "chunk_count budget cs = (if over_budget budget cs then length cs else 1)"
proof -
  have u: "unat (word_of_nat (length cs) :: u32) = length cs"
    using assms(2) by (simp add: unat_of_nat take_bit_nat_eq_self)
  have "supertile_find_divisor (group_bytes cs) (word_of_nat (length cs)) (word_of_nat (length cs)) = word_of_nat (length cs)"
    using assms(1,3) u by (intro find_divisor_self) (auto simp: unat_eq_zero [symmetric])
  moreover have "\<not> (word_of_nat (length cs) :: u32) < 1" using u assms(1) by (simp add: word_less_nat_alt)
  ultimately show ?thesis using u by (simp add: chunk_count_def over_budget_def Let_def)
qed

lemma next_chunk_seq: "unat seq < 0x3ff \<Longrightarrow> supertile_next_chunk_seq seq = seq + 1 \<and> unat (seq + 1) = unat seq + 1"
proof -
  assume s: "unat seq < 0x3ff"
  then have u: "unat (seq + 1) = unat seq + 1" by (simp add: unat_word_ariths)
  have m: "(0x3ff :: u32) = mask 10" by (simp add: mask_eq_exp_minus_1)
  have "unat ((seq + 1) AND 0x3ff) = unat seq + 1" unfolding m unat_and_mask u using s by simp
  then have "(seq + 1) AND 0x3ff \<noteq> 0" by auto
  moreover have "seq + 1 \<noteq> 0x7ff" using u s by auto
  ultimately show ?thesis using u by (simp add: supertile_next_chunk_seq_def Let_def)
qed

lemma build_chunks_ids:
  assumes "list_all (\<lambda>k. take per (drop (k * per) cs) \<noteq> []) ks" "unat seq + length ks \<le> 0x400"
  shows "map ch_chunk_id (build_chunks ei per cs ks seq) =
    map (\<lambda>n. push_bit 10 ei OR word_of_nat (unat seq + n)) [0..<length ks]"
  using assms
proof (induction ei per cs ks seq rule: build_chunks.induct)
  case (2 ei per cs k ks seq)
  have w: "ucast seq = (word_of_nat (unat seq) :: u64)" by simp
  show ?case
  proof (cases "ks = []")
    case True
    with 2(3) w show ?thesis by (simp add: chunk_members_take Let_def)
  next
    case False
    then have s: "unat seq < 0x3ff" using 2(4) by (cases ks) auto
    note n = next_chunk_seq [OF s]
    have "map ch_chunk_id (build_chunks ei per cs ks (seq + 1)) =
        map (\<lambda>n. push_bit 10 ei OR word_of_nat (unat (seq + 1) + n)) [0..<length ks]"
      using 2 n by (simp add: chunk_members_take list_all_iff)
    with 2(3) n w show ?thesis
      by (simp add: chunk_members_take Let_def map_upt_Suc add.left_commute add.assoc del: upt_Suc)
  qed
qed simp

lemma map_pair_eq: "map f xs = map f' ys \<Longrightarrow> map g xs = map g' ys \<Longrightarrow> map (\<lambda>x. (f x, g x)) xs = map (\<lambda>y. (f' y, g' y)) ys"
proof (induction xs arbitrary: ys)
  case (Cons x xs)
  then show ?case by (cases ys) auto
qed simp

lemma chunk_ids_distinct: "n \<le> 0x400 \<Longrightarrow> distinct (map (\<lambda>i. push_bit 10 e OR word_of_nat i :: u64) [0..<n])"
proof -
  assume n: "n \<le> 0x400"
  have u: "unat (take_bit 10 (push_bit 10 e OR word_of_nat i :: u64)) = i" if "i < 0x400" for i
  proof -
    have "take_bit 10 (push_bit 10 e OR word_of_nat i :: u64) = take_bit 10 (word_of_nat i)"
      by (rule bit_word_eqI) (auto simp: bit_simps)
    then show ?thesis using that by (simp add: unsigned_take_bit_eq unat_of_nat take_bit_nat_eq_self)
  qed
  have "i = j" if "i < 0x400" "j < 0x400" "push_bit 10 e OR word_of_nat i = (push_bit 10 e OR word_of_nat j :: u64)" for i j
    using u [OF that(1)] u [OF that(2)] that(3) by simp
  with n show ?thesis by (auto simp: distinct_map intro!: inj_onI)
qed

text \<open>C28: How a group is cut into chunks. Within the budget (or without one) it is one chunk; above it every operator is
a chunk of its own: the search for a divisor of bytes times members starts at the number of members and ends there. The
chunk ids are the entry of the first operator with the position as sequence number; for up to 1024 chunks they differ.\<close>

theorem build_group_chunks:
  assumes "cs \<noteq> []" "length cs \<le> 0x400" "unat (group_bytes cs) * length cs < 2 ^ 64"
    and "resolve_table_index es (ca_op_id (hd cs)) = Some e"
  shows "map (\<lambda>ch. (ch_chunk_id ch, ch_member_ops ch)) (sg_chunks (fst (build_group es cfg (k, cs)))) =
    (if over_budget (group_budget cfg (fst k)) cs
     then map (\<lambda>i. (push_bit 10 e OR word_of_nat i, [ca_op_id (cs ! i)])) [0..<length cs]
     else [(push_bit 10 e, map ca_op_id cs)]) \<and>
    distinct (map ch_chunk_id (sg_chunks (fst (build_group es cfg (k, cs)))))"
proof -
  let ?over = "over_budget (group_budget cfg (fst k)) cs"
  define n where "n = (if ?over then length cs else 1)"
  define per where "per = (length cs + n - 1) div n"
  have n: "chunk_count (group_budget cfg (fst k)) cs = n"
    unfolding n_def using assms(1-3) by (intro chunk_count_eq) auto
  have per: "per = (if ?over then 1 else length cs)"
  proof -
    have "(length cs + length cs - 1) div length cs = 1" using assms(1) by (intro div_nat_eqI) auto
    then show ?thesis by (simp add: per_def n_def)
  qed
  have g: "sg_chunks (fst (build_group es cfg (k, cs))) = build_chunks e per cs [0..<n] 0"
    using assms(4) n by (cases k) (simp add: build_group_def Let_def per_def)
  have ne: "list_all (\<lambda>k. take per (drop (k * per) cs) \<noteq> []) [0..<n]"
    using assms(1) by (auto simp: list_all_iff per n_def)
  have ids: "map ch_chunk_id (build_chunks e per cs [0..<n] 0) = map (\<lambda>n. push_bit 10 e OR word_of_nat n) [0..<n]"
    using build_chunks_ids [OF ne, of 0 e] assms(1,2) by (simp add: n_def)
  have "distinct (map ch_chunk_id (build_chunks e per cs [0..<n] 0))"
    unfolding ids by (rule chunk_ids_distinct) (use assms(2) in \<open>auto simp: n_def\<close>)
  moreover have "map ch_member_ops (build_chunks e per cs [0..<n] 0) = map (\<lambda>k. map ca_op_id (take per (drop (k * per) cs))) [0..<n]"
    using ne by (simp add: build_chunks_members filter_map list_all_iff filter_id_conv comp_def)
  then have "map (\<lambda>ch. (ch_chunk_id ch, ch_member_ops ch)) (build_chunks e per cs [0..<n] 0) =
      map (\<lambda>k. (push_bit 10 e OR word_of_nat k, map ca_op_id (take per (drop (k * per) cs)))) [0..<n]"
    by (rule map_pair_eq [OF ids])
  moreover have "map (\<lambda>k. map ca_op_id (take 1 (drop k cs))) [0..<length cs] = map (\<lambda>i. [ca_op_id (cs ! i)]) [0..<length cs]"
    by (simp add: take_Suc_conv_app_nth hd_drop_conv_nth take_Suc)
  ultimately show ?thesis unfolding g by (simp add: per n_def)
qed

text \<open>Beyond 1024 chunks the sequence number reaches into the entry: after 0x3ff comes 0x401, which repeats the id of
the second chunk when the entry is odd.\<close>

lemma chunk_id_collision:
  "supertile_next_chunk_seq 0x3ff = 0x401 \<and>
   push_bit 10 (1 :: u64) OR ucast (0x401 :: u32) = push_bit 10 1 OR ucast (1 :: u32)"
  by (simp add: supertile_next_chunk_seq_def)

definition demo_cand :: "u64 \<Rightarrow> u64 \<Rightarrow> candidate" where
  "demo_cand i n = \<lparr>ca_op_id = i, ca_tag = 9, ca_tensor_bytes = n, ca_op_name = None, ca_resource_flags = 8, ca_record_valid = True\<rparr>"

definition demo_config :: st_config where
  "demo_config = \<lparr>sc_budget_default = 100, sc_budget_hash_hit = 0, sc_blacklist_names = k_supertile_name_blacklist,
     sc_hmx_count = 2, sc_hvx_count = 0, sc_hash_hit_ids = []\<rparr>"

theorem build_group_chunks_witness:
  "map (\<lambda>ch. (ch_chunk_id ch, ch_member_ops ch))
     (sg_chunks (fst (build_group [5] demo_config ((1, 9), [demo_cand 0x401 70, demo_cand 0x402 80])))) =
   [(0x400, [0x401]), (0x401, [0x402])]"
proof -
  let ?cs = "[demo_cand 0x401 70, demo_cand 0x402 80]"
  have e: "resolve_table_index [5] (ca_op_id (hd ?cs)) = Some 1"
    by (simp add: demo_cand_def resolve_table_index_def locate_def entry_count_def entry_before_def is_far_def
        is_negative_def FAR_MARKER_def NEG_BIT30_def)
  have "over_budget (group_budget demo_config (fst ((1, 9) :: group_key))) ?cs" "unat (group_bytes ?cs) * length ?cs < 2 ^ 64"
    by (simp_all add: over_budget_def group_budget_def demo_config_def group_bytes_def demo_cand_def)
  with build_group_chunks [OF _ _ this(2) e, of demo_config "(1, 9)"] show ?thesis by (simp add: demo_cand_def)
qed

text \<open>Two operators of different entries fall into one group: without a far jump the resolved id is only the position
within the entry.\<close>

lemma unrelated_ids_grouped: "cand_key [0, 0] demo_config (demo_cand 0x400 1) = cand_key [0, 0] demo_config (demo_cand 0x800 1)"
  by (simp add: cand_key_def eligible_def demo_cand_def demo_config_def k_supertile_name_blacklist_def resolve_full_id_def
      locate_def entry_count_def entry_before_def is_far_def is_negative_def FAR_MARKER_def NEG_BIT30_def CHUNK_MASK_def word_le_nat_alt)

section \<open>Threads\<close>

text \<open>The share of a thread never exceeds the size, and the shares of all threads cover it.\<close>

lemma autothread_size_covers:
  fixes num_threads size_field :: u32 and k :: nat
  assumes "1 \<le> num_threads"
  defines "r \<equiv> unat (autothread_size num_threads size_field k)"
  shows "r \<le> unat size_field \<and> unat size_field \<le> unat num_threads * r"
proof (cases "num_threads < 2")
  case True
  with assms(1) have "unat num_threads = 1" by (simp add: word_less_nat_alt word_le_nat_alt)
  with True show ?thesis by (simp add: r_def autothread_size_def)
next
  case False
  define T where "T = unat num_threads"
  define q where "q = (unat size_field + T - 1) div T"
  define m where "m = autothread_table ! min k 3"
  have T: "0 < T" using False by (simp add: T_def word_less_nat_alt)
  have "m \<in> set autothread_table" unfolding m_def by (rule nth_mem) (simp add: autothread_table_def)
  then have m: "0 < m" by (auto simp: autothread_table_def)
  have "(m + q - 1) - (m + q - 1) mod m = round_up m q"
    using round_up_eq_sub [OF m, of q] m by (simp add: add.commute)
  then have "autothread_size num_threads size_field k = word_of_nat (min (round_up m q) (unat size_field))"
    using False by (simp add: autothread_size_def Let_def T_def [symmetric] q_def m_def)
  moreover have "min (round_up m q) (unat size_field) < 2 ^ 32"
    using unsigned_less [of size_field, where ?'a = nat] by simp
  ultimately have r: "r = min (round_up m q) (unat size_field)"
    by (simp add: r_def unat_of_nat take_bit_nat_eq_self del: of_nat_min)
  have "unat size_field \<le> T * q" unfolding q_def by (rule ceil_covers [OF T])
  also have "\<dots> \<le> T * round_up m q" by (simp add: round_up_ge)
  finally show ?thesis using T by (auto simp: r T_def [symmetric] min_def)
qed

end
