(* ===== verification/StepPlan.thy ===== *)
theory StepPlan
  imports Prelude
begin

text \<open>
  Plans of records (\<open>compiler/src/schedule/scheduler.cpp\<close>): the records and their ids, the names of kernels, the
  generators of single steps, \<open>schedule_general\<close>, which expands the description of a small model into steps, and
  \<open>schedule_simple_linear\<close>, which replays one recorded plan.

  Tensor ids, tags and blocks are \<open>u32\<close> and wrap; counters of records are natural numbers. The data type of a tensor,
  which no function here reads, is left out. Writing behind the end of a vector is \<open>None\<close>.
\<close>

unbundle bit_operations_syntax

section \<open>Data\<close>

datatype op_record_type = OP_TYPE_COMPUTE | OP_TYPE_MEMORY | OP_TYPE_SYNC | OP_TYPE_DMA

record scheduled_op =
  sd_record_id :: u32
  sd_tensor_id :: u32
  sd_type :: op_record_type
  sd_f2 :: u32
  sd_block_ref :: u32
  sd_extras :: "u32 list"
  sd_kernel_name :: string
  sd_step_name :: string

definition compute_record_id :: "u32 \<Rightarrow> u32" where
  "compute_record_id step_index =
     (let pair = step_index div 2; base = (0x11 + 2 * pair) AND 0x1f
      in if step_index mod 2 = 0 then base OR 0x60 else ((base - 1) AND 0x1f) OR 0x60)"

record tensor_info =
  ti_tensor_id :: u32
  ti_name :: string
  ti_rank :: nat
  ti_dims :: "nat list"
  ti_is_const :: bool
  ti_is_graph_io :: bool

record sched_plan =
  pl_ops :: "scheduled_op list"
  pl_kernel_names :: "string list"
  pl_op_names :: "string list"
  pl_tensor_names :: "string list"
  pl_tensors :: "tensor_info list"
  pl_op_order :: "u32 list"

definition empty_plan :: sched_plan where
  "empty_plan = \<lparr>pl_ops = [], pl_kernel_names = [], pl_op_names = [], pl_tensor_names = [], pl_tensors = [], pl_op_order = []\<rparr>"

record scheduler =
  sh_next_step :: u32
  sh_next_dma_tag :: u32
  sh_next_vtcm_block :: u32
  sh_block_map :: "(u32 \<times> u32) list"

definition scheduler_init :: scheduler where
  "scheduler_init = \<lparr>sh_next_step = 0, sh_next_dma_tag = 0x11, sh_next_vtcm_block = 0x19, sh_block_map = []\<rparr>"

section \<open>Kernel names\<close>

datatype dtype = Float32 | Float16 | Int8 | Int16 | Int32 | OtherType

fun dtype_suffix :: "dtype \<Rightarrow> string" where
  "dtype_suffix Float32 = ''ff''"
| "dtype_suffix Float16 = ''ff16''"
| "dtype_suffix Int8 = ''i8''"
| "dtype_suffix Int16 = ''i16''"
| "dtype_suffix Int32 = ''i32''"
| "dtype_suffix OtherType = ''ff''"

definition kernel_select :: "string \<Rightarrow> dtype \<Rightarrow> bool \<Rightarrow> string \<times> u32" where
  "kernel_select op_name dt is_input_side =
     (let suffix = dtype_suffix dt
      in if op_name = ''Transpose'' \<or> op_name = ''transpose''
         then if is_input_side then (''*InputSlice@Ff.s4*6.'', 0x02)
              else (''Transpose_impl@'' @ suffix @ ''*2.fi.t'', 0x03)
         else if op_name = ''Reshape'' \<or> op_name = ''reshape'' then (''flat_from_vtcm@'' @ suffix @ ''.Ff.'', 0x11)
         else if op_name \<in> {''FullyConnected'', ''MatMul'', ''MatMul_bias'', ''FCElementwiseAdd''}
         then (''MatMul_bias@'' @ suffix @ ''*4'', 0x14)
         else if op_name = ''Input'' \<or> op_name = ''InputNodeSetup'' then ([], 0)
         else if op_name = ''Output'' \<or> op_name = ''OutputNodeSetup'' then ([], 0)
         else if op_name = ''Const'' then (''Const'', 0)
         else (op_name, 0))"

definition kernel_table :: "string list" where
  "kernel_table = [''Shape'', ''*InputSlice@Ff.s4*6.'', ''@DmaCheckpointSet'', ''@DmaCheckpointWait'', ''Const'',
     ''Transpose_impl@Ff*2.fi.t'', ''flat_from_vtcm@ff.Ff.'', ''MatMul_bias@ff*4'', ''Transpose_impl@ff*2.fi.t'',
     ''*OutputSlice@ff.s4*3.'', ''@SyncOp'']"

section \<open>Records\<close>

definition make_op ::
  "u32 \<Rightarrow> op_record_type \<Rightarrow> u32 \<Rightarrow> u32 \<Rightarrow> u32 list \<Rightarrow> string \<Rightarrow> string \<Rightarrow> scheduler \<Rightarrow> scheduled_op \<times> scheduler" where
  "make_op tid ty f2 block_ref extras kern step s =
     (\<lparr>sd_record_id = compute_record_id (sh_next_step s), sd_tensor_id = tid, sd_type = ty, sd_f2 = f2,
       sd_block_ref = block_ref, sd_extras = extras, sd_kernel_name = kern, sd_step_name = step\<rparr>,
      s\<lparr>sh_next_step := sh_next_step s + 1\<rparr>)"

definition push_op ::
  "u32 \<Rightarrow> op_record_type \<Rightarrow> u32 \<Rightarrow> u32 \<Rightarrow> u32 list \<Rightarrow> string \<Rightarrow> string \<Rightarrow> scheduler \<times> sched_plan \<Rightarrow> scheduler \<times> sched_plan" where
  "push_op tid ty f2 block_ref extras kern step sp =
     (let (r, s) = make_op tid ty f2 block_ref extras kern step (fst sp)
      in (s, (snd sp)\<lparr>pl_ops := pl_ops (snd sp) @ [r]\<rparr>))"

definition alloc_vtcm_block :: "u32 \<Rightarrow> scheduler \<Rightarrow> u32 \<times> scheduler" where
  "alloc_vtcm_block tid s =
     (case map_of (sh_block_map s) tid of
        Some b \<Rightarrow> (b, s)
      | None \<Rightarrow> (sh_next_vtcm_block s,
                 s\<lparr>sh_next_vtcm_block := sh_next_vtcm_block s + 1,
                   sh_block_map := (tid, sh_next_vtcm_block s) # sh_block_map s\<rparr>))"

text \<open>A record in the block of a tensor.\<close>

definition push_in_block ::
  "u32 \<Rightarrow> u32 \<Rightarrow> op_record_type \<Rightarrow> u32 \<Rightarrow> u32 list \<Rightarrow> string \<Rightarrow> string \<Rightarrow> scheduler \<times> sched_plan \<Rightarrow> scheduler \<times> sched_plan" where
  "push_in_block owner tid ty f2 extras kern step sp =
     (let (block, s) = alloc_vtcm_block owner (fst sp)
      in push_op tid ty f2 (0x1000 OR block) extras kern step (s, snd sp))"

section \<open>Step generators\<close>

text \<open>The extras of a node: five words, into which the dimensions are written from the second word on.\<close>

definition node_extras :: "tensor_info \<Rightarrow> u32 list option" where
  "node_extras t =
     (let n = min 5 (ti_rank t)
      in if 4 < n then None
         else Some ([1] @ map word_of_nat (take n (ti_dims t)) @ replicate (4 - n) 0))"

definition gen_input_node_setup :: "tensor_info \<Rightarrow> bool \<Rightarrow> scheduler \<times> sched_plan \<Rightarrow> (scheduler \<times> sched_plan) option" where
  "gen_input_node_setup t is_first sp =
     map_option (\<lambda>ex. push_op 0 OP_TYPE_COMPUTE (if is_first then 0x82D28377 else 0x9DCAC54A) 0x1003 ex [] ''InputNodeSetup'' sp)
       (if is_first then Some [1, 0, 0, 0, 0] else node_extras t)"

definition gen_input_slice :: "tensor_info \<Rightarrow> tensor_info \<Rightarrow> scheduler \<times> sched_plan \<Rightarrow> scheduler \<times> sched_plan" where
  "gen_input_slice t_in t_out sp =
     push_in_block (ti_tensor_id t_in) (ti_tensor_id t_in) OP_TYPE_COMPUTE 0x02
       ([word_of_nat (ti_rank t_out), word_of_nat (ti_rank t_in)] @
        concat (map (\<lambda>i. [word_of_nat (ti_dims t_out ! i), word_of_nat (ti_dims t_in ! i)]) [0..<min (ti_rank t_out) 3]) @
        [0x00010020]) ''*InputSlice@Ff.s4*6.'' ''InputSlice'' sp"

definition gen_perm_load :: "tensor_info \<Rightarrow> scheduler \<times> sched_plan \<Rightarrow> scheduler \<times> sched_plan" where
  "gen_perm_load t sp =
     push_in_block (ti_tensor_id t) (ti_tensor_id t) OP_TYPE_MEMORY (if sh_next_step (fst sp) < 10 then 0x02 else 0x03)
       [0, 1] [] ''perm_load'' sp"

definition gen_layout_convert :: "tensor_info \<Rightarrow> tensor_info \<Rightarrow> scheduler \<times> sched_plan \<Rightarrow> scheduler \<times> sched_plan" where
  "gen_layout_convert t_in t_out sp =
     push_in_block (ti_tensor_id t_out) (ti_tensor_id t_out) OP_TYPE_MEMORY 0x02 [2, 1] [] ''layout_convert'' sp"

definition gen_flat_from_vtcm :: "tensor_info \<Rightarrow> u32 \<Rightarrow> scheduler \<times> sched_plan \<Rightarrow> scheduler \<times> sched_plan" where
  "gen_flat_from_vtcm t f2_phase sp =
     (let tid = ti_tensor_id t;
          extras = (if f2_phase = 0x11
                    then [3, 0x80000000 OR tid, 0xCCCC0001, 0x40001000,
                          word_of_nat (ti_dims t ! 0 * ti_dims t ! 1 * 0x19),
                          0x00030000 OR word_of_nat (ti_dims t ! 1 * 3)]
                    else if f2_phase = 0x1A then [3, 3, 0x00030010] else [])
      in push_in_block tid tid OP_TYPE_COMPUTE f2_phase extras ''flat_from_vtcm@ff.Ff.'' ''flat_from_vtcm'' sp)"

definition gen_fc_prep :: "tensor_info \<Rightarrow> u32 \<Rightarrow> scheduler \<times> sched_plan \<Rightarrow> scheduler \<times> sched_plan" where
  "gen_fc_prep t f2_phase sp =
     (let tid = ti_tensor_id t
      in push_in_block tid tid OP_TYPE_COMPUTE f2_phase [3, 0x80000000 OR (tid + 1), 0xCCCC0001, 0x40001000, 4, 0x00030008]
           [] ''fc_prep'' sp)"

definition gen_dma_set :: "tensor_info \<Rightarrow> u32 \<Rightarrow> u32 list \<Rightarrow> scheduler \<times> sched_plan \<Rightarrow> scheduler \<times> sched_plan" where
  "gen_dma_set t dma_tag dma_extras sp =
     push_in_block (ti_tensor_id t) (ti_tensor_id t) OP_TYPE_DMA dma_tag dma_extras ''@DmaCheckpointSet'' ''DmaCheckpointSet'' sp"

definition gen_matmul :: "tensor_info \<Rightarrow> u32 \<Rightarrow> bool \<Rightarrow> scheduler \<times> sched_plan \<Rightarrow> scheduler \<times> sched_plan" where
  "gen_matmul t f2_phase with_bias sp =
     (let tid = ti_tensor_id t;
          extras = (if \<not> with_bias then [0, 0x80000000 OR tid, 0xCCCC0001, 0x40001100, 2, 4, 0x00030000]
                    else [0, 0x80000000 OR tid, 0xCCCC0001, 0x40001000, 2, 0x00030004])
      in push_op tid OP_TYPE_COMPUTE f2_phase 0 extras ''MatMul_bias@ff*4''
           (if with_bias then ''MatMul_bias(+b)'' else ''MatMul_bias(xW)'') sp)"

definition gen_output_node_setup :: "tensor_info \<Rightarrow> scheduler \<times> sched_plan \<Rightarrow> (scheduler \<times> sched_plan) option" where
  "gen_output_node_setup t sp =
     map_option (\<lambda>ex. push_op 0 OP_TYPE_COMPUTE 0x9BCA6304 0x1003 ex [] ''OutputNodeSetup'' sp) (node_extras t)"

definition gen_sync :: "tensor_info \<Rightarrow> u32 list \<Rightarrow> scheduler \<times> sched_plan \<Rightarrow> scheduler \<times> sched_plan" where
  "gen_sync t sync_extras sp =
     push_in_block (ti_tensor_id t) (ti_tensor_id t) OP_TYPE_SYNC 0x03 sync_extras ''@SyncOp'' ''SyncOp'' sp"

definition gen_transpose_impl :: "tensor_info \<Rightarrow> tensor_info \<Rightarrow> scheduler \<times> sched_plan \<Rightarrow> scheduler \<times> sched_plan" where
  "gen_transpose_impl t_in t_out sp =
     push_in_block (ti_tensor_id t_in) (ti_tensor_id t_in) OP_TYPE_COMPUTE 0x03 [1] ''Transpose_impl@ff*2.fi.t'' ''Transpose_impl'' sp"

definition gen_output_slice :: "tensor_info \<Rightarrow> scheduler \<times> sched_plan \<Rightarrow> scheduler \<times> sched_plan" where
  "gen_output_slice t sp =
     push_in_block (ti_tensor_id t) (ti_tensor_id t) OP_TYPE_COMPUTE 0x00 [0] ''*OutputSlice@ff.s4*3.'' ''OutputSlice'' sp"

section \<open>Models\<close>

datatype htp_op_type = HtpTranspose | HtpReshape | HtpFullyConnected

record htp_op =
  ho_type :: htp_op_type
  ho_name :: string
  ho_input_tid :: u32
  ho_output_tid :: u32
  ho_weight_tid :: u32
  ho_bias_tid :: u32
  ho_perm_tid :: u32
  ho_weight_m :: u32
  ho_weight_k :: u32
  ho_act_ref_tid :: u32

record model_desc =
  md_input_tid :: u32
  md_input_batch :: u32
  md_input_dim0 :: u32
  md_input_dim1 :: u32
  md_output_tid :: u32
  md_output_batch :: u32
  md_output_dim0 :: u32
  md_output_dim1 :: u32
  md_perm_in_tid :: u32
  md_sync_tid :: u32
  md_input_ncf_tid :: u32
  md_ops :: "htp_op list"
  md_op_names :: "string list"
  md_tensor_names :: "string list"

fun shape_hash_loop :: "u32 list \<Rightarrow> u32 \<Rightarrow> u32" where
  "shape_hash_loop [] h = h"
| "shape_hash_loop (d # ds) h = shape_hash_loop ds (h * 0x01003123 + d)"

definition htp_shape_hash :: "u32 list \<Rightarrow> u32" where
  "htp_shape_hash dims =
     (case dims of [] \<Rightarrow> 0x51BE1035 | d # ds \<Rightarrow> shape_hash_loop (take 7 ds) (0x51BE1035 + d))"

text \<open>The facts about the model that the expansion of an operator looks at.\<close>

fun transpose_before_fc :: "htp_op_type list \<Rightarrow> bool" where
  "transpose_before_fc [] = False"
| "transpose_before_fc (t # ts) = (t = HtpTranspose \<and> HtpFullyConnected \<in> set ts \<or> transpose_before_fc ts)"

record general_ctx =
  gc_model :: model_desc
  gc_standalone_transpose :: bool
  gc_standalone_reshape :: bool
  gc_transpose_before_fc :: bool
  gc_fc_count :: nat

definition general_ctx :: "model_desc \<Rightarrow> general_ctx" where
  "general_ctx m =
     (let ts = map ho_type (md_ops m); st = (ts = [HtpTranspose])
      in \<lparr>gc_model = m, gc_standalone_transpose = st, gc_standalone_reshape = (ts = [HtpReshape]),
          gc_transpose_before_fc = (\<not> st \<and> transpose_before_fc ts),
          gc_fc_count = length (filter (\<lambda>t. t = HtpFullyConnected) ts)\<rparr>)"

definition next_is :: "htp_op_type \<Rightarrow> htp_op list \<Rightarrow> bool" where
  "next_is t rest = (case rest of [] \<Rightarrow> False | op # _ \<Rightarrow> ho_type op = t)"

text \<open>The number of DMA operations, as it is computed in advance.\<close>

fun count_dma :: "general_ctx \<Rightarrow> bool \<Rightarrow> htp_op list \<Rightarrow> nat" where
  "count_dma c prev_was_fc [] = 0"
| "count_dma c prev_was_fc (op # rest) =
     (if ho_type op = HtpFullyConnected
      then (if \<not> prev_was_fc then 1 else 0) +
           (if next_is HtpReshape rest then 2 else 1) +
           (if gc_transpose_before_fc c \<and> \<not> prev_was_fc then 1 else 0) + count_dma c True rest
      else (if ho_type op = HtpTranspose \<and> gc_standalone_transpose c then 1 else 0) + count_dma c False rest)"

definition n_dma :: "general_ctx \<Rightarrow> nat" where
  "n_dma c = count_dma c False (md_ops (gc_model c))"

definition is_base :: "general_ctx \<Rightarrow> nat" where
  "is_base c = 0x15 + 5 * ((n_dma c + 1) div 2) + 2 * (if gc_transpose_before_fc c then 1 else 0)"

definition perm_in_delta :: "nat \<Rightarrow> nat" where
  "perm_in_delta n = 6 + (if 0 < n then 3 else 0) + (if 3 \<le> n then 1 else 0) + (if 4 \<le> n then 5 else 0)"

definition blk_off :: "general_ctx \<Rightarrow> int \<Rightarrow> u32" where
  "blk_off c offset = 0x1000 OR word_of_int (int (is_base c) + offset)"

record step_row =
  rw_tid :: u32
  rw_type :: op_record_type
  rw_f2 :: u32
  rw_block_ref :: u32
  rw_extras :: "u32 list"
  rw_kernel :: string
  rw_step :: string

definition row :: "u32 \<Rightarrow> op_record_type \<Rightarrow> u32 \<Rightarrow> u32 \<Rightarrow> u32 list \<Rightarrow> string \<Rightarrow> string \<Rightarrow> step_row" where
  "row tid ty f2 block extras kern step =
     \<lparr>rw_tid = tid, rw_type = ty, rw_f2 = f2, rw_block_ref = block, rw_extras = extras, rw_kernel = kern, rw_step = step\<rparr>"

definition mk :: "step_row \<Rightarrow> scheduler \<times> sched_plan \<Rightarrow> scheduler \<times> sched_plan" where
  "mk r = push_op (rw_tid r) (rw_type r) (rw_f2 r) (rw_block_ref r) (rw_extras r) (rw_kernel r) (rw_step r)"

section \<open>Steps of one operator\<close>

text \<open>Each function returns the rows of one operator and the next value of the DMA counter.\<close>

definition compute_base :: "general_ctx \<Rightarrow> u32" where
  "compute_base c = (if gc_transpose_before_fc c then 0x14 else 0x10)"

definition reshape_rows :: "general_ctx \<Rightarrow> htp_op \<Rightarrow> bool \<Rightarrow> u32 \<Rightarrow> step_row list \<times> u32" where
  "reshape_rows c op has_fc_after dc =
     (let mot = md_output_tid (gc_model c); out = ho_output_tid op
      in if gc_standalone_reshape c
         then ([row (ho_input_tid op) OP_TYPE_COMPUTE 0x02 (blk_off c 3) [1] [] ''reshape_prep'',
                row out OP_TYPE_COMPUTE 0x03 (blk_off c 1) [mot, 4, 3, 3] [] ''reshape_compute''], dc)
         else if has_fc_after
         then ([row out OP_TYPE_COMPUTE 0x11 (blk_off c 2)
                  [3, 0x80000000 OR (out - 1), 0xCCCC0001, 0x40001000, 0x19, 0x0003000C] ''flat_from_vtcm@ff.Ff.'' ''flat_from_vtcm'',
                row out OP_TYPE_COMPUTE 0x12 (blk_off c (if gc_transpose_before_fc c then -7 else -5))
                  [3, 0x80000000 OR out, 0xCCCC0001, 0x40001000, 4, 0x00030008] [] ''fc_prep''], dc)
         else ([row (ho_input_tid op) OP_TYPE_COMPUTE 0x1A (blk_off c 4) [3, 3, 0x00030010] ''flat_from_vtcm@ff.Ff.'' ''flat_from_vtcm'',
                row out OP_TYPE_DMA 0x1A (blk_off c 5) [dc, dc + 1, mot + 2, mot + 3, mot - 3, 0, 2, 0x00020004]
                  ''@DmaCheckpointSet'' ''DmaCheckpointSet(out_ncf)''], dc + 1))"

definition transpose_rows :: "general_ctx \<Rightarrow> htp_op \<Rightarrow> u32 \<Rightarrow> step_row list \<times> u32" where
  "transpose_rows c op dc =
     (if gc_standalone_transpose c
      then let out = ho_output_tid op; dma_tid = out + 1
           in ([row out OP_TYPE_COMPUTE 0x11 (blk_off c 2)
                  [3, 0x80000000 OR md_input_ncf_tid (gc_model c), 0xCCCC0001, 0x40001000, 0x19, 0x00020004]
                  ''flat_from_vtcm@ff.Ff.'' ''flat_from_vtcm'',
                row out OP_TYPE_COMPUTE 0x12 (blk_off c (-5))
                  [3, 0x80000000 OR out, 0xCCCC0001, 0x40001000, 4, 0x00020000] [] ''fc_prep'',
                row dma_tid OP_TYPE_DMA 0x11 (blk_off c 3) [dc, dc + 1, dma_tid, dma_tid + 1, dma_tid + 2, 2, 2, 0x00010000]
                  ''@DmaCheckpointSet'' ''DmaCheckpointSet''], dc + 1)
      else ([], dc))"

definition weight_rows :: "general_ctx \<Rightarrow> htp_op \<Rightarrow> bool \<Rightarrow> u32 \<Rightarrow> step_row list \<times> u32" where
  "weight_rows c op prev_is_fc dc =
     (let w = ho_weight_tid op; b = ho_bias_tid op; m = gc_model c
      in if prev_is_fc then ([], dc)
         else if gc_transpose_before_fc c
         then ([row w OP_TYPE_DMA 0x11 (blk_off c 3)
                  [dc, dc + 1, w, b, ho_output_tid op, 2, 0x80000000 OR w, 0x40001100, md_input_dim1 m, md_input_dim0 m, 0x00010000]
                  ''@DmaCheckpointSet'' ''DmaCheckpointSet(W)'',
                row b OP_TYPE_DMA 0x11 (blk_off c 6) [dc + 1, dc + 2, b + 2, 0, 5, 0x00020004]
                  ''@DmaCheckpointSet'' ''DmaCheckpointSet(b)''], dc + 2)
         else ([row w OP_TYPE_DMA 0x02 (blk_off c 2) [dc, dc + 1, w + 1, 0, 1, 0x00020004]
                  ''@DmaCheckpointSet'' ''DmaCheckpointSet(W)''], dc + 1))"

definition matmul_rows :: "general_ctx \<Rightarrow> htp_op \<Rightarrow> bool \<Rightarrow> nat \<Rightarrow> step_row list" where
  "matmul_rows c op prev_is_fc fc_index =
     (let out = ho_output_tid op;
          phase = compute_base c + word_of_nat (fc_index * 2);
          act_tid = (if ho_act_ref_tid op \<noteq> 0 then ho_act_ref_tid op
                     else if gc_transpose_before_fc c then out - 1 else md_input_ncf_tid (gc_model c));
          k_dim = (if gc_transpose_before_fc c then md_input_dim0 (gc_model c) else ho_weight_k op);
          bias_tid = (if gc_transpose_before_fc c then out else if prev_is_fc then out + 1 else ho_weight_tid op)
      in [row (ho_input_tid op) OP_TYPE_COMPUTE phase 0
            [0, 0x80000000 OR act_tid, 0xCCCC0001, 0x40001100, ho_weight_m op, k_dim, if prev_is_fc then 0x00030008 else 0x00030000]
            ''MatMul_bias@ff*4'' ''MatMul_bias(xW)'',
          row (ho_input_tid op) OP_TYPE_COMPUTE (phase + 1) 0
            [0, 0x80000000 OR bias_tid, 0xCCCC0001, 0x40001000, ho_weight_m op, if prev_is_fc then 0x0003000C else 0x00030004]
            ''MatMul_bias@ff*4'' ''MatMul_bias(+b)''])"

definition fc_output_row :: "general_ctx \<Rightarrow> htp_op \<Rightarrow> bool \<Rightarrow> htp_op list \<Rightarrow> u32 \<Rightarrow> nat \<Rightarrow> step_row" where
  "fc_output_row c op prev_is_fc rest dc fc_index =
     (let m = gc_model c; out = ho_output_tid op; mot = md_output_tid m;
          tag = compute_base c + word_of_nat (gc_fc_count c * 2) + word_of_nat (fc_index * 2)
      in if next_is HtpReshape rest
         then row out OP_TYPE_DMA tag (blk_off c (-8))
                [dc, dc + 1, mot - 1, mot, mot + 1, 0, 0x80000000 OR (mot - 2), 0x40001100, md_input_dim1 m, ho_weight_m op, 0x00020008]
                ''@DmaCheckpointSet'' ''DmaCheckpointSet(out_fc)''
         else if next_is HtpFullyConnected rest
         then row out OP_TYPE_DMA tag (blk_off c (-2))
                [dc, dc + 1, out, out + 1, out + 2, 0, 0x80000000 OR ho_input_tid op, 0x40001100, 3, 2, 0x00020008]
                ''@DmaCheckpointSet'' ''DmaCheckpointSet(inter)''
         else let t = (if prev_is_fc then mot + 1 else out)
              in row out OP_TYPE_DMA tag (blk_off c (-1))
                   [dc, dc + 1, t, t + 1, t + 2, 0, 2, if prev_is_fc then 0x00020004 else 0x00020008]
                   ''@DmaCheckpointSet'' ''DmaCheckpointSet(out)'')"

fun op_rows :: "general_ctx \<Rightarrow> bool \<Rightarrow> htp_op list \<Rightarrow> u32 \<Rightarrow> nat \<Rightarrow> step_row list" where
  "op_rows c prev_is_fc [] dc fc_index = []"
| "op_rows c prev_is_fc (op # rest) dc fc_index =
     (case ho_type op of
        HtpReshape \<Rightarrow>
          (let (rows, dc') = reshape_rows c op (next_is HtpFullyConnected rest) dc
           in rows @ op_rows c False rest dc' fc_index)
      | HtpTranspose \<Rightarrow>
          (let (rows, dc') = transpose_rows c op dc in rows @ op_rows c False rest dc' fc_index)
      | HtpFullyConnected \<Rightarrow>
          (let (rows, dc') = weight_rows c op prev_is_fc dc
           in rows @ matmul_rows c op prev_is_fc fc_index @ [fc_output_row c op prev_is_fc rest dc' fc_index] @
              op_rows c True rest (dc' + 1) (fc_index + 1)))"

section \<open>The general plan\<close>

definition has_type :: "general_ctx \<Rightarrow> htp_op_type \<Rightarrow> bool" where
  "has_type c t \<longleftrightarrow> t \<in> set (map ho_type (md_ops (gc_model c)))"

definition head_rows :: "general_ctx \<Rightarrow> step_row list" where
  "head_rows c =
     (let m = gc_model c; layout = has_type c HtpTranspose \<or> has_type c HtpFullyConnected;
          layout_off = (if gc_standalone_transpose c then 5 else if gc_transpose_before_fc c then 8 else 4)
      in [row 0 OP_TYPE_COMPUTE 0x82D28377 0x1003 [1, 0, 0, 0, 0] [] ''InputNodeSetup'',
          row 0 OP_TYPE_COMPUTE (htp_shape_hash [1, md_input_batch m, md_input_dim0 m, md_input_dim1 m]) 0x1003
            [1, 1, 1, md_input_dim0 m, md_input_dim1 m] [] ''InputNodeSetup'',
          row (md_input_tid m) OP_TYPE_COMPUTE 0x02 (blk_off c 0)
            [3, 3, 4, 3, 4, 4, 2, 1, if has_type c HtpTranspose then 0x00010020 else 0x00010000] ''*InputSlice@Ff.s4*6.'' ''InputSlice'',
          row (md_perm_in_tid m) OP_TYPE_MEMORY 0x02 (blk_off c (int (perm_in_delta (n_dma c)))) [0, 1] [] ''perm_load''] @
         (if layout then [row 3 OP_TYPE_MEMORY 0x02 (blk_off c layout_off) [2, 1] [] ''layout_convert''] else []))"

text \<open>The tail after \<open>k\<close> records.\<close>

definition tail_rows :: "general_ctx \<Rightarrow> nat \<Rightarrow> step_row list" where
  "tail_rows c k =
     (let m = gc_model c; d = int (perm_in_delta (n_dma c)); n_steps = word_of_nat (k + 1 + 4)
      in (if has_type c HtpFullyConnected \<or> has_type c HtpTranspose
          then [row 0 OP_TYPE_COMPUTE (htp_shape_hash [1, md_output_batch m, md_output_dim0 m, md_output_dim1 m]) 0x1003
                  [1, 1, 1, md_output_dim0 m, md_output_dim1 m] [] ''OutputNodeSetup'',
                row (md_sync_tid m) OP_TYPE_SYNC 0x03 (blk_off c 1)
                  [word_of_nat (n_dma c + 2), n_steps - 5, n_steps - 4, 3, 3] ''@SyncOp'' ''SyncOp'']
          else []) @
         [row (md_perm_in_tid m) OP_TYPE_MEMORY 0x03 (blk_off c (d + 1)) [0, 1] [] ''perm_load'',
          row 3 OP_TYPE_COMPUTE 0x03 (blk_off c (d + 1 - 3)) [1] ''Transpose_impl@ff*2.fi.t'' ''Transpose_impl'',
          row (md_output_tid m) OP_TYPE_COMPUTE 0x00 (blk_off c (d + 1 - 3 + 1)) [0] ''*OutputSlice@ff.s4*3.'' ''OutputSlice''])"

definition general_rows :: "model_desc \<Rightarrow> step_row list" where
  "general_rows m =
     (let c = general_ctx m; rows = head_rows c @ op_rows c False (md_ops m) 2 0
      in rows @ tail_rows c (length rows))"

definition schedule_general :: "model_desc \<Rightarrow> scheduler \<times> sched_plan" where
  "schedule_general m =
     fold mk (general_rows m)
       (scheduler_init, empty_plan\<lparr>pl_op_names := md_op_names m, pl_tensor_names := md_tensor_names m, pl_kernel_names := kernel_table\<rparr>)"

section \<open>The recorded plan\<close>

definition simple_linear_rows :: "step_row list" where
  "simple_linear_rows =
     [row 0 OP_TYPE_COMPUTE 0x82D28377 0x1003 [1, 0, 0, 0, 0] [] ''InputNodeSetup'',
      row 0 OP_TYPE_COMPUTE 0x9DCAC54A 0x1003 [1, 1, 1, 4, 3] [] ''InputNodeSetup'',
      row 1 OP_TYPE_COMPUTE 0x02 (0x1000 OR 0x21) [3, 3, 4, 3, 4, 4, 2, 1, 0x00010020] ''*InputSlice@Ff.s4*6.'' ''InputSlice'',
      row 2 OP_TYPE_MEMORY 0x02 (0x1000 OR 0x30) [0, 1] [] ''perm_load'',
      row 3 OP_TYPE_MEMORY 0x02 (0x1000 OR 0x29) [2, 1] [] ''layout_convert'',
      row 4 OP_TYPE_COMPUTE 0x11 (0x1000 OR 0x23) [3, 0x80000003, 0xCCCC0001, 0x40001000, 0x19, 0x0003000C] ''flat_from_vtcm@ff.Ff.'' ''flat_from_vtcm'',
      row 4 OP_TYPE_COMPUTE 0x12 (0x1000 OR 0x1A) [3, 0x80000004, 0xCCCC0001, 0x40001000, 4, 0x00030008] [] ''fc_prep'',
      row 5 OP_TYPE_DMA 0x11 (0x1000 OR 0x24) [2, 3, 5, 6, 7, 2, 0x80000005, 0x40001100, 3, 4, 0x00010000] ''@DmaCheckpointSet'' ''DmaCheckpointSet(W)'',
      row 6 OP_TYPE_DMA 0x11 (0x1000 OR 0x27) [3, 4, 8, 0, 5, 0x00020004] ''@DmaCheckpointSet'' ''DmaCheckpointSet(b)'',
      row 4 OP_TYPE_COMPUTE 0x14 0 [0, 0x80000006, 0xCCCC0001, 0x40001100, 2, 4, 0x00030000] ''MatMul_bias@ff*4'' ''MatMul_bias(xW)'',
      row 4 OP_TYPE_COMPUTE 0x15 0 [0, 0x80000007, 0xCCCC0001, 0x40001000, 2, 0x00030004] ''MatMul_bias@ff*4'' ''MatMul_bias(+b)'',
      row 7 OP_TYPE_DMA 0x16 (0x1000 OR 0x19) [4, 5, 9, 10, 11, 0, 0x80000008, 0x40001100, 3, 2, 0x00020008] ''@DmaCheckpointSet'' ''DmaCheckpointSet(out_fc)'',
      row 4 OP_TYPE_COMPUTE 0x1A (0x1000 OR 0x25) [3, 3, 0x00030010] ''flat_from_vtcm@ff.Ff.'' ''flat_from_vtcm'',
      row 8 OP_TYPE_DMA 0x1A (0x1000 OR 0x26) [5, 6, 12, 13, 7, 0, 2, 0x00020004] ''@DmaCheckpointSet'' ''DmaCheckpointSet(out_ncf)'',
      row 0 OP_TYPE_COMPUTE 0x9BCA6304 0x1003 [1, 1, 1, 2, 3] [] ''OutputNodeSetup'',
      row 9 OP_TYPE_SYNC 0x03 (0x1000 OR 0x22) [6, 14, 15, 3, 3] ''@SyncOp'' ''SyncOp'',
      row 2 OP_TYPE_MEMORY 0x03 (0x1000 OR 0x31) [0, 1] [] ''perm_load'',
      row 3 OP_TYPE_COMPUTE 0x03 (0x1000 OR 0x2E) [1] ''Transpose_impl@ff*2.fi.t'' ''Transpose_impl'',
      row 10 OP_TYPE_COMPUTE 0x00 (0x1000 OR 0x2F) [0] ''*OutputSlice@ff.s4*3.'' ''OutputSlice'']"

definition schedule_simple_linear :: "tensor_info list \<Rightarrow> string list \<Rightarrow> scheduler \<times> sched_plan" where
  "schedule_simple_linear tensors op_names =
     (let (s, pl) = fold mk simple_linear_rows
            (scheduler_init, empty_plan\<lparr>pl_tensors := tensors, pl_op_names := op_names, pl_kernel_names := kernel_table\<rparr>)
      in (s, pl\<lparr>pl_tensor_names := [''output'', ''input'']\<rparr>))"

section \<open>Records of a plan\<close>

definition op_of_row :: "nat \<Rightarrow> step_row \<Rightarrow> scheduled_op" where
  "op_of_row i r =
     \<lparr>sd_record_id = compute_record_id (word_of_nat i), sd_tensor_id = rw_tid r, sd_type = rw_type r, sd_f2 = rw_f2 r,
      sd_block_ref = rw_block_ref r, sd_extras = rw_extras r, sd_kernel_name = rw_kernel r, sd_step_name = rw_step r\<rparr>"

lemma fold_mk:
  assumes "sh_next_step (fst sp) = word_of_nat k"
  shows "snd (fold mk rows sp) = (snd sp)\<lparr>pl_ops := pl_ops (snd sp) @ map2 op_of_row [k..<k + length rows] rows\<rparr>"
  using assms
proof (induction rows arbitrary: sp k)
  case (Cons r rows)
  let ?sp = "mk r sp"
  have s: "sh_next_step (fst ?sp) = word_of_nat (Suc k)"
    and p: "snd ?sp = (snd sp)\<lparr>pl_ops := pl_ops (snd sp) @ [op_of_row k r]\<rparr>"
    using Cons.prems by (simp_all add: mk_def push_op_def make_op_def op_of_row_def)
  have "[k..<k + length (r # rows)] = k # [Suc k..<Suc k + length rows]" by (simp add: upt_conv_Cons del: upt_Suc)
  then show ?case using Cons.IH [OF s] p by simp
qed simp

lemma schedule_general_ops:
  "pl_ops (snd (schedule_general m)) = map2 op_of_row [0..<length (general_rows m)] (general_rows m)"
  by (simp add: schedule_general_def fold_mk [of _ 0] scheduler_init_def empty_plan_def)

lemma map_op_of_row:
  "map f (map2 op_of_row [k..<k + length rows] rows) = map2 (\<lambda>i r. f (op_of_row i r)) [k..<k + length rows] rows"
  by (simp add: comp_def case_prod_unfold)

section \<open>The recorded model\<close>

definition htp :: "htp_op_type \<Rightarrow> string \<Rightarrow> u32 \<Rightarrow> u32 \<Rightarrow> u32 \<Rightarrow> u32 \<Rightarrow> u32 \<Rightarrow> u32 \<Rightarrow> u32 \<Rightarrow> htp_op" where
  "htp t nm i out w b perm m k =
     \<lparr>ho_type = t, ho_name = nm, ho_input_tid = i, ho_output_tid = out, ho_weight_tid = w, ho_bias_tid = b, ho_perm_tid = perm,
      ho_weight_m = m, ho_weight_k = k, ho_act_ref_tid = 0\<rparr>"

definition simple_linear_model :: model_desc where
  "simple_linear_model =
     \<lparr>md_input_tid = 1, md_input_batch = 1, md_input_dim0 = 4, md_input_dim1 = 3, md_output_tid = 10, md_output_batch = 1,
      md_output_dim0 = 2, md_output_dim1 = 3, md_perm_in_tid = 2, md_sync_tid = 9, md_input_ncf_tid = 0,
      md_ops = [htp HtpTranspose ''input_ncf'' 1 3 0 0 2 0 0, htp HtpReshape ''pre_reshape'' 3 4 0 0 0 0 0,
                htp HtpFullyConnected ''MatMul_0'' 4 7 5 6 0 2 4, htp HtpReshape ''post_reshape'' 4 8 0 0 0 0 0],
      md_op_names = [], md_tensor_names = [''output'', ''input'']\<rparr>"

lemma simple_linear_rows_eq: "general_rows simple_linear_model = simple_linear_rows"
  by code_simp

lemma schedule_simple_linear_ops:
  "pl_ops (snd (schedule_simple_linear ts ns)) = map2 op_of_row [0..<length simple_linear_rows] simple_linear_rows"
  by (simp add: schedule_simple_linear_def case_prod_unfold fold_mk [of _ 0] scheduler_init_def empty_plan_def)

text \<open>The general expansion reproduces the recorded plan: for the description of the simple linear model it yields
exactly the 19 records of \<open>schedule_simple_linear\<close>, with their ids, tags, blocks, shape hashes and extras.\<close>

lemma general_replays_recorded:
  "pl_ops (snd (schedule_general simple_linear_model)) = pl_ops (snd (schedule_simple_linear tensors names)) \<and>
   length (pl_ops (snd (schedule_general simple_linear_model))) = 19"
proof -
  have "length simple_linear_rows = 19" by (simp add: simple_linear_rows_def)
  then show ?thesis by (simp add: schedule_general_ops simple_linear_rows_eq schedule_simple_linear_ops)
qed

section \<open>Counting\<close>

text \<open>Where the number computed in advance and the emitted records differ: an operator \<open>FullyConnected\<close> followed by a
\<open>Reshape\<close> counts two, and the second record is emitted by a \<open>Reshape\<close> that no \<open>FullyConnected\<close> follows.\<close>

fun fc_reshape_pairs :: "htp_op list \<Rightarrow> nat" where
  "fc_reshape_pairs [] = 0"
| "fc_reshape_pairs (op # rest) =
     (if ho_type op = HtpFullyConnected \<and> next_is HtpReshape rest then 1 else 0) + fc_reshape_pairs rest"

fun closing_reshapes :: "general_ctx \<Rightarrow> htp_op list \<Rightarrow> nat" where
  "closing_reshapes c [] = 0"
| "closing_reshapes c (op # rest) =
     (if ho_type op = HtpReshape \<and> \<not> gc_standalone_reshape c \<and> \<not> next_is HtpFullyConnected rest then 1 else 0) +
     closing_reshapes c rest"

definition dma_rows :: "step_row list \<Rightarrow> nat" where
  "dma_rows rows = length (filter (\<lambda>r. rw_type r = OP_TYPE_DMA) rows)"

lemma dma_rows_append [simp]: "dma_rows (xs @ ys) = dma_rows xs + dma_rows ys"
  by (simp add: dma_rows_def)

lemma row_type [simp]: "rw_type (row tid ty f2 block extras kern step) = ty"
  by (simp add: row_def)

lemma dma_rows_Cons [simp]: "dma_rows (r # rows) = (if rw_type r = OP_TYPE_DMA then 1 else 0) + dma_rows rows"
  by (simp add: dma_rows_def)

lemma dma_rows_Nil [simp]: "dma_rows [] = 0"
  by (simp add: dma_rows_def)

lemma fc_output_row_type [simp]: "rw_type (fc_output_row c op p rest dc k) = OP_TYPE_DMA"
  by (simp add: fc_output_row_def Let_def)

lemma op_rows_dma:
  "dma_rows (op_rows c prev ops dc k) + fc_reshape_pairs ops = count_dma c prev ops + closing_reshapes c ops"
proof (induction ops arbitrary: prev dc k)
  case (Cons op rest)
  show ?case
  proof (cases "ho_type op")
    case HtpTranspose
    with Cons.IH show ?thesis by (auto simp: transpose_rows_def Let_def)
  next
    case HtpReshape
    with Cons.IH show ?thesis by (auto simp: reshape_rows_def Let_def)
  next
    case HtpFullyConnected
    with Cons.IH [of True] show ?thesis by (auto simp: weight_rows_def matmul_rows_def Let_def)
  qed
qed simp

lemma head_tail_dma [simp]: "dma_rows (head_rows c) = 0" "dma_rows (tail_rows c k) = 0"
  by (simp_all add: head_rows_def tail_rows_def Let_def)

lemma dma_records:
  "length (filter (\<lambda>r. sd_type r = OP_TYPE_DMA) (map2 op_of_row [k..<k + length rows] rows)) = dma_rows rows"
proof (induction rows arbitrary: k)
  case (Cons r rows)
  have "[k..<k + length (r # rows)] = k # [Suc k..<Suc k + length rows]" by (simp add: upt_conv_Cons del: upt_Suc)
  then show ?case using Cons.IH [of "Suc k"] by (simp add: op_of_row_def)
qed simp

lemma general_dma_rows:
  "length (filter (\<lambda>r. sd_type r = OP_TYPE_DMA) (pl_ops (snd (schedule_general m)))) =
   dma_rows (op_rows (general_ctx m) False (md_ops m) 2 0)"
  using dma_records [of 0 "general_rows m"] by (simp add: schedule_general_ops) (simp add: general_rows_def Let_def)

lemma gc_model_general [simp]: "gc_model (general_ctx m) = m"
  by (simp add: general_ctx_def Let_def)

text \<open>C36: The number of DMA operations that the plan reserves blocks and synchronisation for, against the DMA records it
holds: they agree exactly when every \<open>FullyConnected\<close> that a \<open>Reshape\<close> follows has its own closing \<open>Reshape\<close> (one that
no \<open>FullyConnected\<close> follows) and the other way round; in general they differ by these two counts.\<close>

theorem general_dma_count:
  "length (filter (\<lambda>r. sd_type r = OP_TYPE_DMA) (pl_ops (snd (schedule_general m)))) + fc_reshape_pairs (md_ops m) =
   n_dma (general_ctx m) + closing_reshapes (general_ctx m) (md_ops m)"
  unfolding general_dma_rows n_dma_def using op_rows_dma [of "general_ctx m" False "md_ops m" 2 0] by simp

text \<open>For \<open>FullyConnected\<close>, \<open>Reshape\<close>, \<open>FullyConnected\<close> one operation too many is counted.\<close>

lemma general_dma_count_differs:
  "\<exists>m. length (filter (\<lambda>r. sd_type r = OP_TYPE_DMA) (pl_ops (snd (schedule_general m)))) < n_dma (general_ctx m)"
proof -
  define m where "m = simple_linear_model\<lparr>md_ops := [htp HtpFullyConnected [] 4 7 5 6 0 2 4, htp HtpReshape [] 4 8 0 0 0 0 0,
    htp HtpFullyConnected [] 4 7 5 6 0 2 4]\<rparr>"
  have "fc_reshape_pairs (md_ops m) = 1" "closing_reshapes (general_ctx m) (md_ops m) = 0"
    by (simp_all add: m_def htp_def next_is_def)
  with op_rows_dma [of "general_ctx m" False "md_ops m" 2 0]
  have "dma_rows (op_rows (general_ctx m) False (md_ops m) 2 0) < n_dma (general_ctx m)" by (simp add: n_dma_def)
  then show ?thesis unfolding general_dma_rows by blast
qed

text \<open>The synchronisation record holds the number of all records, and record ids repeat every 32 records.\<close>

lemma general_rows_length: "length (general_rows m) = length (head_rows (general_ctx m)) + length (op_rows (general_ctx m) False (md_ops m) 2 0) +
   (if has_type (general_ctx m) HtpFullyConnected \<or> has_type (general_ctx m) HtpTranspose then 5 else 3)"
  by (simp add: general_rows_def tail_rows_def Let_def)

lemma general_sync_steps:
  assumes "has_type (general_ctx m) HtpFullyConnected \<or> has_type (general_ctx m) HtpTranspose"
  defines "rows \<equiv> general_rows m"
  shows "rw_type (rows ! (length rows - 4)) = OP_TYPE_SYNC \<and>
    rw_extras (rows ! (length rows - 4)) =
      [word_of_nat (n_dma (general_ctx m) + 2), word_of_nat (length rows) - 5, word_of_nat (length rows) - 4, 3, 3]"
  using assms(1) general_rows_length [of m]
  by (simp add: rows_def general_rows_def tail_rows_def Let_def nth_append row_def add.assoc)

lemma record_ids_distinct: "distinct (map (compute_record_id \<circ> word_of_nat) [0..<32])"
  by code_simp

lemma record_ids_repeat: "compute_record_id 32 = compute_record_id 0"
  by code_simp

text \<open>Five-dimensional tensors write behind the five words of a node's extras.\<close>

lemma node_extras_rank5: "node_extras t = None \<longleftrightarrow> 5 \<le> ti_rank t"
  by (simp add: node_extras_def Let_def)

end
