(* ===== verification/Scheduler.thy ===== *)
theory Scheduler
  imports VtcmPlan StepPlan "HOL-Library.Sublist"
begin

text \<open>
  The scheduler of the compiler (\<open>Scheduler::schedule\<close>, \<open>schedule_path_a_replay\<close> and \<open>apply_cp_spill_fill\<close> of
  \<open>compiler/src/schedule/scheduler.cpp\<close>, and \<open>e2e_bridge.cpp\<close>): the records of the operators of a graph, their
  execution order, and the DMA records for the plans of the CP oracle.

  The graph is the operator map and its ordering, the state of the planning passes is \<open>prepare_state\<close>. The order that
  the ST-Cut heuristic returns is an argument; relations are never hard and have no flag here. \<open>std::sort\<close> leaves the order of equal elements open; the model keeps it, and
  the lemmas on insertions hold for every order that the comparison allows. An insertion behind the end of
  the records is \<open>None\<close>.
\<close>

unbundle bit_operations_syntax

section \<open>Operators of a graph\<close>

definition active_op :: "opdef_map \<Rightarrow> op_id \<Rightarrow> op_def option" where
  "active_op g i =
     (case get_op_at g i of
        None \<Rightarrow> None
      | Some od \<Rightarrow> if \<not> is_enabled od \<or> is_dead od then None else Some od)"

definition op_name_of :: "op_def \<Rightarrow> string" where
  "op_name_of od = (case opd_name od of None \<Rightarrow> [] | Some n \<Rightarrow> n)"

definition info_of :: "op_def \<Rightarrow> tensor_info" where
  "info_of od =
     (let r = out_rank (opd_output_def od); n = min 5 r
      in \<lparr>ti_tensor_id = word_of_nat (opd_op_id od), ti_name = op_name_of od, ti_rank = r,
          ti_dims = take n (out_dims (opd_output_def od)) @ replicate (5 - n) 0, ti_is_const = is_const od,
          ti_is_graph_io = (op_name_of od = ''Input'' \<or> op_name_of od = ''Output'')\<rparr>)"

definition active_ops :: "opdef_map \<Rightarrow> op_id list \<Rightarrow> op_def list" where
  "active_ops g topo = List.map_filter (active_op g) topo"

definition dense_to_id :: "opdef_map \<Rightarrow> op_id list \<Rightarrow> op_id list" where
  "dense_to_id g topo = filter (\<lambda>i. active_op g i \<noteq> None) topo"

section \<open>The input of the ST-Cut heuristic\<close>

record stcut_input =
  sci_node_count :: nat
  sci_initial_order :: "nat list"
  sci_relations :: "(nat \<times> nat \<times> nat) list"

definition compact_index :: "opdef_map \<Rightarrow> op_id list \<Rightarrow> op_id \<Rightarrow> nat option" where
  "compact_index g topo =
     map_of (rev (zip (dense_to_id g topo) [0..<length (dense_to_id g topo)]))"

definition edge_weight :: "opdef_map \<Rightarrow> op_id \<Rightarrow> nat" where
  "edge_weight g src =
     (case get_op_at g src of
        None \<Rightarrow> 1
      | Some od \<Rightarrow>
          let o' = opd_output_def od;
              elems = foldl (\<lambda>acc d. if d = 0 then acc else acc * d mod 2 ^ 64) 1 (take (min (out_rank o') 5) (out_dims o'));
              esz = (if out_element_size o' \<noteq> 0 then out_element_size o' else 4)
          in elems * esz mod 2 ^ 64)"

definition op_relations :: "opdef_map \<Rightarrow> op_id list \<Rightarrow> op_def \<Rightarrow> (nat \<times> nat \<times> nat) list" where
  "op_relations g topo od =
     (case compact_index g topo (opd_op_id od) of
        None \<Rightarrow> []
      | Some dst \<Rightarrow>
          concat (map (\<lambda>conn. case compact_index g topo (src_id conn) of
                                None \<Rightarrow> []
                              | Some src \<Rightarrow> [(src, dst, edge_weight g (src_id conn))]) (opd_inputs od)))"

definition build_stcut_input_from_graph :: "opdef_map \<Rightarrow> op_id list \<Rightarrow> stcut_input option" where
  "build_stcut_input_from_graph g topo =
     (let n = length (dense_to_id g topo)
      in if topo = [] \<or> n = 0 then None
         else Some \<lparr>sci_node_count = n, sci_initial_order = [0..<n],
                    sci_relations = concat (map (op_relations g topo) (active_ops g topo))\<rparr>)"

section \<open>Spill and fill records\<close>

definition first_step_of :: "scheduled_op list \<Rightarrow> u32 \<Rightarrow> nat option" where
  "first_step_of ops tid = find (\<lambda>j. sd_tensor_id (ops ! j) = tid) [0..<length ops]"

definition last_step_of :: "scheduled_op list \<Rightarrow> u32 \<Rightarrow> nat option" where
  "last_step_of ops tid = find (\<lambda>j. sd_tensor_id (ops ! j) = tid) (rev [0..<length ops])"

record insertion =
  in_at :: nat
  in_is_fill :: bool
  in_op :: scheduled_op

definition plan_block :: "alloc_map \<Rightarrow> cp_plan \<Rightarrow> scheduler \<Rightarrow> u32 \<times> scheduler" where
  "plan_block allocs pl s =
     (case map_of allocs (pn_op_id pl) of
        Some a \<Rightarrow> if \<not> res_spilled a then (word_of_nat (res_block_id a), s) else alloc_vtcm_block (word_of_nat (pn_op_id pl)) s
      | None \<Rightarrow> alloc_vtcm_block (word_of_nat (pn_op_id pl)) s)"

definition dma_record :: "cp_plan \<Rightarrow> u32 \<Rightarrow> u32 \<Rightarrow> bytes \<Rightarrow> string \<Rightarrow> scheduled_op" where
  "dma_record pl block_ref tag vtcm step =
     \<lparr>sd_record_id = 0, sd_tensor_id = word_of_nat (pn_op_id pl), sd_type = OP_TYPE_DMA, sd_f2 = tag, sd_block_ref = block_ref,
      sd_extras = [word_of_nat (pn_ddr_offset pl), word_of_nat vtcm, word_of_nat (pn_size pl)],
      sd_kernel_name = ''@DmaCheckpointSet'', sd_step_name = step\<rparr>"

definition anchors :: "sched_plan \<Rightarrow> cp_plan \<Rightarrow> nat \<times> nat" where
  "anchors plan pl =
     (let anchor = (\<lambda>f pos. if pos < length (pl_tensors plan) then f (pl_ops plan) (ti_tensor_id (pl_tensors plan ! pos)) else None);
          spill_at = (case anchor last_step_of (pn_spill_position pl) of None \<Rightarrow> 0 | Some j \<Rightarrow> j);
          fill_at = (case anchor first_step_of (pn_fill_position pl) of None \<Rightarrow> length (pl_ops plan) | Some j \<Rightarrow> j)
      in (spill_at, if fill_at \<le> spill_at then spill_at + 1 else fill_at))"

definition plan_pair :: "sched_plan \<Rightarrow> alloc_map \<Rightarrow> cp_plan \<Rightarrow> scheduler \<Rightarrow> (insertion \<times> insertion) \<times> scheduler" where
  "plan_pair plan allocs pl s =
     (let (block, s1) = plan_block allocs pl s;
          block_ref = 0x1000 OR (block AND 0xfff);
          tag = max (sh_next_dma_tag s1) 0x20;
          tag2 = max (tag + 1) 0x20;
          (spill_at, fill_at) = anchors plan pl
      in ((\<lparr>in_at = spill_at + 1, in_is_fill = False, in_op = dma_record pl block_ref tag (pn_vtcm_offset_spill pl) ''CpSpill''\<rparr>,
           \<lparr>in_at = fill_at, in_is_fill = True, in_op = dma_record pl block_ref tag2 (pn_vtcm_offset pl) ''CpFill''\<rparr>),
          s1\<lparr>sh_next_dma_tag := tag2 + 1\<rparr>))"

fun plan_pairs :: "sched_plan \<Rightarrow> alloc_map \<Rightarrow> cp_plan list \<Rightarrow> scheduler \<Rightarrow> (insertion \<times> insertion) list \<times> scheduler" where
  "plan_pairs plan allocs [] s = ([], s)"
| "plan_pairs plan allocs (pl # pls) s =
     (if pn_size pl = 0 then plan_pairs plan allocs pls s
      else let (p, s1) = plan_pair plan allocs pl s; (ps, s2) = plan_pairs plan allocs pls s1 in (p # ps, s2))"

definition ins_before :: "insertion \<Rightarrow> insertion \<Rightarrow> bool" where
  "ins_before a b \<longleftrightarrow> (if in_at a \<noteq> in_at b then in_at b < in_at a else in_is_fill a \<and> \<not> in_is_fill b)"

fun ins_insert :: "insertion \<Rightarrow> insertion list \<Rightarrow> insertion list" where
  "ins_insert x [] = [x]"
| "ins_insert x (y # ys) = (if ins_before y x then y # ins_insert x ys else x # y # ys)"

definition sort_insertions :: "insertion list \<Rightarrow> insertion list" where
  "sort_insertions xs = foldr ins_insert xs []"

fun apply_insertions :: "insertion list \<Rightarrow> scheduled_op list \<Rightarrow> scheduled_op list option" where
  "apply_insertions [] ops = Some ops"
| "apply_insertions (e # es) ops =
     (if length ops < in_at e then None
      else apply_insertions es (take (in_at e) ops @ in_op e # drop (in_at e) ops))"

definition renumber :: "scheduled_op list \<Rightarrow> scheduled_op list" where
  "renumber ops = map2 (\<lambda>i r. r\<lparr>sd_record_id := compute_record_id (word_of_nat i)\<rparr>) [0..<length ops] ops"

definition apply_cp_spill_fill ::
  "prepare_state \<Rightarrow> scheduler \<times> sched_plan \<Rightarrow> (scheduler \<times> sched_plan) option" where
  "apply_cp_spill_fill st sp =
     (if \<not> ps_cp_active st \<or> ps_cp_plans st = [] then Some sp
      else let (pairs, s) = plan_pairs (snd sp) (ps_vtcm_allocations st) (ps_cp_plans st) (fst sp);
               es = sort_insertions (concat (map (\<lambda>(a, b). [a, b]) pairs))
           in map_option (\<lambda>ops. (s, (snd sp)\<lparr>pl_ops := renumber ops\<rparr>)) (apply_insertions es (pl_ops (snd sp))))"

section \<open>Schedules\<close>

definition stcut_order :: "op_id list \<Rightarrow> bool \<Rightarrow> nat list \<Rightarrow> u32 list" where
  "stcut_order ids have_stcut best_dense =
     (let order_ids = map (\<lambda>d. word_of_nat (ids ! d)) (filter (\<lambda>d. d < length ids) best_dense)
      in if \<not> have_stcut \<or> best_dense = [] \<or> length order_ids \<noteq> length ids \<or> card (set order_ids) \<noteq> length ids
         then map word_of_nat ids else order_ids)"

definition op_record :: "nat \<Rightarrow> tensor_info \<Rightarrow> scheduled_op" where
  "op_record i t =
     \<lparr>sd_record_id = compute_record_id (word_of_nat i), sd_tensor_id = ti_tensor_id t,
      sd_type = (if ti_is_const t then OP_TYPE_MEMORY else OP_TYPE_COMPUTE), sd_f2 = 0, sd_block_ref = 0, sd_extras = [],
      sd_kernel_name = [], sd_step_name = ti_name t\<rparr>"

definition schedule ::
  "opdef_map \<Rightarrow> op_id list \<Rightarrow> prepare_state \<Rightarrow> nat list \<Rightarrow> scheduler \<Rightarrow> (scheduler \<times> sched_plan) option" where
  "schedule g topo st best_dense s =
     (let tensors = map info_of (active_ops g topo);
          names = filter (\<lambda>n. n \<noteq> []) (map op_name_of (active_ops g topo));
          have_stcut = (build_stcut_input_from_graph g topo \<noteq> None);
          plan = empty_plan\<lparr>pl_op_order := stcut_order (dense_to_id g topo) have_stcut best_dense,
                            pl_ops := map2 op_record [0..<length tensors] tensors,
                            pl_op_names := names, pl_tensor_names := map ti_name tensors\<rparr>
      in apply_cp_spill_fill st (s, plan))"

definition schedule_path_a_replay ::
  "opdef_map \<Rightarrow> op_id list \<Rightarrow> prepare_state \<Rightarrow> (scheduler \<times> sched_plan) option" where
  "schedule_path_a_replay g topo st =
     (let tensors = map info_of (active_ops g topo);
          names = filter (\<lambda>n. n \<noteq> []) (map op_name_of (active_ops g topo))
      in apply_cp_spill_fill st (schedule_simple_linear tensors names))"

section \<open>Insertions\<close>

text \<open>That one record comes before another in a list is \<open>subseq [x, y]\<close>.\<close>

lemma subseq_insert: "subseq xs (take n xs @ x # drop n xs)"
  by (metis append_take_drop_id list_emb_append_mono subseq_order.order_refl subseq_Cons')

lemma subseq_insert_after: "y \<in> set (drop n xs) \<Longrightarrow> subseq [x, y] (take n xs @ x # drop n xs)"
  by (intro list_emb_append2) (simp add: subseq_singleton_left)

lemma subseq_insert_before: "y \<in> set (take n xs) \<Longrightarrow> subseq [y, x] (take n xs @ x # drop n xs)"
proof -
  assume "y \<in> set (take n xs)"
  then have "subseq ([y] @ [x]) (take n xs @ (x # drop n xs))"
    by (intro list_emb_append_mono) (simp_all add: subseq_singleton_left)
  then show ?thesis by simp
qed

lemma drop_insert:
  assumes "n \<le> m" "n \<le> length xs"
  shows "set (drop m xs) \<subseteq> set (drop m (take n xs @ x # drop n xs))"
proof (cases "m - n")
  case 0
  then show ?thesis using assms by auto
next
  case (Suc k)
  then have "drop m (take n xs @ x # drop n xs) = drop (k + n) xs" using assms by simp
  moreover have "k + n = m - 1" using Suc assms by simp
  ultimately have "drop m (take n xs @ x # drop n xs) = drop (m - 1) xs" by simp
  then show ?thesis using set_drop_subset_set_drop [of "m - 1" m xs] by simp
qed

lemma apply_insertions_keeps: "apply_insertions es ops = Some res \<Longrightarrow> subseq ops res \<and> mset res = mset ops + mset (map in_op es)"
proof (induction es arbitrary: ops)
  case (Cons e es)
  let ?ops = "take (in_at e) ops @ in_op e # drop (in_at e) ops"
  have "subseq ?ops res" "mset res = mset ?ops + mset (map in_op es)"
    using Cons.IH [of ?ops] Cons.prems by (simp_all split: if_splits)
  moreover have "mset ?ops = add_mset (in_op e) (mset ops)"
  proof -
    have "mset (take (in_at e) ops) + mset (drop (in_at e) ops) = mset ops" by (simp flip: mset_append)
    then show ?thesis by simp
  qed
  ultimately show ?case using subseq_order.order_trans [OF subseq_insert] by auto
qed simp

lemma apply_insertions_returns:
  "list_all (\<lambda>e. in_at e \<le> length ops) es \<Longrightarrow> \<exists>res. apply_insertions es ops = Some res"
proof (induction es arbitrary: ops)
  case (Cons e es)
  let ?ops = "take (in_at e) ops @ in_op e # drop (in_at e) ops"
  have "list_all (\<lambda>e. in_at e \<le> length ?ops) es" using Cons.prems by (auto simp: list_all_iff le_SucI)
  from Cons.IH [OF this] Cons.prems show ?case by simp
qed simp

text \<open>Insertions at or before the index of a record come before it.\<close>

lemma insertions_before:
  assumes "apply_insertions es ops = Some res" "list_all (\<lambda>e. in_at e \<le> m) es" "y \<in> set (drop m ops)"
  shows "list_all (\<lambda>e. subseq [in_op e, y] res) es"
  using assms
proof (induction es arbitrary: ops)
  case (Cons e es)
  let ?ops = "take (in_at e) ops @ in_op e # drop (in_at e) ops"
  have a: "apply_insertions es ?ops = Some res" "in_at e \<le> length ops" using Cons.prems(1) by (auto split: if_splits)
  have e: "in_at e \<le> m" "list_all (\<lambda>e. in_at e \<le> m) es" using Cons.prems(2) by auto
  have "y \<in> set (drop (in_at e) ops)" using set_drop_subset_set_drop [OF e(1), of ops] Cons.prems(3) by blast
  then have "subseq [in_op e, y] res"
    using subseq_order.order_trans [OF subseq_insert_after conjunct1 [OF apply_insertions_keeps [OF a(1)]]] by simp
  moreover have "y \<in> set (drop m ?ops)" using drop_insert [OF e(1) a(2)] Cons.prems(3) by blast
  ultimately show ?case using Cons.IH [OF a(1) e(2)] by simp
qed simp

definition desc :: "insertion list \<Rightarrow> bool" where
  "desc es \<longleftrightarrow> sorted_wrt (\<lambda>x y. in_at y \<le> in_at x) es"

text \<open>Later insertions come before earlier ones.\<close>

lemma insertions_order:
  "apply_insertions es ops = Some res \<Longrightarrow> desc es \<Longrightarrow> sorted_wrt (\<lambda>b a. subseq [in_op a, in_op b] res) es"
proof (induction es arbitrary: ops)
  case (Cons e es)
  let ?ops = "take (in_at e) ops @ in_op e # drop (in_at e) ops"
  have a: "apply_insertions es ?ops = Some res" "in_at e \<le> length ops" using Cons.prems(1) by (auto split: if_splits)
  have d: "desc es" "list_all (\<lambda>x. in_at x \<le> in_at e) es" using Cons.prems(2) by (auto simp: desc_def list_all_iff)
  have "in_op e \<in> set (drop (in_at e) ?ops)" using a(2) by simp
  from insertions_before [OF a(1) d(2) this] Cons.IH [OF a(1) d(1)] show ?case by (simp add: list_all_iff)
qed simp

text \<open>A record inserted at an index stands between the records before and from that index on.\<close>

lemma insertions_place:
  assumes "apply_insertions es ops = Some res" "desc es" "list_all (\<lambda>e. in_at e \<le> m) es"
    and "take m ops = take m orig"
  shows "list_all (\<lambda>e. list_all (\<lambda>y. subseq [y, in_op e] res) (take (in_at e) orig)) es"
  using assms
proof (induction es arbitrary: ops m)
  case (Cons e es)
  let ?ops = "take (in_at e) ops @ in_op e # drop (in_at e) ops"
  have a: "apply_insertions es ?ops = Some res" "in_at e \<le> length ops" using Cons.prems(1) by (auto split: if_splits)
  have d: "desc es" "list_all (\<lambda>x. in_at x \<le> in_at e) es" using Cons.prems(2) by (auto simp: desc_def list_all_iff)
  have e: "in_at e \<le> m" using Cons.prems(3) by simp
  have t: "take (in_at e) ops = take (in_at e) orig" using Cons.prems(4) e by (metis min.absorb1 take_take)
  have "min (length ops) (in_at e) = min (length orig) (in_at e)" using arg_cong [OF t, of length] by (simp only: length_take)
  with a(2) have l: "in_at e \<le> length orig" by simp
  have "subseq [y, in_op e] res" if "y \<in> set (take (in_at e) orig)" for y
    using subseq_order.order_trans [OF subseq_insert_before conjunct1 [OF apply_insertions_keeps [OF a(1)]]] that t by simp
  moreover have "list_all (\<lambda>e. list_all (\<lambda>y. subseq [y, in_op e] res) (take (in_at e) orig)) es"
    by (rule Cons.IH [OF a(1) d]) (use t a(2) l in simp)
  ultimately show ?case by (simp add: list_all_iff)
qed simp

definition ins_le :: "insertion \<Rightarrow> insertion \<Rightarrow> bool" where
  "ins_le x y \<longleftrightarrow> \<not> ins_before y x"

lemma ins_le_iff: "ins_le x y \<longleftrightarrow> in_at y < in_at x \<or> in_at x = in_at y \<and> (in_is_fill x \<or> \<not> in_is_fill y)"
  by (auto simp: ins_le_def ins_before_def)

lemma mset_ins_insert: "mset (ins_insert x ys) = add_mset x (mset ys)"
  by (induction x ys rule: ins_insert.induct) auto

lemma ins_insert_sorted: "sorted_wrt ins_le ys \<Longrightarrow> sorted_wrt ins_le (ins_insert x ys)"
proof (induction x ys rule: ins_insert.induct)
  case (2 x y ys)
  have s: "set (ins_insert x ys) = insert x (set ys)" by (metis mset_ins_insert set_mset_add_mset_insert set_mset_mset)
  show ?case
  proof (cases "ins_before y x")
    case True
    then have "ins_le y x" by (auto simp: ins_le_iff ins_before_def split: if_splits)
    with 2 True s show ?thesis by auto
  next
    case False
    then have "ins_le x y" by (simp add: ins_le_def)
    moreover have "ins_le x z" if "ins_le x y" "ins_le y z" for z using that by (auto simp: ins_le_iff)
    ultimately show ?thesis using 2(2) False by auto
  qed
qed simp

lemma sort_insertions: "mset (sort_insertions xs) = mset xs \<and> sorted_wrt ins_le (sort_insertions xs)"
  by (induction xs) (auto simp: sort_insertions_def mset_ins_insert ins_insert_sorted)

lemma ins_le_desc: "sorted_wrt ins_le es \<Longrightarrow> desc es"
  unfolding desc_def by (rule sorted_wrt_mono_rel) (auto simp: ins_le_iff)

text \<open>A spill and its fill at the same or a later index: the spill comes first, whatever the order of equal insertions.\<close>

lemma spill_before_fill:
  assumes "apply_insertions es ops = Some res" "sorted_wrt ins_le es" "a \<in> set es" "b \<in> set es"
    and "in_at a \<le> in_at b" "\<not> in_is_fill a" "in_is_fill b"
  shows "subseq [in_op a, in_op b] res"
proof -
  obtain i j where i: "i < length es" "es ! i = a" and j: "j < length es" "es ! j = b"
    using assms(3,4) by (meson in_set_conv_nth)
  have "\<not> ins_le a b" using assms(5-7) by (auto simp: ins_le_iff)
  then have "\<not> i < j" using sorted_wrt_nth_less [OF assms(2), of i j] i j by auto
  moreover have "i \<noteq> j" using i j assms(6,7) by auto
  ultimately have "j < i" by simp
  from sorted_wrt_nth_less [OF insertions_order [OF assms(1) ins_le_desc [OF assms(2)]] this i(1)] i j show ?thesis by simp
qed

lemma insertions_after:
  assumes "apply_insertions es ops = Some res" "\<And>n. set (drop n orig) \<subseteq> set (drop n ops)"
  shows "list_all (\<lambda>e. list_all (\<lambda>y. subseq [in_op e, y] res) (drop (in_at e) orig)) es"
  using assms
proof (induction es arbitrary: ops)
  case (Cons e es)
  let ?ops = "take (in_at e) ops @ in_op e # drop (in_at e) ops"
  have a: "apply_insertions es ?ops = Some res" "in_at e \<le> length ops" using Cons.prems(1) by (auto split: if_splits)
  have "set (drop n ops) \<subseteq> set (drop n ?ops)" for n
  proof (cases "in_at e \<le> n")
    case True
    then show ?thesis by (rule drop_insert [OF _ a(2)])
  next
    case False
    then have "drop n ops = drop n (take (in_at e) ops) @ drop (in_at e) ops"
      by (metis append_take_drop_id drop_append drop_take length_take min.absorb2 a(2) diff_is_0_eq drop_0 nat_le_linear)
    then show ?thesis using False a(2) by auto
  qed
  then have "set (drop n orig) \<subseteq> set (drop n ?ops)" for n using Cons.prems(2) by blast
  from Cons.IH [OF a(1) this]
  have "list_all (\<lambda>e. list_all (\<lambda>y. subseq [in_op e, y] res) (drop (in_at e) orig)) es" .
  moreover have "subseq [in_op e, y] res" if "y \<in> set (drop (in_at e) orig)" for y
    using subseq_order.order_trans [OF subseq_insert_after conjunct1 [OF apply_insertions_keeps [OF a(1)]]] that Cons.prems(2) by blast
  ultimately show ?case by (simp add: list_all_iff)
qed simp

section \<open>The pairs of the plans\<close>

lemma find_in_set: "find P xs = Some x \<Longrightarrow> x \<in> set xs"
  by (induction xs) (auto split: if_splits)

lemma find_step_less: "first_step_of ops tid = Some j \<Longrightarrow> j < length ops" "last_step_of ops tid = Some j \<Longrightarrow> j < length ops"
  by (auto simp: first_step_of_def last_step_of_def dest: find_in_set)

lemma anchors_bounds:
  assumes "pl_ops plan \<noteq> []" "anchors plan pl = (i, j)"
  shows "i < length (pl_ops plan) \<and> i < j \<and> j \<le> length (pl_ops plan)"
proof -
  have "0 < length (pl_ops plan)" using assms(1) by simp
  with assms(2) show ?thesis
    by (auto simp: anchors_def Let_def Suc_le_eq split: option.splits if_splits dest: find_step_less)
qed

definition pair_ok :: "scheduled_op list \<Rightarrow> insertion \<times> insertion \<Rightarrow> bool" where
  "pair_ok ops p \<longleftrightarrow>
     (case p of (a, b) \<Rightarrow>
        \<not> in_is_fill a \<and> in_is_fill b \<and> in_at a \<le> in_at b \<and> in_at b \<le> length ops \<and>
        sd_record_id (in_op a) = 0 \<and> sd_record_id (in_op b) = 0)"

lemma plan_pairs_ok:
  "pl_ops plan \<noteq> [] \<Longrightarrow> list_all (pair_ok (pl_ops plan)) (fst (plan_pairs plan allocs pls s))"
proof (induction pls arbitrary: s)
  case (Cons pl pls)
  obtain i j where ij: "anchors plan pl = (i, j)" by fastforce
  note b = anchors_bounds [OF Cons.prems ij]
  have "pair_ok (pl_ops plan) (fst (plan_pair plan allocs pl s))"
    using b ij by (auto simp: plan_pair_def pair_ok_def dma_record_def Let_def split: prod.splits)
  with Cons show ?case by (auto split: prod.splits) (metis fst_conv)+
qed simp

definition unnumbered :: "scheduled_op list \<Rightarrow> scheduled_op list" where
  "unnumbered = map (\<lambda>r. r\<lparr>sd_record_id := 0\<rparr>)"

lemma renumber_ids:
  "map sd_record_id (renumber ops) = map (compute_record_id \<circ> word_of_nat) [0..<length ops]" "unnumbered (renumber ops) = unnumbered ops"
  by (auto simp: renumber_def unnumbered_def intro!: nth_equalityI)

lemma length_renumber [simp]: "length (renumber ops) = length ops"
  by (simp add: renumber_def)

definition pair_list :: "(insertion \<times> insertion) list \<Rightarrow> insertion list" where
  "pair_list ps = concat (map (\<lambda>(a, b). [a, b]) ps)"

text \<open>The place of an inserted record among the records of a plan.\<close>

definition placed :: "scheduled_op list \<Rightarrow> scheduled_op list \<Rightarrow> insertion \<Rightarrow> bool" where
  "placed ops ops' e \<longleftrightarrow>
     list_all (\<lambda>y. subseq [y, in_op e] ops') (take (in_at e) ops) \<and> list_all (\<lambda>y. subseq [in_op e, y] ops') (drop (in_at e) ops)"

lemma insertions_sound:
  assumes "list_all (pair_ok ops) ps" "sorted_wrt ins_le es" "mset es = mset (pair_list ps)"
  shows "\<exists>res. apply_insertions es ops = Some res \<and> subseq ops res \<and> mset res = mset ops + mset (map in_op (pair_list ps)) \<and>
    list_all (\<lambda>(a, b). subseq [in_op a, in_op b] res \<and> placed ops res a \<and> placed ops res b) ps"
proof -
  have set: "set es = set (pair_list ps)" using assms(3) by (metis set_mset_mset)
  have le: "list_all (\<lambda>e. in_at e \<le> length ops) es"
    unfolding list_all_iff set using assms(1) by (fastforce simp: pair_list_def pair_ok_def list_all_iff)
  then obtain res where res: "apply_insertions es ops = Some res" using apply_insertions_returns by blast
  note d = ins_le_desc [OF assms(2)]
  have pl: "placed ops res e" if "e \<in> set es" for e
    using insertions_place [OF res d le refl] insertions_after [OF res subset_refl] that by (simp add: placed_def list_all_iff)
  have "subseq [in_op a, in_op b] res \<and> placed ops res a \<and> placed ops res b" if "(a, b) \<in> set ps" for a b
  proof -
    have m: "a \<in> set es" "b \<in> set es" using that unfolding set by (auto simp: pair_list_def)
    moreover have "in_at a \<le> in_at b" "\<not> in_is_fill a" "in_is_fill b" using that assms(1) by (auto simp: list_all_iff pair_ok_def)
    ultimately show ?thesis using spill_before_fill [OF res assms(2)] pl by blast
  qed
  moreover have "mset (map in_op es) = mset (map in_op (pair_list ps))" using assms(3) by (metis mset_map)
  ultimately show ?thesis using res apply_insertions_keeps [OF res] by (auto simp: list_all_iff)
qed

lemma unnumbered_subseq: "subseq xs ys \<Longrightarrow> subseq (unnumbered xs) (unnumbered ys)"
  unfolding unnumbered_def by (rule subseq_map)

lemma unnumbered_id: "sd_record_id r = 0 \<Longrightarrow> r\<lparr>sd_record_id := 0\<rparr> = r"
  by simp

lemma unnumbered_pairs: "list_all (pair_ok ops) ps \<Longrightarrow> unnumbered (map in_op (pair_list ps)) = map in_op (pair_list ps)"
  by (induction ps) (auto simp: unnumbered_def pair_list_def pair_ok_def)

lemma mset_unnumbered: "mset (unnumbered xs) = image_mset (\<lambda>r. r\<lparr>sd_record_id := 0\<rparr>) (mset xs)"
  by (simp add: unnumbered_def)

lemma placed_unnumbered:
  assumes "placed ops res e" "sd_record_id (in_op e) = 0"
  shows "placed (unnumbered ops) (unnumbered res) e"
proof -
  have "subseq [y\<lparr>sd_record_id := 0\<rparr>, in_op e] (unnumbered res)" if "subseq [y, in_op e] res" for y
    using unnumbered_subseq [OF that] unnumbered_id [OF assms(2)] by (simp add: unnumbered_def)
  moreover have "subseq [in_op e, y\<lparr>sd_record_id := 0\<rparr>] (unnumbered res)" if "subseq [in_op e, y] res" for y
    using unnumbered_subseq [OF that] unnumbered_id [OF assms(2)] by (simp add: unnumbered_def)
  ultimately show ?thesis
    using assms(1) by (auto simp: placed_def list_all_iff unnumbered_def take_map drop_map)
qed

section \<open>Properties of schedules\<close>


lemma stcut_order_permutation: "mset (stcut_order ids have_stcut best) = mset (map word_of_nat ids)"
proof -
  define xs :: "u32 list" where "xs = map (\<lambda>d. word_of_nat (ids ! d)) (filter (\<lambda>d. d < length ids) best)"
  define ys :: "u32 list" where "ys = map word_of_nat ids"
  have sub: "set xs \<subseteq> set ys" by (auto simp: xs_def ys_def)
  have "mset xs = mset ys" if c: "length xs = length ids" "card (set xs) = length ids"
  proof -
    have "card (set ys) \<le> length ids" using card_length [of ys] by (simp add: ys_def)
    with c(2) have eq: "set xs = set ys" using sub by (intro card_seteq) auto
    moreover have "distinct xs" using c by (intro card_distinct) simp
    moreover have "distinct ys" using c(2) eq by (intro card_distinct) (simp add: ys_def)
    ultimately show ?thesis using set_eq_iff_mset_eq_distinct by blast
  qed
  then show ?thesis by (auto simp: stcut_order_def Let_def xs_def ys_def)
qed

text \<open>C35: The execution order is a permutation of the active operators, whatever the heuristic returns: indices out of
range, missing or repeated operators make the scheduler fall back to the order of the graph.\<close>

theorem schedule_order_permutation:
  assumes "schedule g topo st best_dense s = Some (s', plan)"
  shows "mset (pl_op_order plan) = mset (map word_of_nat (dense_to_id g topo))"
proof -
  have "pl_op_order plan = stcut_order (dense_to_id g topo) (build_stcut_input_from_graph g topo \<noteq> None) best_dense"
    using assms by (auto simp: schedule_def apply_cp_spill_fill_def Let_def split: if_splits prod.splits)
  then show ?thesis by (simp only: stcut_order_permutation)
qed

text \<open>The plans of the CP oracle with other positions.\<close>

definition reposition :: "(cp_plan \<Rightarrow> nat \<times> nat) \<Rightarrow> cp_plan \<Rightarrow> cp_plan" where
  "reposition f pl = pl\<lparr>pn_spill_position := fst (f pl), pn_fill_position := snd (f pl)\<rparr>"

lemma reposition_fields [simp]:
  "pn_op_id (reposition f pl) = pn_op_id pl" "pn_size (reposition f pl) = pn_size pl"
  "pn_ddr_offset (reposition f pl) = pn_ddr_offset pl" "pn_vtcm_offset (reposition f pl) = pn_vtcm_offset pl"
  "pn_vtcm_offset_spill (reposition f pl) = pn_vtcm_offset_spill pl"
  by (simp_all add: reposition_def)

lemma plan_block_reposition [simp]: "plan_block allocs (reposition f pl) s = plan_block allocs pl s"
  unfolding plan_block_def reposition_fields ..

lemma plan_pair_reposition: "pl_tensors plan = [] \<Longrightarrow> plan_pair plan allocs (reposition f pl) s = plan_pair plan allocs pl s"
  by (simp add: plan_pair_def anchors_def dma_record_def)

lemma plan_pairs_reposition:
  "pl_tensors plan = [] \<Longrightarrow> plan_pairs plan allocs (map (reposition f) pls) s = plan_pairs plan allocs pls s"
  by (induction pls arbitrary: s) (simp_all add: plan_pair_reposition)

text \<open>The general schedule does not use the positions of the plans: it never stores the list of tensors in the plan
that the insertion reads, so every spill goes behind the first record and every fill to the end, wherever the CP oracle
put them.\<close>

lemma schedule_ignores_positions:
  "schedule g topo (st\<lparr>ps_cp_plans := map (reposition f) (ps_cp_plans st)\<rparr>) best_dense s = schedule g topo st best_dense s"
  by (simp add: schedule_def apply_cp_spill_fill_def plan_pairs_reposition empty_plan_def Let_def)

section \<open>Witnesses\<close>

definition sched_demo_plan :: cp_plan where
  "sched_demo_plan = \<lparr>pn_spill_position = 0, pn_fill_position = 1, pn_vtcm_offset = 256, pn_vtcm_offset_spill = 128,
     pn_ddr_offset = 64, pn_size = 32, pn_double_buffered = False, pn_op_id = 5\<rparr>"

definition sched_demo_state :: prepare_state where
  "sched_demo_state = cleared_state\<lparr>ps_cp_active := True, ps_cp_plans := [sched_demo_plan]\<rparr>"

definition sched_demo_info :: "u32 \<Rightarrow> tensor_info" where
  "sched_demo_info i = \<lparr>ti_tensor_id = i, ti_name = ''Add'', ti_rank = 1, ti_dims = [4, 0, 0, 0, 0], ti_is_const = False, ti_is_graph_io = False\<rparr>"

definition sched_demo_steps :: sched_plan where
  "sched_demo_steps = empty_plan\<lparr>pl_tensors := map sched_demo_info [5, 6],
     pl_ops := map2 op_record [0..<2] (map sched_demo_info [5, 6])\<rparr>"


definition sched_demo_op :: "op_id \<Rightarrow> op_def" where
  "sched_demo_op i = \<lparr>opd_flags = 1, opd_op_id = i, opd_name = Some ''Add'',
     opd_output_def = \<lparr>out_rank = 1, out_dims = [4], out_element_size = 4\<rparr>, opd_flags2 = 0, opd_inputs = [], opd_consumers = []\<rparr>"

definition sched_demo_graph :: opdef_map where
  "sched_demo_graph = (\<lambda>i. if i = 5 \<or> i = 6 then Some (sched_demo_op i) else None)"

theorem schedule_order_permutation_witness:
  "\<exists>s' plan. schedule sched_demo_graph [5, 6, 7] cleared_state [1, 0] scheduler_init = Some (s', plan) \<and> pl_op_order plan = [6, 5] \<and>
     mset (pl_op_order plan) = {#5, 6#}"
proof -
  have d: "dense_to_id sched_demo_graph [5, 6, 7] = [5, 6]"
    by (simp add: dense_to_id_def active_op_def get_op_at_def sched_demo_graph_def sched_demo_op_def is_enabled_def is_dead_def)
  obtain s' plan where p: "schedule sched_demo_graph [5, 6, 7] cleared_state [1, 0] scheduler_init = Some (s', plan)"
    by (auto simp: schedule_def apply_cp_spill_fill_def cleared_state_def Let_def)
  then have "pl_op_order plan = [6, 5]"
    using d by (auto simp: schedule_def apply_cp_spill_fill_def cleared_state_def build_stcut_input_from_graph_def stcut_order_def Let_def)
  with p schedule_order_permutation [OF p] d show ?thesis by auto
qed

end
