(* ===== verification/Sequencer.thy ===== *)
theory Sequencer
  imports Complex_Main Prelude
begin

text \<open>
  The sequencer (\<open>compiler/src/scheduler/dp_sequencer.cpp\<close>) and the model that selects its level
  (\<open>compiler/src/scheduler/mlh_model.cpp\<close>): features of a group, decision trees, the order of Kahn's algorithm and the
  sequence of a graph.

  Values in floating point are rational numbers and the rounding of every operation is the argument \<open>rnd\<close>. Nodes refer
  to each other by operator id. Both loops, over the queue and along a decision tree, are partial functions that are \<open>None\<close>
  when they do not end. A \<open>std::unordered_map\<close> that is read by \<open>operator[]\<close> is a function with the default 0 or the
  empty list. Writing features to a file is left out.
\<close>

section \<open>Data\<close>

datatype sequencer_level = SVF0 | SVF1 | SVF2 | LVF

record dp_op_node =
  dn_op_id :: op_id
  dn_predecessors :: "op_id list"
  dn_successors :: "op_id list"
  dn_vtcm_requirement :: bytes
  dn_ddr_requirement :: bytes

record dp_op_graph =
  dq_nodes :: "dp_op_node list"
  dq_groups :: "dp_op_node list list"

record xgb_node =
  xn_feature_index :: int
  xn_threshold :: rat
  xn_left_child :: int
  xn_right_child :: int
  xn_leaf_value :: rat
  xn_is_leaf :: bool

record mlh_decision =
  ml_level :: sequencer_level
  ml_dma_config :: string
  ml_parallelism :: nat

section \<open>Selection of a level\<close>

definition get_op_stats :: "(rat \<Rightarrow> rat) \<Rightarrow> dp_op_node list \<Rightarrow> rat list" where
  "get_op_stats rnd nodes =
     (let total = (\<lambda>f. fold (\<lambda>n acc. rnd (acc + rnd (of_nat (f n)))) nodes 0);
          total_vtcm = total dn_vtcm_requirement;
          total_ddr = total dn_ddr_requirement;
          max_depth = fold (\<lambda>n m. max m (rnd (of_nat (length (dn_predecessors n))))) nodes 0
      in [rnd (of_nat (length nodes)), total_vtcm, total_ddr, max_depth, rnd (total_vtcm / rnd (total_ddr + 1))])"

definition xgb_child :: "rat list \<Rightarrow> xgb_node \<Rightarrow> int" where
  "xgb_child features node =
     (if 0 \<le> xn_feature_index node \<and> nat (xn_feature_index node) < length features \<and>
         features ! nat (xn_feature_index node) \<le> xn_threshold node
      then xn_left_child node else xn_right_child node)"

partial_function (option) xgb_walk :: "xgb_node list \<Rightarrow> rat list \<Rightarrow> int \<Rightarrow> rat option" where
  "xgb_walk nodes features current =
     (if 0 \<le> current \<and> current < int (length nodes)
      then let node = nodes ! nat current
           in if xn_is_leaf node then Some (xn_leaf_value node) else xgb_walk nodes features (xgb_child features node)
      else Some 0)"

definition xgb_predict :: "xgb_node list \<Rightarrow> rat list \<Rightarrow> rat option" where
  "xgb_predict nodes features = (if nodes = [] \<or> features = [] then Some 0 else xgb_walk nodes features 0)"

fun tree_sum :: "(rat \<Rightarrow> rat) \<Rightarrow> xgb_node list list \<Rightarrow> rat list \<Rightarrow> rat \<Rightarrow> rat option" where
  "tree_sum rnd [] features acc = Some acc"
| "tree_sum rnd (t # ts) features acc =
     (case xgb_predict t features of None \<Rightarrow> None | Some v \<Rightarrow> tree_sum rnd ts features (rnd (acc + v)))"

definition mlh_select :: "(rat \<Rightarrow> rat) \<Rightarrow> xgb_node list list \<Rightarrow> rat list \<Rightarrow> mlh_decision option" where
  "mlh_select rnd trees features =
     (if trees = [] then Some \<lparr>ml_level = SVF0, ml_dma_config = ''default'', ml_parallelism = 1\<rparr>
      else map_option (\<lambda>s.
             if s < 1 / 4 then \<lparr>ml_level = SVF0, ml_dma_config = ''mlh_selected'', ml_parallelism = 1\<rparr>
             else if s < 1 / 2 then \<lparr>ml_level = SVF1, ml_dma_config = ''mlh_selected'', ml_parallelism = 2\<rparr>
             else if s < 3 / 4 then \<lparr>ml_level = SVF2, ml_dma_config = ''mlh_selected'', ml_parallelism = 4\<rparr>
             else \<lparr>ml_level = LVF, ml_dma_config = ''mlh_selected'', ml_parallelism = 8\<rparr>)
           (tree_sum rnd trees features 0))"

definition greedy_fallback :: "dp_op_graph \<Rightarrow> nat \<Rightarrow> mlh_decision" where
  "greedy_fallback g threshold =
     (if length (dq_nodes g) < threshold then \<lparr>ml_level = SVF0, ml_dma_config = ''greedy'', ml_parallelism = 1\<rparr>
      else \<lparr>ml_level = LVF, ml_dma_config = ''greedy'', ml_parallelism = 4\<rparr>)"

section \<open>Orders\<close>

definition svf_in_degree :: "dp_op_graph \<Rightarrow> op_id \<Rightarrow> int" where
  "svf_in_degree g = fold (\<lambda>n d. d(dn_op_id n := int (length (dn_predecessors n)))) (dq_nodes g) (\<lambda>_. 0)"

definition svf_successors :: "dp_op_graph \<Rightarrow> op_id \<Rightarrow> op_id list" where
  "svf_successors g =
     fold (\<lambda>n m. m(dn_op_id n := m (dn_op_id n) @ dn_successors n)) (dq_nodes g) (\<lambda>_. [])"

fun relax_successors :: "op_id list \<Rightarrow> (op_id \<Rightarrow> int) \<Rightarrow> op_id list \<Rightarrow> (op_id \<Rightarrow> int) \<times> op_id list" where
  "relax_successors [] d q = (d, q)"
| "relax_successors (s # ss) d q =
     (let d' = d(s := d s - 1) in relax_successors ss d' (if d' s = 0 then q @ [s] else q))"

partial_function (option) kahn ::
  "(op_id \<Rightarrow> op_id list) \<Rightarrow> (op_id \<Rightarrow> int) \<Rightarrow> op_id list \<Rightarrow> op_id list \<Rightarrow> op_id list option" where
  "kahn succs d q result =
     (case q of
        [] \<Rightarrow> Some result
      | i # q' \<Rightarrow> (case relax_successors (succs i) d q' of (d', q'') \<Rightarrow> kahn succs d' q'' (result @ [i])))"

declare kahn.simps [code] xgb_walk.simps [code]

definition run_svf :: "dp_op_graph \<Rightarrow> op_id list option" where
  "run_svf g =
     (let d = svf_in_degree g
      in kahn (svf_successors g) d (filter (\<lambda>i. d i = 0) (map dn_op_id (dq_nodes g))) [])"

definition run_lvf :: "dp_op_graph \<Rightarrow> op_id list" where
  "run_lvf g = map dn_op_id (dq_nodes g)"

definition external_sequence :: "dp_op_graph \<Rightarrow> op_id list" where
  "external_sequence g = []"

definition run_level :: "dp_op_graph \<Rightarrow> mlh_decision \<Rightarrow> op_id list option" where
  "run_level g m = (if ml_level m = LVF then Some (run_lvf g) else run_svf g)"

fun sequence_groups :: "(dp_op_node list \<Rightarrow> mlh_decision option) \<Rightarrow> bool \<Rightarrow> dp_op_graph \<Rightarrow> dp_op_node list list \<Rightarrow> op_id list option" where
  "sequence_groups decide external g [] = Some []"
| "sequence_groups decide external g (grp # grps) =
     (if external then Some (external_sequence g)
      else case decide grp of
             None \<Rightarrow> None
           | Some m \<Rightarrow>
               (case run_level g m of
                  None \<Rightarrow> None
                | Some seq \<Rightarrow> map_option (\<lambda>rest. seq @ rest) (sequence_groups decide external g grps)))"

definition sequence :: "(rat \<Rightarrow> rat) \<Rightarrow> xgb_node list list \<Rightarrow> bool \<Rightarrow> dp_op_graph \<Rightarrow> op_id list option" where
  "sequence rnd trees external g =
     (let decide = (\<lambda>nodes. mlh_select rnd trees (get_op_stats rnd nodes))
      in if dq_groups g = [] \<and> dq_nodes g \<noteq> []
         then Option.bind (decide (dq_nodes g)) (run_level g)
         else sequence_groups decide external g (dq_groups g))"

section \<open>Kahn's algorithm\<close>

lemma relax_successors_spec:
  "relax_successors ss d q = (d', q') \<Longrightarrow>
   (\<forall>y. d' y = d y - int (count_list ss y)) \<and>
   (\<exists>new. q' = q @ new \<and> distinct new \<and> set new = {y. 0 < d y \<and> d y \<le> int (count_list ss y)})"
proof (induction ss arbitrary: d q)
  case (Cons s ss)
  define d1 where "d1 = d(s := d s - 1)"
  define q1 where "q1 = (if d1 s = 0 then q @ [s] else q)"
  have "relax_successors ss d1 q1 = (d', q')" using Cons.prems by (simp add: d1_def q1_def Let_def)
  from Cons.IH [OF this] obtain new where
    d: "\<forall>y. d' y = d1 y - int (count_list ss y)" and
    n: "q' = q1 @ new" "distinct new" "set new = {y. 0 < d1 y \<and> d1 y \<le> int (count_list ss y)}" by blast
  have "{y. 0 < d y \<and> d y \<le> int (count_list (s # ss) y)} = (if d1 s = 0 then insert s (set new) else set new)"
  proof (rule set_eqI)
    fix y
    show "y \<in> {y. 0 < d y \<and> d y \<le> int (count_list (s # ss) y)} \<longleftrightarrow> y \<in> (if d1 s = 0 then insert s (set new) else set new)"
      unfolding n(3) by (cases "y = s") (simp_all add: d1_def, arith)
  qed
  moreover have "q' = q @ (if d1 s = 0 then s # new else new)" using n(1) by (simp add: q1_def)
  moreover have "distinct (if d1 s = 0 then s # new else new)" using n(2,3) by simp
  ultimately have "\<exists>new. q' = q @ new \<and> distinct new \<and> set new = {y. 0 < d y \<and> d y \<le> int (count_list (s # ss) y)}"
    by (intro exI [of _ "if d1 s = 0 then s # new else new"]) simp
  moreover have "\<forall>y. d' y = d y - int (count_list (s # ss) y)" using d by (simp add: d1_def)
  ultimately show ?case by blast
qed auto

definition topo_sorted :: "(op_id \<times> op_id) set \<Rightarrow> op_id list \<Rightarrow> bool" where
  "topo_sorted R xs \<longleftrightarrow> (\<forall>k < length xs. \<forall>x. (x, xs ! k) \<in> R \<longrightarrow> x \<in> set (take k xs))"

lemma topo_sorted_snoc: "topo_sorted R (xs @ [y]) \<longleftrightarrow> topo_sorted R xs \<and> (\<forall>x. (x, y) \<in> R \<longrightarrow> x \<in> set xs)"
proof -
  have "(\<forall>k < length xs. \<forall>x. (x, (xs @ [y]) ! k) \<in> R \<longrightarrow> x \<in> set (take k (xs @ [y]))) \<longleftrightarrow> topo_sorted R xs"
    unfolding topo_sorted_def by (rule all_cong) (simp add: nth_append)
  moreover have "topo_sorted R (xs @ [y]) \<longleftrightarrow> (\<forall>x. (x, (xs @ [y]) ! length xs) \<in> R \<longrightarrow> x \<in> set (take (length xs) (xs @ [y]))) \<and>
      (\<forall>k < length xs. \<forall>x. (x, (xs @ [y]) ! k) \<in> R \<longrightarrow> x \<in> set (take k (xs @ [y])))"
    unfolding topo_sorted_def length_append_singleton by (rule All_less_Suc)
  ultimately show ?thesis by (simp only: nth_append_length take_append take_all diff_self_eq_0 take_0 append_Nil2 order_refl conj_commute)
qed

lemma topo_sorted_acc: "topo_sorted R xs \<Longrightarrow> set xs \<subseteq> Wellfounded.acc R"
proof (induction xs rule: rev_induct)
  case (snoc y xs)
  then have "set xs \<subseteq> Wellfounded.acc R" "\<And>x. (x, y) \<in> R \<Longrightarrow> x \<in> set xs" by (auto simp: topo_sorted_snoc)
  then have "y \<in> Wellfounded.acc R" by (blast intro: accI [of y])
  with \<open>set xs \<subseteq> _\<close> show ?case by simp
qed simp

text \<open>The edges of a graph: every operator is listed once, successors are operators of the graph, and \<open>R\<close> relates an
operator to its successors.\<close>

definition edges_ok :: "op_id list \<Rightarrow> (op_id \<Rightarrow> op_id list) \<Rightarrow> (op_id \<times> op_id) set \<Rightarrow> bool" where
  "edges_ok ids succs R \<longleftrightarrow>
     distinct ids \<and> (\<forall>x \<in> set ids. set (succs x) \<subseteq> set ids) \<and> R = {(x, y). x \<in> set ids \<and> y \<in> set (succs x)}"

definition pending :: "op_id list \<Rightarrow> (op_id \<Rightarrow> op_id list) \<Rightarrow> op_id list \<Rightarrow> op_id \<Rightarrow> nat" where
  "pending ids succs result y = (\<Sum>x \<in> set ids - set result. count_list (succs x) y)"

definition kahn_inv ::
  "op_id list \<Rightarrow> (op_id \<Rightarrow> op_id list) \<Rightarrow> (op_id \<times> op_id) set \<Rightarrow> (op_id \<Rightarrow> int) \<Rightarrow> op_id list \<Rightarrow> op_id list \<Rightarrow> bool" where
  "kahn_inv ids succs R d q result \<longleftrightarrow>
     distinct (result @ q) \<and> set (result @ q) \<subseteq> set ids \<and> topo_sorted R result \<and>
     (\<forall>y \<in> set ids. d y = int (pending ids succs result y) \<and> (d y = 0 \<longleftrightarrow> y \<in> set (result @ q)))"

lemma pending_zero:
  "edges_ok ids succs R \<Longrightarrow> pending ids succs result y = 0 \<longleftrightarrow> (\<forall>x. (x, y) \<in> R \<longrightarrow> x \<in> set result)"
  by (auto simp: pending_def edges_ok_def count_list_0_iff)

lemma pending_snoc:
  assumes "i \<in> set ids" "i \<notin> set result"
  shows "pending ids succs result y = count_list (succs i) y + pending ids succs (result @ [i]) y"
proof -
  have "set ids - set (result @ [i]) = (set ids - set result) - {i}" by auto
  then show ?thesis unfolding pending_def using assms by (subst sum.remove [of _ i]) auto
qed

lemma kahn_inv_step:
  assumes "edges_ok ids succs R" "kahn_inv ids succs R d (i # q) result" "relax_successors (succs i) d q = (d', q')"
  shows "kahn_inv ids succs R d' q' (result @ [i])"
proof -
  have i: "i \<in> set ids" "i \<notin> set result" "d i = 0" using assms(2) by (auto simp: kahn_inv_def)
  obtain new where d: "\<And>y. d' y = d y - int (count_list (succs i) y)"
    and n: "q' = q @ new" "distinct new" "set new = {y. 0 < d y \<and> d y \<le> int (count_list (succs i) y)}"
    using relax_successors_spec [OF assms(3)] by blast
  have sub: "set new \<subseteq> set ids"
  proof
    fix y
    assume "y \<in> set new"
    then have "count_list (succs i) y \<noteq> 0" using n(3) by auto
    then have "y \<in> set (succs i)" by (metis count_list_0_iff)
    then show "y \<in> set ids" using assms(1) i(1) by (auto simp: edges_ok_def)
  qed
  have p: "d y = int (pending ids succs result y)" "d y = 0 \<longleftrightarrow> y \<in> set result \<or> y = i \<or> y \<in> set q" if "y \<in> set ids" for y
    using assms(2) that unfolding kahn_inv_def by (blast, auto)
  have p': "d' y = int (pending ids succs (result @ [i]) y)" if "y \<in> set ids" for y
    using p(1) [OF that] d [of y] pending_snoc [OF i(1,2), of succs y] by simp
  have z: "d' y = 0 \<longleftrightarrow> y \<in> set ((result @ [i]) @ q')" if y: "y \<in> set ids" for y
  proof -
    have "d' y = 0 \<longleftrightarrow> d y = 0 \<or> y \<in> set new"
      unfolding n(3) using p(1) [OF y] p' [OF y] d [of y] by auto
    then show ?thesis using p(2) [OF y] n(1) by auto
  qed
  have "y \<notin> set new" if "y \<in> set result \<or> y = i \<or> y \<in> set q" for y
  proof
    assume "y \<in> set new"
    then have "0 < d y" "y \<in> set ids" using n(3) sub by auto
    with p(2) [of y] that show False by simp
  qed
  then have "distinct ((result @ [i]) @ q')" using assms(2) n(1,2) unfolding kahn_inv_def by auto
  moreover have "topo_sorted R (result @ [i])"
    using assms(2) p(1) [OF i(1)] i(3) pending_zero [OF assms(1), of result i] unfolding kahn_inv_def topo_sorted_snoc by simp
  moreover have "set ((result @ [i]) @ q') \<subseteq> set ids" using assms(2) sub n(1) unfolding kahn_inv_def by auto
  ultimately show ?thesis unfolding kahn_inv_def using p' z by blast
qed

lemma kahn_inv_result:
  assumes "edges_ok ids succs R" "kahn_inv ids succs R d q result"
  shows "\<exists>r d'. kahn succs d q result = Some r \<and> kahn_inv ids succs R d' [] r"
  using assms(2)
proof (induction "card (set ids - set result)" arbitrary: d q result rule: less_induct)
  case less
  show ?case
  proof (cases q)
    case Nil
    then show ?thesis using less.prems by (subst kahn.simps) auto
  next
    case (Cons i q1)
    obtain d' q' where r: "relax_successors (succs i) d q1 = (d', q')" by fastforce
    have inv: "kahn_inv ids succs R d' q' (result @ [i])" using kahn_inv_step [OF assms(1)] less.prems r Cons by blast
    have "i \<in> set ids - set result" using less.prems Cons by (auto simp: kahn_inv_def)
    then have "card (set ids - set (result @ [i])) < card (set ids - set result)" by (intro psubset_card_mono) auto
    from less.hyps [OF this inv] show ?thesis using Cons r by (subst kahn.simps) simp
  qed
qed

lemma kahn_inv_final:
  assumes "edges_ok ids succs R" "kahn_inv ids succs R d [] r"
  shows "distinct r \<and> set r = set ids \<inter> Wellfounded.acc R \<and> topo_sorted R r"
proof -
  have r: "distinct r" "set r \<subseteq> set ids" "topo_sorted R r" using assms(2) by (auto simp: kahn_inv_def)
  have "y \<in> set ids \<longrightarrow> y \<in> set r" if "y \<in> Wellfounded.acc R" for y
    using that
  proof (induction rule: acc_induct_rule)
    case (1 y)
    have "x \<in> set r" if "(x, y) \<in> R" for x using 1(2) [OF that] assms(1) that by (auto simp: edges_ok_def)
    then have "pending ids succs r y = 0" using pending_zero [OF assms(1)] by blast
    then show ?case using assms(2) by (auto simp: kahn_inv_def)
  qed
  then show ?thesis using r topo_sorted_acc [OF r(3)] by blast
qed

section \<open>Graphs\<close>

definition node_ids :: "dp_op_graph \<Rightarrow> op_id list" where
  "node_ids g = map dn_op_id (dq_nodes g)"

text \<open>The dependencies of a graph, by the predecessors of its nodes.\<close>

definition depends :: "dp_op_graph \<Rightarrow> (op_id \<times> op_id) set" where
  "depends g = {(x, y). \<exists>n \<in> set (dq_nodes g). dn_op_id n = y \<and> x \<in> set (dn_predecessors n)}"

text \<open>A graph whose nodes have different ids and whose edges are listed on both ends, as often on one as on the other.\<close>

definition mirrored :: "dp_op_graph \<Rightarrow> bool" where
  "mirrored g \<longleftrightarrow>
     distinct (node_ids g) \<and>
     list_all (\<lambda>n. set (dn_predecessors n) \<subseteq> set (node_ids g) \<and> set (dn_successors n) \<subseteq> set (node_ids g) \<and>
       list_all (\<lambda>m. count_list (dn_predecessors m) (dn_op_id n) = count_list (dn_successors n) (dn_op_id m)) (dq_nodes g)) (dq_nodes g)"

lemma fold_upd_other: "i \<notin> f ` set ns \<Longrightarrow> fold (\<lambda>n m. m(f n := h n (m (f n)))) ns m0 i = m0 i"
  by (induction ns arbitrary: m0) auto

lemma fold_upd_once:
  "distinct (map f ns) \<Longrightarrow> n \<in> set ns \<Longrightarrow> fold (\<lambda>n m. m(f n := h n (m (f n)))) ns m0 (f n) = h n (m0 (f n))"
proof (induction ns arbitrary: m0)
  case (Cons a ns)
  show ?case
  proof (cases "n = a")
    case True
    with Cons.prems have "f a \<notin> f ` set ns" by simp
    from fold_upd_other [OF this, of h "m0(f a := h a (m0 (f a)))"] True show ?thesis
      by (simp only: fold_Cons comp_apply fun_upd_same)
  next
    case False
    with Cons.prems have n: "n \<in> set ns" by simp
    have "f a \<notin> f ` set ns" using Cons.prems(1) by simp
    then have "f n \<noteq> f a" using imageI [OF n, of f] by metis
    then show ?thesis using Cons.IH [OF _ n] Cons.prems(1) by simp
  qed
qed simp

lemma svf_tables:
  assumes "distinct (node_ids g)" "n \<in> set (dq_nodes g)"
  shows "svf_in_degree g (dn_op_id n) = int (length (dn_predecessors n))" "svf_successors g (dn_op_id n) = dn_successors n"
  using fold_upd_once [of dn_op_id "dq_nodes g" n "\<lambda>n _. int (length (dn_predecessors n))" "\<lambda>_. 0"]
    fold_upd_once [of dn_op_id "dq_nodes g" n "\<lambda>n l. l @ dn_successors n" "\<lambda>_. []"] assms
  by (simp_all add: svf_in_degree_def svf_successors_def node_ids_def)

lemma mirrored_count:
  assumes "mirrored g" "n \<in> set (dq_nodes g)" "m \<in> set (dq_nodes g)"
  shows "count_list (dn_predecessors m) (dn_op_id n) = count_list (svf_successors g (dn_op_id n)) (dn_op_id m)"
  using assms svf_tables [of g n] by (simp add: mirrored_def list_all_iff)

lemma depends_iff:
  assumes "mirrored g"
  shows "(x, y) \<in> depends g \<longleftrightarrow> x \<in> set (node_ids g) \<and> y \<in> set (svf_successors g x)"
proof -
  have pos: "z \<in> set zs \<longleftrightarrow> count_list zs z \<noteq> 0" for z and zs :: "op_id list" by (simp add: count_list_0_iff)
  have node: "\<exists>n \<in> set (dq_nodes g). dn_op_id n = i" if "i \<in> set (node_ids g)" for i using that by (auto simp: node_ids_def)
  have sub: "set (dn_predecessors n) \<subseteq> set (node_ids g)" "set (dn_successors n) \<subseteq> set (node_ids g)" "distinct (node_ids g)"
    if "n \<in> set (dq_nodes g)" for n using assms that by (simp_all add: mirrored_def list_all_iff)
  show ?thesis
  proof
    assume "(x, y) \<in> depends g"
    then obtain m where m: "m \<in> set (dq_nodes g)" "dn_op_id m = y" "x \<in> set (dn_predecessors m)" by (auto simp: depends_def)
    then have x: "x \<in> set (node_ids g)" using sub(1) by blast
    then obtain n where n: "n \<in> set (dq_nodes g)" "dn_op_id n = x" using node by blast
    have "y \<in> set (svf_successors g x)" using mirrored_count [OF assms n(1) m(1)] m(2,3) n(2) by (simp add: pos)
    with x show "x \<in> set (node_ids g) \<and> y \<in> set (svf_successors g x)" ..
  next
    assume xy: "x \<in> set (node_ids g) \<and> y \<in> set (svf_successors g x)"
    then obtain n where n: "n \<in> set (dq_nodes g)" "dn_op_id n = x" using node by blast
    then have "y \<in> set (node_ids g)" using xy sub(2,3) svf_tables(2) [of g n] by auto
    then obtain m where m: "m \<in> set (dq_nodes g)" "dn_op_id m = y" using node by blast
    have "x \<in> set (dn_predecessors m)" using mirrored_count [OF assms n(1) m(1)] m(2) n(2) xy by (simp add: pos)
    with m show "(x, y) \<in> depends g" by (auto simp: depends_def)
  qed
qed

lemma mirrored_edges_ok:
  assumes "mirrored g"
  shows "edges_ok (node_ids g) (svf_successors g) (depends g)"
proof -
  have d: "distinct (node_ids g)" using assms by (simp add: mirrored_def)
  moreover have "set (svf_successors g x) \<subseteq> set (node_ids g)" if x: "x \<in> set (node_ids g)" for x
  proof -
    obtain n where n: "n \<in> set (dq_nodes g)" "dn_op_id n = x" using x by (auto simp: node_ids_def)
    then show ?thesis using assms svf_tables(2) [OF d n(1)] by (simp add: mirrored_def list_all_iff)
  qed
  ultimately show ?thesis using depends_iff [OF assms] by (auto simp: edges_ok_def)
qed

lemma initial_pending:
  assumes "mirrored g" "y \<in> set (node_ids g)"
  shows "svf_in_degree g y = int (pending (node_ids g) (svf_successors g) [] y)"
proof -
  obtain m where m: "m \<in> set (dq_nodes g)" "dn_op_id m = y" using assms(2) by (auto simp: node_ids_def)
  have d: "distinct (node_ids g)" "set (dn_predecessors m) \<subseteq> set (node_ids g)"
    using assms(1) m(1) by (auto simp: mirrored_def list_all_iff)
  have "count_list (svf_successors g x) y = count_list (dn_predecessors m) x" if "x \<in> set (node_ids g)" for x
    using that mirrored_count [OF assms(1) _ m(1)] m(2) by (auto simp: node_ids_def)
  then have "pending (node_ids g) (svf_successors g) [] y = (\<Sum>x \<in> set (node_ids g). count_list (dn_predecessors m) x)"
    by (simp add: pending_def)
  also have "\<dots> = length (dn_predecessors m)" using d(2) by (intro sum_count_set) auto
  finally show ?thesis using svf_tables(1) [OF d(1) m(1)] m(2) by simp
qed

lemma initial_kahn_inv:
  assumes "mirrored g"
  shows "kahn_inv (node_ids g) (svf_successors g) (depends g) (svf_in_degree g)
    (filter (\<lambda>i. svf_in_degree g i = 0) (node_ids g)) []"
proof -
  have "distinct (node_ids g)" using assms by (simp add: mirrored_def)
  then show ?thesis using initial_pending [OF assms] by (auto simp: kahn_inv_def topo_sorted_def)
qed

text \<open>C37: The order of a graph whose edges are listed on both ends. The algorithm returns; every operator that is not
behind a cycle occurs exactly once, behind all its predecessors; operators on or behind a cycle are silently missing. A
graph without cycles is ordered completely.\<close>

theorem run_svf_topological:
  assumes "mirrored g"
  shows "\<exists>r. run_svf g = Some r \<and> distinct r \<and> topo_sorted (depends g) r \<and>
    set r = set (node_ids g) \<inter> Wellfounded.acc (depends g) \<and>
    (wf (depends g) \<longrightarrow> mset r = mset (node_ids g))"
proof -
  note ok = mirrored_edges_ok [OF assms]
  obtain r d where k: "kahn (svf_successors g) (svf_in_degree g) (filter (\<lambda>i. svf_in_degree g i = 0) (node_ids g)) [] = Some r"
    and inv: "kahn_inv (node_ids g) (svf_successors g) (depends g) d [] r"
    using kahn_inv_result [OF ok initial_kahn_inv [OF assms]] by blast
  have "run_svf g = Some r" using k by (simp add: run_svf_def node_ids_def Let_def)
  moreover note f = kahn_inv_final [OF ok inv]
  moreover have "mset r = mset (node_ids g)" if "wf (depends g)"
  proof -
    have "set r = set (node_ids g)" using f that by (auto simp: wf_iff_acc)
    then show ?thesis using f assms by (metis set_eq_iff_mset_eq_distinct mirrored_def)
  qed
  ultimately show ?thesis by blast
qed

definition seq_demo_node :: "op_id \<Rightarrow> op_id list \<Rightarrow> op_id list \<Rightarrow> dp_op_node" where
  "seq_demo_node i ps ss =
     \<lparr>dn_op_id = i, dn_predecessors = ps, dn_successors = ss, dn_vtcm_requirement = 0, dn_ddr_requirement = 0\<rparr>"

definition seq_demo_graph :: dp_op_graph where
  "seq_demo_graph = \<lparr>dq_nodes = [seq_demo_node 3 [1, 2, 2] [], seq_demo_node 1 [] [3], seq_demo_node 2 [] [3, 3]], dq_groups = []\<rparr>"

theorem run_svf_topological_witness:
  "run_svf seq_demo_graph = Some [1, 2, 3] \<and> topo_sorted (depends seq_demo_graph) [1, 2, 3]"
proof -
  have "mirrored seq_demo_graph" by code_simp
  moreover have r: "run_svf seq_demo_graph = Some [1, 2, 3]" by code_simp
  ultimately show ?thesis using run_svf_topological [of seq_demo_graph] by simp
qed

section \<open>Termination\<close>

text \<open>Every push is paid for by a positive degree that becomes zero.\<close>

lemma relax_measure:
  assumes "finite A" "{y. 0 < d y} \<subseteq> A" "relax_successors ss d q = (d', q')"
  shows "{y. 0 < d' y} \<subseteq> A \<and> length q' + (\<Sum>y \<in> A. nat (d' y)) \<le> length q + (\<Sum>y \<in> A. nat (d y))"
proof -
  obtain new where d: "\<And>y. d' y = d y - int (count_list ss y)"
    and n: "q' = q @ new" "distinct new" "set new = {y. 0 < d y \<and> d y \<le> int (count_list ss y)}"
    using relax_successors_spec [OF assms(3)] by blast
  have "length new = (\<Sum>y \<in> A. if y \<in> set new then 1 else 0)"
  proof -
    have "A \<inter> set new = set new" using n(3) assms(2) by auto
    then show ?thesis using distinct_card [OF n(2)] assms(1) by (simp add: sum.If_cases)
  qed
  moreover have "(\<Sum>y \<in> A. nat (d' y) + (if y \<in> set new then 1 else 0)) \<le> (\<Sum>y \<in> A. nat (d y))"
    by (rule sum_mono) (auto simp: d n(3))
  ultimately have "length q' + (\<Sum>y \<in> A. nat (d' y)) \<le> length q + (\<Sum>y \<in> A. nat (d y))"
    by (simp add: n(1) sum.distrib)
  moreover have "0 < d y" if "0 < d' y" for y using that d [of y] by simp
  ultimately show ?thesis using assms(2) by blast
qed

lemma kahn_returns:
  assumes "finite A" "{y. 0 < d y} \<subseteq> A"
  shows "\<exists>r. kahn succs d q result = Some r"
  using assms(2)
proof (induction "length q + (\<Sum>y \<in> A. nat (d y))" arbitrary: d q result rule: less_induct)
  case less
  show ?case
  proof (cases q)
    case Nil
    then show ?thesis by (subst kahn.simps) simp
  next
    case (Cons i q1)
    obtain d' q' where r: "relax_successors (succs i) d q1 = (d', q')" by fastforce
    note m = relax_measure [OF assms(1) less.prems r]
    then have "length q' + (\<Sum>y \<in> A. nat (d' y)) < length q + (\<Sum>y \<in> A. nat (d y))" using Cons by simp
    from less.hyps [OF this conjunct1 [OF m]] show ?thesis using Cons r by (subst kahn.simps) simp
  qed
qed

lemma run_svf_returns: "\<exists>r. run_svf g = Some r"
proof -
  have "svf_in_degree g y = 0" if "y \<notin> set (node_ids g)" for y
    using that fold_upd_other [of y dn_op_id "dq_nodes g" "\<lambda>n _. int (length (dn_predecessors n))" "\<lambda>_. 0"]
    by (simp add: svf_in_degree_def node_ids_def)
  then have "{y. 0 < svf_in_degree g y} \<subseteq> set (node_ids g)" by fastforce
  from kahn_returns [OF _ this] show ?thesis by (simp add: run_svf_def Let_def)
qed

text \<open>A decision tree whose children stand behind their parents is walked to an end.\<close>

lemma xgb_walk_returns:
  assumes "\<forall>k < length nodes. int k < xn_left_child (nodes ! k) \<and> int k < xn_right_child (nodes ! k)"
  shows "\<exists>v. xgb_walk nodes features current = Some v"
proof (induction "nat (int (length nodes) - current)" arbitrary: current rule: less_induct)
  case less
  show ?case
  proof (cases "0 \<le> current \<and> current < int (length nodes) \<and> \<not> xn_is_leaf (nodes ! nat current)")
    case True
    then have "nat current < length nodes" by linarith
    with assms have "int (nat current) < xn_left_child (nodes ! nat current)" "int (nat current) < xn_right_child (nodes ! nat current)"
      by blast+
    then have "int (nat current) < xgb_child features (nodes ! nat current)" unfolding xgb_child_def by (simp only: if_split) blast
    with True have "nat (int (length nodes) - xgb_child features (nodes ! nat current)) < nat (int (length nodes) - current)" by simp
    from less.hyps [OF this] True show ?thesis by (subst xgb_walk.simps) (simp add: Let_def)
  next
    case False
    then show ?thesis by (subst xgb_walk.simps) (auto simp: Let_def)
  qed
qed

section \<open>Sequences of groups\<close>

text \<open>With groups, the whole graph is emitted once for every group: the groups only enter the selection of the level.\<close>

lemma sequence_repeats_graph:
  assumes "dq_groups g \<noteq> []" "run_svf g = Some r"
  shows "sequence rnd [] False g = Some (concat (replicate (length (dq_groups g)) r))"
proof -
  have "sequence_groups (\<lambda>nodes. mlh_select rnd [] (get_op_stats rnd nodes)) False g grps = Some (concat (replicate (length grps) r))" for grps
    by (induction grps) (simp_all add: mlh_select_def run_level_def assms(2))
  then show ?thesis using assms(1) by (simp add: sequence_def Let_def)
qed

end
