(* ===== verification/Spec2Isabelle.thy ===== *)
theory Spec2Isabelle
  imports Prelude LifetimeAlloc GraphIr DdrOffsets BlockHash OverlapAlloc CpModel CpSearch CpSolve
    OpenAddr OpDescTable GraphDeps DmaPlan CpAdapters VtcmPlan Serializer DpGroups SuperTile
    Multicast TileRules Sfcd SfPools IdTable SuperChunks StepPlan Scheduler Sequencer
begin

text \<open>
  A verification of the memory planning and serialization core of the graph compiler \<open>hnnx\<close>
  (\<open>src/compiler\<close>), which compiles a neural network for a processor with a small scratchpad (VTCM)
  beside its DDR memory.

  \<^bold>\<open>The program.\<close> \<open>GraphPrepare\<close> owns a graph of operators (\<open>OpDef\<close>) and an execution order. It builds a
  dependency graph from them (\<open>build_graph_deps\<close>), which gives every tensor a life, an interval of
  positions in the order. The scratchpad planner (\<open>vtcm_lifetime_alloc\<close>) turns the tensors into requests
  and gives them to one of two allocators: the lifetime allocator of \<open>FancyAllocator\<close>, or the CP
  oracle, a branch and bound over schedules that may spill, fill and recompute tensors. The plans of
  the oracle become DMA operations (\<open>post_spill_fill_design_pass\<close>). A second pass
  (\<open>vtcm_overlap_alloc\<close>) assigns blocks per operator through a hash table of blocks. A static planner
  (\<open>compute_ddr_offsets\<close>) places tensors in the scratchpad, in DDR or in a spill area. The result is
  serialized as a stream of tagged records.

  \<^bold>\<open>The theories\<close>, in the order of their imports:

  \<^item> \<open>Prelude\<close>: identifiers and byte quantities, ranges and lives, rounding, list lemmas.
  \<^item> \<open>LifetimeAlloc\<close>: \<open>allocate_with_lifetime\<close> and \<open>validate_no_overlap\<close> of
    \<open>vtcm/fancy_allocator.cpp\<close>. The layout passes the closing assertion when sizes are aligned, nothing
    is spilled when all fits, and unaligned sizes can abort. The locale \<open>lifetime_pool\<close> is the contract
    that the planners use.
  \<^item> \<open>GraphIr\<close>: the operator records of \<open>ir/types.hpp\<close>.
  \<^item> \<open>DdrOffsets\<close>: \<open>vtcm/ddr_offsets.cpp\<close>. Placements of the three pools are disjoint and within
    capacity, and the emitted table shows the lives that were used.
  \<^item> \<open>BlockHash\<close>, \<open>OverlapAlloc\<close>: the block index, a refinement of a finite map (locale \<open>keyed_table\<close>),
    and the per-operator block allocation on top of it, with its layout invariant and the cases in
    which it goes wrong.
  \<^item> \<open>CpModel\<close>, \<open>CpSearch\<close>, \<open>CpSolve\<close>, \<open>CpAdapters\<close>: \<open>vtcm/cp_solver.cpp\<close>. \<open>CpModel\<close> has the problem, the
    preprocessing, the checker \<open>verify\<close> and the declarative specification \<open>cp_valid\<close> that an accepted
    solution satisfies. \<open>CpSearch\<close> has the search with its undo, \<open>CpSolve\<close> the extraction of schedules,
    the placement, the greedy fallback and the entry point: every feasible answer is valid, offsets
    are disjoint, the search ends and restores its state. \<open>CpAdapters\<close> has the options, the
    construction of problems and the two result channels.
  \<^item> \<open>OpenAddr\<close>, \<open>OpDescTable\<close>, \<open>GraphDeps\<close>: \<open>ir/graph_deps.cpp\<close>. The locale \<open>open_table\<close> is open addressing
    with an odd step, interpreted on the table of operator descriptors; \<open>GraphDeps\<close> has the whole
    construction: what lookups return, the run list, the lives, the distances.
  \<^item> \<open>DmaPlan\<close>: \<open>dma/spill_fill.cpp\<close> and \<open>dma/op_emitter.cpp\<close>. The locale \<open>token_log\<close> is the contract of the
    token planner; the emitter is a step relation with an invariant on its reachable states.
  \<^item> \<open>VtcmPlan\<close>: the composition in \<open>ir/graph_prepare.cpp\<close>. From operators to offsets, two tensors live at
    the same step never overlap; the plans of the oracle are replayed as mirrored pairs.
  \<^item> \<open>Serializer\<close>: \<open>serialize/serializer.cpp\<close> and \<open>serialize/bin_format.cpp\<close>. The measuring pass gives the size
    of the writing pass, reads deliver the bytes of the data or report an underflow, and tagged records
    of whole words are read back.
  \<^item> \<open>DpGroups\<close>, \<open>SuperTile\<close>: \<open>vtcm/dp_group_graph.cpp\<close> and \<open>vtcm/supertile.cpp\<close>. The grouping of operators
    loses and duplicates none of them, with the case in which a group is merged into itself; the dynamic
    program cuts a group into supertiles of least total cost, and the recursive construction covers the
    operators it is given.
  \<^item> \<open>TileRules\<close>: \<open>tiling/tiling_rule.cpp\<close> and \<open>tiling/conv_tiling.cpp\<close>. Tiles of convolutions and matrix products
    partition the output, input slices hold what a tile reads, and the budget is met as far as the
    alignment allows.
  \<^item> \<open>Multicast\<close>: \<open>mcast/mcast_optimizer.cpp\<close>. The merged sends are a partition of the original ones that keeps
    senders, channels, receivers and bytes.

  \<^item> \<open>Sfcd\<close>, \<open>SfPools\<close>: \<open>vtcm/spillfill_g4.cpp\<close>. The words of the spill/fill control data read back as the records
    they were written from, construction fails only in the check before it, and merging of copies keeps
    the bytes where they were; the locale \<open>wait_form\<close> is the contract of the two forms of wait records. The
    second theory has the pools behind the control data.
  \<^item> \<open>IdTable\<close>, \<open>SuperChunks\<close>: \<open>vtcm/create_supertiles_m36.cpp\<close>. The indirection table of operator ids with its lookups
    and chains, and the grouping of operators by resolved id and tag: which operators share a supertile
    and how a supertile is cut into chunks.
  \<^item> \<open>StepPlan\<close>, \<open>Scheduler\<close>: \<open>schedule/scheduler.cpp\<close> and \<open>schedule/e2e_bridge.cpp\<close>. The expansion of small models into
    records, against the one recorded plan and its count of DMA operations; the execution order is a
    permutation of the operators whatever the heuristic returns, and the plans of the CP oracle become
    spill and fill records at their anchors.
  \<^item> \<open>Sequencer\<close>: \<open>scheduler/dp_sequencer.cpp\<close> and \<open>scheduler/mlh_model.cpp\<close>. The selection of a level and the order of a
    graph by Kahn's algorithm: complete and behind the predecessors for acyclic graphs, without the
    operators behind a cycle otherwise.

  \<^bold>\<open>Conventions.\<close> Byte counts and positions are natural numbers; where the code narrows, hashes, masks
  or wraps, words of the width of the code. An abort or an access out of bounds is \<open>None\<close> (or an
  error value in the reader), and the theorems say when it does not occur. A \<open>std::unordered_map\<close> is an
  association list or a map, and only where its iteration order is immaterial. Clock, environment and
  floating point slack are arguments.

  \<^bold>\<open>Fuel and depths.\<close> The search \<open>dfs\<close> has fuel \<open>2 n + 1\<close> for \<open>n\<close> nodes: each level places one task and a
  node is computed at most twice. Insertions that recurse through growth of a hash table have depth
  one, since a grown table has a free slot. The relaxation of distances has the iteration limit of the
  code. The probe loop of the block index and the counters of the tiling loops are partial functions
  and are shown to return, as is the queue of the sequencer; the chain of tags of an operator id is one that returns for descending links
  and not for cyclic ones.

  \<^bold>\<open>Not modelled.\<close> Import and rewriting of graphs, the operator registry, quantization and weights (large
  rule tables and floating point); the \<open>ST-Cut\<close> heuristic and the cost models (floating point); the
  context binary writer and the tables of the deserializer above the byte stream (an external layout);
  the tilers with fixed shapes of \<open>tiling/tiler.cpp\<close>; the C interface; the device kernels and runtime under
  \<open>src/kernels\<close>; test models. Log output and statistics in floating point are left out everywhere.
\<close>

end
